(* ===== verification/Prelude.thy ===== *)
theory Prelude
  imports Main "HOL-Library.Word" "HOL-Library.Signed_Division"
begin

unbundle bit_operations_syntax

text \<open>
  Shared vocabulary of the development.

  \<^item> The machine integers of the C++ sources: \<open>unsigned\<close> and \<open>uint32_t\<close> are \<open>u32\<close>,
    \<open>uint64_t\<close> is \<open>u64\<close>, \<open>unsigned char\<close> is \<open>u8\<close>; their arithmetic wraps as it does in
    C++. A C++ \<open>int\<close> is \<open>int\<close> (its overflow is undefined behaviour in C++, and no
    operation modelled here gets near it). Sizes and positions of containers are \<open>nat\<close>.
  \<^item> Run-time failures: the simulator ends with \<open>exit(0)\<close> after an \<open>ERROR(...)\<close> message or
    dies in \<open>assert\<close>; an operation that can do so returns a value of \<open>'a result\<close>.
  \<^item> The \<open>std::vector\<close> operations the sources use (\<open>erase\<close> of one position or of a
    range, \<open>insert\<close> at a position) on lists, with the lemmas the components share.
\<close>

type_synonym u8 = "8 word"
type_synonym u32 = "32 word"
type_synonym u64 = "64 word"

section \<open>Failures\<close>

text \<open>
  \<open>Exit m\<close>: an \<open>ERROR\<close> message followed by \<open>exit(0)\<close>. \<open>Assertion m\<close>: a failed
  \<open>assert\<close>. \<open>Undefined m\<close>: the C++ program has undefined behaviour (an index out of
  range, a division by zero, a null pointer dereferenced). \<open>Diverges\<close>: a loop that does not end.
\<close>

datatype failure = Exit string | Assertion string | Undefined string | Diverges

type_synonym 'a result = "failure + 'a"

definition bindE :: "'a result \<Rightarrow> ('a \<Rightarrow> 'b result) \<Rightarrow> 'b result" where
  "bindE r f = (case r of Inl e \<Rightarrow> Inl e | Inr x \<Rightarrow> f x)"

definition checkE :: "bool \<Rightarrow> failure \<Rightarrow> 'a result \<Rightarrow> 'a result" where
  "checkE b e r = (if b then r else Inl e)"

fun isOK :: "'a result \<Rightarrow> bool" where
  "isOK (Inl e) = False"
| "isOK (Inr x) = True"

fun foldE :: "('a \<Rightarrow> 's \<Rightarrow> 's result) \<Rightarrow> 'a list \<Rightarrow> 's \<Rightarrow> 's result" where
  "foldE f [] s = Inr s"
| "foldE f (x # xs) s = bindE (f x s) (foldE f xs)"

named_theorems err_simps \<open>evaluation of the failure monad\<close>
named_theorems vec_simps \<open>lengths and members after a vector operation\<close>

lemma bindE_Inl [simp, err_simps]: "bindE (Inl e) f = Inl e"
  by (simp add: bindE_def)

lemma bindE_Inr [simp, err_simps]: "bindE (Inr x) f = f x"
  by (simp add: bindE_def)

lemma bindE_eq_Inr [err_simps]: "bindE r f = Inr y \<longleftrightarrow> (\<exists>x. r = Inr x \<and> f x = Inr y)"
  by (cases r) auto

lemma bindE_assoc [err_simps]: "bindE (bindE r f) g = bindE r (\<lambda>x. bindE (f x) g)"
  by (cases r) auto

lemma checkE_True [simp, err_simps]: "checkE True e r = r"
  by (simp add: checkE_def)

lemma checkE_False [simp, err_simps]: "checkE False e r = Inl e"
  by (simp add: checkE_def)

lemma checkE_eq_Inr [err_simps]: "checkE b e r = Inr y \<longleftrightarrow> b \<and> r = Inr y"
  by (simp add: checkE_def)

lemma isOK_iff [err_simps]: "isOK r \<longleftrightarrow> (\<exists>x. r = Inr x)"
  by (cases r) auto

text \<open>An invariant of the body is an invariant of the loop.\<close>

lemma foldE_inv:
  assumes "\<And>x s t. x \<in> set xs \<Longrightarrow> P s \<Longrightarrow> f x s = Inr t \<Longrightarrow> P t"
    and "P s" and "foldE f xs s = Inr t"
  shows "P t"
  using assms
proof (induction xs arbitrary: s)
  case Nil
  then show ?case by simp
next
  case (Cons x xs)
  from Cons.prems(3) obtain u where u: "f x s = Inr u" "foldE f xs u = Inr t"
    by (auto simp: bindE_eq_Inr)
  with Cons.prems(1,2) have "P u" by auto
  then show ?case using Cons.IH [OF _ _ u(2)] Cons.prems(1) by (meson list.set_intros(2))
qed

text \<open>
  A loop of the source whose index moves both ways. \<open>while_opt\<close> is \<open>None\<close> when it does not end;
  \<open>whileE\<close> makes this a failure like any other.
\<close>

partial_function (option) while_opt :: "('s \<Rightarrow> bool) \<Rightarrow> ('s \<Rightarrow> 's result) \<Rightarrow> 's \<Rightarrow> 's result option" where
  "while_opt b c s = (if b s then (case c s of Inl e \<Rightarrow> Some (Inl e) | Inr t \<Rightarrow> while_opt b c t) else Some (Inr s))"

definition whileE :: "('s \<Rightarrow> bool) \<Rightarrow> ('s \<Rightarrow> 's result) \<Rightarrow> 's \<Rightarrow> 's result" where
  "whileE b c s = (case while_opt b c s of None \<Rightarrow> Inl Diverges | Some r \<Rightarrow> r)"

declare while_opt.simps [code]

lemma whileE_unfold: "whileE b c s = (if b s then bindE (c s) (whileE b c) else Inr s)"
  by (subst whileE_def, subst while_opt.simps) (simp add: whileE_def bindE_def split: sum.splits)

text \<open>What the body keeps, the loop keeps; and it ends if the body decreases a measure.\<close>

lemma while_opt_inv:
  assumes "while_opt b c s = Some r" and "P s" and "\<And>s t. b s \<Longrightarrow> P s \<Longrightarrow> c s = Inr t \<Longrightarrow> P t"
  shows "case r of Inl e \<Rightarrow> True | Inr t \<Rightarrow> P t \<and> \<not> b t"
proof -
  let ?Q = "\<lambda>b c s r. P s \<longrightarrow> (\<forall>s t. b s \<longrightarrow> P s \<longrightarrow> c s = Inr t \<longrightarrow> P t) \<longrightarrow> (case r of Inl e \<Rightarrow> True | Inr t \<Rightarrow> P t \<and> \<not> b t)"
  have "?Q b c s r"
  proof (rule while_opt.raw_induct [where P = ?Q, OF _ assms(1)])
    fix loop b c s r
    assume ih: "\<And>b c s r. loop b c s = Some r \<Longrightarrow> ?Q b c s r"
      and e: "(if b s then case c s of Inl e \<Rightarrow> Some (Inl e) | Inr t \<Rightarrow> loop b c t else Some (Inr s)) = Some r"
    show "?Q b c s r" using e ih by (cases "b s"; cases "c s") fastforce+
  qed
  then show ?thesis using assms(2,3) by blast
qed

lemma whileE_inv:
  assumes "whileE b c s = Inr t" and "P s" and "\<And>s t. b s \<Longrightarrow> P s \<Longrightarrow> c s = Inr t \<Longrightarrow> P t"
  shows "P t \<and> \<not> b t"
  using while_opt_inv [of b c s "Inr t" P] assms by (auto simp: whileE_def split: option.splits)

lemma whileE_ends:
  assumes "P s" and "\<And>s t. b s \<Longrightarrow> P s \<Longrightarrow> c s = Inr t \<Longrightarrow> P t \<and> (t, s) \<in> R" and "wf R"
    and "\<And>s. P s \<Longrightarrow> c s \<noteq> Inl Diverges"
  shows "whileE b c s \<noteq> Inl Diverges"
  using assms(3,1)
proof (induction s rule: wf_induct_rule)
  case (less s)
  show ?case
  proof (cases "b s")
    case True
    show ?thesis
    proof (cases "c s")
      case (Inl e)
      then show ?thesis using True less.prems assms(4) [of s] by (subst whileE_unfold) simp
    next
      case (Inr t)
      then show ?thesis using True less assms(2) [of s t] by (subst whileE_unfold) simp
    qed
  next
    case False
    then show ?thesis by (subst whileE_unfold) simp
  qed
qed

lemma foldE_append: "foldE f (xs @ ys) s = bindE (foldE f xs s) (foldE f ys)"
proof (induction xs arbitrary: s)
  case (Cons x xs)
  show ?case by (cases "f x s") (simp_all add: Cons.IH)
qed simp

text \<open>A predicate on what an operation returns, when it returns.\<close>

definition okE :: "'a result \<Rightarrow> ('a \<Rightarrow> bool) \<Rightarrow> bool" where
  "okE r P = (case r of Inl e \<Rightarrow> True | Inr y \<Rightarrow> P y)"

named_theorems wp \<open>a predicate of a result, by its structure\<close>

lemma okE_wp [wp]:
  "okE (Inl e) P = True" "okE (Inr y) P = P y" "okE (bindE q f) P = okE q (\<lambda>z. okE (f z) P)" "okE (checkE b e r) P = (b \<longrightarrow> okE r P)"
  by (auto simp: okE_def bindE_def checkE_def split: sum.splits)

lemma okE_cases [wp]:
  "okE (case q of (a, b) \<Rightarrow> f a b) P = (case q of (a, b) \<Rightarrow> okE (f a b) P)" "okE (if c then r else r') P = (if c then okE r P else okE r' P)"
  "okE (case xs of [] \<Rightarrow> r | y # ys \<Rightarrow> g y ys) P = (case xs of [] \<Rightarrow> okE r P | y # ys \<Rightarrow> okE (g y ys) P)"
  "okE (case m of None \<Rightarrow> r | Some v \<Rightarrow> h v) P = (case m of None \<Rightarrow> okE r P | Some v \<Rightarrow> okE (h v) P)"
  by (simp_all split: prod.split list.split option.split)

lemma okE_True [wp]: "okE r (\<lambda>y. True)"
  by (simp add: okE_def split: sum.split)

lemma okE_iff: "okE r P \<longleftrightarrow> (\<forall>y. r = Inr y \<longrightarrow> P y)"
  by (cases r) (auto simp: okE_def)

lemma okED: "okE r P \<Longrightarrow> r = Inr y \<Longrightarrow> P y"
  by (simp add: okE_def)

lemma fold_inv:
  assumes "\<And>x s. x \<in> set xs \<Longrightarrow> P s \<Longrightarrow> P (f x s)" and "P s"
  shows "P (fold f xs s)"
  using assms by (induction xs arbitrary: s) auto

section \<open>Vector operations\<close>

definition erase_at :: "nat \<Rightarrow> 'a list \<Rightarrow> 'a list" where
  "erase_at i xs = take i xs @ drop (Suc i) xs"

definition erase_range :: "nat \<Rightarrow> nat \<Rightarrow> 'a list \<Rightarrow> 'a list" where
  "erase_range i j xs = take i xs @ drop j xs"

definition insert_at :: "nat \<Rightarrow> 'a \<Rightarrow> 'a list \<Rightarrow> 'a list" where
  "insert_at i x xs = take i xs @ x # drop i xs"

lemma length_erase_at [simp, vec_simps]:
  "i < length xs \<Longrightarrow> length (erase_at i xs) = length xs - 1"
  by (simp add: erase_at_def)

lemma length_erase_at_le [vec_simps]: "length (erase_at i xs) \<le> length xs"
  by (simp add: erase_at_def)

lemma length_erase_range_le [vec_simps]: "i \<le> j \<Longrightarrow> length (erase_range i j xs) \<le> length xs"
  by (simp add: erase_range_def)

lemma length_erase_range [vec_simps]:
  "i \<le> j \<Longrightarrow> j \<le> length xs \<Longrightarrow> length (erase_range i j xs) = length xs - (j - i)"
  by (simp add: erase_range_def)

lemma set_erase_at [vec_simps]: "set (erase_at i xs) \<subseteq> set xs"
  by (auto simp: erase_at_def dest: in_set_takeD in_set_dropD)

lemma set_erase_range [vec_simps]: "set (erase_range i j xs) \<subseteq> set xs"
  by (auto simp: erase_range_def dest: in_set_takeD in_set_dropD)

lemma erase_at_0 [simp]: "erase_at 0 (x # xs) = xs"
  by (simp add: erase_at_def)

lemma erase_at_split: "i < length xs \<Longrightarrow> xs = take i (erase_at i xs) @ xs ! i # drop i (erase_at i xs)"
  by (simp add: erase_at_def id_take_nth_drop)

lemma length_insert_at [simp, vec_simps]: "length (insert_at i x xs) = Suc (length xs)"
  by (simp add: insert_at_def)

lemma set_insert_at [simp, vec_simps]: "set (insert_at i x xs) = insert x (set xs)"
proof -
  have "set (take i xs) \<union> set (drop i xs) = set xs"
    by (metis append_take_drop_id set_append)
  then show ?thesis by (auto simp: insert_at_def)
qed

lemma insert_erase_at [simp]: "i \<le> length xs \<Longrightarrow> erase_at i (insert_at i x xs) = xs"
  by (simp add: erase_at_def insert_at_def min_def)

text \<open>The first position at which a search loop stops.\<close>

definition first_index :: "('a \<Rightarrow> bool) \<Rightarrow> 'a list \<Rightarrow> nat option" where
  "first_index P xs = (if \<exists>x \<in> set xs. P x then Some (length (takeWhile (\<lambda>x. \<not> P x) xs)) else None)"

lemma first_index_SomeD:
  assumes "first_index P xs = Some i"
  shows "i < length xs" and "P (xs ! i)" and "j < i \<Longrightarrow> \<not> P (xs ! j)"
proof -
  from assms have ex: "\<exists>x \<in> set xs. P x" and i: "i = length (takeWhile (\<lambda>x. \<not> P x) xs)"
    by (auto simp: first_index_def split: if_splits)
  have "takeWhile (\<lambda>x. \<not> P x) xs \<noteq> xs"
    using ex by (simp add: takeWhile_eq_all_conv)
  then show lt: "i < length xs"
    unfolding i by (metis length_takeWhile_le nat_less_le takeWhile_eq_take take_all_iff linorder_not_less)
  show "P (xs ! i)" using nth_length_takeWhile [of "\<lambda>x. \<not> P x" xs] lt i by simp
  show "j < i \<Longrightarrow> \<not> P (xs ! j)"
    using i by (metis nth_mem set_takeWhileD takeWhile_nth)
qed

lemma first_index_NoneD: "first_index P xs = None \<Longrightarrow> x \<in> set xs \<Longrightarrow> \<not> P x"
  by (auto simp: first_index_def split: if_splits)

lemma first_index_code [code]:
  "first_index P xs = (case xs of [] \<Rightarrow> None
     | x # ys \<Rightarrow> if P x then Some 0 else map_option Suc (first_index P ys))"
  by (cases xs) (auto simp: first_index_def)

lemma first_index_simps [simp]:
  "first_index P [] = None"
  "first_index P (x # ys) = (if P x then Some 0 else map_option Suc (first_index P ys))"
  by (auto simp: first_index_def)

section \<open>Machine words\<close>

lemma unat_u32_lt [simp]: "unat (w :: u32) < 4294967296"
  using unsigned_less [of w] by simp

lemma unat_of_nat_u32: "n < 2 ^ 32 \<Longrightarrow> unat (of_nat n :: u32) = n"
  by (simp add: unat_of_nat)

lemma unat_two_power_u32: "k < 32 \<Longrightarrow> unat ((2 :: u32) ^ k) = 2 ^ k"
  using unat_of_nat_u32 [of "2 ^ k"] power_strict_increasing [of k 32 "2 :: nat"] by simp

lemma unat_drop_bit_1: "unat (drop_bit 1 (w :: 'a::len word)) = unat w div 2"
  by (subst unat_drop_bit_eq) (simp add: drop_bit_eq_div)

lemma unat_and_mask_le: "unat ((a :: 'a::len word) AND b) \<le> unat b"
  by (metis word_and_le1 word_le_nat_alt)

lemma bit_u32D: "bit (w :: u32) n \<Longrightarrow> n < 32"
  using bit_imp_le_length [of w n] by simp

lemma bit_u8D: "bit (w :: u8) n \<Longrightarrow> n < 8"
  using bit_imp_le_length [of w n] by simp

lemma bit_u64D: "bit (w :: u64) n \<Longrightarrow> n < 64"
  using bit_imp_le_length [of w n] by simp

lemmas bit_boundsD = bit_u8D bit_u32D bit_u64D

lemma drop_bit_zeroD: "drop_bit k (w :: 'a::len word) = 0 \<Longrightarrow> \<not> bit w (k + n)"
proof -
  assume z: "drop_bit k w = 0"
  have "bit w (k + n) \<longleftrightarrow> bit (drop_bit k w) n" by (simp add: bit_drop_bit_eq)
  then show ?thesis by (simp add: z)
qed

lemma xor_right_cancel: "(a :: 'a::len word) XOR c = b XOR c \<longleftrightarrow> a = b"
  by (metis xor.assoc xor_self_eq xor.right_neutral)

lemma xor_left_cancel: "(c :: 'a::len word) XOR a = c XOR b \<longleftrightarrow> a = b"
  by (metis xor.assoc xor_self_eq xor.left_neutral)

text \<open>A countdown that stops at zero, as most of the counters of the sources do.\<close>

definition dec_sat :: "int \<Rightarrow> int" where
  "dec_sat n = (if n > 0 then n - 1 else 0)"

lemma dec_sat_nonneg [simp]: "0 \<le> dec_sat n"
  by (simp add: dec_sat_def)

lemma dec_sat_le: "0 \<le> n \<Longrightarrow> dec_sat n \<le> n"
  by (simp add: dec_sat_def)

lemma dec_sat_iter: "0 \<le> n \<Longrightarrow> (dec_sat ^^ k) n = max 0 (n - int k)"
  by (induction k) (auto simp: dec_sat_def)

end
