(* ===== verification/Config.thy ===== *)
theory Config
  imports Prelude
begin

unbundle bit_operations_syntax

text \<open>
  The configuration of the memory cube: \<open>CasHMC/sources/SimConfig.h\<close> and
  \<open>DRAMConfig.h\<close>. The sources keep it in file-level variables; here it is a record that
  every operation takes, so that a theorem about an operation covers every setting, and
  \<open>default_config\<close> has the values of the two headers. The DRAM timings are in the header
  ceilings of quotients by the clock period \<open>tCK = 0.8\<close>, computed in double precision when
  the program starts; the numbers below are what these quotients round up to (\<open>CWL\<close> is
  3.2 truncated by its conversion to \<open>unsigned\<close>).
\<close>

datatype mapping_scheme = MAX_BLOCK_32B | MAX_BLOCK_64B | MAX_BLOCK_128B | MAX_BLOCK_256B

fun block_bytes :: "mapping_scheme \<Rightarrow> u32" where
  "block_bytes MAX_BLOCK_32B = 32"
| "block_bytes MAX_BLOCK_64B = 64"
| "block_bytes MAX_BLOCK_128B = 128"
| "block_bytes MAX_BLOCK_256B = 256"

datatype topology = DEFAULT | DUAL_HMC | DFLY | MESH

datatype link_state = NORMAL | START_RETRY | LINK_RETRY

record dram_timing =
  CWL :: u32
  CL :: u32
  AL :: u32
  tRAS :: u32
  tRCD :: u32
  tRRD :: u32
  tRC :: u32
  tRP :: u32
  tCCD :: u32
  tRTP :: u32
  tWTR :: u32
  tWR :: u32
  tRTRS :: u32
  tRFC :: u32
  tFAW :: u32
  tCKE :: u32
  tXP :: u32
  tCMD :: u32
  REFRESH_CYCLES :: u32

definition default_timing :: dram_timing where
  "default_timing = \<lparr>CWL = 3, CL = 13, AL = 0, tRAS = 27, tRCD = 13, tRRD = 4, tRC = 40,
     tRP = 10, tCCD = 4, tRTP = 7, tWTR = 7, tWR = 10, tRTRS = 1, tRFC = 74, tFAW = 24,
     tCKE = 5, tXP = 4, tCMD = 1, REFRESH_CYCLES = 9750\<rparr>"

record dram_config =
  NUM_BANKS :: nat
  NUM_ROWS :: u32
  NUM_COLS :: u32
  ADDRESS_MAPPING :: mapping_scheme
  QUE_PER_BANK :: bool
  OPEN_PAGE :: bool
  MAX_ROW_ACCESSES :: u32
  USE_LOW_POWER :: bool
  MAX_CMD_QUE :: nat
  MAX_VLT_BUF :: nat
  timing :: dram_timing

definition default_config :: dram_config where
  "default_config = \<lparr>NUM_BANKS = 8, NUM_ROWS = 16384, NUM_COLS = 1024,
     ADDRESS_MAPPING = MAX_BLOCK_64B, QUE_PER_BANK = True, OPEN_PAGE = False,
     MAX_ROW_ACCESSES = 8, USE_LOW_POWER = True, MAX_CMD_QUE = 16, MAX_VLT_BUF = 32,
     timing = default_timing\<rparr>"

definition NUM_VAULTS :: nat where "NUM_VAULTS = 32"

definition NUM_LINKS :: nat where "NUM_LINKS = 4"

text \<open>The settings of \<open>SimConfig.h\<close> that the packets and the crossbar switch read.\<close>

definition MAX_OPERAND_BUF :: nat where "MAX_OPERAND_BUF = 128"

definition MAX_CROSS_BUF :: nat where "MAX_CROSS_BUF = 64"

definition PCU_DELAY :: int where "PCU_DELAY = 4"

section \<open>Derived delays\<close>

definition RL :: "dram_config \<Rightarrow> u32" where
  "RL c = AL (timing c) + CL (timing c)"

definition WL :: "dram_config \<Rightarrow> u32" where
  "WL c = AL (timing c) + CWL (timing c)"

definition BL :: "dram_config \<Rightarrow> u32" where
  "BL c = block_bytes (ADDRESS_MAPPING c) div 32"

definition READ_TO_PRE_DELAY :: "dram_config \<Rightarrow> u32" where
  "READ_TO_PRE_DELAY c = (let t = timing c in AL t + BL c div 2 + max (tRTP t) (tCCD t) - tCCD t)"

definition WRITE_TO_PRE_DELAY :: "dram_config \<Rightarrow> u32" where
  "WRITE_TO_PRE_DELAY c = WL c + BL c div 2 + tWR (timing c)"

definition READ_TO_WRITE_DELAY :: "dram_config \<Rightarrow> u32" where
  "READ_TO_WRITE_DELAY c = RL c + tCCD (timing c) + 2 - WL c"

definition READ_AUTOPRE_DELAY :: "dram_config \<Rightarrow> u32" where
  "READ_AUTOPRE_DELAY c = (let t = timing c in AL t + tRTP t + tRP t)"

definition WRITE_AUTOPRE_DELAY :: "dram_config \<Rightarrow> u32" where
  "WRITE_AUTOPRE_DELAY c = WL c + BL c div 2 + tWR (timing c) + tRP (timing c)"

definition WRITE_TO_READ_DELAY_B :: "dram_config \<Rightarrow> u32" where
  "WRITE_TO_READ_DELAY_B c = WL c + BL c div 2 + tWTR (timing c)"

section \<open>The base-two logarithm\<close>

function log2_loop :: "u32 \<Rightarrow> u32 \<Rightarrow> u32" where
  "log2_loop value logbase2 =
     (if value > 0 then log2_loop (drop_bit 1 value) (logbase2 + 1) else logbase2)"
  by pat_completeness auto
termination
  by (relation "measure (\<lambda>(value, l). unat value)")
    (auto simp: unat_drop_bit_1 [simplified] unat_gt_0 simp flip: word_neq_0_conv)

definition log2u :: "u32 \<Rightarrow> u32" where
  "log2u value = (let orig = value; logbase2 = log2_loop (drop_bit 1 value) 0
     in if push_bit (unat logbase2) 1 < orig then logbase2 + 1 else logbase2)"

declare log2_loop.simps [simp del]

fun floor_log2 :: "nat \<Rightarrow> nat" where
  "floor_log2 n = (if n < 2 then 0 else Suc (floor_log2 (n div 2)))"

declare floor_log2.simps [simp del]

lemma floor_log2_bounds: "0 < n \<Longrightarrow> 2 ^ floor_log2 n \<le> n \<and> n < 2 * 2 ^ floor_log2 n"
proof (induction n rule: floor_log2.induct)
  case (1 n)
  show ?case
  proof (cases "n < 2")
    case True
    with "1.prems" show ?thesis by (simp add: floor_log2.simps [of n])
  next
    case False
    with "1.IH" have "2 ^ floor_log2 (n div 2) \<le> n div 2 \<and> n div 2 < 2 * 2 ^ floor_log2 (n div 2)"
      by simp
    with False show ?thesis by (auto simp: floor_log2.simps [of n])
  qed
qed

lemma log2_loop_floor: "0 < unat v \<Longrightarrow> log2_loop (drop_bit 1 v) l = l + of_nat (floor_log2 (unat v))"
proof (induction "unat v" arbitrary: v l rule: floor_log2.induct)
  case 1
  have half: "unat (drop_bit 1 v) = unat v div 2"
    by (rule unat_drop_bit_1)
  show ?case
  proof (cases "unat v < 2")
    case True
    with half have "drop_bit 1 v = 0" by (metis div_less unat_eq_zero)
    with True show ?thesis by (simp add: log2_loop.simps floor_log2.simps)
  next
    case False
    then have pos: "0 < unat (drop_bit 1 v)" using half by simp
    have "log2_loop (drop_bit 1 v) l = log2_loop (drop_bit 1 (drop_bit 1 v)) (l + 1)"
      using pos by (subst log2_loop.simps) (simp add: word_greater_zero_iff unat_gt_0)
    also have "\<dots> = l + 1 + of_nat (floor_log2 (unat v div 2))"
      using "1.hyps" [of "drop_bit 1 v" "l + 1"] False pos half by simp
    finally show ?thesis using False by (simp add: floor_log2.simps [of "unat v"])
  qed
qed

lemma floor_log2_u32: "0 < unat (v :: u32) \<Longrightarrow> floor_log2 (unat v) < 32"
proof -
  assume "0 < unat v"
  then have "2 ^ floor_log2 (unat v) \<le> unat v" using floor_log2_bounds by blast
  also have "\<dots> < 2 ^ 32" by simp
  finally show ?thesis by (rule power_less_imp_less_exp [rotated]) simp
qed

lemma log2u_eq:
  assumes "0 < unat v"
  shows "unat (log2u v) = floor_log2 (unat v) + (if 2 ^ floor_log2 (unat v) < unat v then 1 else 0)"
proof -
  define k where "k = floor_log2 (unat v)"
  have k: "k < 32" using floor_log2_u32 [OF assms] by (simp add: k_def)
  have l: "log2_loop (drop_bit 1 v) 0 = of_nat k"
    using log2_loop_floor [OF assms, of 0] by (simp add: k_def)
  have uk: "unat (of_nat k :: u32) = k" using k by (intro unat_of_nat_u32) simp
  have p: "unat (push_bit k (1 :: u32)) = 2 ^ k"
    using unat_two_power_u32 [OF k] by (simp add: push_bit_eq_mult)
  have "unat (of_nat k + 1 :: u32) = k + 1"
    using unat_of_nat_u32 [of "k + 1"] k by (simp add: add.commute)
  then show ?thesis
    using p by (auto simp: log2u_def Let_def l [simplified] uk word_less_nat_alt simp flip: k_def)
qed

text \<open>
  The logarithm rounds up: the result is the least exponent whose power of two is at least
  the argument. For the block sizes, vault counts and bank counts, all powers of two, it is
  exact, which is what the address mapping relies on.
\<close>

lemma log2u_power: "k < 32 \<Longrightarrow> unat (log2u (of_nat (2 ^ k))) = k"
proof -
  assume k: "k < 32"
  then have u: "unat ((2 :: u32) ^ k) = 2 ^ k" by (rule unat_two_power_u32)
  define m where "m = floor_log2 (2 ^ k)"
  have b: "(2::nat) ^ m \<le> 2 ^ k" "(2::nat) ^ k < 2 ^ Suc m"
    using floor_log2_bounds [of "2 ^ k"] by (auto simp: m_def)
  have "m = k" using b by (metis le_antisym less_Suc_eq_le one_less_numeral_iff
    power_increasing_iff power_strict_increasing_iff semiring_norm(76))
  then show ?thesis using log2u_eq [of "2 ^ k"] u m_def by simp
qed

end
