(* ===== verification/Routing.thy ===== *)
theory Routing
  imports Config
begin

text \<open>
  Routing between cubes: \<open>CasHMC/sources/RoutingFunction.cpp\<close>. A routing function
  looks at the cube a packet is in and the cube it goes to and returns the link to take; the
  two round-robin schemes also advance the caller's \<open>link\<close> variable, passed by reference,
  so every scheme returns the new value of that variable beside the link.

  The second half gives the dragonfly scheme a specification over the base-four digits of
  the cube numbers, the form in which the wiring of the network (theory \<open>Topology\<close>) is stated.
\<close>

section \<open>The routing functions\<close>

definition defaultRF_findNextLink :: "int \<Rightarrow> int \<times> int" where
  "defaultRF_findNextLink link =
     (let link' = (if link + 1 \<ge> int NUM_LINKS then 0 else link + 1) in (link', link'))"

definition dualRF_findNextLink :: "int \<Rightarrow> u32 \<Rightarrow> u32 \<Rightarrow> int \<times> int" where
  "dualRF_findNextLink link nodeId dest =
     (if dest = nodeId then (link, 0)
      else let link' = (if link + 1 \<ge> int NUM_LINKS then 1 else link + 1) in (link', link'))"

text \<open>
  The loop of \<open>dFlyRF::findNextLink\<close>, one call per iteration, on the variables
  \<open>nodes\<close>, \<open>dest_node\<close>, \<open>my_node\<close>, \<open>dest_quad\<close>, \<open>my_quad\<close>. When fewer than four nodes are left the
  quotient is zero and the division traps. The value \<open>-1\<close> doubles as \<open>no link chosen yet\<close>, so a
  quotient of \<open>-1\<close> is replaced by \<open>my_quad\<close> after the loop.
\<close>

function dfly_loop :: "int \<Rightarrow> int \<Rightarrow> int \<Rightarrow> int \<Rightarrow> int \<Rightarrow> int result" where
  "dfly_loop nodes dest_node my_node dest_quad my_quad =
     (if nodes > 1 then
        (let dest_node' = dest_node - dest_quad * nodes;
             my_node' = my_node - my_quad * nodes;
             nodes' = nodes sdiv 4
         in if nodes' = 0 then Inl (Undefined ''division by zero'')
            else (let dest_quad' = dest_node' sdiv nodes'; my_quad' = my_node' sdiv nodes'
                  in if my_quad' = dest_quad'
                     then dfly_loop nodes' dest_node' my_node' dest_quad' my_quad'
                     else Inr (if dest_quad' = -1 then my_quad' else dest_quad')))
      else Inr my_quad)"
  by pat_completeness auto
termination
proof (relation "measure (\<lambda>(nodes, _). nat nodes)", goal_cases)
  case 1
  then show ?case by simp
next
  case (2 nodes dest_node my_node dest_quad my_quad x xa xb xc xd)
  then have "nodes sdiv 4 = nodes div 4" "nodes > 1"
    by (auto simp: signed_divide_int_def)
  with 2 show ?case by auto
qed

declare dfly_loop.simps [simp del]

definition dFlyRF_findNextLink :: "int \<Rightarrow> int \<Rightarrow> u32 \<Rightarrow> u32 \<Rightarrow> (int \<times> int) result" where
  "dFlyRF_findNextLink nodes link nodeId dest =
     bindE (dfly_loop nodes (sint dest) (sint nodeId) 0 0) (\<lambda>next_link. Inr (link, next_link))"

fun isqrt_from :: "nat \<Rightarrow> nat \<Rightarrow> nat" where
  "isqrt_from n 0 = 0"
| "isqrt_from n (Suc d) = (if Suc d * Suc d \<le> n then Suc d else isqrt_from n d)"

definition mesh_dimension :: "int \<Rightarrow> int" where
  "mesh_dimension nodes = int (isqrt_from (nat nodes) (nat nodes))"

definition meshRF_findXY :: "int \<Rightarrow> int \<Rightarrow> (int \<times> int) result" where
  "meshRF_findXY nodes nodeId =
     (let dimension = mesh_dimension nodes
      in if dimension = 0 then Inl (Undefined ''division by zero'')
         else Inr (nodeId smod dimension, nodeId sdiv dimension))"

definition LEFT_LINK :: int where "LEFT_LINK = 0"
definition TOP_LINK :: int where "TOP_LINK = 1"
definition RIGHT_LINK :: int where "RIGHT_LINK = 2"
definition BOT_LINK :: int where "BOT_LINK = 3"

lemmas mesh_link_defs = LEFT_LINK_def TOP_LINK_def RIGHT_LINK_def BOT_LINK_def

definition mesh_link :: "int \<Rightarrow> int \<Rightarrow> int \<Rightarrow> int \<Rightarrow> bool \<Rightarrow> int" where
  "mesh_link myX myY destX destY req =
     (if \<not> req then
        (if myX = destX then
           (if myY = destY then (if myX = 0 then LEFT_LINK else RIGHT_LINK)
            else (if myY > destY then TOP_LINK else BOT_LINK))
         else (if myX > destX then LEFT_LINK else RIGHT_LINK))
      else
        (if myY = destY then
           (if myX = destX then (if myX = 0 then LEFT_LINK else RIGHT_LINK)
            else (if myX > destX then LEFT_LINK else RIGHT_LINK))
         else (if myY > destY then TOP_LINK else BOT_LINK)))"

definition meshRF_findNextLink :: "int \<Rightarrow> u32 \<Rightarrow> u32 \<Rightarrow> bool \<Rightarrow> (int \<times> int) result" where
  "meshRF_findNextLink nodes nodeId dest req =
     bindE (meshRF_findXY nodes (sint nodeId)) (\<lambda>(myX, myY).
     bindE (meshRF_findXY nodes (sint dest)) (\<lambda>(destX, destY).
       (let link = mesh_link myX myY destX destY req in Inr (link, link))))"

text \<open>\<open>RoutingFunction::New\<close> selects the scheme for a topology.\<close>

definition findNextLink :: "topology \<Rightarrow> int \<Rightarrow> int \<Rightarrow> u32 \<Rightarrow> u32 \<Rightarrow> bool \<Rightarrow> (int \<times> int) result" where
  "findNextLink topo nodes link nodeId dest req =
     (case topo of
        DUAL_HMC \<Rightarrow> Inr (dualRF_findNextLink link nodeId dest)
      | MESH \<Rightarrow> meshRF_findNextLink nodes nodeId dest req
      | DFLY \<Rightarrow> dFlyRF_findNextLink nodes link nodeId dest
      | DEFAULT \<Rightarrow> Inr (defaultRF_findNextLink link))"

section \<open>Dragonfly routing over base-four digits\<close>

text \<open>
  With \<open>4 ^ k\<close> cubes, the link is the digit of the destination at the highest position at
  which the two cube numbers differ (the last digit when they are equal).
\<close>

fun dfly_route :: "nat \<Rightarrow> nat \<Rightarrow> nat \<Rightarrow> nat" where
  "dfly_route 0 x y = 0"
| "dfly_route (Suc k) x y =
     (if x div 4 = y div 4 then y mod 4 else dfly_route k (x div 4) (y div 4))"

lemma dfly_route_lt: "dfly_route k x y < 4"
  by (induction k x y rule: dfly_route.induct) auto

lemma div_four_power: "(x::nat) div 4 div 4 ^ j = x div 4 ^ Suc j"
  by (simp add: div_mult2_eq)

lemma mod_four_power: "(x::nat) div 4 mod 4 ^ j = x mod 4 ^ Suc j div 4"
proof -
  have "x mod 4 ^ Suc j = 4 * (x div 4 mod 4 ^ j) + x mod 4"
    by (simp add: mod_mult2_eq)
  then show ?thesis by simp
qed

lemma mod_power_eq_iff:
  fixes x y :: nat
  assumes "x div 4 ^ Suc i = y div 4 ^ Suc i"
  shows "x mod 4 ^ Suc i div 4 = y mod 4 ^ Suc i div 4 \<longleftrightarrow> x div 4 = y div 4"
proof -
  have eq: "z div 4 = 4 ^ i * (z div 4 ^ Suc i) + z mod 4 ^ Suc i div 4" for z :: nat
    using mult_div_mod_eq [of "4 ^ i" "z div 4"] by (simp only: div_four_power mod_four_power)
  show ?thesis using assms by (metis add_left_cancel eq)
qed

lemma four_digits_eq: "r < 4 \<Longrightarrow> l < 4 \<Longrightarrow> 4 * a + r = 4 * b + l \<longleftrightarrow> a = b \<and> r = (l::nat)"
  by presburger

text \<open>The same decision taken from the most significant digit down, as the loop takes it.\<close>

lemma dfly_route_top:
  "x < 4 ^ Suc j \<Longrightarrow> y < 4 ^ Suc j \<Longrightarrow>
   dfly_route (Suc j) x y =
     (if x div 4 ^ j \<noteq> y div 4 ^ j then y div 4 ^ j
      else if j = 0 then y else dfly_route j (x mod 4 ^ j) (y mod 4 ^ j))"
proof (induction j arbitrary: x y)
  case 0
  then show ?case by (auto simp: div_eq_0_iff)
next
  case (Suc j)
  let ?x = "x div 4" and ?y = "y div 4"
  have b: "?x < 4 ^ Suc j" "?y < 4 ^ Suc j" using Suc.prems by auto
  have d: "?x div 4 ^ j = x div 4 ^ Suc j" "?y div 4 ^ j = y div 4 ^ Suc j"
    by (simp_all only: div_four_power)
  have m: "?x mod 4 ^ j = x mod 4 ^ Suc j div 4" "?y mod 4 ^ j = y mod 4 ^ Suc j div 4"
    by (simp_all only: mod_four_power)
  show ?case
  proof (cases "?x = ?y")
    case True
    then have "x div 4 ^ Suc j = y div 4 ^ Suc j" and "x mod 4 ^ Suc j div 4 = y mod 4 ^ Suc j div 4"
      using d m by auto
    moreover have "y mod 4 ^ Suc j mod 4 = y mod 4" by (simp add: mod_mod_cancel)
    ultimately show ?thesis using True by simp
  next
    case False
    have IH: "dfly_route (Suc j) ?x ?y =
        (if ?x div 4 ^ j \<noteq> ?y div 4 ^ j then ?y div 4 ^ j
         else if j = 0 then ?y else dfly_route j (?x mod 4 ^ j) (?y mod 4 ^ j))"
      using Suc.IH [OF b] .
    have low: "dfly_route (Suc j) (x mod 4 ^ Suc j) (y mod 4 ^ Suc j) = dfly_route j (?x mod 4 ^ j) (?y mod 4 ^ j)"
      if "x div 4 ^ Suc j = y div 4 ^ Suc j"
      using mod_power_eq_iff [OF that] False m by simp
    have "j = 0 \<Longrightarrow> x div 4 ^ Suc j = y div 4 ^ Suc j \<Longrightarrow> False"
      using False by simp
    then show ?thesis using False IH low d by auto
  qed
qed

lemma sdiv_int_nat: "int a sdiv int b = int (a div b)"
  by (auto simp: signed_divide_int_def zdiv_int sgn_mult)

lemma dfly_loop_step:
  fixes dest_node my_node dest_quad my_quad :: int
  assumes "dest_node - dest_quad * 4 ^ Suc j = int y" and "my_node - my_quad * 4 ^ Suc j = int x"
  shows "dfly_loop (4 ^ Suc j) dest_node my_node dest_quad my_quad =
      (if x div 4 ^ j = y div 4 ^ j
       then dfly_loop (4 ^ j) (int y) (int x) (int (y div 4 ^ j)) (int (x div 4 ^ j))
       else Inr (int (y div 4 ^ j)))"
proof -
  have four: "(4 ^ Suc j :: int) sdiv 4 = 4 ^ j"
    by (simp add: signed_divide_int_def)
  have one: "(1 :: int) < 4 ^ Suc j" by (rule one_less_power) simp_all
  have nz: "((4 :: int) ^ j = 0) = False" by simp
  have m1: "(int z = -1) = False" for z by simp
  have q: "int z sdiv 4 ^ j = int (z div 4 ^ j)" for z
    using sdiv_int_nat [of z "4 ^ j"] by simp
  show ?thesis
    by (subst dfly_loop.simps)
      (simp only: Let_def assms four q one nz m1 if_True if_False of_nat_eq_iff)
qed

lemma dfly_loop_one: "dfly_loop 1 dest_node my_node dest_quad my_quad = Inr my_quad"
  by (subst dfly_loop.simps) simp

lemma int_minus_div_mult: "int z - int (z div m) * int m = int (z mod m)"
  by (metis minus_div_mult_eq_mod zdiv_int zmod_int)

lemma dfly_loop_route:
  assumes "dest_node - dest_quad * 4 ^ Suc j = int y" and "my_node - my_quad * 4 ^ Suc j = int x"
    and "x < 4 ^ Suc j" and "y < 4 ^ Suc j"
  shows "dfly_loop (4 ^ Suc j) dest_node my_node dest_quad my_quad = Inr (int (dfly_route (Suc j) x y))"
  using assms
proof (induction j arbitrary: x y dest_node my_node dest_quad my_quad)
  case 0
  then have "dfly_loop (4 ^ Suc 0) dest_node my_node dest_quad my_quad = Inr (int y)"
    by (subst dfly_loop_step [where x = x and y = y]) (simp_all add: dfly_loop_one)
  then show ?case using 0 by (simp add: div_eq_0_iff)
next
  case (Suc j)
  have r: "int z - int (z div 4 ^ Suc j) * 4 ^ Suc j = int (z mod 4 ^ Suc j)" for z
    using int_minus_div_mult [of z "4 ^ Suc j"] by simp
  have m: "z mod 4 ^ Suc j < 4 ^ Suc j" for z :: nat by simp
  show ?case
  proof (cases "x div 4 ^ Suc j = y div 4 ^ Suc j")
    case True
    then show ?thesis
      using Suc.IH [OF r r m m, of y x] dfly_route_top [OF Suc.prems(3,4)]
      unfolding dfly_loop_step [OF Suc.prems(1,2)] by (simp only: if_True not_True_eq_False if_False nat.distinct refl)
  next
    case False
    then show ?thesis
      using dfly_route_top [OF Suc.prems(3,4)]
      unfolding dfly_loop_step [OF Suc.prems(1,2)] by (simp only: if_False if_True not_False_eq_True)
  qed
qed

lemma sint_small_u32: "n < 2 ^ 31 \<Longrightarrow> sint (of_nat n :: u32) = int n"
  by (simp add: signed_of_nat signed_take_bit_int_eq_self)

lemma power_four_lt: "k \<le> 15 \<Longrightarrow> (4::nat) ^ k < 2 ^ 31"
  using power_increasing [of k 15 "4::nat"] by simp

lemma dFlyRF_digit:
  assumes "0 < k" and "k \<le> 15" and "x < 4 ^ k" and "y < 4 ^ k"
  shows "dFlyRF_findNextLink (4 ^ k) link (of_nat x) (of_nat y) = Inr (link, int (dfly_route k x y))"
proof -
  obtain j where k: "k = Suc j" using assms(1) by (cases k) auto
  have "sint (of_nat x :: u32) = int x" "sint (of_nat y :: u32) = int y"
    using assms power_four_lt [of k] by (auto intro!: sint_small_u32)
  moreover have "dfly_loop (4 ^ Suc j) (int y) (int x) 0 0 = Inr (int (dfly_route (Suc j) x y))"
    using assms(3,4) by (intro dfly_loop_route) (auto simp: k)
  ultimately show ?thesis by (simp add: dFlyRF_findNextLink_def k)
qed

section \<open>Properties of the routing\<close>

text \<open>
  Dragonfly routing follows the digits of the cube numbers: in a network of \<open>4 ^ k\<close> cubes, the
  link a cube \<open>x\<close> takes towards a cube \<open>y\<close> is the digit, base four, of \<open>y\<close> at the highest position in
  which the two numbers differ (the loop of the source ends, without a division by zero).
\<close>

lemma dFlyRF_findNextLink_digit:
  assumes "0 < k" and "k \<le> 15" and "x < 4 ^ k" and "y < 4 ^ k"
  shows "dFlyRF_findNextLink (4 ^ k) link (of_nat x) (of_nat y) = Inr (link, int (dfly_route k x y))"
  using assms by (rule dFlyRF_digit)

lemma dFlyRF_findNextLink_digit_example:
  "dFlyRF_findNextLink (4 ^ 2) 0 (of_nat 3) (of_nat 14) = Inr (0, 3)"
  using dFlyRF_findNextLink_digit [of 2 3 14 0] by (simp add: numeral_2_eq_2)

end
