(* ===== verification/Topology.thy ===== *)
theory Topology
  imports Routing
begin

text \<open>
  The wiring of the cubes: the constructors of \<open>DFly\<close> and \<open>MeshNet\<close> in
  \<open>CasHMC/sources/Network.cpp\<close> and \<open>HMC::RegisterNeighbors\<close>. A link master is named by
  its cube and its port; the wiring maps it to the link slave its link leads to, at another
  cube or at a host controller. The theory shows that the dragonfly wiring is symmetric and
  that dragonfly routing over it delivers: every packet reaches its cube, within
  \<open>2 ^ k - 1\<close> hops in a network of \<open>4 ^ k\<close> cubes.
\<close>

type_synonym port = "nat \<times> nat"

datatype endpoint = CubeSlave nat nat | ControllerSlave nat

type_synonym wiring = "port \<rightharpoonup> endpoint"

section \<open>The dragonfly network\<close>

definition slave_of :: "port \<Rightarrow> endpoint" where
  "slave_of p = CubeSlave (fst p) (snd p)"

definition dfly_wire_quad :: "port list list \<Rightarrow> port list list \<Rightarrow> nat \<Rightarrow> wiring \<Rightarrow> wiring" where
  "dfly_wire_quad LM LS i W =
     fold (\<lambda>(j, l) W. if j \<noteq> l then W(LM ! (i * 4 + j) ! l \<mapsto> slave_of (LS ! (i * 4 + l) ! j)) else W)
       (List.product [0..<4] [0..<NUM_LINKS]) W"

definition dfly_next :: "port list list \<Rightarrow> nat \<Rightarrow> port list list" where
  "dfly_next LM n = map (\<lambda>i. map (\<lambda>j. LM ! (i * 4 + j) ! j) [0..<4]) [0..<n]"

function dfly_levels :: "nat \<Rightarrow> port list list \<Rightarrow> port list list \<Rightarrow> wiring
    \<Rightarrow> port list list \<times> port list list \<times> wiring" where
  "dfly_levels n LM LS W =
     (if n > 1 then
        (let n' = n div 4
         in dfly_levels n' (dfly_next LM n') (dfly_next LS n') (fold (dfly_wire_quad LM LS) [0..<n'] W))
      else (LM, LS, W))"
  by pat_completeness auto
termination
  by (relation "measure fst") auto

declare dfly_levels.simps [simp del]

definition dfly_ports :: "nat \<Rightarrow> port list list" where
  "dfly_ports n = map (\<lambda>i. map (\<lambda>l. (i, l)) [0..<NUM_LINKS]) [0..<n]"

text \<open>
  The whole wiring: the levels, then the four host controllers on the ports that are left at
  the top. The second component is the slave each controller's master is linked to.
\<close>

definition dfly_wiring :: "nat \<Rightarrow> wiring \<times> (nat \<rightharpoonup> endpoint)" where
  "dfly_wiring nodes =
     (case dfly_levels nodes (dfly_ports nodes) (dfly_ports nodes) Map.empty of
        (LM, LS, W) \<Rightarrow>
          (fold (\<lambda>i W. W(LM ! 0 ! i \<mapsto> ControllerSlave i)) [0..<4] W,
           fold (\<lambda>i C. C(i \<mapsto> slave_of (LS ! 0 ! i))) [0..<4] Map.empty))"

definition DFly :: "nat \<Rightarrow> (wiring \<times> (nat \<rightharpoonup> endpoint)) result" where
  "DFly dimension = (let nodes = dimension * dimension
     in checkE (nodes = 16 \<or> nodes = 64) (Assertion ''Network::Alloc'') (Inr (dfly_wiring nodes)))"

definition RegisterNeighbor :: "wiring \<Rightarrow> nat \<Rightarrow> nat \<Rightarrow> nat result" where
  "RegisterNeighbor W cube l =
     (case W (cube, l) of
        None \<Rightarrow> Inl (Assertion ''linkSlaveP'')
      | Some (CubeSlave c p) \<Rightarrow> Inr c
      | Some (ControllerSlave h) \<Rightarrow> Inr cube)"

section \<open>The mesh network\<close>

text \<open>
  \<open>ncpus\<close> controllers exist; indexing \<open>hmcConts\<close> beyond them is undefined behaviour.
\<close>

definition mesh_controller ::
  "nat \<Rightarrow> nat \<Rightarrow> port \<Rightarrow> nat \<Rightarrow> wiring \<times> (nat \<rightharpoonup> endpoint) \<Rightarrow> (wiring \<times> (nat \<rightharpoonup> endpoint)) result" where
  "mesh_controller ncpus h p l s = (case s of (W, C) \<Rightarrow>
     checkE (h < ncpus) (Undefined ''hmcConts out of range'')
       (Inr (W(p \<mapsto> ControllerSlave h), C(h \<mapsto> CubeSlave (fst p) l))))"

definition mesh_cube ::
  "port \<Rightarrow> endpoint \<Rightarrow> wiring \<times> (nat \<rightharpoonup> endpoint) \<Rightarrow> (wiring \<times> (nat \<rightharpoonup> endpoint)) result" where
  "mesh_cube p e s = (case s of (W, C) \<Rightarrow> Inr (W(p \<mapsto> e), C))"

definition mesh_wire_cube ::
  "nat \<Rightarrow> nat \<Rightarrow> nat \<Rightarrow> nat \<Rightarrow> wiring \<times> (nat \<rightharpoonup> endpoint) \<Rightarrow> (wiring \<times> (nat \<rightharpoonup> endpoint)) result" where
  "mesh_wire_cube ncpus d x y s =
     (let pos = d * y + x; left = nat LEFT_LINK; top_l = nat TOP_LINK; right = nat RIGHT_LINK; bot_l = nat BOT_LINK in
      bindE (if x > 0 then mesh_cube (pos, left) (CubeSlave (pos - 1) right) s
             else mesh_controller ncpus y (pos, left) 0 s) (\<lambda>s.
      bindE (if y > 0 then mesh_cube (pos, top_l) (CubeSlave (pos - d) bot_l) s
             else mesh_controller ncpus (d + x) (pos, top_l) 1 s) (\<lambda>s.
      bindE (if x < d - 1 then mesh_cube (pos, right) (CubeSlave (pos + 1) left) s
             else mesh_controller ncpus (2 * d + y) (pos, right) 2 s) (\<lambda>s.
      (if y < d - 1 then mesh_cube (pos, bot_l) (CubeSlave (pos + d) top_l) s
       else mesh_controller ncpus (3 * d + x) (pos, bot_l) 3 s)))))"

definition MeshNet :: "nat \<Rightarrow> (wiring \<times> (nat \<rightharpoonup> endpoint)) result" where
  "MeshNet d = (let ncpus = 4
     in foldE (\<lambda>(y, x). mesh_wire_cube ncpus d x y) (List.product [0..<d] [0..<d]) (Map.empty, Map.empty))"

section \<open>Where a dragonfly link leads\<close>

fun dfly_neighbor :: "nat \<Rightarrow> nat \<Rightarrow> nat \<Rightarrow> port option" where
  "dfly_neighbor 0 x l = None"
| "dfly_neighbor (Suc k) x l =
     (if x mod 4 = l then map_option (\<lambda>(y, p). (4 * y + p, p)) (dfly_neighbor k (x div 4) l)
      else Some (4 * (x div 4) + l, x mod 4))"

fun repdigit :: "nat \<Rightarrow> nat \<Rightarrow> nat" where
  "repdigit 0 l = 0"
| "repdigit (Suc j) l = 4 * repdigit j l + l"

lemma repdigit_top: "repdigit (Suc j) l = l * 4 ^ j + repdigit j l"
  by (induction j) auto

lemma repdigit_lt: "l < 4 \<Longrightarrow> repdigit j l < 4 ^ j"
  by (induction j) auto

lemma dfly_neighbor_Some:
  "dfly_neighbor k x l = Some (y, p) \<Longrightarrow> l < 4 \<Longrightarrow> x < 4 ^ k \<Longrightarrow>
     p < 4 \<and> y < 4 ^ k \<and> dfly_neighbor k y p = Some (x, l)"
proof (induction k arbitrary: x y p)
  case 0
  then show ?case by simp
next
  case (Suc k)
  show ?case
  proof (cases "x mod 4 = l")
    case True
    with Suc.prems(1) obtain y' where y': "dfly_neighbor k (x div 4) l = Some (y', p)" "y = 4 * y' + p"
      by auto
    from Suc.prems(3) have "x div 4 < 4 ^ k" by auto
    with Suc.IH [OF y'(1) Suc.prems(2)] have IH: "p < 4" "y' < 4 ^ k" "dfly_neighbor k y' p = Some (x div 4, l)"
      by auto
    have "4 * (x div 4) + l = x" using True by auto
    with IH y'(2) show ?thesis by simp
  next
    case False
    from Suc.prems(3) have "x div 4 < 4 ^ k" by auto
    then have "4 * (x div 4) + l < 4 * 4 ^ k" using Suc.prems(2) by linarith
    with False Suc.prems show ?thesis by auto
  qed
qed

lemma dfly_neighbor_None: "l < 4 \<Longrightarrow> dfly_neighbor j x l = None \<longleftrightarrow> x mod 4 ^ j = repdigit j l"
proof (induction j arbitrary: x)
  case 0
  then show ?case by simp
next
  case (Suc j)
  have m: "x mod 4 ^ Suc j = 4 * (x div 4 mod 4 ^ j) + x mod 4"
    by (simp add: mod_mult2_eq)
  have "4 * (x div 4 mod 4 ^ j) + x mod 4 = 4 * repdigit j l + l \<longleftrightarrow>
      x div 4 mod 4 ^ j = repdigit j l \<and> x mod 4 = l"
    using Suc.prems by (intro four_digits_eq) auto
  then show ?case using Suc.IH [OF Suc.prems, of "x div 4"] m Suc.prems by (auto split: option.splits)
qed

text \<open>A port of level \<open>j\<close> of the hierarchy: a cube's own number of level \<open>j\<close> followed by \<open>j\<close> equal digits.\<close>

lemma dfly_neighbor_level:
  assumes "j < k" and "a < 4" and "l < 4" and "a \<noteq> l"
  shows "dfly_neighbor k ((4 * i + a) * 4 ^ j + repdigit j l) l =
    Some ((4 * i + l) * 4 ^ j + repdigit j a, a)"
  using assms
proof (induction j arbitrary: k)
  case 0
  then obtain k' where "k = Suc k'" by (cases k) auto
  with 0 show ?case by simp
next
  case (Suc j)
  then obtain k' where k: "k = Suc k'" by (cases k) auto
  let ?u = "\<lambda>a l. (4 * i + a) * 4 ^ j + repdigit j l"
  have e: "(4 * i + a) * 4 ^ Suc j + repdigit (Suc j) l = 4 * ?u a l + l" for a l
    by (simp add: algebra_simps)
  have low: "(4 * u + l) mod 4 = l" "(4 * u + l) div 4 = u" for u
    using Suc.prems by auto
  have IH: "dfly_neighbor k' (?u a l) l = Some (?u l a, a)"
    using Suc.IH [of k'] Suc.prems by (simp add: k)
  show ?case
    unfolding e k dfly_neighbor.simps low by (simp add: IH)
qed

section \<open>The constructor builds this wiring\<close>

definition level_ports :: "nat \<Rightarrow> nat \<Rightarrow> port list list" where
  "level_ports n j = map (\<lambda>i. map (\<lambda>l. (i * 4 ^ j + repdigit j l, l)) [0..<4]) [0..<n]"

lemma level_ports_0: "level_ports n 0 = dfly_ports n"
  by (simp add: level_ports_def dfly_ports_def NUM_LINKS_def)

lemma level_ports_nth: "i < n \<Longrightarrow> l < 4 \<Longrightarrow> level_ports n j ! i ! l = (i * 4 ^ j + repdigit j l, l)"
  by (simp add: level_ports_def)

lemma dfly_next_level: "dfly_next (level_ports (4 * n) j) n = level_ports n (Suc j)"
proof -
  have "level_ports (4 * n) j ! (i * 4 + l) ! l = (i * 4 ^ Suc j + repdigit (Suc j) l, l)"
    if "i < n" "l < 4" for i l
    using that repdigit_top [of j l] by (subst level_ports_nth) (auto simp: algebra_simps)
  then show ?thesis by (simp add: dfly_next_def level_ports_def)
qed

text \<open>
  Every wire that is set is the neighbour of its port, and after \<open>j\<close> levels the ports
  whose link stays within \<open>j\<close> levels are wired.
\<close>

definition wires_ok :: "nat \<Rightarrow> wiring \<Rightarrow> bool" where
  "wires_ok k W \<longleftrightarrow> (\<forall>x l e. W (x, l) = Some e \<longrightarrow> map_option slave_of (dfly_neighbor k x l) = Some e)"

definition wired :: "nat \<Rightarrow> nat \<Rightarrow> wiring \<Rightarrow> bool" where
  "wired k j W \<longleftrightarrow> (\<forall>x < 4 ^ k. \<forall>l < 4. dfly_neighbor j x l \<noteq> None \<longrightarrow> W (x, l) \<noteq> None)"

lemma quad_ports:
  "i < n \<Longrightarrow> a < 4 \<Longrightarrow> l < 4 \<Longrightarrow>
     level_ports (4 * n) j ! (i * 4 + a) ! l = ((4 * i + a) * 4 ^ j + repdigit j l, l)"
  by (subst level_ports_nth) (auto simp: algebra_simps)

lemma dfly_wire_quad_ok:
  assumes "wires_ok k W" and "j < k" and "i < n"
  shows "wires_ok k (dfly_wire_quad (level_ports (4 * n) j) (level_ports (4 * n) j) i W)"
  unfolding dfly_wire_quad_def NUM_LINKS_def
proof (rule fold_inv [where P = "wires_ok k"], goal_cases)
  case (1 x V)
  then obtain a l where x: "x = (a, l)" "a < 4" "l < 4" by auto
  show ?case
    using 1(2) x assms(2,3) dfly_neighbor_level [of j k a l i]
    by (auto simp: wires_ok_def quad_ports slave_of_def)
next
  case 2
  show ?case by (rule assms(1))
qed

lemma fold_upd_dom:
  "(\<exists>x \<in> set xs. k = f x \<and> P x) \<or> W k \<noteq> None \<Longrightarrow>
   fold (\<lambda>x W. if P x then W(f x \<mapsto> g x) else W) xs W k \<noteq> (None :: 'b option)"
  by (induction xs arbitrary: W) auto

lemma dfly_wire_quad_dom:
  assumes "W p \<noteq> None \<or>
    (\<exists>a l. a < 4 \<and> l < 4 \<and> a \<noteq> l \<and> p = ((4 * i + a) * 4 ^ j + repdigit j l, l))" and "i < n"
  shows "dfly_wire_quad (level_ports (4 * n) j) LS i W p \<noteq> None"
proof -
  let ?f = "\<lambda>(a, l). level_ports (4 * n) j ! (i * 4 + a) ! l"
  let ?xs = "List.product [0..<4] [0..<4]"
  have eq: "dfly_wire_quad (level_ports (4 * n) j) LS i W =
    fold (\<lambda>x W. if fst x \<noteq> snd x then W(?f x \<mapsto> slave_of (LS ! (i * 4 + snd x) ! fst x)) else W) ?xs W"
    unfolding dfly_wire_quad_def NUM_LINKS_def by (rule fold_cong) auto
  have "(\<exists>x \<in> set ?xs. p = ?f x \<and> fst x \<noteq> snd x) \<or> W p \<noteq> None"
  proof (cases "W p = None")
    case True
    with assms(1) obtain a l where "a < 4" "l < 4" "a \<noteq> l" "p = ((4 * i + a) * 4 ^ j + repdigit j l, l)" by auto
    then have "(a, l) \<in> set ?xs" "p = ?f (a, l)" "a \<noteq> l" by (auto simp: quad_ports [OF assms(2)])
    then show ?thesis by (metis fst_conv snd_conv)
  qed simp
  then show ?thesis unfolding eq by (rule fold_upd_dom)
qed

lemma fold_quads_dom:
  assumes "W p \<noteq> None \<or>
    (\<exists>i a l. i \<in> set is \<and> a < 4 \<and> l < 4 \<and> a \<noteq> l \<and> p = ((4 * i + a) * 4 ^ j + repdigit j l, l))"
    and "set is \<subseteq> {..<n}"
  shows "fold (dfly_wire_quad (level_ports (4 * n) j) LS) is W p \<noteq> None"
  using assms
proof (induction "is" arbitrary: W)
  case Nil
  then show ?case by simp
next
  case (Cons i "is")
  have "dfly_wire_quad (level_ports (4 * n) j) LS i W p \<noteq> None \<or>
    (\<exists>i a l. i \<in> set is \<and> a < 4 \<and> l < 4 \<and> a \<noteq> l \<and> p = ((4 * i + a) * 4 ^ j + repdigit j l, l))"
    using Cons.prems dfly_wire_quad_dom [of W p i j n LS] by (metis insert_iff insert_subset lessThan_iff list.set(2))
  then show ?case using Cons.IH Cons.prems(2) by simp
qed

lemma level_wired:
  assumes "wired k j W" and "j < k"
  shows "wired k (Suc j) (fold (dfly_wire_quad (level_ports (4 * 4 ^ (k - Suc j)) j) LS) [0..<4 ^ (k - Suc j)] W)"
  unfolding wired_def
proof (intro allI impI)
  fix x l assume x: "x < 4 ^ k" "l < (4::nat)" and nb: "dfly_neighbor (Suc j) x l \<noteq> None"
  show "fold (dfly_wire_quad (level_ports (4 * 4 ^ (k - Suc j)) j) LS) [0..<4 ^ (k - Suc j)] W (x, l) \<noteq> None"
  proof (rule fold_quads_dom)
    show "W (x, l) \<noteq> None \<or> (\<exists>i a l'. i \<in> set [0..<4 ^ (k - Suc j)] \<and> a < 4 \<and> l' < 4 \<and> a \<noteq> l' \<and>
        (x, l) = ((4 * i + a) * 4 ^ j + repdigit j l', l'))"
    proof (cases "dfly_neighbor j x l = None")
      case False
      then show ?thesis using assms(1) x by (auto simp: wired_def)
    next
      case True
      let ?h = "x div 4 ^ j"
      have low: "x mod 4 ^ j = repdigit j l" using True dfly_neighbor_None x(2) by blast
      then have xe: "x = (4 * (?h div 4) + ?h mod 4) * 4 ^ j + repdigit j l" by (metis div_mult_mod_eq mult.commute)
      have "?h mod 4 \<noteq> l"
        using nb low dfly_neighbor_None [OF x(2), of "Suc j" x] repdigit_top [of j l]
        by (metis div_mult_mod_eq mod_mult2_eq mult.commute power_Suc2)
      moreover have "?h div 4 < 4 ^ (k - Suc j)"
      proof -
        have "4 ^ k = 4 ^ (k - Suc j) * (4 ^ Suc j :: nat)"
          using assms(2) by (metis Suc_leI le_add_diff_inverse2 power_add)
        then have "x div 4 ^ Suc j < 4 ^ (k - Suc j)" using x(1) by (simp add: less_mult_imp_div_less)
        then show ?thesis by (metis div_mult2_eq power_Suc2)
      qed
      ultimately show ?thesis using xe x(2) by (metis atLeastLessThan_iff less_eq_nat.simps(1) mod_less_divisor set_upt zero_less_numeral)
    qed
  qed auto
qed

lemma dfly_levels_spec:
  assumes "j \<le> k" and "wires_ok k W" and "wired k j W"
  shows "\<exists>W'. dfly_levels (4 ^ (k - j)) (level_ports (4 ^ (k - j)) j) (level_ports (4 ^ (k - j)) j) W =
      (level_ports 1 k, level_ports 1 k, W') \<and> wires_ok k W' \<and> wired k k W'"
  using assms
proof (induction "k - j" arbitrary: j W)
  case 0
  then show ?case by (auto simp: dfly_levels.simps)
next
  case (Suc d)
  have j: "j < k" "4 ^ (k - j) = 4 * (4 ^ (k - Suc j) :: nat)" "(1::nat) < 4 ^ (k - j)" and d: "d = k - Suc j"
    using Suc.hyps(2) one_less_power [of "4::nat" "k - j"] by (auto simp: Suc_diff_Suc simp flip: power_Suc)
  let ?n = "4 ^ (k - Suc j) :: nat"
  let ?W = "fold (dfly_wire_quad (level_ports (4 * ?n) j) (level_ports (4 * ?n) j)) [0..<?n] W"
  have "wires_ok k ?W"
    by (rule fold_inv [where P = "wires_ok k"]) (use dfly_wire_quad_ok j(1) Suc.prems(2) in auto)
  moreover have "wired k (Suc j) ?W" using level_wired Suc.prems(3) j(1) by blast
  ultimately show ?case
    using Suc.hyps(1) [OF d, of ?W] j by (subst dfly_levels.simps) (simp add: Let_def dfly_next_level)
qed

lemma dfly_wiring_eq:
  obtains W where "dfly_levels (4 ^ k) (dfly_ports (4 ^ k)) (dfly_ports (4 ^ k)) Map.empty =
      (level_ports 1 k, level_ports 1 k, W)" and "wires_ok k W" and "wired k k W"
  using dfly_levels_spec [of 0 k Map.empty] by (auto simp: level_ports_0 wires_ok_def wired_def)

lemma top_ports: "l < 4 \<Longrightarrow> level_ports 1 k ! 0 ! l = (repdigit k l, l)"
  by (simp add: level_ports_nth)

lemma upt_four: "[0..<4] = [0, 1, 2, 3 :: nat]"
  by (simp add: upt_rec)

lemma less_four: "l < (4::nat) \<longleftrightarrow> l = 0 \<or> l = 1 \<or> l = 2 \<or> l = 3"
  by auto

lemma dfly_wiring_lookup:
  assumes "x < 4 ^ k" and "l < 4"
  shows "fst (dfly_wiring (4 ^ k)) (x, l) =
    Some (case dfly_neighbor k x l of Some p \<Rightarrow> slave_of p | None \<Rightarrow> ControllerSlave l)"
proof -
  obtain W where lv: "dfly_levels (4 ^ k) (dfly_ports (4 ^ k)) (dfly_ports (4 ^ k)) Map.empty =
      (level_ports 1 k, level_ports 1 k, W)" and ok: "wires_ok k W" and wd: "wired k k W"
    by (rule dfly_wiring_eq)
  have key: "(x, l) = (repdigit k l, l) \<longleftrightarrow> dfly_neighbor k x l = None"
    using assms dfly_neighbor_None [of l k x] by simp
  have "fst (dfly_wiring (4 ^ k)) = W((repdigit k 0, 0) \<mapsto> ControllerSlave 0, (repdigit k 1, 1) \<mapsto> ControllerSlave 1,
      (repdigit k 2, 2) \<mapsto> ControllerSlave 2, (repdigit k 3, 3) \<mapsto> ControllerSlave 3)"
    by (simp only: dfly_wiring_def lv prod.case fst_conv upt_four fold_simps id_apply)
      (simp add: top_ports [simplified])
  then have upd: "fst (dfly_wiring (4 ^ k)) (x, l) =
      (if (x, l) = (repdigit k l, l) then Some (ControllerSlave l) else W (x, l))"
    using assms(2) by (auto simp: less_four)
  show ?thesis
  proof (cases "dfly_neighbor k x l")
    case None
    then show ?thesis using upd key by simp
  next
    case (Some p)
    with wd assms obtain e where "W (x, l) = Some e" unfolding wired_def by (metis option.exhaust option.simps(3))
    moreover from this ok Some have "e = slave_of p"
      unfolding wires_ok_def by (metis option.inject option.map(2))
    ultimately show ?thesis using Some upd key by auto
  qed
qed

section \<open>Delivery\<close>

text \<open>
  What a routed network promises its clients: a hop towards a destination stays in the
  network and comes nearer to it. Then following the hops delivers.
\<close>

locale routed_network =
  fixes nodes :: "'v set" and hop :: "'v \<Rightarrow> 'v \<Rightarrow> 'v" and dist :: "'v \<Rightarrow> 'v \<Rightarrow> nat"
  assumes hop_closed: "x \<in> nodes \<Longrightarrow> y \<in> nodes \<Longrightarrow> x \<noteq> y \<Longrightarrow> hop x y \<in> nodes"
    and hop_nearer: "x \<in> nodes \<Longrightarrow> y \<in> nodes \<Longrightarrow> x \<noteq> y \<Longrightarrow> dist (hop x y) y < dist x y"
begin

lemma delivered:
  "x \<in> nodes \<Longrightarrow> y \<in> nodes \<Longrightarrow> \<exists>n \<le> dist x y. ((\<lambda>z. hop z y) ^^ n) x = y"
proof (induction "dist x y" arbitrary: x rule: less_induct)
  case less
  show ?case
  proof (cases "x = y")
    case True
    then show ?thesis by (intro exI [of _ 0]) simp
  next
    case False
    with less.prems have nearer: "dist (hop x y) y < dist x y" and "hop x y \<in> nodes"
      by (auto simp: hop_nearer hop_closed)
    then obtain n where "n \<le> dist (hop x y) y" "((\<lambda>z. hop z y) ^^ n) (hop x y) = y"
      using less.hyps less.prems(2) by blast
    then show ?thesis using nearer
      by (intro exI [of _ "Suc n"]) (simp add: funpow_Suc_right del: funpow.simps)
  qed
qed

end

text \<open>The next cube of a packet: the link of the routing function, followed along the wiring.\<close>

definition next_cube :: "topology \<Rightarrow> nat \<Rightarrow> wiring \<Rightarrow> nat \<Rightarrow> nat \<Rightarrow> nat result" where
  "next_cube topo nodes W x y =
     bindE (findNextLink topo (int nodes) 0 (of_nat x) (of_nat y) False) (\<lambda>(link, next_link).
       RegisterNeighbor W x (nat next_link))"

definition dfly_hop :: "nat \<Rightarrow> nat \<Rightarrow> nat \<Rightarrow> nat" where
  "dfly_hop k x y = (case next_cube DFLY (4 ^ k) (fst (dfly_wiring (4 ^ k))) x y of Inr z \<Rightarrow> z | Inl _ \<Rightarrow> x)"

fun dfly_dist :: "nat \<Rightarrow> nat \<Rightarrow> nat \<Rightarrow> nat" where
  "dfly_dist 0 x y = 0"
| "dfly_dist (Suc k) x y =
     (if x div 4 = y div 4 then (if x = y then 0 else 1)
      else 2 * dfly_dist k (x div 4) (y div 4) +
        (if x mod 4 = dfly_route k (x div 4) (y div 4) then 0 else 1))"

lemma dfly_dist_lt: "dfly_dist k x y < 2 ^ k"
proof (induction k x y rule: dfly_dist.induct)
  case (2 k x y)
  have "1 < 2 * (2::nat) ^ k" using one_less_power [of "2::nat" "Suc k"] by simp
  with 2 show ?case by (cases "x div 4 = y div 4") auto
qed simp

lemma dfly_dist_pos: "x < 4 ^ k \<Longrightarrow> y < 4 ^ k \<Longrightarrow> x \<noteq> y \<Longrightarrow> 0 < dfly_dist k x y"
proof (induction k x y rule: dfly_dist.induct)
  case (2 k x y)
  then show ?case by (cases "x div 4 = y div 4") auto
qed simp

text \<open>The link towards another cube never leaves the network, and it leads nearer.\<close>

lemma dfly_step:
  "x < 4 ^ k \<Longrightarrow> y < 4 ^ k \<Longrightarrow> x \<noteq> y \<Longrightarrow>
     \<exists>z p. dfly_neighbor k x (dfly_route k x y) = Some (z, p) \<and> dfly_dist k z y < dfly_dist k x y"
proof (induction k arbitrary: x y)
  case 0
  then show ?case by simp
next
  case (Suc k)
  let ?x = "x div 4" and ?y = "y div 4"
  have b: "?x < 4 ^ k" "?y < 4 ^ k" using Suc.prems by auto
  show ?case
  proof (cases "?x = ?y")
    case True
    with Suc.prems(3) have "x mod 4 \<noteq> y mod 4" by (metis mult_div_mod_eq)
    moreover have "4 * ?x + y mod 4 = y" using True by simp
    ultimately show ?thesis using True Suc.prems by simp
  next
    case False
    let ?t = "dfly_route k ?x ?y"
    obtain z p where z: "dfly_neighbor k ?x ?t = Some (z, p)" "dfly_dist k z ?y < dfly_dist k ?x ?y"
      using Suc.IH [OF b False] by auto
    have t: "?t < 4" by (rule dfly_route_lt)
    show ?thesis
    proof (cases "x mod 4 = ?t")
      case True
      have p: "p < 4" using dfly_neighbor_Some [OF z(1) t b(1)] by simp
      then have d: "(4 * z + p) div 4 = z" by simp
      have "dfly_dist (Suc k) (4 * z + p) y \<le> 2 * dfly_dist k z ?y + 1"
        unfolding dfly_dist.simps d by auto
      then show ?thesis using False True z by simp
    next
      case False': False
      have d: "(4 * ?x + ?t) div 4 = ?x" "(4 * ?x + ?t) mod 4 = ?t" using t by auto
      have "dfly_dist (Suc k) (4 * ?x + ?t) y = 2 * dfly_dist k ?x ?y"
        unfolding dfly_dist.simps d using False by simp
      then show ?thesis using False False' by simp
    qed
  qed
qed

lemma dfly_hop_eq:
  assumes "0 < k" and "k \<le> 15" and "x < 4 ^ k" and "y < 4 ^ k" and "x \<noteq> y"
  shows "\<exists>z p. dfly_neighbor k x (dfly_route k x y) = Some (z, p) \<and> dfly_hop k x y = z"
proof -
  obtain z p where z: "dfly_neighbor k x (dfly_route k x y) = Some (z, p)"
    using dfly_step assms by blast
  have "fst (dfly_wiring (4 ^ k)) (x, dfly_route k x y) = Some (CubeSlave z p)"
    using dfly_wiring_lookup [OF assms(3) dfly_route_lt] z by (simp add: slave_of_def)
  then have "dfly_hop k x y = z"
    using dFlyRF_digit [OF assms(1-4)]
    by (simp add: dfly_hop_def next_cube_def findNextLink_def RegisterNeighbor_def)
  with z show ?thesis by blast
qed

locale dragonfly =
  fixes k :: nat
  assumes levels: "0 < k" "k \<le> 15"

sublocale dragonfly \<subseteq> rn: routed_network "{x :: nat. x < 4 ^ k}" "dfly_hop k" "dfly_dist k"
proof unfold_locales
  fix x y :: nat assume *: "x \<in> {x. x < 4 ^ k}" "y \<in> {x. x < 4 ^ k}" "x \<noteq> y"
  then obtain z p where z: "dfly_neighbor k x (dfly_route k x y) = Some (z, p)" "dfly_hop k x y = z"
    using dfly_hop_eq levels by blast
  show "dfly_hop k x y \<in> {x. x < 4 ^ k}"
    using dfly_neighbor_Some [OF z(1) dfly_route_lt] * z(2) by simp
  show "dfly_dist k (dfly_hop k x y) y < dfly_dist k x y"
    using dfly_step [of x k y] * z by auto
qed

interpretation dfly16: dragonfly 2
  by unfold_locales auto

interpretation dfly64: dragonfly 3
  by unfold_locales auto

section \<open>Properties of the network\<close>

text \<open>
  C26. The \<open>DFly\<close> constructor builds the hierarchical dragonfly: in a network of
  \<open>4 ^ k\<close> cubes link \<open>l\<close> of cube \<open>x\<close> leads to the cube obtained by changing the lowest digit
  of \<open>x\<close> that is not \<open>l\<close> to \<open>l\<close> and the digits below it to that digit, on the port named by
  that digit; a cube all of whose digits are \<open>l\<close> has host controller \<open>l\<close> there. No link is
  left unconnected.
\<close>

theorem dfly_wiring_correct:
  assumes "x < 4 ^ k" and "l < 4"
  shows "fst (dfly_wiring (4 ^ k)) (x, l) =
    Some (case dfly_neighbor k x l of Some p \<Rightarrow> slave_of p | None \<Rightarrow> ControllerSlave l)"
  using assms by (rule dfly_wiring_lookup)

theorem dfly_wiring_correct_witness:
  "fst (dfly_wiring (4 ^ 2)) (7, 3) = Some (CubeSlave 13 1) \<and>
   fst (dfly_wiring (4 ^ 2)) (10, 2) = Some (ControllerSlave 2)"
  using dfly_wiring_correct [of 7 2 3] dfly_wiring_correct [of 10 2 2]
  by (simp add: numeral_2_eq_2 slave_of_def)

text \<open>
  Dragonfly links are two-way: if link \<open>l\<close> of cube \<open>x\<close> leads to port \<open>p\<close> of cube \<open>y\<close>
  then link \<open>p\<close> of \<open>y\<close> leads back to port \<open>l\<close> of \<open>x\<close>, so a response can travel back
  along the tree its requests came down.
\<close>

lemma dfly_wiring_symmetric:
  assumes "x < 4 ^ k" and "l < 4" and "fst (dfly_wiring (4 ^ k)) (x, l) = Some (CubeSlave y p)"
  shows "y < 4 ^ k \<and> p < 4 \<and> fst (dfly_wiring (4 ^ k)) (y, p) = Some (CubeSlave x l)"
proof -
  have nb: "dfly_neighbor k x l = Some (y, p)"
    using assms(3) dfly_wiring_lookup [OF assms(1,2)] by (auto simp: slave_of_def split: option.splits)
  then show ?thesis
    using dfly_neighbor_Some [OF nb assms(2,1)] dfly_wiring_lookup [of y k p] by (auto simp: slave_of_def)
qed

lemma dfly_wiring_symmetric_example:
  "fst (dfly_wiring (4 ^ 2)) (13, 1) = Some (CubeSlave 7 3)"
proof -
  have "fst (dfly_wiring (4 ^ 2)) (7, 3) = Some (CubeSlave 13 1)"
    by code_simp
  then show ?thesis using dfly_wiring_symmetric [of 7 2 3 13 1] by simp
qed

text \<open>
  C16. Dragonfly routing delivers in the two networks the simulator can build: following, from
  any cube, the link of \<open>findNextLink\<close> along the wiring of the \<open>DFly\<close> constructor reaches
  the destination cube, after at most 3 hops with 16 cubes and at most 7 hops with 64.
\<close>

theorem dfly_delivers:
  "(\<forall>x < 16. \<forall>y < 16. \<exists>n \<le> 3. ((\<lambda>z. dfly_hop 2 z y) ^^ n) x = y) \<and>
   (\<forall>x < 64. \<forall>y < 64. \<exists>n \<le> 7. ((\<lambda>z. dfly_hop 3 z y) ^^ n) x = y)"
proof (intro conjI allI impI)
  fix x y :: nat assume "x < 16" "y < 16"
  then obtain n where "n \<le> dfly_dist 2 x y" "((\<lambda>z. dfly_hop 2 z y) ^^ n) x = y"
    using dfly16.rn.delivered [of x y] by auto
  then show "\<exists>n \<le> 3. ((\<lambda>z. dfly_hop 2 z y) ^^ n) x = y"
    using dfly_dist_lt [of 2 x y] by (intro exI [of _ n]) simp
next
  fix x y :: nat assume "x < 64" "y < 64"
  then obtain n where "n \<le> dfly_dist 3 x y" "((\<lambda>z. dfly_hop 3 z y) ^^ n) x = y"
    using dfly64.rn.delivered [of x y] by auto
  then show "\<exists>n \<le> 7. ((\<lambda>z. dfly_hop 3 z y) ^^ n) x = y"
    using dfly_dist_lt [of 3 x y] by (intro exI [of _ n]) simp
qed

theorem dfly_delivers_witness:
  "(5::nat) < 16 \<and> (\<exists>n \<le> 3. ((\<lambda>z. dfly_hop 2 z 14) ^^ n) 5 = 14)"
  using dfly_delivers by simp

lemmas mesh_eval = MeshNet_def Let_def mesh_wire_cube_def mesh_controller_def mesh_cube_def mesh_link_defs

text \<open>
  C40. The mesh constructor overruns the list of host controllers: four controllers exist, but
  \<open>MeshNet\<close> indexes them up to \<open>4 * dimension - 1\<close>, so for every dimension above one the
  construction reads beyond the vector (undefined behaviour).
\<close>

theorem MeshNet_overruns_controllers:
  assumes "2 \<le> d"
  shows "MeshNet d = Inl (Undefined ''hmcConts out of range'')"
proof -
  consider "d = 2" | "d = 3" | "4 \<le> d" using assms by linarith
  then show ?thesis
  proof cases
    case 1
    then show ?thesis by (simp add: mesh_eval upt_conv_Cons)
  next
    case 2
    then show ?thesis by (simp add: mesh_eval upt_conv_Cons)
  next
    case 3
    then have "[0..<d] = 0 # [1..<d]" by (simp add: upt_conv_Cons)
    then obtain r where "List.product [0..<d] [0..<d] = (0, 0) # r" by simp
    then show ?thesis using 3
      by (simp add: mesh_eval)
  qed
qed

theorem MeshNet_overruns_controllers_witness:
  "(2::nat) \<le> 4 \<and> MeshNet 4 = Inl (Undefined ''hmcConts out of range'')"
  using MeshNet_overruns_controllers [of 4] by simp

end
