(* ===== verification/Crc.thy ===== *)
theory Crc
  imports Config
begin

unbundle bit_operations_syntax

text \<open>
  The CRC of packets: \<open>Packet::MakeCRCtable\<close> and \<open>Packet::CalcCRC\<close> of
  \<open>CasHMC/sources/Packet.cpp\<close>. The table-driven routine is shown equal to the bit-by-bit
  division it stands for, and to detect every error that is confined to four consecutive
  bytes of a message.
\<close>

section \<open>The routines of the source\<close>

definition crc_bit :: "u32 \<Rightarrow> u32 \<Rightarrow> u32" where
  "crc_bit gen k = (if k AND 1 \<noteq> 0 then drop_bit 1 k XOR gen else drop_bit 1 k)"

definition MakeCRCtable :: "u32 \<Rightarrow> u32 list" where
  "MakeCRCtable gen = map (\<lambda>i. (crc_bit gen ^^ 8) (of_nat i)) [0..<256]"

definition crc_step :: "u32 list \<Rightarrow> u8 \<Rightarrow> u32 \<Rightarrow> u32" where
  "crc_step table b crc = table ! unat ((crc XOR ucast b) AND 0xFF) XOR drop_bit 8 crc"

definition CalcCRC :: "u8 list \<Rightarrow> u32 \<Rightarrow> u32 list \<Rightarrow> u32" where
  "CalcCRC mem crc table = NOT (fold (crc_step table) mem (NOT crc))"

definition CRC_POLY :: u32 where "CRC_POLY = 0xEB31D82E"

section \<open>Linearity of the division\<close>

definition crc_byte :: "u32 \<Rightarrow> u32 \<Rightarrow> u32" where
  "crc_byte gen = crc_bit gen ^^ 8"

lemma crc_bit_alt: "crc_bit gen k = drop_bit 1 k XOR (if bit k 0 then gen else 0)"
  by (simp add: crc_bit_def and_one_eq bit_0 odd_iff_mod_2_eq_one)

lemma crc_bit_xor: "crc_bit gen (a XOR b) = crc_bit gen a XOR crc_bit gen b"
  by (rule bit_eqI) (auto simp: crc_bit_alt bit_simps)

lemma crc_bits_xor: "(crc_bit gen ^^ n) (a XOR b) = (crc_bit gen ^^ n) a XOR (crc_bit gen ^^ n) b"
  by (induction n) (simp_all add: crc_bit_xor)

lemma crc_byte_xor: "crc_byte gen (a XOR b) = crc_byte gen a XOR crc_byte gen b"
  by (simp only: crc_byte_def crc_bits_xor)

lemma crc_bits_push: "(crc_bit gen ^^ n) (push_bit n w) = w" if "n + m \<le> 32" "take_bit m w = w" for w :: u32
  using that
proof (induction n)
  case 0
  then show ?case by simp
next
  case (Suc n)
  have m: "bit w i \<Longrightarrow> i < m" for i using Suc.prems(2) by (metis bit_take_bit_iff)
  have b: "bit (push_bit k w) i \<longleftrightarrow> k \<le> i \<and> i < 32 \<and> bit w (i - k)" for k i
    by (simp add: bit_push_bit_iff)
  have "drop_bit 1 (push_bit (Suc n) w) = push_bit n w"
  proof (rule bit_eqI)
    fix i
    have "bit (drop_bit 1 (push_bit (Suc n) w)) i \<longleftrightarrow> bit (push_bit (Suc n) w) (1 + i)"
      by (simp only: bit_drop_bit_eq comp_apply)
    also have "\<dots> \<longleftrightarrow> bit (push_bit n w) i"
      unfolding b using Suc.prems(1) m [of "i - n"] by auto
    finally show "bit (drop_bit 1 (push_bit (Suc n) w)) i \<longleftrightarrow> bit (push_bit n w) i" .
  qed
  moreover have "\<not> bit (push_bit (Suc n) w) 0" unfolding b by simp
  ultimately have "crc_bit gen (push_bit (Suc n) w) = push_bit n w"
    unfolding crc_bit_alt by simp
  then show ?case using Suc by (simp add: funpow_Suc_right del: push_bit_Suc funpow.simps)
qed

lemma crc_byte_high: "crc_byte gen (push_bit 8 (drop_bit 8 w)) = drop_bit 8 w"
proof -
  have "take_bit 24 (drop_bit 8 w) = drop_bit 8 w"
  proof (rule bit_eqI)
    fix n
    show "bit (take_bit 24 (drop_bit 8 w)) n = bit (drop_bit 8 w) n"
      using bit_u32D [of w "8 + n"] by (auto simp: bit_take_bit_iff bit_drop_bit_eq)
  qed
  then show ?thesis unfolding crc_byte_def by (intro crc_bits_push [where m = 24]) simp_all
qed

lemma split_low_byte: "(w :: u32) = (w AND 0xFF) XOR push_bit 8 (drop_bit 8 w)"
proof -
  have "w AND 0xFF = take_bit 8 w" by (simp add: take_bit_eq_mask mask_eq_exp_minus_1)
  then show ?thesis by (auto intro!: bit_eqI simp: bit_simps)
qed

lemma MakeCRCtable_nth: "n < 256 \<Longrightarrow> MakeCRCtable gen ! n = crc_byte gen (of_nat n)"
  by (simp add: MakeCRCtable_def crc_byte_def)

text \<open>One table lookup is eight steps of the bitwise division.\<close>

lemma crc_step_bitwise: "crc_step (MakeCRCtable gen) b crc = crc_byte gen (crc XOR ucast b)"
proof -
  let ?w = "crc XOR ucast b"
  have lt: "unat (?w AND 0xFF) < 256" using unat_and_mask_le [of ?w "0xFF"] by simp
  have hi: "drop_bit 8 ?w = drop_bit 8 crc"
    by (auto intro!: bit_eqI simp: bit_simps dest: bit_boundsD)
  have "crc_byte gen ?w = crc_byte gen (?w AND 0xFF) XOR crc_byte gen (push_bit 8 (drop_bit 8 ?w))"
    by (metis split_low_byte crc_byte_xor)
  also have "\<dots> = crc_byte gen (?w AND 0xFF) XOR drop_bit 8 crc"
    by (simp only: crc_byte_high hi)
  finally show ?thesis
    using MakeCRCtable_nth [OF lt, of gen] by (simp add: crc_step_def)
qed

section \<open>Error detection\<close>

lemma crc_bit_inj: "bit gen 31 \<Longrightarrow> crc_bit gen a = crc_bit gen b \<Longrightarrow> a = b"
proof -
  assume top: "bit gen 31" and eq: "crc_bit gen a = crc_bit gen b"
  have "bit (crc_bit gen w) 31 = bit w 0" for w
    using top by (auto simp: crc_bit_alt bit_simps dest: bit_boundsD)
  with eq have b0: "bit a 0 = bit b 0" by metis
  with eq have "drop_bit 1 a = drop_bit 1 b"
    by (simp add: crc_bit_alt) (metis xor_right_cancel)
  then have "bit a (Suc n) = bit b (Suc n)" for n
    by (metis bit_drop_bit_eq comp_apply plus_1_eq_Suc)
  with b0 show "a = b" by (intro bit_eqI) (metis not0_implies_Suc)
qed

lemma crc_byte_inj: "bit gen 31 \<Longrightarrow> crc_byte gen a = crc_byte gen b \<Longrightarrow> a = b"
proof -
  assume top: "bit gen 31"
  have "(crc_bit gen ^^ n) a = (crc_bit gen ^^ n) b \<Longrightarrow> a = b" for n
    by (induction n arbitrary: a b) (auto dest: crc_bit_inj [OF top])
  then show "crc_byte gen a = crc_byte gen b \<Longrightarrow> a = b" by (simp add: crc_byte_def)
qed

lemma fold_crc_inj:
  "bit gen 31 \<Longrightarrow> fold (crc_step (MakeCRCtable gen)) xs a = fold (crc_step (MakeCRCtable gen)) xs b \<Longrightarrow> a = b"
proof (induction xs arbitrary: a b)
  case Nil
  then show ?case by simp
next
  case (Cons x xs)
  then have "crc_byte gen (a XOR ucast x) = crc_byte gen (b XOR ucast x)"
    by (simp add: crc_step_bitwise)
  then have "a XOR ucast x = b XOR ucast x" using crc_byte_inj Cons.prems(1) by blast
  then show ?case by (metis xor_right_cancel)
qed

text \<open>Four bytes, least significant first, as one word.\<close>

definition le_word :: "u8 list \<Rightarrow> u32" where
  "le_word bs = foldr (\<lambda>b w. ucast b XOR push_bit 8 w) bs 0"

lemma crc_step_push: "crc_byte gen (a XOR push_bit 8 w) = crc_byte gen a XOR w" if "drop_bit 24 w = 0" for w :: u32
proof -
  have "take_bit 24 w = w" using that by (metis bits_ident push_bit_of_0 add_0)
  then have "crc_byte gen (push_bit 8 w) = w"
    unfolding crc_byte_def by (intro crc_bits_push [where m = 24]) auto
  then show ?thesis by (simp add: crc_byte_xor)
qed

lemma le_word_Cons: "le_word (b # bs) = ucast b XOR push_bit 8 (le_word bs)"
  by (simp add: le_word_def)

lemma le_word_small: "length bs \<le> 3 \<Longrightarrow> drop_bit (8 * length bs) (le_word bs) = 0"
proof (induction bs)
  case Nil
  then show ?case by (simp add: le_word_def)
next
  case (Cons b bs)
  then have IH: "drop_bit (8 * length bs) (le_word bs) = 0" by simp
  show ?case
  proof (rule bit_eqI)
    fix n
    have "\<not> bit (le_word bs) (8 * length bs + n)"
      using IH by (rule drop_bit_zeroD)
    moreover have "bit (drop_bit (8 * length (b # bs)) (le_word (b # bs))) n \<longleftrightarrow>
        bit (le_word (b # bs)) (8 + (8 * length bs + n))"
      by (simp add: bit_drop_bit_eq algebra_simps)
    ultimately show "bit (drop_bit (8 * length (b # bs)) (le_word (b # bs))) n = bit (0 :: u32) n"
      unfolding le_word_Cons by (simp add: bit_xor_iff bit_push_bit_iff bit_ucast_iff)
        (auto dest: bit_boundsD)
  qed
qed

lemma le_word_drop24: "length bs \<le> 3 \<Longrightarrow> drop_bit 24 (le_word bs) = 0"
proof -
  assume l: "length bs \<le> 3"
  have "drop_bit 24 (le_word bs) = drop_bit (24 - 8 * length bs) (drop_bit (8 * length bs) (le_word bs))"
    using l by simp
  then show ?thesis using le_word_small [OF l] by simp
qed

text \<open>Consuming up to four bytes one by one is consuming their word and then dividing.\<close>

lemma fold_crc_word:
  "length bs \<le> 4 \<Longrightarrow> fold (crc_step (MakeCRCtable gen)) bs c = (crc_byte gen ^^ length bs) (c XOR le_word bs)"
proof (induction bs arbitrary: c)
  case Nil
  then show ?case by (simp add: le_word_def)
next
  case (Cons b bs)
  have "crc_byte gen (c XOR le_word (b # bs)) = crc_byte gen (c XOR ucast b) XOR le_word bs"
    using crc_step_push [OF le_word_drop24, of bs gen "c XOR ucast b"] Cons.prems
    by (simp add: le_word_Cons xor.assoc)
  then show ?case
    using Cons by (simp add: crc_step_bitwise funpow_swap1)
qed

lemma le_word_inj: "length as = length bs \<Longrightarrow> length as \<le> 4 \<Longrightarrow> le_word as = le_word bs \<Longrightarrow> as = bs"
proof (induction as bs rule: list_induct2)
  case Nil
  then show ?case by simp
next
  case (Cons a as b bs)
  have bits: "bit (le_word (c # cs)) n = (if n < 8 then bit c n else n < 32 \<and> bit (le_word cs) (n - 8))" for c cs n
    by (auto simp: le_word_Cons bit_simps dest: bit_boundsD)
  have "bit a n = bit b n" for n
    using Cons.prems(2) bits [of a as n] bits [of b bs n] by (cases "n < 8") (auto dest: bit_boundsD)
  then have "a = b" by (intro bit_eqI) simp
  moreover have "bit (le_word as) n = bit (le_word bs) n" for n
  proof (cases "n < 24")
    case True
    then show ?thesis using Cons.prems(2) bits [of a as "n + 8"] bits [of b bs "n + 8"] by simp
  next
    case False
    have "drop_bit 24 (le_word as) = 0" "drop_bit 24 (le_word bs) = 0"
      using Cons.prems Cons.hyps by (auto intro!: le_word_drop24)
    then have "\<not> bit (le_word as) (24 + (n - 24))" "\<not> bit (le_word bs) (24 + (n - 24))"
      using drop_bit_zeroD by blast+
    with False show ?thesis by simp
  qed
  ultimately show ?case using Cons by (auto intro: bit_eqI)
qed

lemma CalcCRC_burst:
  assumes "length e = length e'" and "length e \<le> 4" and "e \<noteq> e'"
  shows "CalcCRC (pre @ e @ post) crc (MakeCRCtable CRC_POLY) \<noteq> CalcCRC (pre @ e' @ post) crc (MakeCRCtable CRC_POLY)"
proof
  assume eq: "CalcCRC (pre @ e @ post) crc (MakeCRCtable CRC_POLY) = CalcCRC (pre @ e' @ post) crc (MakeCRCtable CRC_POLY)"
  have top: "bit CRC_POLY 31" by (simp add: CRC_POLY_def)
  let ?f = "fold (crc_step (MakeCRCtable CRC_POLY))"
  let ?c = "?f pre (NOT crc)"
  have "?f post (?f e ?c) = ?f post (?f e' ?c)"
    using eq by (simp add: CalcCRC_def bit.compl_eq_compl_iff)
  then have "?f e ?c = ?f e' ?c" by (rule fold_crc_inj [OF top])
  then have "(crc_byte CRC_POLY ^^ length e) (?c XOR le_word e) = (crc_byte CRC_POLY ^^ length e) (?c XOR le_word e')"
    using assms(1,2) by (simp add: fold_crc_word)
  moreover have "(crc_byte CRC_POLY ^^ n) a = (crc_byte CRC_POLY ^^ n) b \<Longrightarrow> a = b" for n a b
    by (induction n arbitrary: a b) (auto dest: crc_byte_inj [OF top])
  ultimately have "?c XOR le_word e = ?c XOR le_word e'" by blast
  then have "le_word e = le_word e'" by (metis xor_left_cancel)
  then show False using le_word_inj assms by blast
qed

section \<open>Properties of the CRC\<close>

text \<open>
  C32. The table-driven CRC is the bitwise one: for every polynomial, with the table that
  \<open>MakeCRCtable\<close> builds, \<open>CalcCRC\<close> of any message and any starting value is the result of
  feeding each byte into the register and dividing bit by bit, eight steps a byte.
\<close>

theorem CalcCRC_bitwise:
  "CalcCRC mem crc (MakeCRCtable gen) =
     NOT (fold (\<lambda>b c. (crc_bit gen ^^ 8) (c XOR ucast b)) mem (NOT crc))"
proof -
  have "fold (crc_step (MakeCRCtable gen)) mem c = fold (\<lambda>b c. (crc_bit gen ^^ 8) (c XOR ucast b)) mem c" for c
    by (induction mem arbitrary: c) (simp_all add: crc_step_bitwise crc_byte_def)
  then show ?thesis by (simp add: CalcCRC_def)
qed

text \<open>
  The CRC of the simulator's polynomial detects every burst of at most four bytes: two
  messages of the same length that differ only inside a window of up to four consecutive
  bytes have different CRCs.
\<close>

lemma CalcCRC_detects_bursts:
  assumes "length e = length e'" and "length e \<le> 4" and "e \<noteq> e'"
  shows "CalcCRC (pre @ e @ post) crc (MakeCRCtable CRC_POLY) \<noteq> CalcCRC (pre @ e' @ post) crc (MakeCRCtable CRC_POLY)"
  using assms by (rule CalcCRC_burst)

lemma CalcCRC_detects_bursts_example:
  "CalcCRC ([1] @ [2, 3] @ [4]) 0 (MakeCRCtable CRC_POLY) \<noteq> CalcCRC ([1] @ [3, 2] @ [4]) 0 (MakeCRCtable CRC_POLY)"
  by (rule CalcCRC_detects_bursts) simp_all

end
