(* ===== verification/Packets.thy ===== *)
theory Packets
  imports Crc
begin

unbundle bit_operations_syntax

text \<open>
  Packets of the cube network: \<open>CasHMC/sources/Packet.h\<close> and \<open>Packet.cpp\<close>. The enumerations
  with their codes, the packet record, its constructors, the CRC over header, data and
  tail, and the printing functions. A constructor of the source leaves some members
  uninitialised: it takes the memory it constructs in as the argument \<open>raw\<close> and overwrites
  what the source assigns. The global \<open>packetGlobalTAG\<close> is passed and returned. The values
  \<open>rand()\<close> returns while one packet is constructed are the argument \<open>rnd\<close>. A pointer to a
  transaction trace is an index into the store of traces, \<open>None\<close> the null pointer.
\<close>

section \<open>Enumerations\<close>

datatype PacketType = REQUEST | RESPONSE | FLOW

text \<open>
  \<open>_2ADD8\<close>, \<open>_2ADDS8R\<close> and \<open>NULL_\<close> of the source are \<open>TWOADD8\<close>, \<open>TWOADDS8R\<close> and
  \<open>NULL_CMD\<close>.
\<close>

datatype (plugins only: code size) PacketCommandType =
    WR16 | WR32 | WR48 | WR64 | WR80 | WR96 | WR112 | WR128 | MD_WR | WR256
  | P_WR16 | P_WR32 | P_WR48 | P_WR64 | P_WR80 | P_WR96 | P_WR112 | P_WR128 | P_WR256
  | RD16 | RD32 | RD48 | RD64 | RD80 | RD96 | RD112 | RD128 | RD256 | MD_RD
  | TWOADD8 | ADD16 | P_2ADD8 | P_ADD16 | TWOADDS8R | ADDS16R | INC8 | P_INC8
  | XOR16 | OR16 | NOR16 | AND16 | NAND16
  | CASGT8 | CASLT8 | CASGT16 | CASLT16 | CASEQ8 | CASZERO16 | EQ16 | EQ8
  | BWR | P_BWR | BWR8R | SWAP16
  | NULL_CMD | PRET | TRET | IRTRY
  | RD_RS | WR_RS | MD_RD_RS | MD_WR_RS | ERROR
  | ACT_GET | ACT_ADD | ACT_MULT | ACT_DOT | PEI_DOT | PEI_ATOMIC

text \<open>The commands with their codes and the names they are printed with, in source order.\<close>

primrec cmd_code :: "PacketCommandType \<Rightarrow> u32" where
  "cmd_code WR16 = 8" | "cmd_code WR32 = 9" | "cmd_code WR48 = 10" | "cmd_code WR64 = 11"
| "cmd_code WR80 = 12" | "cmd_code WR96 = 13" | "cmd_code WR112 = 14" | "cmd_code WR128 = 15"
| "cmd_code MD_WR = 16" | "cmd_code WR256 = 79"
| "cmd_code P_WR16 = 24" | "cmd_code P_WR32 = 25" | "cmd_code P_WR48 = 26" | "cmd_code P_WR64 = 27"
| "cmd_code P_WR80 = 28" | "cmd_code P_WR96 = 29" | "cmd_code P_WR112 = 30" | "cmd_code P_WR128 = 31"
| "cmd_code P_WR256 = 95"
| "cmd_code RD16 = 48" | "cmd_code RD32 = 49" | "cmd_code RD48 = 50" | "cmd_code RD64 = 51"
| "cmd_code RD80 = 52" | "cmd_code RD96 = 53" | "cmd_code RD112 = 54" | "cmd_code RD128 = 55"
| "cmd_code RD256 = 119" | "cmd_code MD_RD = 40"
| "cmd_code TWOADD8 = 18" | "cmd_code ADD16 = 19" | "cmd_code P_2ADD8 = 34" | "cmd_code P_ADD16 = 35"
| "cmd_code TWOADDS8R = 82" | "cmd_code ADDS16R = 83" | "cmd_code INC8 = 80" | "cmd_code P_INC8 = 84"
| "cmd_code XOR16 = 64" | "cmd_code OR16 = 65" | "cmd_code NOR16 = 66" | "cmd_code AND16 = 67"
| "cmd_code NAND16 = 68"
| "cmd_code CASGT8 = 96" | "cmd_code CASLT8 = 97" | "cmd_code CASGT16 = 98" | "cmd_code CASLT16 = 99"
| "cmd_code CASEQ8 = 100" | "cmd_code CASZERO16 = 101" | "cmd_code EQ16 = 104" | "cmd_code EQ8 = 105"
| "cmd_code BWR = 17" | "cmd_code P_BWR = 33" | "cmd_code BWR8R = 81" | "cmd_code SWAP16 = 106"
| "cmd_code NULL_CMD = 0" | "cmd_code PRET = 1" | "cmd_code TRET = 2" | "cmd_code IRTRY = 3"
| "cmd_code RD_RS = 56" | "cmd_code WR_RS = 57" | "cmd_code MD_RD_RS = 58" | "cmd_code MD_WR_RS = 59"
| "cmd_code ERROR = 62"
| "cmd_code ACT_GET = 108" | "cmd_code ACT_ADD = 109" | "cmd_code ACT_MULT = 110" | "cmd_code ACT_DOT = 111"
| "cmd_code PEI_DOT = 112" | "cmd_code PEI_ATOMIC = 113"

text \<open>\<open>operator<<\<close> on a command; \<open>MD_RD_RS\<close> is printed with a stray bracket.\<close>

primrec show_cmd :: "PacketCommandType \<Rightarrow> string" where
  "show_cmd WR16 = ''WR16''" | "show_cmd WR32 = ''WR32''" | "show_cmd WR48 = ''WR48''"
| "show_cmd WR64 = ''WR64''" | "show_cmd WR80 = ''WR80''" | "show_cmd WR96 = ''WR96''"
| "show_cmd WR112 = ''WR112''" | "show_cmd WR128 = ''WR128''" | "show_cmd MD_WR = ''MD_WR''"
| "show_cmd WR256 = ''WR256''"
| "show_cmd P_WR16 = ''P_WR16''" | "show_cmd P_WR32 = ''P_WR32''" | "show_cmd P_WR48 = ''P_WR48''"
| "show_cmd P_WR64 = ''P_WR64''" | "show_cmd P_WR80 = ''P_WR80''" | "show_cmd P_WR96 = ''P_WR96''"
| "show_cmd P_WR112 = ''P_WR112''" | "show_cmd P_WR128 = ''P_WR128''" | "show_cmd P_WR256 = ''P_WR256''"
| "show_cmd RD16 = ''RD16''" | "show_cmd RD32 = ''RD32''" | "show_cmd RD48 = ''RD48''"
| "show_cmd RD64 = ''RD64''" | "show_cmd RD80 = ''RD80''" | "show_cmd RD96 = ''RD96''"
| "show_cmd RD112 = ''RD112''" | "show_cmd RD128 = ''RD128''" | "show_cmd RD256 = ''RD256''"
| "show_cmd MD_RD = ''MD_RD''"
| "show_cmd TWOADD8 = ''2ADD8''" | "show_cmd ADD16 = ''ADD16''" | "show_cmd P_2ADD8 = ''P_2ADD8''"
| "show_cmd P_ADD16 = ''P_ADD16''" | "show_cmd TWOADDS8R = ''2ADDS8R''" | "show_cmd ADDS16R = ''ADDS16R''"
| "show_cmd INC8 = ''INC8''" | "show_cmd P_INC8 = ''P_INC8''"
| "show_cmd XOR16 = ''XOR16''" | "show_cmd OR16 = ''OR16''" | "show_cmd NOR16 = ''NOR16''"
| "show_cmd AND16 = ''AND16''" | "show_cmd NAND16 = ''NAND16''"
| "show_cmd CASGT8 = ''CASGT8''" | "show_cmd CASLT8 = ''CASLT8''" | "show_cmd CASGT16 = ''CASGT16''"
| "show_cmd CASLT16 = ''CASLT16''" | "show_cmd CASEQ8 = ''CASEQ8''" | "show_cmd CASZERO16 = ''CASZR16''"
| "show_cmd EQ16 = ''EQ16''" | "show_cmd EQ8 = ''EQ8''"
| "show_cmd BWR = ''BWR''" | "show_cmd P_BWR = ''P_BWR''" | "show_cmd BWR8R = ''BWR8R''"
| "show_cmd SWAP16 = ''SWAP16''"
| "show_cmd NULL_CMD = ''NULL''" | "show_cmd PRET = ''PRET''" | "show_cmd TRET = ''TRET''"
| "show_cmd IRTRY = ''IRTRY''"
| "show_cmd RD_RS = ''RD_RS''" | "show_cmd WR_RS = ''WR_RS''" | "show_cmd MD_RD_RS = ''MD_RD_RS]''"
| "show_cmd MD_WR_RS = ''MD_WR_RS''"
| "show_cmd ACT_GET = ''ACT_GET''" | "show_cmd ACT_ADD = ''ACT_ADD''" | "show_cmd ACT_MULT = ''ACT_MULT''"
| "show_cmd ACT_DOT = ''ACT_DOT''" | "show_cmd PEI_DOT = ''PEI_DOT''" | "show_cmd PEI_ATOMIC = ''PEI_ATOMIC''"
| "show_cmd ERROR = ''ERROR''"

section \<open>The packet\<close>

record packet =
  trace :: "nat option"
  packetType :: PacketType
  bufPopDelay :: int
  DATA :: "u64 list option"
  CRCtable :: "u32 list"
  chkCRC :: bool
  chkRRP :: bool
  segment :: bool
  reqDataSize :: u32
  counted :: bool
  CUB :: u32
  TAG :: u32
  LNG :: u32
  CMD :: PacketCommandType
  CRC :: u32
  RTC :: u32
  SLID :: u32
  SEQ :: u32
  FRP :: u32
  RRP :: u32
  ADRS :: u64
  Pb :: u64
  AF :: u32
  ERRSTAT :: u32
  DINV :: u32
  DESTADRS :: u64
  SRCADRS1 :: u64
  SRCADRS2 :: u64
  LINES :: u32
  halfPkt1 :: bool
  halfPkt2 :: bool
  active :: bool
  SRCCUB :: int
  DESTCUB :: int
  DESTCUB1 :: int
  DESTCUB2 :: int
  orig_addr :: u64
  tran_tag :: u64
  operandBufID :: int
  vaultOperandBufID :: int
  computeVault :: int
  URTC :: u32
  DRTC :: u32

section \<open>Constructors\<close>

text \<open>
  The last part of every constructor: with \<open>CRC_CHECK\<close>, random data of two words for each
  FLIT after the first and the CRC table; without it, no data and an uninitialised table.
\<close>

definition packet_data :: "(nat \<Rightarrow> u64) \<Rightarrow> u32 \<Rightarrow> u64 list option" where
  "packet_data rnd lng = (if lng > 1
     then Some (map (\<lambda>i. push_bit 32 (rnd (2 * i)) OR rnd (2 * i + 1)) [0..<unat ((lng - 1) * 2)])
     else None)"

definition packet_payload :: "bool \<Rightarrow> (nat \<Rightarrow> u64) \<Rightarrow> packet \<Rightarrow> packet" where
  "packet_payload CRC_CHECK rnd p = (if CRC_CHECK
     then p\<lparr>DATA := packet_data rnd (LNG p), CRCtable := MakeCRCtable CRC_POLY\<rparr>
     else p\<lparr>DATA := None\<rparr>)"

text \<open>The assignments that all four constructors share.\<close>

definition packet_reset :: "packet \<Rightarrow> packet" where
  "packet_reset p = p\<lparr>counted := False, bufPopDelay := 1, Pb := 0, CRC := 0, RTC := 0, SLID := 0,
     SEQ := 0, FRP := 0, RRP := 0, AF := 0, ERRSTAT := 0, DINV := 0, chkCRC := False, chkRRP := False,
     segment := False, reqDataSize := 16, operandBufID := -1, halfPkt1 := False, halfPkt2 := False,
     active := False, orig_addr := 0, tran_tag := 0, URTC := 0, DRTC := 0\<rparr>"

definition Packet_request ::
  "bool \<Rightarrow> (nat \<Rightarrow> u64) \<Rightarrow> packet \<Rightarrow> u32 \<Rightarrow> PacketType \<Rightarrow> PacketCommandType \<Rightarrow> u64 \<Rightarrow> u32 \<Rightarrow> u32
     \<Rightarrow> nat option \<Rightarrow> int \<Rightarrow> int \<Rightarrow> packet \<times> u32" where
  "Packet_request CRC_CHECK rnd raw packetGlobalTAG pkt cmd addr cub lng lat src dest =
     (let p = (packet_reset raw)\<lparr>packetType := pkt, CMD := cmd, ADRS := addr, CUB := cub, LNG := lng,
            trace := lat, SRCCUB := src, DESTCUB := dest\<rparr>;
          (p, gtag) = (if pkt \<noteq> FLOW then (p\<lparr>TAG := packetGlobalTAG\<rparr>, packetGlobalTAG + 1)
                       else (p\<lparr>TAG := 0\<rparr>, packetGlobalTAG));
          p = p\<lparr>ADRS := drop_bit 30 (push_bit 30 (ADRS p)), DESTADRS := 0, SRCADRS1 := 0, SRCADRS2 := 0,
            DESTCUB1 := -1, DESTCUB2 := -1, LINES := 0\<rparr>
      in (packet_payload CRC_CHECK rnd p, gtag))"

text \<open>The two active requests report a \<open>FLOW\<close> packet type as an error and go on.\<close>

definition Packet_active ::
  "bool \<Rightarrow> (nat \<Rightarrow> u64) \<Rightarrow> packet \<Rightarrow> u32 \<Rightarrow> PacketType \<Rightarrow> PacketCommandType \<Rightarrow> u64 \<Rightarrow> u64 \<Rightarrow> u32 \<Rightarrow> u32
     \<Rightarrow> nat option \<Rightarrow> int \<Rightarrow> int \<Rightarrow> packet \<times> u32" where
  "Packet_active CRC_CHECK rnd raw packetGlobalTAG pkt cmd dest_addr src_addr cub lng lat src dest =
     (let p = (packet_reset raw)\<lparr>packetType := pkt, CMD := cmd, DESTADRS := dest_addr, SRCADRS1 := src_addr,
            CUB := cub, LNG := lng, trace := lat, SRCCUB := src, DESTCUB := dest, TAG := packetGlobalTAG,
            ADRS := 0, SRCADRS2 := 0, DESTCUB1 := -1, DESTCUB2 := -1, LINES := 1\<rparr>
      in (packet_payload CRC_CHECK rnd p, packetGlobalTAG + 1))"

definition Packet_active2 ::
  "bool \<Rightarrow> (nat \<Rightarrow> u64) \<Rightarrow> packet \<Rightarrow> u32 \<Rightarrow> PacketType \<Rightarrow> PacketCommandType \<Rightarrow> u32 \<Rightarrow> u32 \<Rightarrow> nat option
     \<Rightarrow> u64 \<Rightarrow> u64 \<Rightarrow> u64 \<Rightarrow> int \<Rightarrow> int \<Rightarrow> int \<Rightarrow> packet \<times> u32" where
  "Packet_active2 CRC_CHECK rnd raw packetGlobalTAG pkt cmd cub lng lat dest_addr src_addr1 src_addr2 src dest1 dest2 =
     (let p = (packet_reset raw)\<lparr>packetType := pkt, CMD := cmd, DESTADRS := dest_addr, SRCADRS1 := src_addr1,
            SRCADRS2 := src_addr2, CUB := cub, LNG := lng, trace := lat, SRCCUB := src, DESTCUB := dest1,
            DESTCUB1 := dest1, DESTCUB2 := dest2, TAG := packetGlobalTAG, ADRS := 0, LINES := 1\<rparr>
      in (packet_payload CRC_CHECK rnd p, packetGlobalTAG + 1))"

definition Packet_response ::
  "bool \<Rightarrow> (nat \<Rightarrow> u64) \<Rightarrow> packet \<Rightarrow> PacketType \<Rightarrow> PacketCommandType \<Rightarrow> u32 \<Rightarrow> u32 \<Rightarrow> nat option \<Rightarrow> int \<Rightarrow> int
     \<Rightarrow> packet" where
  "Packet_response CRC_CHECK rnd raw pkt cmd tag lng lat src dest =
     packet_payload CRC_CHECK rnd ((packet_reset raw)\<lparr>packetType := pkt, CMD := cmd, TAG := tag, LNG := lng,
       trace := lat, SRCCUB := src, DESTCUB := dest, CUB := 0, DESTADRS := 0, SRCADRS1 := 0, SRCADRS2 := 0,
       DESTCUB1 := -1, DESTCUB2 := -1, LINES := 0\<rparr>)"

text \<open>
  The copy constructor copies every member but \<open>counted\<close> and \<open>active\<close>, which keep what the
  memory held, and draws new data.
\<close>

definition Packet_copy :: "bool \<Rightarrow> (nat \<Rightarrow> u64) \<Rightarrow> packet \<Rightarrow> packet \<Rightarrow> packet" where
  "Packet_copy CRC_CHECK rnd raw f =
     packet_payload CRC_CHECK rnd (f\<lparr>counted := counted raw, active := active raw, CRCtable := CRCtable raw\<rparr>)"

definition ReductGlobalTAG :: "u32 \<Rightarrow> u32" where
  "ReductGlobalTAG packetGlobalTAG = packetGlobalTAG - 1"

section \<open>The CRC of a packet\<close>

fun shift_in :: "nat \<times> u64 \<Rightarrow> u64 \<Rightarrow> u64" where
  "shift_in (n, v) w = push_bit n w OR v"

definition header_fields :: "packet \<Rightarrow> (nat \<times> u64) list" where
  "header_fields p = (if packetType p = REQUEST
     then [(3, ucast (CUB p AND 0x7)), (3, 0), (34, ADRS p AND 0x3FFFFFFFF), (1, 0),
           (11, ucast (TAG p AND 0x7FF)), (5, ucast (LNG p AND 0x1F)), (7, ucast (cmd_code (CMD p) AND 0x7F))]
     else [(3, ucast (CUB p AND 0x7)), (19, 0), (3, ucast (SLID p AND 0x7)), (5, 0), (1, ucast (AF p AND 0x1)),
           (10, 0), (11, ucast (TAG p AND 0x7FF)), (5, ucast (LNG p AND 0x1F)),
           (7, ucast (cmd_code (CMD p) AND 0x7F))])"

definition tail_fields :: "packet \<Rightarrow> (nat \<times> u64) list" where
  "tail_fields p = (if packetType p = REQUEST
     then [(32, 0), (3, ucast ((URTC p + DRTC p) AND 0x7)), (3, ucast (SLID p AND 0x7)), (4, 0), (1, Pb p AND 0x1),
           (3, ucast (SEQ p AND 0x7)), (9, ucast (FRP p AND 0x1FF)), (9, ucast (RRP p AND 0x1FF))]
     else [(32, 0), (3, ucast ((URTC p + DRTC p) AND 0x7)), (7, ucast (ERRSTAT p AND 0x7F)),
           (1, ucast (DINV p AND 0x1)), (3, ucast (SEQ p AND 0x7)), (9, ucast (FRP p AND 0x1FF)),
           (9, ucast (RRP p AND 0x1FF))])"

definition word_bytes :: "u64 \<Rightarrow> u8 list" where
  "word_bytes w = map (\<lambda>i. ucast ((drop_bit 8 ^^ i) w)) [0..<8]"

text \<open>
  \<open>garbage\<close> is the content of the local array \<open>packetData\<close> before its first assignment: the
  source shifts the header and the tail into uninitialised words. An array of size zero, a
  null \<open>DATA\<close> that is read and a \<open>DATA\<close> shorter than \<open>LNG\<close> says are undefined behaviour.
\<close>

definition packet_words :: "(nat \<Rightarrow> u64) \<Rightarrow> packet \<Rightarrow> u64 list result" where
  "packet_words garbage p = (let n = unat (LNG p) * 2; dat = (case DATA p of None \<Rightarrow> [] | Some d \<Rightarrow> d)
     in checkE (0 < n \<and> n < 2 ^ 32) (Undefined ''packetData'')
       (checkE (n - 2 \<le> length dat) (Undefined ''DATA'')
         (Inr (fold shift_in (header_fields p) (garbage 0) # take (n - 2) dat
               @ [fold shift_in (tail_fields p) (garbage (n - 1))]))))"

definition GetCRC :: "(nat \<Rightarrow> u64) \<Rightarrow> packet \<Rightarrow> u32 result" where
  "GetCRC garbage p = bindE (packet_words garbage p) (\<lambda>ws.
     Inr (fold (\<lambda>w crc. CalcCRC (word_bytes w) crc (CRCtable p)) ws 0))"

section \<open>Printing\<close>

fun show_nat :: "nat \<Rightarrow> string" where
  "show_nat n = (if n < 10 then [char_of (48 + n)] else show_nat (n div 10) @ [char_of (48 + n mod 10)])"

declare show_nat.simps [simp del]

primrec show_packet_type :: "PacketType \<Rightarrow> string" where
  "show_packet_type REQUEST = ''REQ''"
| "show_packet_type RESPONSE = ''REP''"
| "show_packet_type FLOW = ''FLOW''"

text \<open>\<open>operator<<\<close> on a packet.\<close>

definition packet_cmd_name :: "packet \<Rightarrow> string" where
  "packet_cmd_name p = (if CMD p = IRTRY then (if FRP p = 1 then ''IRTRY1'' else if FRP p = 2 then ''IRTRY2'' else ''IRTRY'')
     else if CMD p = MD_RD_RS then ''MD_RD_RS'' else show_cmd (CMD p))"

definition show_packet :: "packet \<Rightarrow> string" where
  "show_packet p = ''[P'' @ show_nat (unat (TAG p)) @ ''-'' @ show_packet_type (packetType p)
     @ ''-'' @ packet_cmd_name p @ '']''"

section \<open>Packing fields into a word\<close>

abbreviation fields_width :: "(nat \<times> u64) list \<Rightarrow> nat" where
  "fields_width fs \<equiv> sum_list (map fst fs)"

abbreviation field_ok :: "nat \<times> u64 \<Rightarrow> bool" where
  "field_ok f \<equiv> take_bit (fst f) (snd f) = snd f"

lemma take_bit_eq_boundD: "take_bit n (v :: u64) = v \<Longrightarrow> bit v i \<Longrightarrow> i < n"
  by (metis bit_take_bit_iff)

lemma fold_shift_in: "fold shift_in fs w = push_bit (fields_width fs) w OR fold shift_in fs 0"
proof (induction fs arbitrary: w)
  case Nil
  then show ?case by simp
next
  case (Cons f fs)
  obtain n v where f: "f = (n, v)" by (cases f)
  have "fold shift_in (f # fs) w = push_bit (fields_width fs) (push_bit n w OR v) OR fold shift_in fs 0"
    using Cons.IH [of "push_bit n w OR v"] by (simp add: f)
  also have "\<dots> = push_bit (fields_width (f # fs)) w OR (push_bit (fields_width fs) v OR fold shift_in fs 0)"
    by (simp add: f push_bit_or or.assoc add.commute)
  also have "push_bit (fields_width fs) v OR fold shift_in fs 0 = fold shift_in (f # fs) 0"
    using Cons.IH [of v] by (simp add: f)
  finally show ?case .
qed

lemma push_bit_64 [simp]: "push_bit 64 (w :: u64) = 0"
  by (rule bit_eqI) (simp add: bit_push_bit_iff)

text \<open>Fields that fill the word push out whatever it held.\<close>

lemma fold_shift_in_full: "fields_width fs = 64 \<Longrightarrow> fold shift_in fs w = fold shift_in fs 0"
  using fold_shift_in [of fs w] by simp

lemma fold_shift_in_small:
  "\<forall>f \<in> set fs. field_ok f \<Longrightarrow> bit (fold shift_in fs 0) i \<Longrightarrow> i < fields_width fs"
proof (induction fs)
  case Nil
  then show ?case by simp
next
  case (Cons f fs)
  from Cons.prems(2) have "bit (push_bit (fields_width fs) (snd f) OR fold shift_in fs 0) i"
    using fold_shift_in [of fs "snd f"] by (cases f) simp
  then consider "fields_width fs \<le> i" "bit (snd f) (i - fields_width fs)" | "bit (fold shift_in fs 0) i"
    by (auto simp: bit_or_iff bit_push_bit_iff)
  then show ?case
  proof cases
    case 1
    then show ?thesis using take_bit_eq_boundD [of "fst f" "snd f" "i - fields_width fs"] Cons.prems(1) by auto
  next
    case 2
    then show ?thesis using Cons.IH Cons.prems(1) by fastforce
  qed
qed

text \<open>The field that is followed by the fields \<open>gs\<close> is read back above their width.\<close>

lemma shift_in_extract:
  assumes "\<forall>g \<in> set gs. field_ok g" and "field_ok f" and "fst f + fields_width gs \<le> 64"
  shows "take_bit (fst f) (drop_bit (fields_width gs) (fold shift_in (fs @ f # gs) w)) = snd f"
proof (rule bit_eqI)
  fix i
  let ?W = "fields_width gs"
  let ?v = "push_bit (fst f) (fold shift_in fs w) OR snd f"
  have "fold shift_in (fs @ f # gs) w = push_bit ?W ?v OR fold shift_in gs 0"
    using fold_shift_in [of gs ?v] by (cases f) simp
  then have "bit (take_bit (fst f) (drop_bit ?W (fold shift_in (fs @ f # gs) w))) i \<longleftrightarrow>
      i < fst f \<and> (bit (push_bit ?W ?v) (?W + i) \<or> bit (fold shift_in gs 0) (?W + i))"
    by (simp only: bit_take_bit_iff bit_drop_bit_eq bit_or_iff comp_apply)
  also have "\<dots> \<longleftrightarrow> i < fst f \<and> bit ?v i"
    using fold_shift_in_small [OF assms(1), of "?W + i"] assms(3)
    unfolding bit_push_bit_iff [of ?W] by auto
  also have "\<dots> \<longleftrightarrow> bit (snd f) i"
    using take_bit_eq_boundD [OF assms(2)] by (auto simp: bit_or_iff bit_push_bit_iff)
  finally show "bit (take_bit (fst f) (drop_bit ?W (fold shift_in (fs @ f # gs) w))) i = bit (snd f) i" .
qed

lemma header_width [simp]: "fields_width (header_fields p) = 64"
  by (simp add: header_fields_def)

lemma tail_width [simp]: "fields_width (tail_fields p) = 64"
  by (simp add: tail_fields_def)

lemma packet_words_garbage: "packet_words garbage p = packet_words (\<lambda>i. 0) p"
  using fold_shift_in_full [OF header_width, of p "garbage 0"]
    fold_shift_in_full [OF tail_width, of p "garbage (unat (LNG p) * 2 - 1)"]
  by (simp add: packet_words_def Let_def)

text \<open>The CRC is accumulated over the words as over the concatenation of their bytes.\<close>

lemma CalcCRC_append: "CalcCRC (xs @ ys) crc table = CalcCRC ys (CalcCRC xs crc table) table"
  by (simp add: CalcCRC_def)

lemma fold_CalcCRC: "fold (\<lambda>w crc. CalcCRC (word_bytes w) crc table) ws crc
    = CalcCRC (concat (map word_bytes ws)) crc table"
  by (induction ws arbitrary: crc) (simp_all add: CalcCRC_append, simp add: CalcCRC_def)

section \<open>Reading a header\<close>

record header =
  h_CUB :: u64
  h_ADRS :: u64
  h_TAG :: u64
  h_LNG :: u64
  h_CMD :: u64

definition decode_request :: "u64 \<Rightarrow> header" where
  "decode_request w = \<lparr>h_CUB = take_bit 3 (drop_bit 61 w), h_ADRS = take_bit 34 (drop_bit 24 w),
     h_TAG = take_bit 11 (drop_bit 12 w), h_LNG = take_bit 5 (drop_bit 7 w), h_CMD = take_bit 7 w\<rparr>"

lemma take_bit_and_mask: "take_bit n (v AND mask n) = (v AND mask n :: u64)"
  by (simp add: take_bit_eq_mask and.assoc)

lemma ucast_and_mask: "take_bit n (ucast (v AND mask n :: u32) :: u64) = ucast (v AND mask n)"
  by (rule bit_eqI) (auto simp: bit_simps)

lemmas masks = ucast_and_mask [of 3, unfolded mask_eq_exp_minus_1, simplified]
  ucast_and_mask [of 11, unfolded mask_eq_exp_minus_1, simplified]
  ucast_and_mask [of 5, unfolded mask_eq_exp_minus_1, simplified]
  ucast_and_mask [of 7, unfolded mask_eq_exp_minus_1, simplified]
  take_bit_and_mask [of 34, unfolded mask_eq_exp_minus_1, simplified]

section \<open>Reading codes and names\<close>

definition all_cmds :: "PacketCommandType list" where
  "all_cmds = [
    WR16, WR32, WR48, WR64, WR80, WR96, WR112, WR128, MD_WR, WR256, P_WR16, P_WR32, P_WR48,
    P_WR64, P_WR80, P_WR96, P_WR112, P_WR128, P_WR256, RD16, RD32, RD48, RD64, RD80, RD96,
    RD112, RD128, RD256, MD_RD, TWOADD8, ADD16, P_2ADD8, P_ADD16, TWOADDS8R, ADDS16R, INC8,
    P_INC8, XOR16, OR16, NOR16, AND16, NAND16, CASGT8, CASLT8, CASGT16, CASLT16, CASEQ8,
    CASZERO16, EQ16, EQ8, BWR, P_BWR, BWR8R, SWAP16, NULL_CMD, PRET, TRET, IRTRY, RD_RS, WR_RS,
    MD_RD_RS, MD_WR_RS, ERROR, ACT_GET, ACT_ADD, ACT_MULT, ACT_DOT, PEI_DOT, PEI_ATOMIC]"

definition cmd_of_code :: "u32 \<Rightarrow> PacketCommandType option" where
  "cmd_of_code k = map_of (map (\<lambda>c. (cmd_code c, c)) all_cmds) k"

definition cmd_of_name :: "string \<Rightarrow> PacketCommandType option" where
  "cmd_of_name s = map_of (map (\<lambda>c. (show_cmd c, c)) all_cmds) s"

lemma cmd_of_code_code: "cmd_of_code (cmd_code c) = Some c"
  by (cases c) (simp_all add: cmd_of_code_def all_cmds_def)

lemma cmd_of_name_show: "cmd_of_name (show_cmd c) = Some c"
  by (cases c) (simp_all add: cmd_of_name_def all_cmds_def)

lemma cmd_code_7_bits: "cmd_code c AND 0x7F = cmd_code c"
  by (cases c) simp_all

lemma ucast_eq_u64: "(ucast (a :: u32) :: u64) = ucast b \<longleftrightarrow> a = b"
proof -
  have "ucast (ucast c :: u64) = c" for c :: u32 by (rule bit_eqI) (auto simp: bit_simps)
  then show ?thesis by metis
qed

text \<open>The tag sits at bits 12 to 22 of both header formats; no other bit depends on it.\<close>

lemma header_tag_split: "\<exists>pre (l :: u32) (m :: u32). \<forall>t. header_fields (p\<lparr>TAG := t\<rparr>) =
    pre @ (11, ucast (t AND 0x7FF)) # [(5, ucast (l AND 0x1F)), (7, ucast (m AND 0x7F))]"
  by (rule exI [of _ "take (length (header_fields p) - 3) (header_fields p)"], rule exI [of _ "LNG p"],
      rule exI [of _ "cmd_code (CMD p)"]) (simp add: header_fields_def)

lemma header_tag: "take_bit 11 (drop_bit 12 (fold shift_in (header_fields p) w)) = ucast (TAG p AND 0x7FF)"
proof -
  obtain pre and l m :: u32 where "\<forall>t. header_fields (p\<lparr>TAG := t\<rparr>) =
    pre @ (11, ucast (t AND 0x7FF)) # [(5, ucast (l AND 0x1F)), (7, ucast (m AND 0x7F))]"
    using header_tag_split by blast
  from spec [OF this, of "TAG p"] show ?thesis
    using shift_in_extract [of "[(5, ucast (l AND 0x1F)), (7, ucast (m AND 0x7F))]" "(11, ucast (TAG p AND 0x7FF))" pre w]
    by (simp add: masks del: shift_in.simps)
qed

lemma header_same_outside_tag:
  assumes "i < 12 \<or> 23 \<le> i"
  shows "bit (fold shift_in (header_fields (p\<lparr>TAG := t\<rparr>)) 0) i = bit (fold shift_in (header_fields (p\<lparr>TAG := t'\<rparr>)) 0) i"
proof -
  obtain pre and l m :: u32 where h: "\<forall>t. header_fields (p\<lparr>TAG := t\<rparr>) =
    pre @ (11, ucast (t AND 0x7FF)) # [(5, ucast (l AND 0x1F)), (7, ucast (m AND 0x7F))]"
    using header_tag_split by blast
  let ?L = "fold shift_in [(5, ucast (l AND 0x1F)), (7, ucast (m AND 0x7F))] 0"
  have v: "bit (ucast (t AND 0x7FF) :: u64) n \<Longrightarrow> n < 11" for t :: u32 and n
    by (rule take_bit_eq_boundD) (rule masks(2))
  have "fold shift_in (header_fields (p\<lparr>TAG := t\<rparr>)) 0 =
      push_bit 12 (push_bit 11 (fold shift_in pre 0) OR ucast (t AND 0x7FF)) OR ?L" for t
    using fold_shift_in [of "[(5, ucast (l AND 0x1F)), (7, ucast (m AND 0x7F))]"
      "push_bit 11 (fold shift_in pre 0) OR ucast (t AND 0x7FF)"] by (simp add: h)
  moreover have "\<not> (12 \<le> i \<and> bit (ucast (t AND 0x7FF) :: u64) (i - 12))" for t :: u32
    using assms v [of t "i - 12"] by auto
  ultimately show ?thesis by (simp only: bit_or_iff bit_push_bit_iff) blast
qed

section \<open>Bytes of a word\<close>

lemma word_bytes_nth: "j < 8 \<Longrightarrow> word_bytes w ! j = ucast (drop_bit (8 * j) w)"
proof -
  have "(drop_bit 8 ^^ j) w = drop_bit (8 * j) w" for j
    by (induction j) (simp_all add: drop_bit_drop_bit)
  then show "j < 8 \<Longrightarrow> ?thesis" by (simp add: word_bytes_def)
qed

lemma length_word_bytes [simp]: "length (word_bytes w) = 8"
  by (simp add: word_bytes_def)

lemma bit_word_bytes: "j < 8 \<Longrightarrow> bit (word_bytes w ! j) n \<longleftrightarrow> n < 8 \<and> bit w (8 * j + n)"
  by (simp add: word_bytes_nth bit_simps)

lemma word_bytes_eq_nth: "j < 8 \<Longrightarrow> (\<And>n. n < 8 \<Longrightarrow> bit w (8 * j + n) = bit w' (8 * j + n))
    \<Longrightarrow> word_bytes w ! j = word_bytes w' ! j"
  by (rule bit_eqI) (auto simp: bit_word_bytes)

lemma word_bytes_inj: "word_bytes w = word_bytes w' \<Longrightarrow> w = w'"
proof (rule bit_eqI)
  fix i assume eq: "word_bytes w = word_bytes w'"
  show "bit w i = bit w' i"
  proof (cases "i < 64")
    case True
    then have "i div 8 < 8" "i mod 8 < 8" "8 * (i div 8) + i mod 8 = i" by auto
    then show ?thesis using bit_word_bytes [of "i div 8"] eq by metis
  next
    case False
    then show ?thesis by (auto dest: bit_u64D)
  qed
qed

text \<open>Words that differ only inside four aligned bytes differ in a burst of their byte strings.\<close>

lemma word_bytes_burst:
  assumes "w \<noteq> w'" and "a + 4 \<le> 8" and "\<And>i. i < 8 * a \<or> 8 * (a + 4) \<le> i \<Longrightarrow> bit w i = bit w' i"
  shows "\<exists>pre e e' post. word_bytes w = pre @ e @ post \<and> word_bytes w' = pre @ e' @ post
    \<and> length e = 4 \<and> length e' = 4 \<and> e \<noteq> e'"
proof -
  let ?f = "\<lambda>w. take a (word_bytes w)" and ?m = "\<lambda>w. take 4 (drop a (word_bytes w))"
    and ?l = "\<lambda>w. drop (a + 4) (word_bytes w)"
  have split: "word_bytes w = ?f w @ ?m w @ ?l w" for w
    by (metis append_take_drop_id drop_drop add.commute)
  have "?f w = ?f w'"
    using assms(2,3) by (intro nth_equalityI) (auto intro!: word_bytes_eq_nth)
  moreover have "?l w = ?l w'"
    using assms(2,3) by (intro nth_equalityI) (auto intro!: word_bytes_eq_nth)
  moreover have "?m w \<noteq> ?m w'"
    using calculation split [of w] split [of w'] word_bytes_inj [of w w'] assms(1) by metis
  ultimately show ?thesis using split [of w] split [of w'] assms(2)
    by (intro exI [of _ "?f w"] exI [of _ "?m w"] exI [of _ "?m w'"] exI [of _ "?l w"]) (auto simp: min_def)
qed

lemma CalcCRC_word_burst:
  assumes "w \<noteq> w'" and "a + 4 \<le> 8" and "\<And>i. i < 8 * a \<or> 8 * (a + 4) \<le> i \<Longrightarrow> bit w i = bit w' i"
  shows "fold (\<lambda>w crc. CalcCRC (word_bytes w) crc (MakeCRCtable CRC_POLY)) (us @ w # vs) c
    \<noteq> fold (\<lambda>w crc. CalcCRC (word_bytes w) crc (MakeCRCtable CRC_POLY)) (us @ w' # vs) c"
proof -
  obtain pre e e' post where b: "word_bytes w = pre @ e @ post" "word_bytes w' = pre @ e' @ post"
    "length e = 4" "length e' = 4" "e \<noteq> e'"
    using word_bytes_burst [OF assms] by blast
  let ?u = "concat (map word_bytes us) @ pre" and ?v = "post @ concat (map word_bytes vs)"
  have "CalcCRC (?u @ e @ ?v) c (MakeCRCtable CRC_POLY) \<noteq> CalcCRC (?u @ e' @ ?v) c (MakeCRCtable CRC_POLY)"
    using b by (intro CalcCRC_burst) simp_all
  then show ?thesis unfolding fold_CalcCRC by (simp add: b(1,2))
qed

text \<open>A packet for the examples: a read request of tag \<open>t\<close> built in zeroed memory.\<close>

definition zero_packet :: packet where
  "zero_packet = \<lparr>trace = None, packetType = REQUEST, bufPopDelay = 0, DATA = None, CRCtable = replicate 256 0,
     chkCRC = False, chkRRP = False, segment = False, reqDataSize = 0, counted = False, CUB = 0, TAG = 0, LNG = 0,
     CMD = NULL_CMD, CRC = 0, RTC = 0, SLID = 0, SEQ = 0, FRP = 0, RRP = 0, ADRS = 0, Pb = 0, AF = 0, ERRSTAT = 0,
     DINV = 0, DESTADRS = 0, SRCADRS1 = 0, SRCADRS2 = 0, LINES = 0, halfPkt1 = False, halfPkt2 = False,
     active = False, SRCCUB = 0, DESTCUB = 0, DESTCUB1 = 0, DESTCUB2 = 0, orig_addr = 0, tran_tag = 0,
     operandBufID = 0, vaultOperandBufID = 0, computeVault = 0, URTC = 0, DRTC = 0\<rparr>"

definition example_packet :: "u32 \<Rightarrow> packet" where
  "example_packet t = fst (Packet_request True (\<lambda>i. 0) zero_packet t REQUEST RD64 0x1000 2 1 None 0 1)"

section \<open>Properties of packets\<close>

text \<open>
  The seven-bit command field identifies the command: masking a code to seven bits, as
  the header does, loses nothing, and the code determines the command.
\<close>

lemma cmd_code_roundtrip: "cmd_of_code (cmd_code c AND 0x7F) = Some c"
  by (simp only: cmd_code_7_bits cmd_of_code_code)

text \<open>
  The name \<open>operator<<\<close> prints for a command determines the command.
\<close>

lemma show_cmd_roundtrip: "cmd_of_name (show_cmd c) = Some c"
  by (rule cmd_of_name_show)

text \<open>
  The CRC of a packet does not depend on the uninitialised words its header and tail are
  shifted into, although the source never clears them.
\<close>

lemma GetCRC_ignores_garbage: "GetCRC garbage p = GetCRC garbage' p"
  using packet_words_garbage [of garbage p] packet_words_garbage [of garbage' p]
  by (simp add: GetCRC_def)

text \<open>
  The header word of a request carries its fields: cube, address, tag, length and command
  are read back from their positions, each cut to its width.
\<close>

lemma request_header_roundtrip:
  assumes "packetType p = REQUEST"
  shows "decode_request (fold shift_in (header_fields p) garbage) =
    \<lparr>h_CUB = ucast (CUB p AND 0x7), h_ADRS = ADRS p AND 0x3FFFFFFFF, h_TAG = ucast (TAG p AND 0x7FF),
     h_LNG = ucast (LNG p AND 0x1F), h_CMD = ucast (cmd_code (CMD p))\<rparr>"
proof -
  let ?c = "(3::nat, ucast (CUB p AND 0x7) :: u64)" and ?a = "(34::nat, ADRS p AND 0x3FFFFFFFF)"
  let ?t = "(11::nat, ucast (TAG p AND 0x7FF) :: u64)" and ?l = "(5::nat, ucast (LNG p AND 0x1F) :: u64)"
  let ?m = "(7::nat, ucast (cmd_code (CMD p) AND 0x7F) :: u64)"
  let ?z = "\<lambda>n :: nat. (n, 0 :: u64)"
  have h: "header_fields p = [?c, ?z 3, ?a, ?z 1, ?t, ?l, ?m]"
    using assms by (simp add: header_fields_def)
  have "take_bit 7 (ucast (cmd_code (CMD p))) = (ucast (cmd_code (CMD p)) :: u64)"
    using masks(4) [of "cmd_code (CMD p)"] by (simp only: cmd_code_7_bits)
  then show ?thesis
    using shift_in_extract [of "[?z 3, ?a, ?z 1, ?t, ?l, ?m]" ?c "[]" garbage]
      shift_in_extract [of "[?z 1, ?t, ?l, ?m]" ?a "[?c, ?z 3]" garbage]
      shift_in_extract [of "[?l, ?m]" ?t "[?c, ?z 3, ?a, ?z 1]" garbage]
      shift_in_extract [of "[?m]" ?l "[?c, ?z 3, ?a, ?z 1, ?t]" garbage]
      shift_in_extract [of "[]" ?m "[?c, ?z 3, ?a, ?z 1, ?t, ?l]" garbage]
    by (simp add: decode_request_def h masks cmd_code_7_bits del: shift_in.simps)
qed

lemma request_header_roundtrip_example:
  "decode_request (fold shift_in (header_fields (example_packet 5)) 0x123) =
    \<lparr>h_CUB = 2, h_ADRS = 0x1000, h_TAG = 5, h_LNG = 1, h_CMD = 51\<rparr>"
  using request_header_roundtrip [of "example_packet 5" "0x123"]
  by (simp add: example_packet_def Packet_request_def Let_def packet_payload_def packet_reset_def)

text \<open>
  A changed tag is detected: for a packet of any type, with the table its constructor
  builds, replacing the tag by one that differs in the eleven bits the header carries gives
  another CRC.
\<close>

lemma GetCRC_detects_tag:
  assumes "CRCtable p = MakeCRCtable CRC_POLY" and "isOK (GetCRC garbage p)"
    and "t AND 0x7FF \<noteq> TAG p AND 0x7FF"
  shows "GetCRC garbage (p\<lparr>TAG := t\<rparr>) \<noteq> GetCRC garbage p"
proof -
  let ?h = "\<lambda>t. fold shift_in (header_fields (p\<lparr>TAG := t\<rparr>)) 0"
  define n where "n = unat (LNG p) * 2"
  define vs where "vs = take (n - 2) (case DATA p of None \<Rightarrow> [] | Some d \<Rightarrow> d) @ [fold shift_in (tail_fields p) 0]"
  have "isOK (GetCRC (\<lambda>i. 0) p)" using assms(2) packet_words_garbage [of garbage p] by (simp add: GetCRC_def)
  then have words: "packet_words (\<lambda>i. 0) (p\<lparr>TAG := t\<rparr>) = Inr (?h t # vs)" for t
    by (auto simp: GetCRC_def packet_words_def Let_def vs_def n_def tail_fields_def isOK_iff err_simps)
  have "GetCRC garbage q = bindE (packet_words (\<lambda>i. 0) q) (\<lambda>ws.
      Inr (fold (\<lambda>w crc. CalcCRC (word_bytes w) crc (CRCtable q)) ws 0))" for q
    using packet_words_garbage [of garbage q] by (simp add: GetCRC_def)
  then have crc: "GetCRC garbage (p\<lparr>TAG := t\<rparr>) =
      Inr (fold (\<lambda>w crc. CalcCRC (word_bytes w) crc (MakeCRCtable CRC_POLY)) ([] @ ?h t # vs) 0)" for t
    using words [of t] by (simp add: assms(1) del: fold_simps)
  have "?h t \<noteq> ?h (TAG p)"
    using header_tag [of "p\<lparr>TAG := t\<rparr>" 0] header_tag [of p 0] assms(3) ucast_eq_u64 by auto
  then show ?thesis
    using CalcCRC_word_burst [of "?h t" "?h (TAG p)" 0 "[]" vs 0] header_same_outside_tag [where p = p and t = t and t' = "TAG p"]
      crc [of t] crc [of "TAG p"] by (simp del: fold_simps)
qed

lemma GetCRC_detects_tag_example:
  "GetCRC (\<lambda>i. 7) ((example_packet 5)\<lparr>TAG := 6\<rparr>) \<noteq> GetCRC (\<lambda>i. 7) (example_packet 5)"
  by (rule GetCRC_detects_tag) (simp_all add: example_packet_def Packet_request_def Let_def
    packet_payload_def packet_reset_def GetCRC_def packet_words_def)

end
