(* ===== verification/Buffers.thy ===== *)
theory Buffers
  imports Packets
begin

text \<open>
  The packet buffers of the simulator: \<open>DualVectorObject.h\<close> (its instance for packets, which the
  vault controllers, the crossbar switches and the input buffers derive from),
  \<open>SingleVectorObject.h\<close> and \<open>InputBuffer.cpp\<close>. A buffer is a vector of pointers in which a packet
  of \<open>LNG\<close> flits takes \<open>LNG\<close> places: the first holds the packet, the others are null (its virtual
  tail). The theory states what such a buffer promises, a bounded first-in first-out queue of
  packets, as a locale, and interprets it on the operations of the source.
\<close>

section \<open>The routines of the source\<close>

type_synonym pbuffer = "packet option list"

text \<open>\<open>push_back\<close> of the packet and of the virtual tail.\<close>

definition packet_slots :: "packet \<Rightarrow> pbuffer" where
  "packet_slots p = Some p # replicate (unat (LNG p) - 1) None"

text \<open>The receive operation, common to \<open>ReceiveDown\<close>, \<open>ReceiveUp\<close>, \<open>ReceiveArt\<close> and \<open>Receive\<close>.\<close>

definition receive :: "nat \<Rightarrow> packet \<Rightarrow> pbuffer \<Rightarrow> bool \<times> pbuffer" where
  "receive bufferMax p buf =
     (if length buf + unat (LNG p) \<le> bufferMax then (True, buf @ packet_slots p) else (False, buf))"

record dual_vector =
  downBufferMax :: nat
  upBufferMax :: nat
  artBufferMax :: nat
  downBuffers :: pbuffer
  upBuffers :: pbuffer
  artBuffers :: pbuffer
  dv_bufPopDelay :: int
  is_link :: bool
  currentState :: link_state
  currentClockCycle :: u64

definition DualVectorObject :: "nat \<Rightarrow> nat \<Rightarrow> nat \<Rightarrow> dual_vector" where
  "DualVectorObject downBufMax upBufMax artBufMax =
     \<lparr>downBufferMax = downBufMax, upBufferMax = upBufMax, artBufferMax = artBufMax, downBuffers = [],
      upBuffers = [], artBuffers = [], dv_bufPopDelay = 0, is_link = False, currentState = NORMAL,
      currentClockCycle = 0\<rparr>"

definition step_packet :: "packet option \<Rightarrow> packet option" where
  "step_packet = map_option (\<lambda>p. p\<lparr>bufPopDelay := dec_sat (bufPopDelay p)\<rparr>)"

definition dual_Step :: "'a dual_vector_scheme \<Rightarrow> 'a dual_vector_scheme" where
  "dual_Step d = (let d = d\<lparr>currentClockCycle := currentClockCycle d + 1\<rparr>
     in if is_link d then d\<lparr>upBuffers := map step_packet (upBuffers d), downBuffers := map step_packet (downBuffers d)\<rparr>
        else d\<lparr>dv_bufPopDelay := dec_sat (dv_bufPopDelay d)\<rparr>)"

definition ReceiveDown :: "packet \<Rightarrow> 'a dual_vector_scheme \<Rightarrow> bool \<times> 'a dual_vector_scheme" where
  "ReceiveDown p d = (case receive (downBufferMax d) p (downBuffers d) of
     (True, buf) \<Rightarrow> (True, d\<lparr>dv_bufPopDelay := (if downBuffers d = [] \<and> \<not> dv_bufPopDelay d > 0 then 1 else dv_bufPopDelay d),
                             downBuffers := buf\<rparr>)
   | (False, buf) \<Rightarrow> (False, d))"

definition ReceiveUp :: "packet \<Rightarrow> 'a dual_vector_scheme \<Rightarrow> bool \<times> 'a dual_vector_scheme" where
  "ReceiveUp p d = (case receive (upBufferMax d) p (upBuffers d) of (ok, buf) \<Rightarrow> (ok, d\<lparr>upBuffers := buf\<rparr>))"

definition ReceiveArt :: "packet \<Rightarrow> 'a dual_vector_scheme \<Rightarrow> bool \<times> 'a dual_vector_scheme" where
  "ReceiveArt p d = (case receive (artBufferMax d) p (artBuffers d) of (ok, buf) \<Rightarrow> (ok, d\<lparr>artBuffers := buf\<rparr>))"

record single_vector =
  sv_bufferMax :: nat
  sv_downstream :: bool
  sv_Buffers :: pbuffer
  sv_currentState :: link_state
  sv_clock :: u64

definition SingleVectorObject :: "nat \<Rightarrow> bool \<Rightarrow> single_vector" where
  "SingleVectorObject bufMax down =
     \<lparr>sv_bufferMax = bufMax, sv_downstream = down, sv_Buffers = [], sv_currentState = NORMAL, sv_clock = 0\<rparr>"

definition single_Step :: "'a single_vector_scheme \<Rightarrow> 'a single_vector_scheme" where
  "single_Step s = s\<lparr>sv_clock := sv_clock s + 1, sv_Buffers := map step_packet (sv_Buffers s)\<rparr>"

definition Receive :: "packet \<Rightarrow> 'a single_vector_scheme \<Rightarrow> bool \<times> 'a single_vector_scheme" where
  "Receive p s = (case receive (sv_bufferMax s) p (sv_Buffers s) of (ok, buf) \<Rightarrow> (ok, s\<lparr>sv_Buffers := buf\<rparr>))"

text \<open>An input buffer is a dual buffer of \<open>MAX_CROSS_BUF\<close> places each way with empty callbacks.\<close>

definition InputBuffer :: dual_vector where
  "InputBuffer = DualVectorObject MAX_CROSS_BUF MAX_CROSS_BUF 0"

text \<open>
  \<open>buf.erase(buf.begin()+i, buf.begin()+i+buf[i]->LNG)\<close>: how every component takes out the
  packet it finds at position \<open>i\<close>. Reading a virtual tail or past the end is undefined.
\<close>

definition erase_packet :: "nat \<Rightarrow> pbuffer \<Rightarrow> pbuffer result" where
  "erase_packet i buf = (if i < length buf then (case buf ! i of
       None \<Rightarrow> Inl (Undefined ''null'')
     | Some p \<Rightarrow> checkE (i + unat (LNG p) \<le> length buf) (Undefined ''erase'')
                  (Inr (erase_range i (i + unat (LNG p)) buf)))
     else Inl (Undefined ''index''))"

section \<open>The queue a buffer stands for\<close>

definition layout :: "packet list \<Rightarrow> pbuffer" where
  "layout ps = concat (map packet_slots ps)"

fun parse :: "pbuffer \<Rightarrow> packet list option" where
  "parse [] = Some []"
| "parse (None # buf) = None"
| "parse (Some p # buf) = (let n = unat (LNG p) - 1 in
     if 1 \<le> LNG p \<and> n \<le> length buf \<and> list_all (\<lambda>x. x = None) (take n buf)
     then map_option ((#) p) (parse (drop n buf)) else None)"

abbreviation flits :: "packet list \<Rightarrow> nat" where
  "flits ps \<equiv> sum_list (map (\<lambda>p. unat (LNG p)) ps)"

abbreviation sized :: "packet list \<Rightarrow> bool" where
  "sized ps \<equiv> list_all (\<lambda>p. 1 \<le> LNG p) ps"

lemma LNG_pos: "1 \<le> LNG p \<longleftrightarrow> 0 < unat (LNG p)"
  by (metis One_nat_def Suc_leI unat_1 unat_eq_zero word_gt_0 word_le_nat_alt neq0_conv not_one_le_zero)

lemma length_packet_slots: "1 \<le> LNG p \<Longrightarrow> length (packet_slots p) = unat (LNG p)"
  by (simp add: packet_slots_def LNG_pos)

lemma layout_simps [simp]:
  "layout [] = []"
  "layout (p # ps) = packet_slots p @ layout ps"
  "layout (ps @ qs) = layout ps @ layout qs"
  by (simp_all add: layout_def)

lemma length_layout: "sized ps \<Longrightarrow> length (layout ps) = flits ps"
  by (induction ps) (simp_all add: length_packet_slots)

lemma parse_layout: "sized ps \<Longrightarrow> parse (layout ps) = Some ps"
  by (induction ps) (simp_all add: packet_slots_def list_all_iff Let_def)

lemma replicate_all: "list_all (\<lambda>x. x = None) xs \<Longrightarrow> xs = replicate (length xs) None"
  by (induction xs) auto

lemma parse_SomeD: "parse buf = Some ps \<Longrightarrow> sized ps \<and> buf = layout ps"
proof (induction buf arbitrary: ps rule: parse.induct)
  case 1
  then show ?case by simp
next
  case (2 buf)
  then show ?case by simp
next
  case (3 p buf)
  let ?n = "unat (LNG p) - 1"
  from "3.prems" have g: "1 \<le> LNG p \<and> ?n \<le> length buf \<and> list_all (\<lambda>x. x = None) (take ?n buf)"
    by (auto simp: Let_def split: if_splits)
  with "3.prems" obtain qs where qs: "parse (drop ?n buf) = Some qs" "ps = p # qs"
    by (auto simp: Let_def)
  have "take ?n buf = replicate ?n None"
    using replicate_all [of "take ?n buf"] g by simp
  then have "buf = replicate ?n None @ layout qs"
    using "3.IH" [OF refl g qs(1)] by (metis append_take_drop_id)
  then show ?case using "3.IH" [OF refl g qs(1)] g qs(2) by (simp add: packet_slots_def)
qed

text \<open>Well-formed buffers are exactly the layouts of packet lists.\<close>

lemma parse_iff: "parse buf = Some ps \<longleftrightarrow> sized ps \<and> buf = layout ps"
  using parse_SomeD parse_layout by blast

section \<open>Taking packets out\<close>

lemma nth_layout_head: "sized ps \<Longrightarrow> (layout (ps @ p # qs)) ! flits ps = Some p"
  by (simp add: nth_append length_layout packet_slots_def)

lemma erase_packet_layout:
  assumes "sized (ps @ p # qs)"
  shows "erase_packet (flits ps) (layout (ps @ p # qs)) = Inr (layout (ps @ qs))"
proof -
  have l: "length (layout ps) = flits ps" "length (packet_slots p) = unat (LNG p)" "0 < unat (LNG p)"
    using assms by (simp_all add: length_layout length_packet_slots LNG_pos)
  then show ?thesis
    using nth_layout_head [of ps p qs] assms by (simp add: erase_packet_def erase_range_def)
qed

text \<open>Every place of a well-formed buffer that holds a packet is the first of its frame.\<close>

lemma layout_nth_Some:
  "sized ps \<Longrightarrow> i < length (layout ps) \<Longrightarrow> layout ps ! i = Some p \<Longrightarrow>
     \<exists>us vs. ps = us @ p # vs \<and> i = flits us"
proof (induction ps arbitrary: i)
  case Nil
  then show ?case by simp
next
  case (Cons q ps)
  let ?n = "unat (LNG q)"
  have n: "length (packet_slots q) = ?n" "0 < ?n"
    using Cons.prems(1) by (simp_all add: length_packet_slots LNG_pos)
  show ?case
  proof (cases "i < ?n")
    case True
    then have "i = 0 \<and> p = q"
      using Cons.prems(3) n by (cases i) (auto simp: nth_append packet_slots_def split: if_splits)
    then show ?thesis by (intro exI [of _ "[]"] exI [of _ ps]) simp
  next
    case False
    then have "\<exists>us vs. ps = us @ p # vs \<and> i - ?n = flits us"
      using Cons.prems n by (intro Cons.IH) (auto simp: nth_append)
    then obtain us vs where "ps = us @ p # vs" "i - ?n = flits us" by blast
    then show ?thesis using False by (intro exI [of _ "q # us"] exI [of _ vs]) auto
  qed
qed

definition pop_packet :: "pbuffer \<Rightarrow> (packet \<times> pbuffer) result" where
  "pop_packet buf = bindE (erase_packet 0 buf) (\<lambda>buf'. Inr (the (hd buf), buf'))"

lemma pop_packet_layout: "sized (p # qs) \<Longrightarrow> pop_packet (layout (p # qs)) = Inr (p, layout qs)"
  using erase_packet_layout [of "[]" p qs] by (simp add: pop_packet_def packet_slots_def)

lemma pop_packet_Nil: "\<not> isOK (pop_packet [])"
  by (simp add: pop_packet_def erase_packet_def)

section \<open>The interface: a bounded first-in first-out queue\<close>

datatype 'p buf_op = Recv 'p | Pop

text \<open>A sequence of arrivals and removals: what was accepted, what was taken out, the end state.\<close>

fun run_buffer ::
  "('p \<Rightarrow> 'b \<Rightarrow> bool \<times> 'b) \<Rightarrow> ('b \<Rightarrow> ('p \<times> 'b) result) \<Rightarrow> 'p buf_op list \<Rightarrow> 'b \<Rightarrow> 'p list \<times> 'p list \<times> 'b" where
  "run_buffer recv pop [] b = ([], [], b)"
| "run_buffer recv pop (Recv p # ops) b = (case recv p b of (ok, b') \<Rightarrow>
     (case run_buffer recv pop ops b' of (a, d, f) \<Rightarrow> (if ok then p # a else a, d, f)))"
| "run_buffer recv pop (Pop # ops) b = (case pop b of Inl e \<Rightarrow> run_buffer recv pop ops b
     | Inr (p, b') \<Rightarrow> (case run_buffer recv pop ops b' of (a, d, f) \<Rightarrow> (a, p # d, f)))"

locale bounded_fifo =
  fixes recv :: "'p \<Rightarrow> 'b \<Rightarrow> bool \<times> 'b"
    and pop :: "'b \<Rightarrow> ('p \<times> 'b) result"
    and contents :: "'b \<Rightarrow> 'p list"
    and inv :: "'b \<Rightarrow> bool"
    and valid :: "'p \<Rightarrow> bool"
    and weight :: "'p \<Rightarrow> nat"
    and capacity :: nat
  assumes recv_accepts: "inv b \<Longrightarrow> valid p \<Longrightarrow> fst (recv p b) \<longleftrightarrow> sum_list (map weight (contents b)) + weight p \<le> capacity"
    and recv_appends: "inv b \<Longrightarrow> valid p \<Longrightarrow> recv p b = (True, b') \<Longrightarrow> inv b' \<and> contents b' = contents b @ [p]"
    and recv_refuses: "recv p b = (False, b') \<Longrightarrow> b' = b"
    and pop_head: "inv b \<Longrightarrow> contents b = p # ps \<Longrightarrow> \<exists>b'. pop b = Inr (p, b') \<and> inv b' \<and> contents b' = ps"
    and pop_empty: "inv b \<Longrightarrow> contents b = [] \<Longrightarrow> \<not> isOK (pop b)"
    and within: "inv b \<Longrightarrow> sum_list (map weight (contents b)) \<le> capacity"
begin

lemma pop_cases:
  assumes "inv b"
  obtains e where "contents b = []" "pop b = Inl e"
    | p b' where "pop b = Inr (p, b')" "contents b = p # contents b'" "inv b'"
proof (cases "contents b")
  case Nil
  with assms have "\<not> isOK (pop b)" by (rule pop_empty)
  then obtain e where "pop b = Inl e" by (cases "pop b") auto
  with Nil that(1) show thesis by blast
next
  case (Cons p ps)
  with pop_head [OF assms] that(2) show thesis by metis
qed

lemma recv_inv: "inv b \<Longrightarrow> valid p \<Longrightarrow> recv p b = (ok, b') \<Longrightarrow>
    inv b' \<and> contents b' = contents b @ (if ok then [p] else [])"
  using recv_appends [of b p b'] recv_refuses [of p b b'] by (cases ok) auto

text \<open>No packet is lost, duplicated or overtaken.\<close>

lemma fifo:
  "inv b \<Longrightarrow> (\<And>p. Recv p \<in> set ops \<Longrightarrow> valid p) \<Longrightarrow> run_buffer recv pop ops b = (a, d, f) \<Longrightarrow>
     inv f \<and> contents b @ a = d @ contents f"
proof (induction ops arbitrary: b a d)
  case Nil
  then show ?case by simp
next
  case (Cons x ops)
  show ?case
  proof (cases x)
    case (Recv p)
    obtain ok b' where r: "recv p b = (ok, b')" by (cases "recv p b")
    obtain a' d' f' where t: "run_buffer recv pop ops b' = (a', d', f')" by (cases "run_buffer recv pop ops b'") auto
    have i: "inv b' \<and> contents b' = contents b @ (if ok then [p] else [])"
      using recv_inv [OF _ _ r] Cons.prems Recv by simp
    with Cons.IH [of b' a' d'] Cons.prems Recv r t show ?thesis by (auto split: if_splits)
  next
    case Pop
    show ?thesis
    proof (rule pop_cases [OF Cons.prems(1)])
      fix e assume "contents b = []" "pop b = Inl e"
      then show ?thesis using Cons.IH [of b a d] Cons.prems Pop by simp
    next
      fix p b' assume s: "pop b = Inr (p, b')" "contents b = p # contents b'" "inv b'"
      obtain a' d' f' where t: "run_buffer recv pop ops b' = (a', d', f')" by (cases "run_buffer recv pop ops b'") auto
      with Cons.IH [of b' a' d'] Cons.prems Pop s show ?thesis by auto
    qed
  qed
qed

text \<open>A packet that fits an empty buffer is accepted once the packets ahead of it have left.\<close>

lemma eventually_accepted:
  "inv b \<Longrightarrow> valid p \<Longrightarrow> weight p \<le> capacity \<Longrightarrow>
     fst (recv p (snd (snd (run_buffer recv pop (replicate (length (contents b)) Pop) b))))"
proof (induction "contents b" arbitrary: b)
  case Nil
  then show ?case using recv_accepts [of b p] by (simp flip: Nil.hyps)
next
  case (Cons q qs)
  obtain b' where b': "pop b = Inr (q, b')" "inv b'" "contents b' = qs"
    using pop_head [OF Cons.prems(1), of q qs] Cons.hyps(2) by auto
  with Cons.hyps(1) [of b'] Cons.prems Cons.hyps(2)
  have "fst (recv p (snd (snd (run_buffer recv pop (replicate (length qs) Pop) b'))))" by simp
  then show ?case using b' by (simp flip: Cons.hyps(2) add: case_prod_beta)
qed

end

section \<open>The buffers of the source are such queues\<close>

definition queue_of :: "pbuffer \<Rightarrow> packet list" where
  "queue_of buf = (case parse buf of None \<Rightarrow> [] | Some ps \<Rightarrow> ps)"

definition buffer_ok :: "nat \<Rightarrow> pbuffer \<Rightarrow> bool" where
  "buffer_ok bufferMax buf \<longleftrightarrow> parse buf \<noteq> None \<and> length buf \<le> bufferMax"

lemma buffer_ok_layout: "buffer_ok n buf \<longleftrightarrow> (\<exists>ps. sized ps \<and> buf = layout ps \<and> flits ps \<le> n \<and> queue_of buf = ps)"
proof
  show "buffer_ok n buf \<Longrightarrow> \<exists>ps. sized ps \<and> buf = layout ps \<and> flits ps \<le> n \<and> queue_of buf = ps"
    by (auto simp: buffer_ok_def queue_of_def parse_iff parse_layout length_layout)
next
  assume "\<exists>ps. sized ps \<and> buf = layout ps \<and> flits ps \<le> n \<and> queue_of buf = ps"
  then obtain ps where "sized ps" "buf = layout ps" "flits ps \<le> n" by blast
  then show "buffer_ok n buf" by (simp add: buffer_ok_def parse_layout length_layout)
qed

lemma buffer_okE:
  assumes "buffer_ok n buf"
  obtains ps where "sized ps" "buf = layout ps" "queue_of buf = ps" "flits ps \<le> n"
  using assms by (auto simp: buffer_ok_layout)

lemma queue_of_layout [simp]: "sized ps \<Longrightarrow> queue_of (layout ps) = ps"
  by (simp add: queue_of_def parse_layout)

lemma buffer_ok_layoutI: "sized ps \<Longrightarrow> flits ps \<le> n \<Longrightarrow> buffer_ok n (layout ps)"
  by (auto simp: buffer_ok_layout)

lemma buffer_snoc: "sized ps \<Longrightarrow> 1 \<le> LNG p \<Longrightarrow> queue_of (layout ps @ packet_slots p) = ps @ [p]"
  "sized ps \<Longrightarrow> 1 \<le> LNG p \<Longrightarrow> flits ps + unat (LNG p) \<le> n \<Longrightarrow> buffer_ok n (layout ps @ packet_slots p)"
  using queue_of_layout [of "ps @ [p]"] buffer_ok_layoutI [of "ps @ [p]" n] by simp_all

lemma buffer_ok_Nil [simp]: "buffer_ok n []"
  using buffer_ok_layoutI [of "[]" n] by simp

lemma receive_layout: "sized ps \<Longrightarrow> 1 \<le> LNG p \<Longrightarrow>
    receive n p (layout ps) = (if flits ps + unat (LNG p) \<le> n then (True, layout (ps @ [p])) else (False, layout ps))"
  by (simp add: receive_def length_layout)

lemma receive_ok: "buffer_ok n buf \<Longrightarrow> 1 \<le> LNG p \<Longrightarrow> buffer_ok n (snd (receive n p buf))"
  by (erule buffer_okE) (auto simp: receive_layout buffer_snoc intro: buffer_ok_layoutI)

lemma receive_queue: "buffer_ok n buf \<Longrightarrow> 1 \<le> LNG p \<Longrightarrow> receive n p buf = (True, buf') \<Longrightarrow>
    buffer_ok n buf' \<and> queue_of buf' = queue_of buf @ [p]"
  by (erule buffer_okE) (auto simp: receive_layout buffer_snoc split: if_splits)

lemma receive_full: "receive n p buf = (False, buf') \<Longrightarrow> buf' = buf"
  by (simp add: receive_def split: if_splits)

lemma receive_accepts: "buffer_ok n buf \<Longrightarrow> 1 \<le> LNG p \<Longrightarrow>
    fst (receive n p buf) \<longleftrightarrow> flits (queue_of buf) + unat (LNG p) \<le> n"
  by (erule buffer_okE) (auto simp: receive_layout)

lemma pop_packet_queue: "buffer_ok n buf \<Longrightarrow> queue_of buf = p # ps \<Longrightarrow>
    \<exists>buf'. pop_packet buf = Inr (p, buf') \<and> buffer_ok n buf' \<and> queue_of buf' = ps"
proof (erule buffer_okE)
  fix qs assume q: "sized qs" "buf = layout qs" "queue_of buf = qs" "flits qs \<le> n" "queue_of buf = p # ps"
  then have "pop_packet buf = Inr (p, layout ps)" using pop_packet_layout [of p ps] by simp
  then show ?thesis using q by (auto intro!: buffer_ok_layoutI)
qed

lemma pop_packet_empty: "buffer_ok n buf \<Longrightarrow> queue_of buf = [] \<Longrightarrow> \<not> isOK (pop_packet buf)"
  by (erule buffer_okE) (use pop_packet_Nil in auto)

lemma queue_within: "buffer_ok n buf \<Longrightarrow> flits (queue_of buf) \<le> n"
  by (auto simp: buffer_ok_layout)

lemmas buffer_laws = receive_ok receive_queue receive_full receive_accepts pop_packet_queue pop_packet_empty queue_within

text \<open>The head of each direction of a dual buffer and of a single buffer.\<close>

definition pop_down :: "dual_vector \<Rightarrow> (packet \<times> dual_vector) result" where
  "pop_down d = bindE (pop_packet (downBuffers d)) (\<lambda>(p, buf). Inr (p, d\<lparr>downBuffers := buf\<rparr>))"

definition pop_up :: "dual_vector \<Rightarrow> (packet \<times> dual_vector) result" where
  "pop_up d = bindE (pop_packet (upBuffers d)) (\<lambda>(p, buf). Inr (p, d\<lparr>upBuffers := buf\<rparr>))"

definition pop_art :: "dual_vector \<Rightarrow> (packet \<times> dual_vector) result" where
  "pop_art d = bindE (pop_packet (artBuffers d)) (\<lambda>(p, buf). Inr (p, d\<lparr>artBuffers := buf\<rparr>))"

definition pop_single :: "single_vector \<Rightarrow> (packet \<times> single_vector) result" where
  "pop_single s = bindE (pop_packet (sv_Buffers s)) (\<lambda>(p, buf). Inr (p, s\<lparr>sv_Buffers := buf\<rparr>))"

text \<open>
  A component that keeps such a buffer in a field, receives into it with \<open>receive\<close> and leaves
  its capacity alone is a bounded queue.
\<close>

locale buffer_field =
  fixes get :: "'b \<Rightarrow> pbuffer"
    and put :: "pbuffer \<Rightarrow> 'b \<Rightarrow> 'b"
    and maxi :: "'b \<Rightarrow> nat"
    and recv :: "packet \<Rightarrow> 'b \<Rightarrow> bool \<times> 'b"
    and pop :: "'b \<Rightarrow> (packet \<times> 'b) result"
    and n :: nat
  assumes get_put: "get (put buf b) = buf"
    and max_put: "maxi (put buf b) = maxi b"
    and recv_ok: "fst (recv p b) = fst (receive (maxi b) p (get b))"
    and recv_get: "get (snd (recv p b)) = snd (receive (maxi b) p (get b))"
    and recv_max: "maxi (snd (recv p b)) = maxi b"
    and recv_same: "\<not> fst (recv p b) \<Longrightarrow> snd (recv p b) = b"
    and pop_def: "pop b = bindE (pop_packet (get b)) (\<lambda>(p, buf). Inr (p, put buf b))"
begin

lemma recv_pair: "recv p b = (ok, b') \<Longrightarrow> receive (maxi b) p (get b) = (ok, get b') \<and> maxi b' = maxi b"
  using recv_ok [of p b] recv_get [of p b] recv_max [of p b] by (auto intro: prod_eqI)

end

sublocale buffer_field \<subseteq> fifo: bounded_fifo recv pop "\<lambda>b. queue_of (get b)"
    "\<lambda>b. maxi b = n \<and> buffer_ok n (get b)" "\<lambda>p. 1 \<le> LNG p" "\<lambda>p. unat (LNG p)" n
proof unfold_locales
  fix b b' :: 'b and p :: packet and ps :: "packet list"
  { assume "maxi b = n \<and> buffer_ok n (get b)" "1 \<le> LNG p"
    then show "fst (recv p b) \<longleftrightarrow> flits (queue_of (get b)) + unat (LNG p) \<le> n"
      using receive_accepts recv_ok by metis }
  { assume "maxi b = n \<and> buffer_ok n (get b)" "1 \<le> LNG p" "recv p b = (True, b')"
    then show "(maxi b' = n \<and> buffer_ok n (get b')) \<and> queue_of (get b') = queue_of (get b) @ [p]"
      using recv_pair [of p b True b'] receive_queue [of n "get b" p "get b'"] by auto }
  { assume "recv p b = (False, b')"
    then show "b' = b" using recv_same [of p b] by simp }
  { assume "maxi b = n \<and> buffer_ok n (get b)" "queue_of (get b) = p # ps"
    then show "\<exists>b'. pop b = Inr (p, b') \<and> (maxi b' = n \<and> buffer_ok n (get b')) \<and> queue_of (get b') = ps"
      using pop_packet_queue [of n "get b" p ps] by (auto simp: pop_def get_put max_put) }
  { assume "maxi b = n \<and> buffer_ok n (get b)" "queue_of (get b) = []"
    then show "\<not> isOK (pop b)"
      using pop_packet_empty [of n "get b"] by (cases "pop_packet (get b)") (auto simp: pop_def) }
  { assume "maxi b = n \<and> buffer_ok n (get b)"
    then show "flits (queue_of (get b)) \<le> n" using queue_within by blast }
qed

interpretation down: buffer_field downBuffers "\<lambda>buf d. d\<lparr>downBuffers := buf\<rparr>" downBufferMax ReceiveDown pop_down n for n
  by unfold_locales (auto simp: ReceiveDown_def receive_def pop_down_def)

interpretation up: buffer_field upBuffers "\<lambda>buf d. d\<lparr>upBuffers := buf\<rparr>" upBufferMax ReceiveUp pop_up n for n
  by unfold_locales (auto simp: ReceiveUp_def receive_def pop_up_def)

interpretation art: buffer_field artBuffers "\<lambda>buf d. d\<lparr>artBuffers := buf\<rparr>" artBufferMax ReceiveArt pop_art n for n
  by unfold_locales (auto simp: ReceiveArt_def receive_def pop_art_def)

interpretation single: buffer_field sv_Buffers "\<lambda>buf s. s\<lparr>sv_Buffers := buf\<rparr>" sv_bufferMax Receive pop_single n for n
  by unfold_locales (auto simp: Receive_def receive_def pop_single_def)

section \<open>Properties of the buffers\<close>

text \<open>
  C27. The downstream buffer of every component is a bounded first-in first-out queue: starting
  from an empty buffer of \<open>n\<close> places, after any sequence of \<open>ReceiveDown\<close> calls (with packets of at
  least one flit, whatever their outcome) and removals at the front, the packets taken out
  followed by those still queued are exactly the accepted ones in their order of arrival, and
  the buffer holds at most \<open>n\<close> places.
\<close>

theorem ReceiveDown_fifo:
  assumes "\<And>p. Recv p \<in> set ops \<Longrightarrow> 1 \<le> LNG p"
    and "run_buffer ReceiveDown pop_down ops (DualVectorObject n m k) = (accepted, delivered, d)"
  shows "accepted = delivered @ queue_of (downBuffers d) \<and> length (downBuffers d) \<le> n"
proof -
  have "(downBufferMax d = n \<and> buffer_ok n (downBuffers d)) \<and>
      queue_of (downBuffers (DualVectorObject n m k)) @ accepted = delivered @ queue_of (downBuffers d)"
    using down.fifo.fifo [of "DualVectorObject n m k" n ops accepted delivered d] assms
    by (simp add: DualVectorObject_def)
  then show ?thesis by (simp add: DualVectorObject_def buffer_ok_def queue_of_def)
qed

theorem ReceiveDown_fifo_witness:
  "fst (run_buffer ReceiveDown pop_down [Recv (example_packet 1), Recv (example_packet 2), Pop]
      (DualVectorObject 2 0 0)) =
    fst (snd (run_buffer ReceiveDown pop_down [Recv (example_packet 1), Recv (example_packet 2), Pop]
      (DualVectorObject 2 0 0)))
    @ queue_of (downBuffers (snd (snd (run_buffer ReceiveDown pop_down
        [Recv (example_packet 1), Recv (example_packet 2), Pop] (DualVectorObject 2 0 0)))))"
proof -
  let ?ops = "[Recv (example_packet 1), Recv (example_packet 2), Pop]"
  have "\<And>p. Recv p \<in> set ?ops \<Longrightarrow> 1 \<le> LNG p"
    by (auto simp: example_packet_def Packet_request_def Let_def packet_payload_def packet_reset_def)
  then show ?thesis
    using ReceiveDown_fifo [of ?ops 2 0 0 "fst (run_buffer ReceiveDown pop_down ?ops (DualVectorObject 2 0 0))"
      "fst (snd (run_buffer ReceiveDown pop_down ?ops (DualVectorObject 2 0 0)))"
      "snd (snd (run_buffer ReceiveDown pop_down ?ops (DualVectorObject 2 0 0)))"] by simp
qed

text \<open>
  Taking a packet out of the middle of a buffer removes that packet and its virtual tail and
  nothing else: at a place of a well-formed buffer that is not a tail, the erasure succeeds and
  the queue loses exactly the packet at that place, the others keeping their order.
\<close>

lemma erase_packet_removes_one:
  assumes "buffer_ok n buf" and "i < length buf" and "buf ! i = Some p"
  shows "\<exists>buf' us vs. erase_packet i buf = Inr buf' \<and> buffer_ok n buf' \<and>
    queue_of buf = us @ p # vs \<and> queue_of buf' = us @ vs \<and> length buf = length buf' + unat (LNG p)"
proof -
  obtain ps where ps: "sized ps" "buf = layout ps" "queue_of buf = ps" "flits ps \<le> n"
    using assms(1) by (rule buffer_okE)
  obtain us vs where uv: "ps = us @ p # vs" "i = flits us"
    using layout_nth_Some [of ps i p] ps assms(2,3) by auto
  have "sized (us @ vs)" "flits (us @ vs) \<le> n" using ps uv by auto
  moreover have "length (layout ps) = length (layout (us @ vs)) + unat (LNG p)"
    using ps(1) calculation(1) uv by (simp only: length_layout) simp
  ultimately show ?thesis
    using erase_packet_layout [of us p vs] ps uv
    by (intro exI [of _ "layout (us @ vs)"] exI [of _ us] exI [of _ vs]) (auto intro: buffer_ok_layoutI simp del: layout_simps)
qed

lemma erase_packet_removes_one_example:
  "\<exists>buf' us vs. erase_packet 1 (layout [example_packet 1, example_packet 2]) = Inr buf' \<and> buffer_ok 4 buf' \<and>
    queue_of (layout [example_packet 1, example_packet 2]) = us @ example_packet 2 # vs \<and> queue_of buf' = us @ vs
    \<and> length (layout [example_packet 1, example_packet 2]) = length buf' + unat (LNG (example_packet 2))"
  by (rule erase_packet_removes_one)
    (simp_all add: buffer_ok_def packet_slots_def example_packet_def Packet_request_def Let_def
      packet_payload_def packet_reset_def)

end
