(* ===== verification/Transactions.thy ===== *)
theory Transactions
  imports Packets
begin

text \<open>
  Transactions of the processor side and the latency bookkeeping that travels with them:
  \<open>Transaction.h\<close>, \<open>Transaction.cpp\<close>, \<open>TranTrace.h\<close> and the latency part of
  \<open>TranStatistic.h\<close>. The global \<open>tranGlobalID\<close> is passed and returned; a trace lives in the
  store of traces, and a transaction holds its index.
\<close>

section \<open>Latency statistics and traces\<close>

record tran_statistic =
  st_tranFullLat :: "u32 list"
  st_linkFullLat :: "u32 list"
  st_vaultFullLat :: "u32 list"
  tranFullSum :: u64
  linkFullSum :: u64
  vaultFullSum :: u64

definition TranStatistic :: tran_statistic where
  "TranStatistic = \<lparr>st_tranFullLat = [], st_linkFullLat = [], st_vaultFullLat = [],
     tranFullSum = 0, linkFullSum = 0, vaultFullSum = 0\<rparr>"

definition UpdateStatis :: "tran_statistic \<Rightarrow> u32 \<Rightarrow> u32 \<Rightarrow> u32 \<Rightarrow> tran_statistic" where
  "UpdateStatis st tranFull linkFull vaultFull =
     st\<lparr>st_tranFullLat := st_tranFullLat st @ [tranFull], st_linkFullLat := st_linkFullLat st @ [linkFull],
       st_vaultFullLat := st_vaultFullLat st @ [vaultFull], tranFullSum := tranFullSum st + ucast tranFull,
       linkFullSum := linkFullSum st + ucast linkFull, vaultFullSum := vaultFullSum st + ucast vaultFull\<rparr>"

record tran_trace =
  tranTransmitTime :: u32
  tranFullLat :: u32
  linkTransmitTime :: u32
  linkFullLat :: u32
  vaultIssueTime :: u32
  vaultFullLat :: u32

definition TranTrace :: tran_trace where
  "TranTrace = \<lparr>tranTransmitTime = 0, tranFullLat = 0, linkTransmitTime = 0, linkFullLat = 0,
     vaultIssueTime = 0, vaultFullLat = 0\<rparr>"

text \<open>The destructor: a trace whose latencies are all known enters the statistics.\<close>

definition delete_TranTrace :: "tran_trace \<Rightarrow> tran_statistic \<Rightarrow> tran_statistic" where
  "delete_TranTrace tr st = (if tranFullLat tr = 0 \<or> linkFullLat tr = 0 \<or> vaultFullLat tr = 0 then st
     else UpdateStatis st (tranFullLat tr) (linkFullLat tr) (vaultFullLat tr))"

section \<open>Transactions\<close>

datatype (plugins only: code size) TransactionType = DATA_READ | DATA_WRITE | RETURN_DATA
  | ATM_2ADD8 | ATM_ADD16 | ATM_P_2ADD8 | ATM_P_ADD16 | ATM_2ADDS8R | ATM_ADDS16R | ATM_INC8 | ATM_P_INC8
  | ATM_XOR16 | ATM_OR16 | ATM_NOR16 | ATM_AND16 | ATM_NAND16
  | ATM_CASGT8 | ATM_CASLT8 | ATM_CASGT16 | ATM_CASLT16 | ATM_CASEQ8 | ATM_CASZERO16 | ATM_EQ16 | ATM_EQ8
  | ATM_BWR | ATM_P_BWR | ATM_BWR8R | ATM_SWAP16
  | ACTIVE_GET | ACTIVE_ADD | ACTIVE_MULT | ACTIVE_DOT | PIM_DOT | PIM_ATOMIC

record transaction =
  t_trace :: nat
  transactionType :: TransactionType
  address :: u64
  t_dataSize :: u32
  transactionID :: u32
  t_LNG :: u32
  dest_address :: u64
  src_address1 :: u64
  src_address2 :: u64
  t_lines :: u32
  src_cube :: int
  dest_cube1 :: int
  dest_cube2 :: int
  nthreads :: int
  t_bufPopDelay :: int

text \<open>
  The three constructors. Each allocates a trace at the end of the store and takes the next
  transaction number; \<open>raw\<close> is the memory constructed in, of which \<open>bufPopDelay\<close> is never
  assigned, nor \<open>address\<close> by the two active ones.
\<close>

definition Transaction_plain ::
  "transaction \<Rightarrow> u32 \<Rightarrow> tran_trace list \<Rightarrow> TransactionType \<Rightarrow> u64 \<Rightarrow> u32 \<Rightarrow> int \<Rightarrow> int
     \<Rightarrow> transaction \<times> u32 \<times> tran_trace list" where
  "Transaction_plain raw tranGlobalID traces tranType addr sz src dest =
     (raw\<lparr>transactionType := tranType, address := addr, t_dataSize := sz, src_cube := src, dest_cube1 := dest,
        t_LNG := 1, transactionID := tranGlobalID, t_trace := length traces, dest_address := 0, src_address1 := 0,
        src_address2 := 0, t_lines := 0, nthreads := -1, dest_cube2 := -1\<rparr>,
      tranGlobalID + 1, traces @ [TranTrace])"

definition Transaction_active ::
  "transaction \<Rightarrow> u32 \<Rightarrow> tran_trace list \<Rightarrow> TransactionType \<Rightarrow> u64 \<Rightarrow> u64 \<Rightarrow> u32 \<Rightarrow> int \<Rightarrow> int
     \<Rightarrow> transaction \<times> u32 \<times> tran_trace list" where
  "Transaction_active raw tranGlobalID traces tranType dest_addr src_addr sz src dest =
     (raw\<lparr>transactionType := tranType, dest_address := dest_addr, src_address1 := src_addr, t_dataSize := sz,
        src_cube := src, dest_cube1 := dest, t_LNG := 1, transactionID := tranGlobalID, t_trace := length traces,
        src_address2 := 0, t_lines := 0, nthreads := -1, dest_cube2 := -1\<rparr>,
      tranGlobalID + 1, traces @ [TranTrace])"

definition Transaction_active2 ::
  "transaction \<Rightarrow> u32 \<Rightarrow> tran_trace list \<Rightarrow> TransactionType \<Rightarrow> u64 \<Rightarrow> u64 \<Rightarrow> u64 \<Rightarrow> u32 \<Rightarrow> int \<Rightarrow> int \<Rightarrow> int
     \<Rightarrow> transaction \<times> u32 \<times> tran_trace list" where
  "Transaction_active2 raw tranGlobalID traces tranType dest_addr src_addr1 src_addr2 sz src dest1 dest2 =
     (raw\<lparr>transactionType := tranType, dest_address := dest_addr, src_address1 := src_addr1,
        src_address2 := src_addr2, t_dataSize := sz, src_cube := src, dest_cube1 := dest1, dest_cube2 := dest2,
        t_LNG := 1, transactionID := tranGlobalID, t_trace := length traces, t_lines := 0, nthreads := -1\<rparr>,
      tranGlobalID + 1, traces @ [TranTrace])"

definition ReductGlobalID :: "u32 \<Rightarrow> u32" where
  "ReductGlobalID tranGlobalID = tranGlobalID - 1"

text \<open>\<open>operator<<\<close> on a transaction; \<open>PIM_ATOMIC\<close> is printed without the closing bracket.\<close>

primrec transaction_name :: "TransactionType \<Rightarrow> string" where
  "transaction_name DATA_READ = ''Read]''" | "transaction_name DATA_WRITE = ''Write]''"
| "transaction_name RETURN_DATA = ''Data]''"
| "transaction_name ATM_2ADD8 = ''2ADD8]''" | "transaction_name ATM_ADD16 = ''ADD16]''"
| "transaction_name ATM_P_2ADD8 = ''P_2ADD8]''" | "transaction_name ATM_P_ADD16 = ''P_ADD16]''"
| "transaction_name ATM_2ADDS8R = ''2ADDS8R]''" | "transaction_name ATM_ADDS16R = ''ADDS16R]''"
| "transaction_name ATM_INC8 = ''INC8]''" | "transaction_name ATM_P_INC8 = ''P_INC8]''"
| "transaction_name ATM_XOR16 = ''XOR16]''" | "transaction_name ATM_OR16 = ''OR16]''"
| "transaction_name ATM_NOR16 = ''NOR16]''" | "transaction_name ATM_AND16 = ''AND16]''"
| "transaction_name ATM_NAND16 = ''NAND16]''"
| "transaction_name ATM_CASGT8 = ''CASGT8]''" | "transaction_name ATM_CASLT8 = ''CASLT8]''"
| "transaction_name ATM_CASGT16 = ''CASGT16]''" | "transaction_name ATM_CASLT16 = ''CASLT16]''"
| "transaction_name ATM_CASEQ8 = ''CASEQ8]''" | "transaction_name ATM_CASZERO16 = ''CASZR16]''"
| "transaction_name ATM_EQ16 = ''EQ16]''" | "transaction_name ATM_EQ8 = ''EQ8]''"
| "transaction_name ATM_BWR = ''BWR]''" | "transaction_name ATM_P_BWR = ''P_BWR]''"
| "transaction_name ATM_BWR8R = ''BWR8R]''" | "transaction_name ATM_SWAP16 = ''SWAP16]''"
| "transaction_name ACTIVE_GET = ''ACT_GET]''" | "transaction_name ACTIVE_ADD = ''ACT_ADD]''"
| "transaction_name ACTIVE_MULT = ''ACT_MULT]''" | "transaction_name ACTIVE_DOT = ''ACT_DOT]''"
| "transaction_name PIM_DOT = ''PEI_DOT]''" | "transaction_name PIM_ATOMIC = ''PEI_ATOMIC''"

definition show_transaction :: "transaction \<Rightarrow> string" where
  "show_transaction t = ''[T'' @ show_nat (unat (transactionID t)) @ ''-'' @ transaction_name (transactionType t)"

section \<open>Properties of the statistics\<close>

definition statis_ok :: "tran_statistic \<Rightarrow> bool" where
  "statis_ok st \<longleftrightarrow> length (st_linkFullLat st) = length (st_tranFullLat st)
     \<and> length (st_vaultFullLat st) = length (st_tranFullLat st)
     \<and> tranFullSum st = sum_list (map ucast (st_tranFullLat st))
     \<and> linkFullSum st = sum_list (map ucast (st_linkFullLat st))
     \<and> vaultFullSum st = sum_list (map ucast (st_vaultFullLat st))"

lemma statis_ok_update: "statis_ok st \<Longrightarrow> statis_ok (UpdateStatis st a b c)"
  by (simp add: statis_ok_def UpdateStatis_def)

lemma statis_ok_delete: "statis_ok st \<Longrightarrow> statis_ok (delete_TranTrace tr st)"
  by (simp add: delete_TranTrace_def statis_ok_update)

lemma delete_TranTrace_logged:
  "st_tranFullLat (fold delete_TranTrace trs st) =
     st_tranFullLat st @ map tranFullLat (filter (\<lambda>tr. tranFullLat tr \<noteq> 0 \<and> linkFullLat tr \<noteq> 0 \<and> vaultFullLat tr \<noteq> 0) trs)"
  by (induction trs arbitrary: st) (auto simp: delete_TranTrace_def UpdateStatis_def)

text \<open>
  The latency statistics stay consistent: after the traces of any sequence of
  transactions are destroyed, the three latency lists have one entry each for exactly the
  transactions whose three latencies were recorded, in order, and the three running sums are
  the sums of the lists.
\<close>

lemma statistics_consistent:
  "statis_ok (fold delete_TranTrace trs TranStatistic) \<and>
   st_tranFullLat (fold delete_TranTrace trs TranStatistic) =
     map tranFullLat (filter (\<lambda>tr. tranFullLat tr \<noteq> 0 \<and> linkFullLat tr \<noteq> 0 \<and> vaultFullLat tr \<noteq> 0) trs)"
proof
  have "statis_ok TranStatistic" by (simp add: statis_ok_def TranStatistic_def)
  then show "statis_ok (fold delete_TranTrace trs TranStatistic)"
    by (intro fold_inv [where P = statis_ok]) (auto intro: statis_ok_delete)
qed (simp add: delete_TranTrace_logged, simp add: TranStatistic_def)

end
