(* ===== verification/Address_Mapping.thy ===== *)
theory Address_Mapping
  imports Config
begin

unbundle bit_operations_syntax

text \<open>
  Where an address lies: the vault the crossbar switch sends it to (\<open>CrossbarSwitch.cpp\<close>, \<open>vaultMap\<close>)
  and the bank, column and row its vault controller reads off it (\<open>VaultController.cpp\<close>,
  \<open>AddressMapping\<close>), for every block size of \<open>SimConfig.h\<close>. The sizes of \<open>DRAMConfig.h\<close> are
  positive \<open>int\<close> constants; the model has them as \<open>u32\<close>. From low to high an address has the offset
  in the block, the vault, the bank, the column and the row.
\<close>

section \<open>Operations\<close>

definition vaultMap :: "dram_config \<Rightarrow> u64 \<Rightarrow> u32" where
  "vaultMap c adr = ucast (drop_bit (unat (log2u (block_bytes (ADDRESS_MAPPING c)))) adr AND (of_nat NUM_VAULTS - 1))"

definition AddressMapping :: "dram_config \<Rightarrow> u64 \<Rightarrow> u32 \<times> u32 \<times> u32" where
  "AddressMapping c physicalAddress =
     (let maxBlockBit = log2u (block_bytes (ADDRESS_MAPPING c));
          phys1 = drop_bit (unat (maxBlockBit + log2u (of_nat NUM_VAULTS))) physicalAddress;
          bankAdd = ucast (phys1 AND ucast (of_nat (NUM_BANKS c) - 1 :: u32));
          phys2 = drop_bit (unat (log2u (of_nat (NUM_BANKS c)))) phys1;
          colAdd = ucast (phys2 AND ucast (drop_bit (unat maxBlockBit) (NUM_COLS c - 1)));
          colAdd' = push_bit (unat maxBlockBit) colAdd;
          phys3 = drop_bit (unat (log2u (NUM_COLS c) - maxBlockBit)) phys2;
          rowAdd = ucast (phys3 AND ucast (NUM_ROWS c - 1))
      in (bankAdd, colAdd', rowAdd))"

section \<open>The fields of an address\<close>

definition block_bits :: "dram_config \<Rightarrow> nat" where
  "block_bits c = (case ADDRESS_MAPPING c of MAX_BLOCK_32B \<Rightarrow> 5 | MAX_BLOCK_64B \<Rightarrow> 6 | MAX_BLOCK_128B \<Rightarrow> 7 | MAX_BLOCK_256B \<Rightarrow> 8)"

lemma log2_block: "unat (log2u (block_bytes (ADDRESS_MAPPING c))) = block_bits c"
  using log2u_power [of 5] log2u_power [of 6] log2u_power [of 7] log2u_power [of 8]
  by (cases "ADDRESS_MAPPING c") (simp_all add: block_bits_def)

lemma unat_masked: "k < 32 \<Longrightarrow> unat (ucast (drop_bit n (a :: u64) AND (2 ^ k - 1)) :: u32) = unat a div 2 ^ n mod 2 ^ k"
proof -
  assume k: "k < 32"
  have "drop_bit n a AND (2 ^ k - 1) = take_bit k (drop_bit n a)"
    by (simp add: take_bit_eq_mask mask_eq_decr_exp)
  moreover have "unat (take_bit k (drop_bit n a)) = unat a div 2 ^ n mod 2 ^ k"
    by (simp add: unsigned_take_bit_eq unat_drop_bit_eq flip: take_bit_eq_mod drop_bit_eq_div)
  moreover have "x mod 2 ^ k < 2 ^ 32" for x :: nat
  proof -
    have "x mod 2 ^ k < 2 ^ k" by simp
    also have "\<dots> < 2 ^ 32" using k by (intro power_strict_increasing) simp_all
    finally show ?thesis .
  qed
  ultimately show ?thesis by (simp add: unsigned_ucast_eq take_bit_eq_mod)
qed

lemma ucast_drop_mask: "m \<le> 32 \<Longrightarrow> (ucast (drop_bit l (mask m :: u32)) :: u64) = mask (m - l)"
  by (rule bit_eqI) (auto simp: bit_unsigned_iff bit_mask_iff bit_drop_bit_eq)

lemma unat_push: "unat w * 2 ^ n < 2 ^ 32 \<Longrightarrow> unat (push_bit n (w :: u32)) = unat w * 2 ^ n"
  by (subst unsigned_push_bit_eq) (simp add: push_bit_eq_mult take_bit_eq_mod)

text \<open>A configuration whose sizes are powers of two, as all of \<open>DRAMConfig.h\<close> are.\<close>

definition geometry :: "dram_config \<Rightarrow> nat \<Rightarrow> nat \<Rightarrow> nat \<Rightarrow> bool" where
  "geometry c k m r \<longleftrightarrow> NUM_BANKS c = 2 ^ k \<and> NUM_COLS c = 2 ^ m \<and> NUM_ROWS c = 2 ^ r \<and> k < 32 \<and> m < 32 \<and> r < 32
     \<and> block_bits c \<le> m"

lemma vaultMap_unat: "unat (vaultMap c a) = unat a div 2 ^ block_bits c mod 2 ^ 5"
  using unat_masked [of 5 "block_bits c" a] by (simp add: vaultMap_def log2_block NUM_VAULTS_def)

lemma AddressMapping_fields:
  assumes g: "geometry c k m r" and A: "AddressMapping c a = (bankAdd, colAdd, rowAdd)"
  shows "unat bankAdd = unat a div 2 ^ (block_bits c + 5) mod 2 ^ k"
    "unat colAdd = unat a div 2 ^ (block_bits c + 5 + k) mod 2 ^ (m - block_bits c) * 2 ^ block_bits c"
    "unat rowAdd = unat a div 2 ^ (5 + k + m) mod 2 ^ r"
proof -
  let ?l = "block_bits c" and ?b = "log2u (block_bytes (ADDRESS_MAPPING c))"
  have lg: "unat (log2u (2 ^ k)) = k" "unat (log2u (2 ^ m)) = m" "unat (log2u 32) = 5"
    using log2u_power [of k] log2u_power [of m] log2u_power [of 5] g by (simp_all add: geometry_def)
  have l: "?l \<le> 8" by (simp add: block_bits_def split: mapping_scheme.splits)
  have s1: "unat (?b + log2u 32) = ?l + 5" using l lg(3) by (simp add: unat_word_ariths log2_block)
  have s2: "unat (log2u (2 ^ m) - ?b) = m - ?l"
    using g lg(2) by (subst unat_sub) (simp_all add: word_le_nat_alt log2_block geometry_def)
  have dd: "drop_bit i (drop_bit j x) = drop_bit (j + i) x" for i j and x :: u64 by (simp add: add.commute)
  have cm: "ucast (drop_bit ?l ((2 :: u32) ^ m - 1)) = ((2 :: u64) ^ (m - ?l) - 1)"
    using g ucast_drop_mask [of m ?l] by (simp add: geometry_def mask_eq_decr_exp)
  have um: "ucast ((2 :: u32) ^ n - 1) = ((2 :: u64) ^ n - 1)" if "n < 32" for n
    using that ucast_drop_mask [of n 0] by (simp add: mask_eq_decr_exp)
  have e: "bankAdd = ucast (drop_bit (?l + 5) a AND (2 ^ k - 1))"
     "colAdd = push_bit ?l (ucast (drop_bit (?l + 5 + k) a AND (2 ^ (m - ?l) - 1)))"
     "rowAdd = ucast (drop_bit (5 + k + m) a AND (2 ^ r - 1))"
    using A g s1 lg s2 by (simp_all add: AddressMapping_def Let_def geometry_def NUM_VAULTS_def log2_block dd cm um algebra_simps)
  show "unat bankAdd = unat a div 2 ^ (?l + 5) mod 2 ^ k" using e(1) unat_masked g by (simp add: geometry_def)
  show "unat rowAdd = unat a div 2 ^ (5 + k + m) mod 2 ^ r" using e(3) unat_masked g by (simp add: geometry_def)
  let ?w = "ucast (drop_bit (?l + 5 + k) a AND (2 ^ (m - ?l) - 1)) :: u32"
  have w: "unat ?w = unat a div 2 ^ (?l + 5 + k) mod 2 ^ (m - ?l)"
    using g by (intro unat_masked) (simp add: geometry_def less_imp_diff_less)
  have "unat ?w * 2 ^ ?l < 2 ^ (m - ?l) * 2 ^ ?l" unfolding w by (intro mult_strict_right_mono) simp_all
  also have "\<dots> = 2 ^ m" using g by (simp add: geometry_def flip: power_add)
  also have "\<dots> \<le> 2 ^ 32" using g by (intro power_increasing) (simp_all add: geometry_def)
  finally show "unat colAdd = unat a div 2 ^ (?l + 5 + k) mod 2 ^ (m - ?l) * 2 ^ ?l"
    using e(2) unat_push w by metis
qed

text \<open>The fields of an address put it together again.\<close>

lemma div_mod_join: "(a :: nat) div 2 ^ n = (a div 2 ^ (n + k)) * 2 ^ k + a div 2 ^ n mod 2 ^ k"
  by (simp add: power_add div_mult2_eq div_mult_mod_eq)

lemma div_eq_of_mod_eq: "(a :: nat) div 2 ^ (n + k) = b div 2 ^ (n + k) \<Longrightarrow> a div 2 ^ n mod 2 ^ k = b div 2 ^ n mod 2 ^ k \<Longrightarrow>
    a div 2 ^ n = b div 2 ^ n"
  using div_mod_join [of a n k] div_mod_join [of b n k] by simp

lemma AddressMapping_inj:
  assumes g: "geometry c k m r" and e: "AddressMapping c a = AddressMapping c b" "vaultMap c a = vaultMap c b"
    and lt: "unat a < 2 ^ (5 + k + m + r)" "unat b < 2 ^ (5 + k + m + r)"
  shows "unat a div 2 ^ block_bits c = unat b div 2 ^ block_bits c"
proof -
  let ?l = "block_bits c"
  obtain x y z where A: "AddressMapping c a = (x, y, z)" "AddressMapping c b = (x, y, z)"
    using e(1) prod_cases3 by metis
  note fa = AddressMapping_fields [OF g A(1)] and fb = AddressMapping_fields [OF g A(2)]
  have lm: "?l \<le> m" using g by (simp add: geometry_def)
  have small: "x div 2 ^ (5 + k + m) mod 2 ^ r = x div 2 ^ (5 + k + m)" if "x < 2 ^ (5 + k + m + r)" for x :: nat
  proof -
    have "x < 2 ^ r * 2 ^ (5 + k + m)" using that by (simp add: power_add mult.commute)
    then show ?thesis by (intro mod_less less_mult_imp_div_less)
  qed
  have "unat a div 2 ^ (5 + k + m) = unat b div 2 ^ (5 + k + m)"
    using fa(3) fb(3) small [OF lt(1)] small [OF lt(2)] by simp
  moreover have "5 + k + m = ?l + 5 + k + (m - ?l)" using lm by simp
  ultimately have "unat a div 2 ^ (?l + 5 + k + (m - ?l)) = unat b div 2 ^ (?l + 5 + k + (m - ?l))" by metis
  moreover have "unat a div 2 ^ (?l + 5 + k) mod 2 ^ (m - ?l) = unat b div 2 ^ (?l + 5 + k) mod 2 ^ (m - ?l)"
    using fa(2) fb(2) by simp
  ultimately have "unat a div 2 ^ (?l + 5 + k) = unat b div 2 ^ (?l + 5 + k)" by (rule div_eq_of_mod_eq)
  then have "unat a div 2 ^ (?l + 5) = unat b div 2 ^ (?l + 5)"
    using div_eq_of_mod_eq [of "unat a" "?l + 5" k "unat b"] fa(1) fb(1) by simp
  then show ?thesis
    using div_eq_of_mod_eq [of "unat a" ?l 5 "unat b"] vaultMap_unat [of c a] vaultMap_unat [of c b] e(2) by simp
qed

lemma block_bytes_bits: "unat (block_bytes (ADDRESS_MAPPING c)) = 2 ^ block_bits c"
  by (cases "ADDRESS_MAPPING c") (simp_all add: block_bits_def)

lemma AddressMapping_range:
  assumes "geometry c k m r"
  shows "case AddressMapping c a of (bankAdd, colAdd, rowAdd) \<Rightarrow> unat bankAdd < NUM_BANKS c \<and> rowAdd < NUM_ROWS c
    \<and> colAdd < NUM_COLS c \<and> 2 ^ block_bits c dvd unat colAdd"
proof -
  obtain x y z where A: "AddressMapping c a = (x, y, z)" using prod_cases3 by metis
  note f = AddressMapping_fields [OF assms A]
  let ?l = "block_bits c"
  have u: "unat ((2 :: u32) ^ n) = 2 ^ n" if "n < 32" for n using that by (rule unat_two_power_u32)
  have "unat y < 2 ^ (m - ?l) * 2 ^ ?l" unfolding f(2) by (intro mult_strict_right_mono) simp_all
  then have "unat y < 2 ^ m" using assms by (simp add: geometry_def flip: power_add)
  then show ?thesis using assms A f u by (simp add: geometry_def word_less_nat_alt)
qed

lemma example_mapping:
  "geometry default_config 3 10 14" "AddressMapping default_config 0x1000 = (2, 0, 0)"
  "AddressMapping default_config 0x1020 = (2, 0, 0)"
  "vaultMap default_config 0x1000 = 0" "vaultMap default_config 0x1020 = 0"
  "unat (block_bytes (ADDRESS_MAPPING default_config)) = 64"
  by (simp add: geometry_def default_config_def block_bits_def) (code_simp+)

section \<open>Properties of the address mapping\<close>

text \<open>
  C33. The address mapping loses nothing: with sizes that are powers of two (those of \<open>DRAMConfig.h\<close>
  are), two addresses within the capacity of a cube that go to the same vault, bank, column and row
  lie in the same block, and the bank and row are in range and the column is aligned to the block.
\<close>

theorem AddressMapping_one_to_one:
  assumes "geometry c k m r" and "AddressMapping c a = AddressMapping c b" and "vaultMap c a = vaultMap c b"
    and "unat a < 2 ^ (5 + k + m + r)" and "unat b < 2 ^ (5 + k + m + r)"
  shows "unat a div unat (block_bytes (ADDRESS_MAPPING c)) = unat b div unat (block_bytes (ADDRESS_MAPPING c))
    \<and> (case AddressMapping c a of (bankAdd, colAdd, rowAdd) \<Rightarrow> unat bankAdd < NUM_BANKS c \<and> rowAdd < NUM_ROWS c
        \<and> colAdd < NUM_COLS c \<and> unat (block_bytes (ADDRESS_MAPPING c)) dvd unat colAdd)"
  using AddressMapping_inj [OF assms] AddressMapping_range [OF assms(1), of a]
  by (simp add: block_bytes_bits)

theorem AddressMapping_one_to_one_witness:
  "unat (0x1000 :: u64) div 64 = unat (0x1020 :: u64) div 64 \<and> AddressMapping default_config 0x1000 = (2, 0, 0)"
  using AddressMapping_one_to_one [of default_config 3 10 14 "0x1000" "0x1020"]
  by (simp add: example_mapping)

end
