(* ===== verification/Active_Routing.thy ===== *)
theory Active_Routing
  imports Buffers Transactions Routing Address_Mapping
begin

text \<open>
  The active-routing engine of a cube: the flow and operand tables of \<open>ArtModule.h\<close> and the part of
  \<open>CrossbarSwitch::Update\<close> (\<open>CrossbarSwitch.cpp\<close>) that reduces the operands and answers gathers. A
  flow is the tree of cubes that together compute one reduction. A cube counts in the entry of a flow
  the updates it has taken over (\<open>req_count\<close>) and those it has accounted for (\<open>rep_count\<close>); an
  update it has taken over is either in an operand buffer or was passed on to a child cube
  (\<open>children_count\<close>). The member \<open>result\<close> of an entry is written only under the macro \<open>COMPUTE\<close> and
  is left out.
\<close>

section \<open>Tables\<close>

datatype (plugins only: code size) Opcode = ADD | MAC | INVALID

text \<open>The entries of the tables in a vault have the first members only.\<close>

record vault_flow_entry =
  opcode :: Opcode
  req_count :: u64
  rep_count :: u64
  parent :: int
  g_flag :: bool

record flow_entry = vault_flow_entry +
  children_count :: "int list"
  children_gflag :: "bool list"
  vault_count :: "int list"
  vault_gflag :: "bool list"

definition VaultFlowEntry :: "Opcode \<Rightarrow> vault_flow_entry" where
  "VaultFlowEntry op = \<lparr>opcode = op, req_count = 0, rep_count = 0, parent = -1, g_flag = False\<rparr>"

definition FlowEntry :: "Opcode \<Rightarrow> flow_entry" where
  "FlowEntry op = \<lparr>opcode = op, req_count = 0, rep_count = 0, parent = -1, g_flag = False,
     children_count = replicate NUM_LINKS 0, children_gflag = replicate NUM_LINKS False,
     vault_count = replicate NUM_VAULTS 0, vault_gflag = replicate NUM_VAULTS False\<rparr>"

record vault_operand_entry =
  flowID :: u64
  src_addr1 :: u64
  src_addr2 :: u64
  op1_ready :: bool
  op2_ready :: bool
  oe_ready :: bool
  multStageCounter :: int
  oe_counted :: bool

record operand_entry = vault_operand_entry +
  oe_vault :: u32

definition VaultOperandEntry :: "int \<Rightarrow> vault_operand_entry" where
  "VaultOperandEntry initMultStage = \<lparr>flowID = 0, src_addr1 = 0, src_addr2 = 0, op1_ready = False, op2_ready = False,
     oe_ready = False, multStageCounter = initMultStage, oe_counted = False\<rparr>"

definition OperandEntry :: "int \<Rightarrow> operand_entry" where
  "OperandEntry initMultStage = \<lparr>flowID = 0, src_addr1 = 0, src_addr2 = 0, op1_ready = False, op2_ready = False,
     oe_ready = False, multStageCounter = initMultStage, oe_counted = False, oe_vault = -1\<rparr>"

text \<open>\<open>std::map<FlowID, FlowEntry>\<close>, in the order of its keys, which is the order of its iteration.\<close>

type_synonym flow_table = "(u64 \<times> flow_entry) list"

fun flow_insert :: "u64 \<Rightarrow> 'e \<Rightarrow> (u64 \<times> 'e) list \<Rightarrow> (u64 \<times> 'e) list" where
  "flow_insert k e [] = [(k, e)]"
| "flow_insert k e ((k', e') # t) =
     (if k < k' then (k, e) # (k', e') # t else if k = k' then (k, e) # t else (k', e') # flow_insert k e t)"

definition flow_erase :: "u64 \<Rightarrow> (u64 \<times> 'e) list \<Rightarrow> (u64 \<times> 'e) list" where
  "flow_erase k t = filter (\<lambda>(k', e). k' \<noteq> k) t"

text \<open>
  The crossbar switch. Its destinations are arguments of the operations, the store of traces, the
  statistics and the global packet tag, which all components share, are fields.
\<close>

record xbar = dual_vector +
  inServiceLink :: int
  pendingSegTag :: "u32 list"
  pendingSegPacket :: "packet list"
  inputBuffers :: "dual_vector list"
  flowTable :: flow_table
  operandBuffers :: "operand_entry list"
  freeOperandBufIDs :: "nat list"
  multPipeOccupancy :: int
  numMultStages :: int
  cubeID :: u32
  neighborCubeID :: "int list"
  upLink :: nat
  downLink :: nat
  opbufStalls :: u64
  numUpdates :: u64
  numOperands :: u64
  total_ready_operands :: int
  total_results_ready :: int
  ready_operands_hist :: "int \<rightharpoonup> int"
  results_ready_hist :: "int \<rightharpoonup> int"
  x_gtag :: u32
  x_traces :: "tran_trace list"
  x_statis :: tran_statistic

record net_par =
  np_cfg :: dram_config
  np_CRC_CHECK :: bool
  np_rnd :: "nat \<Rightarrow> u64"
  np_raw :: packet
  np_topology :: topology
  np_nodes :: int

definition CrossbarSwitch :: "u32 \<Rightarrow> u32 \<Rightarrow> tran_trace list \<Rightarrow> tran_statistic \<Rightarrow> xbar" where
  "CrossbarSwitch cube gtag traces st =
     dual_vector.extend (DualVectorObject MAX_CROSS_BUF MAX_CROSS_BUF 0)
       (xbar.fields 0 [] [] (replicate (NUM_LINKS + 1) InputBuffer) [] (replicate MAX_OPERAND_BUF (OperandEntry 5))
         [0..<MAX_OPERAND_BUF] 0 5 cube (replicate NUM_LINKS (-1)) 0 0 0 0 0 0 0 Map.empty Map.empty gtag traces st)"

section \<open>Helpers of the update\<close>

definition at_int :: "'a list \<Rightarrow> int \<Rightarrow> 'a result" where
  "at_int xs i = checkE (0 \<le> i \<and> i < int (length xs)) (Undefined ''index'') (Inr (xs ! nat i))"

text \<open>\<open>rf->findNextLink(inServiceLink, cubeID, dest, req)\<close>; \<open>inServiceLink\<close> is passed by reference.\<close>

definition route :: "net_par \<Rightarrow> int \<Rightarrow> bool \<Rightarrow> xbar \<Rightarrow> (xbar \<times> int) result" where
  "route par dest req x =
     bindE (findNextLink (np_topology par) (np_nodes par) (inServiceLink x) (cubeID x) (word_of_int dest) req)
       (\<lambda>(l, link). Inr (x\<lparr>inServiceLink := l\<rparr>, link))"

definition here :: "xbar \<Rightarrow> int \<Rightarrow> bool" where
  "here x cube \<longleftrightarrow> (word_of_int cube :: u32) = cubeID x"

definition copy_packet :: "net_par \<Rightarrow> packet \<Rightarrow> packet" where
  "copy_packet par p = Packet_copy (np_CRC_CHECK par) (np_rnd par) (np_raw par) p"

text \<open>\<open>(a << 30) >> 30\<close>: the low 34 bits of an address.\<close>

definition low_addr :: "u64 \<Rightarrow> u64" where
  "low_addr a = drop_bit 30 (push_bit 30 a)"

text \<open>\<open>delete trace\<close>: the destructor may add to the statistics.\<close>

definition delete_trace :: "nat option \<Rightarrow> xbar \<Rightarrow> xbar" where
  "delete_trace t x = (case t of None \<Rightarrow> x | Some i \<Rightarrow> x\<lparr>x_statis := delete_TranTrace (x_traces x ! i) (x_statis x)\<rparr>)"

text \<open>\<open>new TranTrace(*trace)\<close>.\<close>

definition copy_trace :: "nat option \<Rightarrow> xbar \<Rightarrow> (nat option \<times> xbar) result" where
  "copy_trace t x = (case t of None \<Rightarrow> Inl (Undefined ''null'')
     | Some i \<Rightarrow> Inr (Some (length (x_traces x)), x\<lparr>x_traces := x_traces x @ [x_traces x ! i]\<rparr>))"

section \<open>Registering updates\<close>

text \<open>An update of a flow is taken over: the entry is made by the first one.\<close>

definition register_flow :: "Opcode \<Rightarrow> int \<Rightarrow> u64 \<Rightarrow> flow_table \<Rightarrow> flow_table result" where
  "register_flow op parent_cube dest_addr t = (case map_of t dest_addr of
     None \<Rightarrow> Inr (flow_insert dest_addr ((FlowEntry op)\<lparr>parent := parent_cube, req_count := 1\<rparr>) t)
   | Some e \<Rightarrow> checkE (parent e = parent_cube) (Assertion ''parent'')
       (Inr (flow_insert dest_addr (e\<lparr>req_count := req_count e + 1\<rparr>) t)))"

definition register_update :: "net_par \<Rightarrow> Opcode \<Rightarrow> packet \<Rightarrow> xbar \<Rightarrow> xbar result" where
  "register_update par op p x =
     bindE (route par (SRCCUB p) True x) (\<lambda>(x, link).
     bindE (at_int (neighborCubeID x) link) (\<lambda>parent_cube.
     bindE (register_flow op parent_cube (DESTADRS p) (flowTable x)) (\<lambda>t. Inr (x\<lparr>flowTable := t\<rparr>))))"

text \<open>
  An operand buffer is taken from the front of the free list. The update of one operand leaves
  \<open>src_addr2\<close> at the zero the assertion demands.
\<close>

definition reserve_operand :: "u64 \<Rightarrow> u64 \<Rightarrow> u64 \<Rightarrow> xbar \<Rightarrow> (nat \<times> xbar) result" where
  "reserve_operand dest_addr src1 src2 x = (case freeOperandBufIDs x of [] \<Rightarrow> Inl (Undefined ''front'')
     | i # free \<Rightarrow> bindE (at_int (operandBuffers x) (int i)) (\<lambda>e.
         checkE (src_addr1 e = 0 \<and> src_addr2 e = 0) (Assertion ''src_addr'')
        (checkE (\<not> op1_ready e \<and> \<not> op2_ready e \<and> \<not> oe_ready e) (Assertion ''ready'')
          (Inr (i, x\<lparr>freeOperandBufIDs := free,
             operandBuffers := (operandBuffers x)[i := e\<lparr>flowID := dest_addr, src_addr1 := src1, src_addr2 := src2\<rparr>]\<rparr>)))))"

text \<open>\<open>children_count[link]++\<close>; beyond the range of \<open>int\<close> it is undefined.\<close>

definition bump_child :: "u64 \<Rightarrow> int \<Rightarrow> flow_table \<Rightarrow> flow_table result" where
  "bump_child dest_addr link t = (case map_of t dest_addr of None \<Rightarrow> Inl (Undefined ''flow'')
     | Some e \<Rightarrow> bindE (at_int (children_count e) link) (\<lambda>n. checkE (n + 1 < 2 ^ 31) (Undefined ''overflow'')
         (Inr (flow_insert dest_addr (e\<lparr>children_count := (children_count e)[nat link := n + 1]\<rparr>) t))))"

section \<open>Responses to updates\<close>

text \<open>The operand of an addition arrives.\<close>

definition operand_arrives :: "packet \<Rightarrow> xbar \<Rightarrow> xbar result" where
  "operand_arrives p x =
     checkE (here x (DESTCUB p)) (Assertion ''DESTCUB'')
    (checkE (map_of (flowTable x) (DESTADRS p) \<noteq> None) (Assertion ''flowTable'')
    (bindE (at_int (operandBuffers x) (operandBufID p)) (\<lambda>e.
       checkE (flowID e = DESTADRS p \<and> src_addr1 e = SRCADRS1 p) (Assertion ''operand'')
      (checkE (\<not> op1_ready e \<and> \<not> op2_ready e \<and> \<not> oe_ready e) (Assertion ''ready'')
        (Inr (delete_trace (trace p) (x\<lparr>operandBuffers := (operandBuffers x)
           [nat (operandBufID p) := e\<lparr>op1_ready := True, oe_ready := True\<rparr>]\<rparr>)))))))"

text \<open>One of the two operands of a multiplication arrives.\<close>

definition half_operand :: "packet \<Rightarrow> operand_entry \<Rightarrow> operand_entry result" where
  "half_operand p e =
     (if SRCADRS1 p \<noteq> 0 \<and> SRCADRS2 p = 0
      then checkE (src_addr1 e = SRCADRS1 p \<and> \<not> op1_ready e \<and> \<not> oe_ready e) (Assertion ''operand 1'')
             (Inr (e\<lparr>op1_ready := True\<rparr>))
      else if SRCADRS1 p = 0 \<and> SRCADRS2 p \<noteq> 0
      then checkE (src_addr2 e = SRCADRS2 p \<and> \<not> op2_ready e \<and> \<not> oe_ready e) (Assertion ''operand 2'')
             (Inr (e\<lparr>op2_ready := True\<rparr>))
      else Inl (Assertion ''ACT_MULT''))"

definition factor_arrives :: "net_par \<Rightarrow> packet \<Rightarrow> xbar \<Rightarrow> xbar result" where
  "factor_arrives par p x = (case map_of (flowTable x) (DESTADRS p) of None \<Rightarrow> Inl (Assertion ''flowTable'')
     | Some fe \<Rightarrow> bindE (route par (parent fe) False x) (\<lambda>(x, link).
         bindE (at_int (operandBuffers x) (operandBufID p)) (\<lambda>e.
         bindE (half_operand p e) (\<lambda>e.
           (let both = (op1_ready e \<and> op2_ready e);
                e = (if both then e\<lparr>oe_ready := True\<rparr> else e);
                x = x\<lparr>operandBuffers := (operandBuffers x)[nat (operandBufID p) := e]\<rparr>
            in Inr (if both then delete_trace (trace p) x else x))))))"

text \<open>A child cube answers a gather: all the updates passed on to it are accounted for.\<close>

definition child_answers :: "net_par \<Rightarrow> packet \<Rightarrow> xbar \<Rightarrow> xbar result" where
  "child_answers par p x = (case map_of (flowTable x) (DESTADRS p) of None \<Rightarrow> Inl (Assertion ''flowTable'')
     | Some fe \<Rightarrow> bindE (route par (SRCCUB p) False x) (\<lambda>(x, child_link).
         bindE (at_int (children_count fe) child_link) (\<lambda>child_count.
           Inr (delete_trace (trace p) (x\<lparr>flowTable := flow_insert (DESTADRS p)
             (fe\<lparr>rep_count := rep_count fe + of_int child_count,
                children_count := (children_count fe)[nat child_link := 0]\<rparr>) (flowTable x)\<rparr>)))))"

section \<open>Reducing operands\<close>

definition release :: "int \<Rightarrow> 'o vault_operand_entry_scheme \<Rightarrow> 'o vault_operand_entry_scheme" where
  "release stages e = e\<lparr>flowID := 0, src_addr1 := 0, src_addr2 := 0, op1_ready := False, op2_ready := False,
     oe_ready := False, oe_counted := False, multStageCounter := stages\<rparr>"

definition finish_operand :: "nat \<Rightarrow> flow_entry \<Rightarrow> xbar \<Rightarrow> xbar" where
  "finish_operand i fe x = (let e = operandBuffers x ! i in
     x\<lparr>flowTable := flow_insert (flowID e) (fe\<lparr>rep_count := rep_count fe + 1\<rparr>) (flowTable x),
       total_results_ready := total_results_ready x + 1,
       operandBuffers := (operandBuffers x)[i := release (numMultStages x) e],
       freeOperandBufIDs := freeOperandBufIDs x @ [i]\<rparr>)"

text \<open>One operand buffer; the flags say whether a multiplication was started and an addition done.\<close>

definition consume_one :: "nat \<Rightarrow> bool \<times> bool \<times> xbar \<Rightarrow> (bool \<times> bool \<times> xbar) result" where
  "consume_one i s = (case s of (startedMult, finishedAdd, x) \<Rightarrow>
     (let e0 = operandBuffers x ! i in
      if \<not> oe_ready e0 then Inr (startedMult, finishedAdd, x)
      else
        (let e = e0\<lparr>oe_counted := True\<rparr>;
             x = x\<lparr>total_ready_operands := total_ready_operands x + (if oe_counted e0 then 0 else 1),
                   operandBuffers := (operandBuffers x)[i := e]\<rparr>;
             stepped = e\<lparr>multStageCounter := multStageCounter e - 1\<rparr>
         in case map_of (flowTable x) (flowID e) of None \<Rightarrow> Inl (Assertion ''flowTable'')
            | Some fe \<Rightarrow> (case opcode fe of
                MAC \<Rightarrow> if multStageCounter e = numMultStages x
                  then (if \<not> startedMult \<and> multPipeOccupancy x < numMultStages x
                        then Inr (True, finishedAdd, x\<lparr>multPipeOccupancy := multPipeOccupancy x + 1,
                               operandBuffers := (operandBuffers x)[i := stepped]\<rparr>)
                        else Inr (startedMult, finishedAdd, x))
                  else if multStageCounter stepped > 0
                  then Inr (startedMult, finishedAdd, x\<lparr>operandBuffers := (operandBuffers x)[i := stepped]\<rparr>)
                  else Inr (startedMult, finishedAdd,
                         finish_operand i fe (x\<lparr>multPipeOccupancy := multPipeOccupancy x - 1,
                           operandBuffers := (operandBuffers x)[i := stepped]\<rparr>))
              | ADD \<Rightarrow> if finishedAdd then Inr (startedMult, finishedAdd, x)
                  else Inr (startedMult, True, finish_operand i fe x)
              | INVALID \<Rightarrow> Inr (startedMult, finishedAdd, finish_operand i fe x)))))"

definition count_hist :: "int \<Rightarrow> (int \<rightharpoonup> int) \<Rightarrow> (int \<rightharpoonup> int)" where
  "count_hist k h = h(k \<mapsto> (case h k of None \<Rightarrow> 1 | Some n \<Rightarrow> n + 1))"

definition consume_operands :: "xbar \<Rightarrow> xbar result" where
  "consume_operands x =
     bindE (foldE consume_one [0..<length (operandBuffers x)] (False, False, x\<lparr>total_ready_operands := 0, total_results_ready := 0\<rparr>))
       (\<lambda>(_, _, x). Inr (x\<lparr>ready_operands_hist := count_hist (total_ready_operands x) (ready_operands_hist x),
          results_ready_hist := count_hist (total_results_ready x) (results_ready_hist x)\<rparr>))"

section \<open>Answering gathers\<close>

text \<open>A gather waits behind the updates of its flow.\<close>

definition update_of :: "u64 \<Rightarrow> packet option \<Rightarrow> bool" where
  "update_of k q = (case q of None \<Rightarrow> False | Some q \<Rightarrow> CMD q \<in> set [ACT_ADD, ACT_DOT, ACT_MULT] \<and> DESTADRS q = k)"

text \<open>
  One entry of the flow table. The trace of the reply is allocated before the buffer is tried and
  deleted again on failure; being fresh it does not reach the statistics, so only the one that is
  kept enters the store.
\<close>

definition gather_one ::
  "net_par \<Rightarrow> u64 \<times> flow_entry \<Rightarrow> xbar \<times> 'm dual_vector_scheme list \<Rightarrow> (xbar \<times> 'm dual_vector_scheme list) result" where
  "gather_one par kf s = (case (kf, s) of ((k, fe), (x, ms)) \<Rightarrow>
     (if req_count fe = rep_count fe \<and> g_flag fe
      then bindE (route par (parent fe) False x) (\<lambda>(x, link).
           bindE (at_int ms link) (\<lambda>m.
             (let (gpkt, gtag) = Packet_active (np_CRC_CHECK par) (np_rnd par) (np_raw par) (x_gtag x) RESPONSE ACT_GET k 0 0 2
                    (Some (length (x_traces x))) (sint (cubeID x)) (parent fe);
                  x = x\<lparr>x_gtag := gtag\<rparr>
              in if currentState m \<noteq> LINK_RETRY
                 then (case ReceiveUp gpkt m of (ok, m) \<Rightarrow>
                   if ok then Inr (x\<lparr>flowTable := flow_erase k (flowTable x), x_traces := x_traces x @ [TranTrace]\<rparr>, ms[nat link := m])
                   else Inr (x, ms))
                 else Inr (x, ms))))
      else Inr (x, ms)))"

definition gather_replies ::
  "net_par \<Rightarrow> xbar \<times> 'm dual_vector_scheme list \<Rightarrow> (xbar \<times> 'm dual_vector_scheme list) result" where
  "gather_replies par s = foldE (gather_one par) (flowTable (fst s)) s"

section \<open>The tables as maps\<close>

lemma map_of_flow_insert [simp]: "map_of (flow_insert k e t) = (map_of t)(k \<mapsto> e)"
  by (induction t) auto

lemma keys_flow_insert [simp]: "fst ` set (flow_insert k e t) = insert k (fst ` set t)"
  by (simp flip: dom_map_of_conv_image_fst)

lemma sorted_flow_insert: "sorted_wrt (<) (map fst t) \<Longrightarrow> sorted_wrt (<) (map fst (flow_insert k e t))"
proof (induction t)
  case (Cons a t)
  obtain k' e' where a: "a = (k', e')" by (cases a)
  have "\<forall>y \<in> fst ` set (flow_insert k e t). k' < y" if "k' < k" using Cons.prems that by (auto simp: a)
  then show ?case using Cons by (auto simp: a not_less order_le_less)
qed simp

lemma map_of_flow_erase [simp]: "map_of (flow_erase k t) = (map_of t)(k := None)"
  by (induction t) (auto simp: flow_erase_def)

lemma sorted_flow_erase: "sorted_wrt (<) (map fst t) \<Longrightarrow> sorted_wrt (<) (map fst (flow_erase k t))"
  by (induction t) (auto simp: flow_erase_def)

lemma sorted_keys_distinct: "sorted_wrt (<) ks \<Longrightarrow> distinct (ks :: u64 list)"
  by (induction ks) auto

text \<open>
  A loop over a table that may erase the entry it is at: the other entries stay, and for an erased
  entry what the step says of it holds.
\<close>

lemma erase_fold:
  assumes "foldE f kfs s = Inr s'" "I s" "distinct (map fst kfs)" "\<forall>(k, e) \<in> set kfs. map_of (tab s) k = Some e"
    and step: "\<And>k e s s'. f (k, e) s = Inr s' \<Longrightarrow> I s \<Longrightarrow> map_of (tab s) k = Some e \<Longrightarrow>
      I s' \<and> (tab s' = tab s \<or> tab s' = flow_erase k (tab s) \<and> R k e)"
  shows "I s' \<and> (\<forall>k. map_of (tab s) k = None \<longrightarrow> map_of (tab s') k = None)
    \<and> (\<forall>k e. map_of (tab s) k = Some e \<longrightarrow> map_of (tab s') k = Some e \<or> map_of (tab s') k = None \<and> R k e)"
  using assms(1-4)
proof (induction kfs arbitrary: s)
  case (Cons kf kfs)
  obtain k e where kf: "kf = (k, e)" by (cases kf)
  then obtain s1 where r: "f (k, e) s = Inr s1" "foldE f kfs s1 = Inr s'" using Cons.prems(1) by (auto simp: err_simps)
  have k: "map_of (tab s) k = Some e" using Cons.prems(4) kf by auto
  have 1: "I s1" and t: "tab s1 = tab s \<or> tab s1 = flow_erase k (tab s) \<and> R k e" using step [OF r(1) Cons.prems(2) k] by auto
  have "\<forall>(k', e') \<in> set kfs. map_of (tab s1) k' = Some e'" using t Cons.prems(3,4) kf by (fastforce simp: image_iff)
  then have ih: "I s'" "\<forall>k. map_of (tab s1) k = None \<longrightarrow> map_of (tab s') k = None"
    "\<forall>k e. map_of (tab s1) k = Some e \<longrightarrow> map_of (tab s') k = Some e \<or> map_of (tab s') k = None \<and> R k e"
    using Cons.IH [OF r(2) 1] Cons.prems(3) by simp_all
  have "map_of (tab s') k' = Some e' \<or> map_of (tab s') k' = None \<and> R k' e'" if k': "map_of (tab s) k' = Some e'" for k' e'
  proof (cases "map_of (tab s1) k' = Some e'")
    case False
    then have "k' = k" "map_of (tab s1) k = None" "e' = e" "R k e" using t k k' by (auto split: if_splits)
    then show ?thesis using ih(2) by simp
  qed (use ih(3) in blast)
  moreover have "map_of (tab s') k' = None" if "map_of (tab s) k' = None" for k' using ih(2) t that by auto
  ultimately show ?case using ih(1) by blast
qed simp

lemma erase_loop:
  assumes "foldE f (tab s) s = Inr s'" "I s" "sorted_wrt (<) (map fst (tab s))"
    and "\<And>k e s s'. f (k, e) s = Inr s' \<Longrightarrow> I s \<Longrightarrow> map_of (tab s) k = Some e \<Longrightarrow>
      I s' \<and> (tab s' = tab s \<or> tab s' = flow_erase k (tab s) \<and> R k e)"
  shows "I s' \<and> (\<forall>k e. map_of (tab s) k = Some e \<longrightarrow> map_of (tab s') k = Some e \<or> map_of (tab s') k = None \<and> R k e)"
proof -
  have d: "distinct (map fst (tab s))" by (rule sorted_keys_distinct [OF assms(3)])
  then have "\<forall>(k, e) \<in> set (tab s). map_of (tab s) k = Some e" by auto
  from erase_fold [where f = f and I = I and tab = tab and s = s and R = R, OF assms(1,2) d this assms(4)] show ?thesis by blast
qed

section \<open>The accounts of a flow\<close>

text \<open>The operand buffers held for a flow, and what it means that its counts are right.\<close>

definition held :: "'o vault_operand_entry_scheme list \<Rightarrow> nat list \<Rightarrow> u64 \<Rightarrow> nat set" where
  "held ops free k = {i. i < length ops \<and> i \<notin> set free \<and> flowID (ops ! i) = k}"

definition clear_entry :: "int \<Rightarrow> 'o vault_operand_entry_scheme \<Rightarrow> bool" where
  "clear_entry stages e \<longleftrightarrow> src_addr1 e = 0 \<and> src_addr2 e = 0 \<and> \<not> op1_ready e \<and> \<not> op2_ready e \<and> \<not> oe_ready e
     \<and> multStageCounter e = stages"

definition counts_ok :: "flow_entry \<Rightarrow> nat \<Rightarrow> bool" where
  "counts_ok e n \<longleftrightarrow> req_count e = rep_count e + of_nat n + of_int (sum_list (children_count e))
     \<and> length (children_count e) = NUM_LINKS \<and> length (children_gflag e) = NUM_LINKS \<and> (\<forall>c \<in> set (children_count e). 0 \<le> c \<and> c < 2 ^ 31)"

definition art_ok :: "flow_table \<Rightarrow> operand_entry list \<Rightarrow> nat list \<Rightarrow> int \<Rightarrow> bool" where
  "art_ok t ops free stages \<longleftrightarrow> distinct free \<and> (\<forall>i \<in> set free. i < length ops \<and> clear_entry stages (ops ! i))
     \<and> (\<forall>i < length ops. i \<notin> set free \<longrightarrow> map_of t (flowID (ops ! i)) \<noteq> None)
     \<and> (\<forall>k e. map_of t k = Some e \<longrightarrow> counts_ok e (card (held ops free k)))
     \<and> sorted_wrt (<) (map fst t) \<and> length ops \<le> 2 ^ 32"

definition art_inv :: "xbar \<Rightarrow> bool" where
  "art_inv x \<longleftrightarrow> art_ok (flowTable x) (operandBuffers x) (freeOperandBufIDs x) (numMultStages x)"

lemma finite_held [simp]: "finite (held ops free k)"
  by (rule finite_subset [of _ "{..<length ops}"]) (auto simp: held_def)

lemma held_none: "art_ok t ops free s \<Longrightarrow> map_of t k = None \<Longrightarrow> held ops free k = {}"
  by (auto simp: art_ok_def held_def)

lemma card_held_le: "art_ok t ops free s \<Longrightarrow> card (held ops free k) \<le> 2 ^ 32"
proof -
  assume a: "art_ok t ops free s"
  have "held ops free k \<subseteq> {..<length ops}" by (auto simp: held_def)
  then have "card (held ops free k) \<le> length ops" by (metis card_lessThan card_mono finite_lessThan)
  then show ?thesis using a by (simp add: art_ok_def)
qed

lemma counts_okE: "art_ok t ops free s \<Longrightarrow> map_of t k = Some e \<Longrightarrow> counts_ok e (card (held ops free k))"
  by (simp add: art_ok_def)

lemma counts_req: "counts_ok e n \<Longrightarrow> counts_ok (e\<lparr>req_count := req_count e + 1\<rparr>) (Suc n)"
  by (simp add: counts_ok_def)

lemma counts_new: "counts_ok ((FlowEntry op)\<lparr>parent := pc, req_count := 1\<rparr>) (Suc 0)"
  by (simp add: counts_ok_def FlowEntry_def sum_list_replicate)

lemma counts_rep: "counts_ok e (Suc n) \<Longrightarrow> counts_ok (e\<lparr>rep_count := rep_count e + 1\<rparr>) n"
  by (simp add: counts_ok_def)

lemma sum_list_update_int: "i < length xs \<Longrightarrow> sum_list (xs[i := v]) = sum_list xs - xs ! i + (v :: int)"
  by (induction xs arbitrary: i) (auto split: nat.splits)

lemma counts_child:
  assumes "counts_ok e (Suc n)" "0 \<le> link" "link < int NUM_LINKS" "children_count e ! nat link + 1 < 2 ^ 31"
  shows "counts_ok (e\<lparr>children_count := (children_count e)[nat link := children_count e ! nat link + 1]\<rparr>) n"
proof -
  let ?cs = "children_count e" and ?i = "nat link"
  have i: "?i < length ?cs" using assms(1-3) by (simp add: counts_ok_def)
  then have "0 \<le> ?cs ! ?i" using assms(1) by (auto simp: counts_ok_def)
  then have "\<forall>c \<in> set (?cs[?i := ?cs ! ?i + 1]). 0 \<le> c \<and> c < 2 ^ 31"
    using assms(1,4) set_update_subset_insert [of ?cs ?i "?cs ! ?i + 1"] by (auto simp: counts_ok_def)
  then show ?thesis using assms(1) i by (simp add: counts_ok_def sum_list_update_int)
qed

lemma counts_answer:
  assumes "counts_ok e n" "0 \<le> link" "link < int (length (children_count e))"
  shows "counts_ok (e\<lparr>rep_count := rep_count e + of_int (children_count e ! nat link),
    children_count := (children_count e)[nat link := 0]\<rparr>) n"
proof -
  let ?cs = "children_count e" and ?i = "nat link"
  have i: "?i < length ?cs" using assms by simp
  have "\<forall>c \<in> set (?cs[?i := 0]). 0 \<le> c \<and> c < 2 ^ 31"
    using assms(1) set_update_subset_insert [of ?cs ?i 0] by (auto simp: counts_ok_def)
  then show ?thesis using assms(1) i by (simp add: counts_ok_def sum_list_update_int)
qed

text \<open>When the two counts of a flow agree, nothing is held for it and no child owes an answer.\<close>

lemma of_int_u64_0: "(of_int n :: u64) = 0 \<Longrightarrow> 0 \<le> n \<Longrightarrow> n < 2 ^ 64 \<Longrightarrow> n = 0"
proof -
  assume a: "(of_int n :: u64) = 0" "0 \<le> n" "n < 2 ^ 64"
  then have "2 ^ 64 dvd n" by (simp add: word_of_int_eq_0_iff)
  then show ?thesis using a(2,3) by (metis zdvd_not_zless order_le_less)
qed

lemma four_small: "length cs = NUM_LINKS \<Longrightarrow> \<forall>c \<in> set cs. 0 \<le> c \<and> c < 2 ^ 31 \<Longrightarrow> 0 \<le> sum_list cs \<and> sum_list cs < (2 :: int) ^ 33"
proof -
  assume l: "length cs = NUM_LINKS" and b: "\<forall>c \<in> set cs. 0 \<le> c \<and> c < (2 :: int) ^ 31"
  obtain a b c d where "cs = [a, b, c, d]"
    using l by (auto simp: NUM_LINKS_def numeral_eq_Suc length_Suc_conv)
  then show ?thesis using b by simp
qed

lemma counts_settled:
  assumes "counts_ok e n" "req_count e = rep_count e" "n \<le> 2 ^ 63"
  shows "n = 0 \<and> (\<forall>c \<in> set (children_count e). c = 0)"
proof -
  let ?s = "sum_list (children_count e)"
  have s: "0 \<le> ?s" "?s < 2 ^ 33" using four_small [of "children_count e"] assms(1) by (simp_all add: counts_ok_def)
  have "(of_int (int n + ?s) :: u64) = 0" using assms(1,2) by (simp add: counts_ok_def)
  then have "int n + ?s = 0" using s assms(3) by (intro of_int_u64_0) simp_all
  then have "n = 0" "?s = 0" using s by simp_all
  then show ?thesis using assms(1) sum_list_nonneg_eq_0_iff [of "children_count e"] by (auto simp: counts_ok_def)
qed

text \<open>The steps.\<close>

lemma art_ok_flow:
  assumes "art_ok t ops free s" "map_of t k = Some e" "\<And>n. counts_ok e n \<Longrightarrow> counts_ok e' n"
  shows "art_ok (flow_insert k e' t) ops free s"
  using assms by (auto simp: art_ok_def sorted_flow_insert)

lemma art_ok_operand:
  assumes "art_ok t ops free s" "i \<notin> set free" "flowID e = flowID (ops ! i)"
  shows "art_ok t (ops[i := e]) free s"
proof -
  have "flowID (ops[i := e] ! j) = flowID (ops ! j)" if "j < length ops" for j
    using that assms(3) by (cases "j = i") auto
  then have "held (ops[i := e]) free k = held ops free k" for k by (auto simp: held_def)
  moreover have "ops[i := e] ! j = ops ! j" if "j \<in> set free" for j using that assms(2) by (cases "j = i") auto
  ultimately show ?thesis using assms(1) \<open>\<And>j. j < length ops \<Longrightarrow> _\<close> by (auto simp: art_ok_def)
qed

lemma art_ok_take:
  assumes ok: "art_ok t ops (i # free) s" and r: "register_flow op pc k t = Inr t'"
  shows "art_ok t' (ops[i := (ops ! i)\<lparr>flowID := k, src_addr1 := a, src_addr2 := b\<rparr>]) free s"
proof -
  let ?ops = "ops[i := (ops ! i)\<lparr>flowID := k, src_addr1 := a, src_addr2 := b\<rparr>]"
  have i: "i < length ops" "i \<notin> set free" using ok by (auto simp: art_ok_def)
  have same: "?ops ! j = ops ! j" if "j \<noteq> i" for j using that by simp
  have hk: "held ?ops free k = insert i (held ops (i # free) k)" "i \<notin> held ops (i # free) k"
    using i by (auto simp: held_def nth_list_update)
  have ho: "held ?ops free k' = held ops (i # free) k'" if "k' \<noteq> k" for k'
    using i that by (auto simp: held_def nth_list_update)
  have "\<exists>e'. t' = flow_insert k e' t \<and> counts_ok e' (Suc (card (held ops (i # free) k)))"
  proof (cases "map_of t k")
    case None
    then have "held ops (i # free) k = {}" using held_none [OF ok] by simp
    then show ?thesis using r None counts_new [of pc op] by (auto simp: register_flow_def)
  next
    case (Some e)
    then show ?thesis using r counts_req [OF counts_okE [OF ok Some]] by (auto simp: register_flow_def err_simps)
  qed
  then obtain e' where t': "t' = flow_insert k e' t" and c: "counts_ok e' (card (held ?ops free k))"
    using hk by auto
  have "\<forall>j < length ?ops. j \<notin> set free \<longrightarrow> map_of t' (flowID (?ops ! j)) \<noteq> None"
    using ok i t' by (auto simp: art_ok_def nth_list_update)
  moreover have "\<forall>j \<in> set free. j < length ?ops \<and> clear_entry s (?ops ! j)" using ok i by (auto simp: art_ok_def nth_list_update)
  ultimately show ?thesis using ok c ho t' by (auto simp: art_ok_def sorted_flow_insert)
qed

lemma art_ok_pass:
  assumes ok: "art_ok t ops free s" and r: "register_flow op pc k t = Inr t'" and b: "bump_child k link t' = Inr t''"
  shows "art_ok t'' ops free s"
proof -
  have "\<exists>e'. map_of t' k = Some e' \<and> counts_ok e' (Suc (card (held ops free k))) \<and> (\<forall>k'. k' \<noteq> k \<longrightarrow> map_of t' k' = map_of t k')
      \<and> sorted_wrt (<) (map fst t')"
  proof (cases "map_of t k")
    case None
    then have "held ops free k = {}" using held_none [OF ok] by simp
    then show ?thesis using r None counts_new [of pc op] ok by (auto simp: register_flow_def art_ok_def sorted_flow_insert)
  next
    case (Some e)
    then show ?thesis using r counts_req [OF counts_okE [OF ok Some]] ok
      by (auto simp: register_flow_def err_simps art_ok_def sorted_flow_insert)
  qed
  then obtain e' where e': "map_of t' k = Some e'" "counts_ok e' (Suc (card (held ops free k)))"
    "\<forall>k'. k' \<noteq> k \<longrightarrow> map_of t' k' = map_of t k'" "sorted_wrt (<) (map fst t')" by blast
  let ?e = "e'\<lparr>children_count := (children_count e')[nat link := children_count e' ! nat link + 1]\<rparr>"
  have t'': "t'' = flow_insert k ?e t'" "0 \<le> link" "link < int (length (children_count e'))" "children_count e' ! nat link + 1 < 2 ^ 31"
    using b e'(1) by (auto simp: bump_child_def at_int_def err_simps)
  then have "counts_ok ?e (card (held ops free k))" using counts_child [OF e'(2)] e'(2) by (simp add: counts_ok_def)
  then show ?thesis using ok e' t''(1) by (auto simp: art_ok_def sorted_flow_insert)
qed

lemma art_ok_finish:
  assumes ok: "art_ok t ops free s" and i: "i < length ops" "i \<notin> set free" and e: "map_of t (flowID (ops ! i)) = Some fe"
  shows "art_ok (flow_insert (flowID (ops ! i)) (fe\<lparr>rep_count := rep_count fe + 1\<rparr>) t) (ops[i := release s (ops ! i)]) (free @ [i]) s"
proof -
  let ?k = "flowID (ops ! i)" and ?ops = "ops[i := release s (ops ! i)]"
  have hk: "held ops free ?k = insert i (held ?ops (free @ [i]) ?k)" "i \<notin> held ?ops (free @ [i]) ?k"
    using i by (auto simp: held_def nth_list_update)
  then have "card (held ops free ?k) = Suc (card (held ?ops (free @ [i]) ?k))" by simp
  then have c: "counts_ok (fe\<lparr>rep_count := rep_count fe + 1\<rparr>) (card (held ?ops (free @ [i]) ?k))"
    using counts_rep counts_okE [OF ok e] by simp
  have ho: "held ?ops (free @ [i]) k' = held ops free k'" if "k' \<noteq> ?k" for k'
    using i that by (auto simp: held_def nth_list_update)
  have "\<forall>j \<in> set (free @ [i]). j < length ?ops \<and> clear_entry s (?ops ! j)"
    using ok i by (auto simp: art_ok_def nth_list_update clear_entry_def release_def)
  moreover have "distinct (free @ [i])" using ok i by (auto simp: art_ok_def)
  ultimately show ?thesis using ok c ho by (auto simp: art_ok_def sorted_flow_insert nth_list_update)
qed

lemma art_ok_erase:
  assumes ok: "art_ok t ops free s" and e: "map_of t k = Some fe" "req_count fe = rep_count fe"
  shows "art_ok (flow_erase k t) ops free s \<and> held ops free k = {} \<and> (\<forall>c \<in> set (children_count fe). c = 0)"
proof -
  have "card (held ops free k) = 0" and c: "\<forall>c \<in> set (children_count fe). c = 0"
    using counts_settled [OF counts_okE [OF ok e(1)] e(2)] card_held_le [OF ok, of k] by auto
  then have h: "held ops free k = {}" by simp
  then have "\<forall>i < length ops. i \<notin> set free \<longrightarrow> flowID (ops ! i) \<noteq> k" by (auto simp: held_def)
  then show ?thesis using ok c h by (auto simp: art_ok_def sorted_flow_erase)
qed

lemma held_operand: "art_ok t ops free s \<Longrightarrow> src_addr1 (ops ! i) \<noteq> 0 \<or> src_addr2 (ops ! i) \<noteq> 0 \<or> oe_ready (ops ! i) \<Longrightarrow> i \<notin> set free"
  by (auto simp: art_ok_def clear_entry_def)

section \<open>The multiplier pipeline\<close>

text \<open>
  An operand is in the pipeline from the cycle its multiplication starts, when its stage counter
  leaves the initial value, until it is released. The occupancy counts these operands.
\<close>

definition in_pipe :: "int \<Rightarrow> 'o vault_operand_entry_scheme \<Rightarrow> bool" where
  "in_pipe stages e \<longleftrightarrow> multStageCounter e < stages"

definition mac_flow :: "(u64 \<times> 'e vault_flow_entry_scheme) list \<Rightarrow> u64 \<Rightarrow> bool" where
  "mac_flow t k = (case map_of t k of None \<Rightarrow> False | Some fe \<Rightarrow> opcode fe = MAC)"

definition pipe_ok :: "(u64 \<times> 'e vault_flow_entry_scheme) list \<Rightarrow> 'o vault_operand_entry_scheme list \<Rightarrow> int \<Rightarrow> int \<Rightarrow> bool" where
  "pipe_ok t ops stages occ \<longleftrightarrow> occ = int (length (filter (in_pipe stages) ops)) \<and> occ \<le> stages \<and> stages > 1
     \<and> (\<forall>e \<in> set ops. 1 \<le> multStageCounter e \<and> multStageCounter e \<le> stages \<and> (in_pipe stages e \<longrightarrow> oe_ready e \<and> mac_flow t (flowID e)))"

definition pipe_inv :: "xbar \<Rightarrow> bool" where
  "pipe_inv x \<longleftrightarrow> pipe_ok (flowTable x) (operandBuffers x) (numMultStages x) (multPipeOccupancy x)"

lemma length_filter_update:
  "i < length xs \<Longrightarrow> int (length (filter P (xs[i := v]))) = int (length (filter P xs)) - (if P (xs ! i) then 1 else 0) + (if P v then 1 else 0)"
proof (induction xs arbitrary: i)
  case (Cons a xs)
  show ?case
  proof (cases i)
    case (Suc j)
    then show ?thesis using Cons.IH [of j] Cons.prems by (simp split: if_splits)
  qed auto
qed simp

lemma pipe_ok_update:
  assumes "pipe_ok t ops s occ" "i < length ops" "1 \<le> multStageCounter e" "multStageCounter e \<le> s"
    and "in_pipe s e \<longrightarrow> oe_ready e \<and> mac_flow t (flowID e)"
    and "occ' = occ - (if in_pipe s (ops ! i) then 1 else 0) + (if in_pipe s e then 1 else 0)" "occ' \<le> s"
  shows "pipe_ok t (ops[i := e]) s occ'"
proof -
  have "set (ops[i := e]) \<subseteq> insert e (set ops)" by (rule set_update_subset_insert)
  then show ?thesis using assms unfolding pipe_ok_def by (auto simp: length_filter_update)
qed

text \<open>The other steps write an entry without touching its stage, or the table without touching an opcode.\<close>

lemma pipe_ok_write:
  assumes "pipe_ok t ops s occ" "multStageCounter e = multStageCounter (ops ! i)"
    "in_pipe s e \<longrightarrow> oe_ready e \<and> flowID e = flowID (ops ! i)"
  shows "pipe_ok t (ops[i := e]) s occ"
proof (cases "i < length ops")
  case True
  then have "ops ! i \<in> set ops" by simp
  then show ?thesis using assms True by (intro pipe_ok_update [OF assms(1)]) (auto simp: pipe_ok_def in_pipe_def)
qed (use assms(1) in \<open>simp add: list_update_beyond\<close>)

lemma pipe_ok_table:
  assumes "pipe_ok t ops s occ" "\<And>k. mac_flow t k \<Longrightarrow> mac_flow t' k \<or> (\<forall>e \<in> set ops. in_pipe s e \<longrightarrow> flowID e \<noteq> k)"
  shows "pipe_ok t' ops s occ"
  using assms unfolding pipe_ok_def by blast

lemma mac_flow_insert: "map_of t k = Some fe \<Longrightarrow> opcode fe' = opcode fe \<Longrightarrow> mac_flow (flow_insert k fe' t) k' = mac_flow t k'"
  by (simp add: mac_flow_def)

lemma pipe_ok_flow: "pipe_ok t ops s occ \<Longrightarrow> map_of t k = Some fe \<Longrightarrow> opcode fe' = opcode fe \<Longrightarrow> pipe_ok (flow_insert k fe' t) ops s occ"
  by (erule pipe_ok_table) (simp add: mac_flow_insert)

lemma pipe_ok_register: "pipe_ok t ops s occ \<Longrightarrow> register_flow op pc k t = Inr t' \<Longrightarrow> pipe_ok t' ops s occ"
  by (erule pipe_ok_table) (auto simp: register_flow_def mac_flow_def err_simps split: option.splits if_splits)

lemma pipe_ok_bump: "pipe_ok t ops s occ \<Longrightarrow> bump_child k link t = Inr t' \<Longrightarrow> pipe_ok t' ops s occ"
  by (erule pipe_ok_table) (auto simp: bump_child_def mac_flow_def err_simps split: option.splits if_splits)

lemma pipe_ok_erase:
  assumes "pipe_ok t ops s occ" "art_ok t ops free s" "held ops free k = {}"
  shows "pipe_ok (flow_erase k t) ops s occ"
proof (rule pipe_ok_table [OF assms(1)])
  fix k' assume m: "mac_flow t k'"
  have "flowID e \<noteq> k" if "e \<in> set ops" "in_pipe s e" for e
  proof -
    obtain i where i: "i < length ops" "e = ops ! i" using \<open>e \<in> set ops\<close> by (auto simp: in_set_conv_nth)
    then have "i \<notin> set free" using held_operand [OF assms(2)] assms(1) that by (auto simp: pipe_ok_def)
    then show ?thesis using assms(3) i by (auto simp: held_def)
  qed
  then show "mac_flow (flow_erase k t) k' \<or> (\<forall>e \<in> set ops. in_pipe s e \<longrightarrow> flowID e \<noteq> k')"
    using m by (auto simp: mac_flow_def)
qed

section \<open>The engine keeps the accounts and the pipeline\<close>

definition art_part :: "xbar \<Rightarrow> flow_table \<times> operand_entry list \<times> nat list \<times> int \<times> int" where
  "art_part x = (flowTable x, operandBuffers x, freeOperandBufIDs x, numMultStages x, multPipeOccupancy x)"

lemma art_inv_part: "art_part x' = art_part x \<Longrightarrow> art_inv x' = art_inv x"
  by (simp add: art_part_def art_inv_def)

lemma art_part_update [simp]:
  "art_part (x\<lparr>inServiceLink := l\<rparr>) = art_part x" "art_part (x\<lparr>pendingSegTag := tags\<rparr>) = art_part x"
  "art_part (x\<lparr>pendingSegPacket := ps\<rparr>) = art_part x" "art_part (x\<lparr>inputBuffers := bs\<rparr>) = art_part x"
  "art_part (x\<lparr>opbufStalls := n\<rparr>) = art_part x" "art_part (x\<lparr>numUpdates := n\<rparr>) = art_part x"
  "art_part (x\<lparr>numOperands := n\<rparr>) = art_part x" "art_part (x\<lparr>upLink := m\<rparr>) = art_part x"
  "art_part (x\<lparr>downLink := m\<rparr>) = art_part x" "art_part (x\<lparr>x_traces := ts\<rparr>) = art_part x"
  "art_part (x\<lparr>x_statis := st\<rparr>) = art_part x" "art_part (x\<lparr>x_gtag := g\<rparr>) = art_part x"
  "art_part (dual_Step x) = art_part x" "art_part (delete_trace t x) = art_part x"
  "art_part (x\<lparr>total_ready_operands := a\<rparr>) = art_part x" "art_part (x\<lparr>total_results_ready := a\<rparr>) = art_part x"
  "art_part (x\<lparr>ready_operands_hist := h\<rparr>) = art_part x" "art_part (x\<lparr>results_ready_hist := h\<rparr>) = art_part x"
  by (simp_all add: art_part_def dual_Step_def delete_trace_def Let_def split: option.splits)

lemma pipe_inv_part: "art_part x' = art_part x \<Longrightarrow> pipe_inv x' = pipe_inv x"
  by (simp add: art_part_def pipe_inv_def)

definition engine_inv :: "xbar \<Rightarrow> bool" where
  "engine_inv x \<longleftrightarrow> art_inv x \<and> pipe_inv x"

lemma engine_inv_part: "art_part x' = art_part x \<Longrightarrow> engine_inv x' = engine_inv x"
  using art_inv_part [of x' x] pipe_inv_part [of x' x] by (simp add: engine_inv_def)

lemma route_part: "route par d r x = Inr (x', l) \<Longrightarrow> x' = x\<lparr>inServiceLink := inServiceLink x'\<rparr>"
  by (auto simp: route_def err_simps)

lemma route_art: "route par d r x = Inr (x', l) \<Longrightarrow> art_part x' = art_part x"
  by (auto simp: route_def err_simps)

lemma copy_trace_art: "copy_trace t x = Inr (t', x') \<Longrightarrow> art_part x' = art_part x"
  by (auto simp: copy_trace_def split: option.splits)

text \<open>Writing an entry that is held, and an entry of the table.\<close>

lemma engine_write:
  assumes "engine_inv x" "i \<notin> set (freeOperandBufIDs x)" "flowID e = flowID (operandBuffers x ! i)"
    "multStageCounter e = multStageCounter (operandBuffers x ! i)" "oe_ready (operandBuffers x ! i) \<longrightarrow> oe_ready e"
  shows "engine_inv (x\<lparr>operandBuffers := (operandBuffers x)[i := e]\<rparr>)"
proof (cases "i < length (operandBuffers x)")
  case True
  let ?ops = "operandBuffers x"
  have "art_ok (flowTable x) (?ops[i := e]) (freeOperandBufIDs x) (numMultStages x)"
    using art_ok_operand [OF _ assms(2,3)] assms(1) by (simp add: engine_inv_def art_inv_def)
  moreover have "in_pipe (numMultStages x) e \<longrightarrow> oe_ready e"
    using assms(1,4,5) nth_mem [OF True] by (auto simp: engine_inv_def pipe_inv_def pipe_ok_def in_pipe_def)
  then have "pipe_ok (flowTable x) (?ops[i := e]) (numMultStages x) (multPipeOccupancy x)"
    using pipe_ok_write [where t = "flowTable x", OF _ assms(4)] assms(1,3) by (simp add: engine_inv_def pipe_inv_def)
  ultimately show ?thesis by (simp add: engine_inv_def art_inv_def pipe_inv_def)
qed (use assms(1) in \<open>simp add: list_update_beyond\<close>)

lemma engine_flow:
  assumes "engine_inv x" "map_of (flowTable x) k = Some fe" "opcode fe' = opcode fe" "\<And>n. counts_ok fe n \<Longrightarrow> counts_ok fe' n"
  shows "engine_inv (x\<lparr>flowTable := flow_insert k fe' (flowTable x)\<rparr>)"
  using art_ok_flow [OF _ assms(2,4)] pipe_ok_flow [where ops = "operandBuffers x", OF _ assms(2,3)] assms(1)
  by (simp add: engine_inv_def art_inv_def pipe_inv_def)

lemma engine_held: "engine_inv x \<Longrightarrow> src_addr1 (operandBuffers x ! i) \<noteq> 0 \<or> src_addr2 (operandBuffers x ! i) \<noteq> 0 \<Longrightarrow> i \<notin> set (freeOperandBufIDs x)"
  using held_operand by (auto simp: engine_inv_def art_inv_def)

lemma delete_trace_engine [simp]: "engine_inv (delete_trace t x) = engine_inv x"
  by (rule engine_inv_part) simp

lemma route_engine: "route par d r x = Inr (x', l) \<Longrightarrow> engine_inv x' = engine_inv x"
  by (rule engine_inv_part) (rule route_art)

lemma operand_arrives_inv:
  assumes "operand_arrives p x = Inr x'" "engine_inv x" "SRCADRS1 p \<noteq> 0"
  shows "engine_inv x'"
proof -
  let ?i = "nat (operandBufID p)" and ?ops = "operandBuffers x"
  obtain e where e: "e = ?ops ! ?i" "src_addr1 e = SRCADRS1 p"
    and x': "x' = delete_trace (trace p) (x\<lparr>operandBuffers := ?ops[?i := e\<lparr>op1_ready := True, oe_ready := True\<rparr>]\<rparr>)"
    using assms(1) by (auto simp: operand_arrives_def at_int_def err_simps)
  have "?i \<notin> set (freeOperandBufIDs x)" using engine_held [OF assms(2)] assms(3) e by simp
  then show ?thesis unfolding x' using engine_write [OF assms(2)] e(1) by simp
qed

lemma half_operand_keeps: "half_operand p e = Inr e' \<Longrightarrow> flowID e' = flowID e \<and> multStageCounter e' = multStageCounter e \<and>
    oe_ready e' = oe_ready e \<and> (src_addr1 e \<noteq> 0 \<or> src_addr2 e \<noteq> 0)"
  by (auto simp: half_operand_def err_simps split: if_splits)

lemma factor_arrivesD:
  assumes "factor_arrives par p x = Inr x'"
  obtains fe x1 l e where "map_of (flowTable x) (DESTADRS p) = Some fe" "route par (parent fe) False x = Inr (x1, l)"
    "half_operand p (operandBuffers x1 ! nat (operandBufID p)) = Inr e"
    "x' = (let e' = (if op1_ready e \<and> op2_ready e then e\<lparr>oe_ready := True\<rparr> else e);
               y = x1\<lparr>operandBuffers := (operandBuffers x1)[nat (operandBufID p) := e']\<rparr>
           in if op1_ready e \<and> op2_ready e then delete_trace (trace p) y else y)"
proof -
  obtain fe where fe: "map_of (flowTable x) (DESTADRS p) = Some fe"
    using assms by (auto simp: factor_arrives_def split: option.splits)
  obtain x1 l where r: "route par (parent fe) False x = Inr (x1, l)"
    using assms fe by (auto simp: factor_arrives_def bindE_eq_Inr)
  obtain e where e: "half_operand p (operandBuffers x1 ! nat (operandBufID p)) = Inr e"
    using assms fe r by (auto simp: factor_arrives_def at_int_def err_simps)
  show thesis using assms fe r e
    by (intro that [OF fe r e]) (auto simp: factor_arrives_def at_int_def checkE_eq_Inr bindE_eq_Inr Let_def)
qed

lemma factor_arrives_inv:
  assumes "factor_arrives par p x = Inr x'" "engine_inv x"
  shows "engine_inv x'"
proof -
  obtain fe x1 l e where "map_of (flowTable x) (DESTADRS p) = Some fe" and r: "route par (parent fe) False x = Inr (x1, l)" and h: "half_operand p (operandBuffers x1 ! nat (operandBufID p)) = Inr e"
    and x': "x' = (let e' = (if op1_ready e \<and> op2_ready e then e\<lparr>oe_ready := True\<rparr> else e);
               y = x1\<lparr>operandBuffers := (operandBuffers x1)[nat (operandBufID p) := e']\<rparr>
           in if op1_ready e \<and> op2_ready e then delete_trace (trace p) y else y)"
    using assms(1) by (rule factor_arrivesD)
  have i1: "engine_inv x1" using assms(2) route_engine [OF r] by simp
  then have "nat (operandBufID p) \<notin> set (freeOperandBufIDs x1)" using engine_held half_operand_keeps [OF h] by auto
  then show ?thesis unfolding x' Let_def using engine_write [OF i1] half_operand_keeps [OF h] by simp
qed

lemma child_answers_inv:
  assumes "child_answers par p x = Inr x'" "engine_inv x"
  shows "engine_inv x'"
proof -
  obtain fe x1 l where s: "map_of (flowTable x) (DESTADRS p) = Some fe" "route par (SRCCUB p) False x = Inr (x1, l)"
    "0 \<le> l" "l < int (length (children_count fe))"
    and x': "x' = delete_trace (trace p) (x1\<lparr>flowTable := flow_insert (DESTADRS p)
       (fe\<lparr>rep_count := rep_count fe + of_int (children_count fe ! nat l), children_count := (children_count fe)[nat l := 0]\<rparr>) (flowTable x1)\<rparr>)"
    using assms(1) by (auto simp: child_answers_def at_int_def err_simps split: option.splits)
  have f1: "flowTable x1 = flowTable x" "engine_inv x1"
    using route_art [OF s(2)] assms(2) route_engine [OF s(2)] by (simp_all add: art_part_def)
  show ?thesis unfolding x' using engine_flow [OF f1(2)] s(1) f1(1) counts_answer [OF _ s(3,4)] by simp
qed

lemma register_updateD:
  assumes "register_update par op p x = Inr x'"
  obtains x1 l pc t where "route par (SRCCUB p) True x = Inr (x1, l)" "register_flow op pc (DESTADRS p) (flowTable x) = Inr t" "x' = x1\<lparr>flowTable := t\<rparr>"
    "art_part x1 = art_part x"
proof -
  obtain x1 l pc t where s: "route par (SRCCUB p) True x = Inr (x1, l)" "register_flow op pc (DESTADRS p) (flowTable x1) = Inr t"
    "x' = x1\<lparr>flowTable := t\<rparr>"
    using assms by (auto simp: register_update_def err_simps)
  moreover have "art_part x1 = art_part x" by (rule route_art [OF s(1)])
  ultimately show thesis using that [of x1 l pc t] by (simp add: art_part_def)
qed

text \<open>Taking over an update, into an operand buffer or to a child.\<close>

lemma take_over_inv:
  assumes "register_update par op p x = Inr x1" "reserve_operand (DESTADRS p) a b x1 = Inr (i, x2)" "engine_inv x"
  shows "engine_inv x2"
proof -
  obtain x0 pc t where r: "register_flow op pc (DESTADRS p) (flowTable x) = Inr t" and f: "x1 = x0\<lparr>flowTable := t\<rparr>" "art_part x0 = art_part x"
    using register_updateD [OF assms(1)] by metis
  obtain free where s: "freeOperandBufIDs x1 = i # free" "\<not> oe_ready (operandBuffers x1 ! i)" "x2 = x1\<lparr>freeOperandBufIDs := free,
     operandBuffers := (operandBuffers x1)[i := (operandBuffers x1 ! i)\<lparr>flowID := DESTADRS p, src_addr1 := a, src_addr2 := b\<rparr>]\<rparr>"
    using assms(2) by (auto simp: reserve_operand_def at_int_def err_simps split: list.splits)
  let ?ops = "operandBuffers x" and ?e = "(operandBuffers x ! i)\<lparr>flowID := DESTADRS p, src_addr1 := a, src_addr2 := b\<rparr>"
  have e: "art_part x2 = (t, ?ops[i := ?e], free, numMultStages x, multPipeOccupancy x)" "freeOperandBufIDs x = i # free" "\<not> oe_ready (?ops ! i)"
    using s f by (simp_all add: art_part_def)
  have ok: "art_ok (flowTable x) ?ops (i # free) (numMultStages x)" using assms(3) e(2) by (simp add: engine_inv_def art_inv_def)
  have p: "pipe_ok t ?ops (numMultStages x) (multPipeOccupancy x)" using pipe_ok_register [where ops = ?ops, OF _ r] assms(3) by (simp add: engine_inv_def pipe_inv_def)
  have i: "?ops ! i \<in> set ?ops" using ok by (simp add: art_ok_def)
  then have "in_pipe (numMultStages x) ?e \<longrightarrow> oe_ready ?e \<and> flowID ?e = flowID (?ops ! i)"
    using p e(3) by (auto simp: pipe_ok_def in_pipe_def)
  then have "pipe_ok t (?ops[i := ?e]) (numMultStages x) (multPipeOccupancy x)" by (intro pipe_ok_write [OF p]) simp_all
  then show ?thesis using art_ok_take [OF ok r, of b a] e(1) by (simp add: engine_inv_def art_inv_def pipe_inv_def art_part_def)
qed

lemma take_over_succeeds:
  assumes "art_inv x" "freeOperandBufIDs x \<noteq> []"
  shows "\<exists>x'. reserve_operand k a b x = Inr (hd (freeOperandBufIDs x), x')"
proof -
  obtain i free where f: "freeOperandBufIDs x = i # free" using assms(2) by (cases "freeOperandBufIDs x") auto
  then have "i < length (operandBuffers x)" "clear_entry (numMultStages x) (operandBuffers x ! i)"
    using assms(1) by (auto simp: art_inv_def art_ok_def)
  then show ?thesis using f by (simp add: reserve_operand_def at_int_def clear_entry_def)
qed

lemma hand_on_inv:
  assumes "register_update par op p x = Inr x1" "bump_child (DESTADRS p) l (flowTable x1) = Inr t" "engine_inv x"
  shows "engine_inv (x1\<lparr>flowTable := t\<rparr>)"
proof -
  obtain x0 pc t' where r': "register_flow op pc (DESTADRS p) (flowTable x) = Inr t'" and x1: "x1 = x0\<lparr>flowTable := t'\<rparr>" and p: "art_part x0 = art_part x"
    using assms(1) by (rule register_updateD) (rule that)
  have f: "operandBuffers x1 = operandBuffers x" "freeOperandBufIDs x1 = freeOperandBufIDs x" "numMultStages x1 = numMultStages x"
    "multPipeOccupancy x1 = multPipeOccupancy x" and r: "register_flow op pc (DESTADRS p) (flowTable x) = Inr (flowTable x1)"
    using p r' by (simp_all add: x1 art_part_def)
  show ?thesis using art_ok_pass [OF _ r assms(2)] pipe_ok_bump [where ops = "operandBuffers x", OF pipe_ok_register [OF _ r] assms(2)] assms(3) f
    by (simp add: engine_inv_def art_inv_def pipe_inv_def)
qed

text \<open>Every operand that is ready has its flow, so reducing the operands cannot fail.\<close>

lemma consume_one_cases:
  assumes "art_inv x" "i < length (operandBuffers x)" "oe_ready (operandBuffers x ! i)"
  defines "e \<equiv> (operandBuffers x ! i)\<lparr>oe_counted := True\<rparr>" and "s \<equiv> numMultStages x" and "n \<equiv> multPipeOccupancy x"
  defines "A \<equiv> \<lambda>e n. (flowTable x, (operandBuffers x)[i := e], freeOperandBufIDs x, s, n)"
    and "B \<equiv> \<lambda>fe n. (flow_insert (flowID e) (fe\<lparr>rep_count := rep_count fe + 1\<rparr>) (flowTable x),
           (operandBuffers x)[i := release s (operandBuffers x ! i)], freeOperandBufIDs x @ [i], s, n)"
    and "e1 \<equiv> e\<lparr>multStageCounter := multStageCounter e - 1\<rparr>"
  shows "\<exists>a' b' y fe. consume_one i (a, b, x) = Inr (a', b', y) \<and> map_of (flowTable x) (flowID e) = Some fe \<and> i \<notin> set (freeOperandBufIDs x) \<and>
    ((opcode fe = MAC \<longrightarrow> multStageCounter e = s) \<and> art_part y = A e n
     \<or> opcode fe = MAC \<and> multStageCounter e = s \<and> n < s \<and> art_part y = A e1 (n + 1)
     \<or> opcode fe = MAC \<and> multStageCounter e \<noteq> s \<and> multStageCounter e > 1 \<and> art_part y = A e1 n
     \<or> opcode fe = MAC \<and> multStageCounter e \<noteq> s \<and> multStageCounter e \<le> 1 \<and> art_part y = B fe (n - 1)
     \<or> opcode fe \<noteq> MAC \<and> art_part y = B fe n)"
proof -
  have nf: "i \<notin> set (freeOperandBufIDs x)" using held_operand assms(1,3) by (auto simp: art_inv_def)
  then obtain fe where fe: "map_of (flowTable x) (flowID e) = Some fe"
    using assms by (auto simp: art_inv_def art_ok_def)
  have "case consume_one i (a, b, x) of Inl _ \<Rightarrow> False | Inr (a', b', y) \<Rightarrow> (opcode fe = MAC \<longrightarrow> multStageCounter e = s) \<and> art_part y = A e n
     \<or> opcode fe = MAC \<and> multStageCounter e = s \<and> n < s \<and> art_part y = A e1 (n + 1)
     \<or> opcode fe = MAC \<and> multStageCounter e \<noteq> s \<and> multStageCounter e > 1 \<and> art_part y = A e1 n
     \<or> opcode fe = MAC \<and> multStageCounter e \<noteq> s \<and> multStageCounter e \<le> 1 \<and> art_part y = B fe (n - 1)
     \<or> opcode fe \<noteq> MAC \<and> art_part y = B fe n"
    using assms(2,3) fe unfolding A_def B_def e1_def e_def s_def n_def
    by (simp add: consume_one_def Let_def art_part_def finish_operand_def release_def split: Opcode.split)
  then show ?thesis using fe nf by (cases "consume_one i (a, b, x)") auto
qed

lemma consume_one_ok:
  assumes "art_inv x" "i < length (operandBuffers x)"
  shows "\<exists>a' b' x'. consume_one i (a, b, x) = Inr (a', b', x') \<and> art_inv x' \<and> length (operandBuffers x') = length (operandBuffers x)"
proof (cases "oe_ready (operandBuffers x ! i)")
  case False
  then show ?thesis using assms by (simp add: consume_one_def)
next
  case True
  let ?ops = "operandBuffers x" and ?k = "flowID (operandBuffers x ! i)" and ?e = "(operandBuffers x ! i)\<lparr>oe_counted := True\<rparr>"
  obtain a' b' y fe where c: "consume_one i (a, b, x) = Inr (a', b', y)" and fe: "map_of (flowTable x) ?k = Some fe"
    and nf: "i \<notin> set (freeOperandBufIDs x)"
    and y: "\<exists>n. \<exists>e \<in> {?e, ?e\<lparr>multStageCounter := multStageCounter ?e - 1\<rparr>}. art_part y = (flowTable x, ?ops[i := e], freeOperandBufIDs x, numMultStages x, n)
      \<or> art_part y = (flow_insert ?k (fe\<lparr>rep_count := rep_count fe + 1\<rparr>) (flowTable x),
           ?ops[i := release (numMultStages x) (?ops ! i)], freeOperandBufIDs x @ [i], numMultStages x, n)"
    using consume_one_cases [OF assms True, of a b] by (elim exE conjE disjE) auto
  then show ?thesis
    using art_ok_operand [OF _ nf, of "flowTable x" ?ops] art_ok_finish [OF _ assms(2) nf fe] assms(1)
    by (auto simp: art_inv_def art_part_def)
qed

text \<open>Reducing one operand keeps the pipeline.\<close>

lemma consume_one_pipe:
  assumes "consume_one i (a, b, x) = Inr (a', b', x')" "pipe_inv x" "art_inv x" "i < length (operandBuffers x)"
  shows "pipe_inv x'"
proof (cases "oe_ready (operandBuffers x ! i)")
  case False
  then show ?thesis using assms by (simp add: consume_one_def)
next
  case True
  define t ops s n e where "t = flowTable x" and "ops = operandBuffers x" and "s = numMultStages x" and "n = multPipeOccupancy x"
    and "e = (operandBuffers x ! i)\<lparr>oe_counted := True\<rparr>"
  let ?e1 = "e\<lparr>multStageCounter := multStageCounter e - 1\<rparr>" and ?r = "release s (ops ! i)"
  have p: "pipe_ok t ops s n" and l: "i < length ops" using assms(2,4) by (simp_all add: pipe_inv_def t_def ops_def s_def n_def)
  have m: "1 \<le> multStageCounter e" "multStageCounter e \<le> s" "oe_ready e" "s > 1" "in_pipe s e = in_pipe s (ops ! i)" "n \<le> s"
    and mm: "in_pipe s e \<longrightarrow> mac_flow t (flowID e)"
    using p l True nth_mem [OF l] unfolding e_def ops_def pipe_ok_def in_pipe_def by auto
  obtain y fe free where y: "consume_one i (a, b, x) = Inr y" and fe: "map_of t (flowID e) = Some fe"
    and c: "art_part (snd (snd y)) = (t, ops[i := e], free, s, n)
     \<or> opcode fe = MAC \<and> multStageCounter e = s \<and> n < s \<and> art_part (snd (snd y)) = (t, ops[i := ?e1], free, s, n + 1)
     \<or> opcode fe = MAC \<and> multStageCounter e \<noteq> s \<and> multStageCounter e > 1 \<and> art_part (snd (snd y)) = (t, ops[i := ?e1], free, s, n)
     \<or> opcode fe = MAC \<and> multStageCounter e \<noteq> s \<and> art_part (snd (snd y)) = (flow_insert (flowID e) (fe\<lparr>rep_count := rep_count fe + 1\<rparr>) t, ops[i := ?r], free @ [i], s, n - 1)
     \<or> opcode fe \<noteq> MAC \<and> art_part (snd (snd y)) = (flow_insert (flowID e) (fe\<lparr>rep_count := rep_count fe + 1\<rparr>) t, ops[i := ?r], free @ [i], s, n)"
    using consume_one_cases [OF assms(3,4) True, of a b] unfolding t_def ops_def s_def n_def e_def by (elim exE conjE) fastforce
  have x': "snd (snd y) = x'" using y assms(1) by auto
  have mac: "mac_flow t (flowID e) \<longleftrightarrow> opcode fe = MAC" using fe by (simp add: mac_flow_def)
  have f: "pipe_ok (flow_insert (flowID e) (fe\<lparr>rep_count := rep_count fe + 1\<rparr>) t) ops' s n'" if "pipe_ok t ops' s n'" for ops' n'
    using pipe_ok_flow [OF that fe] by simp
  have P: "pipe_inv x' = pipe_ok t' ops' s' n'" if "art_part x' = (t', ops', f', s', n')" for t' ops' f' s' n'
    using that by (simp add: art_part_def pipe_inv_def)
  note up = pipe_ok_update [OF p l]
  from c[unfolded x'] show ?thesis
  proof (elim disjE conjE)
    assume "art_part x' = (t, ops[i := e], free, s, n)"
    then show ?thesis using up [of e n] m mm by (simp add: P)
  next
    assume "opcode fe = MAC" "multStageCounter e = s" "n < s" "art_part x' = (t, ops[i := ?e1], free, s, n + 1)"
    then show ?thesis using up [of ?e1 "n + 1"] m mac by (simp add: P) (simp add: in_pipe_def)
  next
    assume "opcode fe = MAC" "multStageCounter e \<noteq> s" "multStageCounter e > 1" "art_part x' = (t, ops[i := ?e1], free, s, n)"
    then show ?thesis using up [of ?e1 n] m mac by (simp add: P) (simp add: in_pipe_def)
  next
    assume "opcode fe = MAC" "multStageCounter e \<noteq> s"
      "art_part x' = (flow_insert (flowID e) (fe\<lparr>rep_count := rep_count fe + 1\<rparr>) t, ops[i := ?r], free @ [i], s, n - 1)"
    then show ?thesis using up [of ?r "n - 1"] f m by (simp add: P) (simp add: in_pipe_def release_def)
  next
    assume "opcode fe \<noteq> MAC"
      "art_part x' = (flow_insert (flowID e) (fe\<lparr>rep_count := rep_count fe + 1\<rparr>) t, ops[i := ?r], free @ [i], s, n)"
    then show ?thesis using up [of ?r n] f m mm mac by (simp add: P) (simp add: in_pipe_def release_def)
  qed
qed

text \<open>A cycle of the engine.\<close>

lemma consume_one_engine:
  assumes "engine_inv x" "i < length (operandBuffers x)"
  obtains a' b' x' where "consume_one i (a, b, x) = Inr (a', b', x')" "engine_inv x'" "length (operandBuffers x') = length (operandBuffers x)"
proof -
  have i: "art_inv x" "pipe_inv x" using assms(1) by (simp_all add: engine_inv_def)
  obtain a' b' x' where c: "consume_one i (a, b, x) = Inr (a', b', x')" "art_inv x'" "length (operandBuffers x') = length (operandBuffers x)"
    using consume_one_ok [OF i(1) assms(2)] by metis
  then show thesis using consume_one_pipe [OF c(1) i(2,1) assms(2)] that by (simp add: engine_inv_def)
qed

lemma consume_one_other:
  assumes "consume_one i (a, b, x) = Inr (a', b', x')" "art_inv x" "i < length (operandBuffers x)"
  shows "numMultStages x' = numMultStages x \<and> (\<forall>j. j \<noteq> i \<longrightarrow>
    operandBuffers x' ! j = operandBuffers x ! j \<and> (j \<in> set (freeOperandBufIDs x') \<longleftrightarrow> j \<in> set (freeOperandBufIDs x)))"
proof (cases "oe_ready (operandBuffers x ! i)")
  case False
  then show ?thesis using assms by (simp add: consume_one_def)
next
  case True
  show ?thesis using consume_one_cases [OF assms(2,3) True, of a b] assms(1)
    by (elim exE conjE disjE) (simp_all add: art_part_def)
qed

lemma consume_fold:
  assumes "engine_inv x" "\<forall>i \<in> set is. i < length (operandBuffers x)"
  shows "\<exists>a' b' x'. foldE consume_one is (a, b, x) = Inr (a', b', x') \<and> engine_inv x' \<and> length (operandBuffers x') = length (operandBuffers x)
    \<and> (\<forall>j. j \<notin> set is \<longrightarrow> operandBuffers x' ! j = operandBuffers x ! j \<and> (j \<in> set (freeOperandBufIDs x') \<longleftrightarrow> j \<in> set (freeOperandBufIDs x)))
    \<and> numMultStages x' = numMultStages x"
  using assms
proof (induction "is" arbitrary: a b x)
  case (Cons i "is")
  obtain a1 b1 x1 where s: "consume_one i (a, b, x) = Inr (a1, b1, x1)" "engine_inv x1" "length (operandBuffers x1) = length (operandBuffers x)"
    using consume_one_engine [of x i a b] Cons.prems by auto
  have o: "numMultStages x1 = numMultStages x \<and> (\<forall>j. j \<noteq> i \<longrightarrow>
    operandBuffers x1 ! j = operandBuffers x ! j \<and> (j \<in> set (freeOperandBufIDs x1) \<longleftrightarrow> j \<in> set (freeOperandBufIDs x)))"
    using consume_one_other [OF s(1)] Cons.prems by (simp add: engine_inv_def)
  have "\<forall>i \<in> set is. i < length (operandBuffers x1)" using Cons.prems(2) s(3) by simp
  from Cons.IH [OF s(2) this, of a1 b1] obtain a' b' x' where
    "foldE consume_one is (a1, b1, x1) = Inr (a', b', x')" "engine_inv x'" "length (operandBuffers x') = length (operandBuffers x1)"
    "\<forall>j. j \<notin> set is \<longrightarrow> operandBuffers x' ! j = operandBuffers x1 ! j \<and> (j \<in> set (freeOperandBufIDs x') \<longleftrightarrow> j \<in> set (freeOperandBufIDs x1))"
    "numMultStages x' = numMultStages x1" by blast
  then show ?case using s(1,3) o by simp
qed simp

text \<open>What happens to one operand in a cycle: the steps before and after its own do not touch it.\<close>

lemma consume_operand:
  assumes "engine_inv x" "i < length (operandBuffers x)"
  obtains x1 a1 b1 x2 a2 b2 x' where "engine_inv x1" "length (operandBuffers x1) = length (operandBuffers x)"
    "operandBuffers x1 ! i = operandBuffers x ! i" "numMultStages x1 = numMultStages x"
    "i \<in> set (freeOperandBufIDs x1) \<longleftrightarrow> i \<in> set (freeOperandBufIDs x)"
    "consume_one i (a1, b1, x1) = Inr (a2, b2, x2)" "consume_operands x = Inr x'" "engine_inv x'"
    "operandBuffers x' ! i = operandBuffers x2 ! i" "i \<in> set (freeOperandBufIDs x') \<longleftrightarrow> i \<in> set (freeOperandBufIDs x2)"
proof -
  let ?x = "x\<lparr>total_ready_operands := 0, total_results_ready := 0\<rparr>" and ?n = "length (operandBuffers x)"
  have x0: "engine_inv ?x" using assms(1) engine_inv_part [of ?x x] by simp
  obtain a1 b1 x1 where s1: "foldE consume_one [0..<i] (False, False, ?x) = Inr (a1, b1, x1)" "engine_inv x1" "length (operandBuffers x1) = ?n"
    "operandBuffers x1 ! i = operandBuffers x ! i" "i \<in> set (freeOperandBufIDs x1) \<longleftrightarrow> i \<in> set (freeOperandBufIDs x)" "numMultStages x1 = numMultStages x"
    using consume_fold [OF x0, of "[0..<i]" False False] assms(2) by auto
  obtain a2 b2 x2 where s2: "consume_one i (a1, b1, x1) = Inr (a2, b2, x2)" "engine_inv x2" "length (operandBuffers x2) = ?n"
    using consume_one_engine [OF s1(2), of i a1 b1] assms(2) s1(3) by metis
  obtain a3 b3 x3 where s3: "foldE consume_one [Suc i..<?n] (a2, b2, x2) = Inr (a3, b3, x3)" "engine_inv x3"
    "operandBuffers x3 ! i = operandBuffers x2 ! i" "i \<in> set (freeOperandBufIDs x3) \<longleftrightarrow> i \<in> set (freeOperandBufIDs x2)"
    using consume_fold [OF s2(2), of "[Suc i..<?n]" a2 b2] s2(3) by auto
  let ?y = "x3\<lparr>ready_operands_hist := count_hist (total_ready_operands x3) (ready_operands_hist x3),
          results_ready_hist := count_hist (total_results_ready x3) (results_ready_hist x3)\<rparr>"
  have split: "[0..<?n] = [0..<i] @ i # [Suc i..<?n]"
    using assms(2) upt_add_eq_append [of 0 i "?n - i"] upt_conv_Cons [of i ?n] by simp
  have c: "consume_operands x = Inr ?y"
    using s1(1) s2(1) s3(1) unfolding consume_operands_def split foldE_append by simp
  have "engine_inv ?y" using s3(2) engine_inv_part [of ?y x3] by simp
  then show thesis using that [OF s1(2,3,4,6,5) s2(1) c] s3(3,4) by simp
qed

text \<open>Gathers are answered for settled flows only.\<close>

lemma gather_oneD:
  assumes "gather_one par (k, fe) (x, ms) = Inr (x', ms')"
  shows "art_part x' = art_part x \<or> art_part x' = art_part (x\<lparr>flowTable := flow_erase k (flowTable x)\<rparr>) \<and> req_count fe = rep_count fe \<and> g_flag fe"
proof (cases "req_count fe = rep_count fe \<and> g_flag fe")
  case False
  then show ?thesis using assms by (auto simp: gather_one_def)
next
  case True
  obtain x1 l where r: "route par (parent fe) False x = Inr (x1, l)" using assms True by (auto simp: gather_one_def err_simps)
  have "art_part x' = art_part x1 \<or> art_part x' = art_part (x1\<lparr>flowTable := flow_erase k (flowTable x1)\<rparr>)"
    using assms True r by (auto simp: gather_one_def err_simps at_int_def Let_def art_part_def split: prod.splits if_splits)
  then show ?thesis using route_art [OF r] True by (simp add: art_part_def)
qed

lemma gather_one_inv:
  assumes "gather_one par (k, fe) (x, ms) = Inr (x', ms')" "engine_inv x" "map_of (flowTable x) k = Some fe"
  shows "engine_inv x' \<and> (flowTable x' = flowTable x \<or> flowTable x' = flow_erase k (flowTable x) \<and> g_flag fe \<and>
    held (operandBuffers x) (freeOperandBufIDs x) k = {} \<and> (\<forall>c \<in> set (children_count fe). c = 0))"
  using gather_oneD [OF assms(1)]
proof
  assume "art_part x' = art_part x"
  then show ?thesis using assms(2) engine_inv_part [of x' x] by (simp add: art_part_def)
next
  assume a: "art_part x' = art_part (x\<lparr>flowTable := flow_erase k (flowTable x)\<rparr>) \<and> req_count fe = rep_count fe \<and> g_flag fe"
  have i: "art_ok (flowTable x) (operandBuffers x) (freeOperandBufIDs x) (numMultStages x)"
    "pipe_ok (flowTable x) (operandBuffers x) (numMultStages x) (multPipeOccupancy x)"
    using assms(2) by (simp_all add: engine_inv_def art_inv_def pipe_inv_def)
  then show ?thesis using a art_ok_erase [OF i(1) assms(3)] pipe_ok_erase [OF i(2,1)]
    by (simp add: engine_inv_def art_inv_def pipe_inv_def art_part_def)
qed

lemma gather_step:
  assumes "gather_one par (k, fe) s = Inr t" "engine_inv (fst s)" "map_of (flowTable (fst s)) k = Some fe"
  shows "engine_inv (fst t) \<and> operandBuffers (fst t) = operandBuffers (fst s) \<and> freeOperandBufIDs (fst t) = freeOperandBufIDs (fst s)
    \<and> (flowTable (fst t) = flowTable (fst s) \<or> flowTable (fst t) = flow_erase k (flowTable (fst s)) \<and> g_flag fe \<and>
      held (operandBuffers (fst s)) (freeOperandBufIDs (fst s)) k = {} \<and> (\<forall>c \<in> set (children_count fe). c = 0))"
proof -
  obtain y ns z os where st: "s = (y, ns)" "t = (z, os)" by (cases s; cases t)
  have "operandBuffers z = operandBuffers y \<and> freeOperandBufIDs z = freeOperandBufIDs y"
    using gather_oneD [OF assms(1) [unfolded st]] by (auto simp: art_part_def)
  then show ?thesis using gather_one_inv [OF assms(1) [unfolded st]] assms(2,3) st by simp
qed

lemma gather_replies_fold:
  assumes "gather_replies par (x, ms) = Inr (x', ms')" "engine_inv x"
  shows "engine_inv x' \<and> (\<forall>k fe. map_of (flowTable x) k = Some fe \<longrightarrow> map_of (flowTable x') k = Some fe \<or>
    map_of (flowTable x') k = None \<and> g_flag fe \<and> held (operandBuffers x) (freeOperandBufIDs x) k = {} \<and> (\<forall>c \<in> set (children_count fe). c = 0))"
proof -
  let ?ops = "operandBuffers x" and ?free = "freeOperandBufIDs x"
  define I where "I = (\<lambda>s :: xbar \<times> 'a dual_vector_scheme list. engine_inv (fst s) \<and> operandBuffers (fst s) = ?ops \<and> freeOperandBufIDs (fst s) = ?free)"
  define R where "R = (\<lambda>k (fe :: flow_entry). g_flag fe \<and> held ?ops ?free k = {} \<and> (\<forall>c \<in> set (children_count fe). c = 0))"
  have f: "foldE (gather_one par) (flowTable (fst (x, ms))) (x, ms) = Inr (x', ms')" using assms(1) by (simp add: gather_replies_def)
  have k: "sorted_wrt (<) (map fst (flowTable (fst (x, ms))))" using assms(2) by (simp add: engine_inv_def art_inv_def art_ok_def)
  have i: "I (x, ms)" using assms(2) by (simp add: I_def)
  have "I (x', ms') \<and> (\<forall>k e. map_of (flowTable (fst (x, ms))) k = Some e \<longrightarrow>
      map_of (flowTable (fst (x', ms'))) k = Some e \<or> map_of (flowTable (fst (x', ms'))) k = None \<and> R k e)"
    by (rule erase_loop [where tab = "\<lambda>s. flowTable (fst s)" and f = "gather_one par" and s = "(x, ms)" and I = I and R = R, OF f i k])
      (auto simp: I_def R_def dest!: gather_step)
  then show ?thesis by (simp add: I_def R_def)
qed

lemma gather_replies_inv: "gather_replies par (x, ms) = Inr (x', ms') \<Longrightarrow> engine_inv x \<Longrightarrow> engine_inv x'"
  using gather_replies_fold by blast

section \<open>The engine's properties\<close>

text \<open>A cycle in which no operand is ready only writes the histograms.\<close>

lemma consume_fold_idle: "\<forall>i \<in> set is. \<not> oe_ready (operandBuffers x ! i) \<Longrightarrow> foldE consume_one is (a, b, x) = Inr (a, b, x)"
  by (induction "is") (simp_all add: consume_one_def)

lemma consume_operands_idle [code]:
  "consume_operands x =
     (if list_all (\<lambda>e. \<not> oe_ready e) (operandBuffers x)
      then Inr (x\<lparr>total_ready_operands := 0, total_results_ready := 0,
        ready_operands_hist := count_hist 0 (ready_operands_hist x), results_ready_hist := count_hist 0 (results_ready_hist x)\<rparr>)
      else bindE (foldE consume_one [0..<length (operandBuffers x)] (False, False, x\<lparr>total_ready_operands := 0, total_results_ready := 0\<rparr>))
       (\<lambda>(_, _, x). Inr (x\<lparr>ready_operands_hist := count_hist (total_ready_operands x) (ready_operands_hist x),
          results_ready_hist := count_hist (total_results_ready x) (results_ready_hist x)\<rparr>)))"
  using consume_fold_idle [of "[0..<length (operandBuffers x)]" "x\<lparr>total_ready_operands := 0, total_results_ready := 0\<rparr>" False False]
  by (simp add: consume_operands_def list_all_length)

lemma consume_operands_engine:
  assumes "engine_inv x"
  shows "\<exists>x'. consume_operands x = Inr x' \<and> engine_inv x'"
proof (cases "operandBuffers x")
  case Nil
  then show ?thesis using assms by (auto simp: consume_operands_idle engine_inv_def art_inv_def pipe_inv_def)
next
  case Cons
  then show ?thesis using consume_operand [OF assms, of 0] by auto
qed

lemma engine_occupancy: "engine_inv x \<Longrightarrow> 0 \<le> multPipeOccupancy x \<and> multPipeOccupancy x \<le> numMultStages x"
  by (simp add: engine_inv_def pipe_inv_def pipe_ok_def)

text \<open>A cube in which the product of flow 8 is in the last stage of the pipeline, and its flow.\<close>

definition example_net :: net_par where
  "example_net = \<lparr>np_cfg = default_config, np_CRC_CHECK = False, np_rnd = (\<lambda>i. 0), np_raw = zero_packet, np_topology = DFLY, np_nodes = 4\<rparr>"

definition example_flow :: flow_entry where
  "example_flow = (FlowEntry MAC)\<lparr>parent := 1, req_count := 3, rep_count := 2\<rparr>"

definition example_operand :: operand_entry where
  "example_operand = (OperandEntry 5)\<lparr>flowID := 8, src_addr1 := 64, src_addr2 := 128, op1_ready := True, op2_ready := True,
     oe_ready := True, oe_counted := True, multStageCounter := 1\<rparr>"

definition example_engine :: xbar where
  "example_engine = (CrossbarSwitch 0 0 [] TranStatistic)\<lparr>flowTable := [(8, example_flow)], operandBuffers := [OperandEntry 5, example_operand],
     freeOperandBufIDs := [0], multPipeOccupancy := 1\<rparr>"

lemma example_engine_fields:
  "flowTable example_engine = [(8, example_flow)]" "operandBuffers example_engine = [OperandEntry 5, example_operand]"
  "freeOperandBufIDs example_engine = [0]" "multPipeOccupancy example_engine = 1" "numMultStages example_engine = 5"
  by (simp_all add: example_engine_def CrossbarSwitch_def dual_vector.extend_def xbar.fields_def DualVectorObject_def)

lemma example_engine_inv: "engine_inv example_engine"
proof -
  have "held [OperandEntry 5, example_operand] [0] k = (if k = 8 then {1} else {})" for k
    by (auto simp: held_def example_operand_def less_Suc_eq)
  then have "art_ok [(8, example_flow)] [OperandEntry 5, example_operand] [0] 5"
    by (auto simp: art_ok_def clear_entry_def OperandEntry_def example_operand_def counts_ok_def example_flow_def FlowEntry_def
        sum_list_replicate less_Suc_eq)
  moreover have "pipe_ok [(8, example_flow)] [OperandEntry 5, example_operand] 5 1"
    by (simp add: pipe_ok_def in_pipe_def OperandEntry_def example_operand_def mac_flow_def example_flow_def FlowEntry_def)
  ultimately show ?thesis by (simp add: engine_inv_def art_inv_def pipe_inv_def example_engine_fields)
qed

text \<open> C23. Reducing the operands of a cycle cannot fail: every operand that is ready has an entry in
  the flow table, so the assertion of the loop holds, and the loop keeps the accounts of the flows,
  the free list of operand buffers and the occupancy of the multiplier pipeline, which stays between
  zero and the number of its stages. \<close>

theorem consume_operands_never_fails:
  assumes "engine_inv x"
  shows "\<exists>x'. consume_operands x = Inr x' \<and> engine_inv x' \<and> 0 \<le> multPipeOccupancy x' \<and> multPipeOccupancy x' \<le> numMultStages x'"
  using consume_operands_engine [OF assms] engine_occupancy by auto

theorem consume_operands_never_fails_witness:
  "\<exists>x'. consume_operands example_engine = Inr x' \<and> engine_inv x' \<and> 0 \<le> multPipeOccupancy x' \<and> multPipeOccupancy x' \<le> numMultStages x'"
  by (rule consume_operands_never_fails [OF example_engine_inv])

lemma in_pipe_ready: "pipe_inv x \<Longrightarrow> i < length (operandBuffers x) \<Longrightarrow> in_pipe (numMultStages x) (operandBuffers x ! i) \<Longrightarrow>
   oe_ready (operandBuffers x ! i) \<and> mac_flow (flowTable x) (flowID (operandBuffers x ! i))"
  by (auto simp: pipe_inv_def pipe_ok_def)

text \<open> C24. The multiplier is a pipeline: in every cycle each operand in it, whatever the others do,
  moves on by one stage, and the one in the last stage leaves, its buffer cleared and back on the
  free list. \<close>

theorem pipeline_advances:
  assumes "engine_inv x" "i < length (operandBuffers x)" "in_pipe (numMultStages x) (operandBuffers x ! i)"
  shows "\<exists>x'. consume_operands x = Inr x' \<and>
    (if multStageCounter (operandBuffers x ! i) > 1
     then i \<notin> set (freeOperandBufIDs x') \<and> operandBuffers x' ! i =
        (operandBuffers x ! i)\<lparr>oe_counted := True, multStageCounter := multStageCounter (operandBuffers x ! i) - 1\<rparr>
     else i \<in> set (freeOperandBufIDs x') \<and> clear_entry (numMultStages x) (operandBuffers x' ! i))"
proof -
  from assms(1,2) obtain x1 a1 b1 x2 a2 b2 x' where s: "engine_inv x1" "length (operandBuffers x1) = length (operandBuffers x)"
    "operandBuffers x1 ! i = operandBuffers x ! i" "numMultStages x1 = numMultStages x"
    and c: "consume_one i (a1, b1, x1) = Inr (a2, b2, x2)" and d: "consume_operands x = Inr x'"
    "operandBuffers x' ! i = operandBuffers x2 ! i" "i \<in> set (freeOperandBufIDs x') \<longleftrightarrow> i \<in> set (freeOperandBufIDs x2)"
    by (rule consume_operand)
  have i1: "art_inv x1" "pipe_inv x1" "i < length (operandBuffers x1)" using s(1,2) assms(2) by (simp_all add: engine_inv_def)
  have r: "oe_ready (operandBuffers x1 ! i)" "mac_flow (flowTable x1) (flowID (operandBuffers x1 ! i))"
    using in_pipe_ready [OF i1(2,3)] assms(3) s(3,4) by simp_all
  have "if multStageCounter (operandBuffers x ! i) > 1
     then i \<notin> set (freeOperandBufIDs x2) \<and> operandBuffers x2 ! i =
        (operandBuffers x ! i)\<lparr>oe_counted := True, multStageCounter := multStageCounter (operandBuffers x ! i) - 1\<rparr>
     else i \<in> set (freeOperandBufIDs x2) \<and> clear_entry (numMultStages x) (operandBuffers x2 ! i)"
    using consume_one_cases [OF i1(1,3) r(1), of a1 b1] c r(2) assms(3) s(3,4) i1(3)
    by (elim exE conjE disjE) (simp_all add: art_part_def mac_flow_def in_pipe_def clear_entry_def release_def)
  then show ?thesis using d by simp
qed

theorem pipeline_advances_witness:
  "\<exists>x'. consume_operands example_engine = Inr x' \<and> 1 \<in> set (freeOperandBufIDs x') \<and> clear_entry 5 (operandBuffers x' ! 1)"
  using pipeline_advances [of example_engine 1] example_engine_inv
  by (simp add: example_engine_fields in_pipe_def example_operand_def)

text \<open> C2. A gather is answered only when the flow is complete: if the entry of a flow disappears, and
  only the answer removes it, then the gather has arrived, no operand buffer of the cube holds an
  update of the flow, and no child cube owes an answer for updates passed on to it. \<close>

theorem gather_only_when_complete:
  assumes "engine_inv x" "gather_replies par (x, ms) = Inr (x', ms')" "map_of (flowTable x) k = Some fe" "map_of (flowTable x') k \<noteq> Some fe"
  shows "map_of (flowTable x') k = None \<and> g_flag fe \<and> held (operandBuffers x) (freeOperandBufIDs x) k = {} \<and> (\<forall>c \<in> set (children_count fe). c = 0)"
  using gather_replies_fold [OF assms(2,1)] assms(3,4) by blast

definition settled_engine :: xbar where
  "settled_engine = example_engine\<lparr>flowTable := [(8, example_flow\<lparr>rep_count := 3, g_flag := True\<rparr>)],
     operandBuffers := [OperandEntry 5], freeOperandBufIDs := [0], multPipeOccupancy := 0\<rparr>"

definition example_links :: "dual_vector list" where
  "example_links = replicate NUM_LINKS (DualVectorObject 8 8 0)"

lemma settled_engine_inv: "engine_inv settled_engine"
proof -
  have "held [OperandEntry 5] [0] k = {}" for k by (auto simp: held_def)
  then show ?thesis
    by (simp add: engine_inv_def art_inv_def pipe_inv_def settled_engine_def example_engine_fields art_ok_def clear_entry_def OperandEntry_def
        counts_ok_def example_flow_def FlowEntry_def sum_list_replicate pipe_ok_def in_pipe_def)
qed

lemma settled_answers: "\<exists>x' ms'. gather_replies example_net (settled_engine, example_links) = Inr (x', ms') \<and> flowTable x' = []"
proof -
  have "case gather_replies example_net (settled_engine, example_links) of Inr (x', ms') \<Rightarrow> flowTable x' = [] | Inl _ \<Rightarrow> False" by code_simp
  then show ?thesis by (auto split: sum.splits prod.splits)
qed

theorem gather_only_when_complete_witness:
  "\<exists>x' ms'. gather_replies example_net (settled_engine, example_links) = Inr (x', ms') \<and> map_of (flowTable x') 8 = None
    \<and> held (operandBuffers settled_engine) (freeOperandBufIDs settled_engine) 8 = {}"
proof -
  obtain x' ms' where g: "gather_replies example_net (settled_engine, example_links) = Inr (x', ms')" "flowTable x' = []"
    using settled_answers by blast
  have "map_of (flowTable settled_engine) 8 = Some (example_flow\<lparr>rep_count := 3, g_flag := True\<rparr>)" by (simp add: settled_engine_def)
  then show ?thesis using gather_only_when_complete [OF settled_engine_inv g(1), of 8] g by auto
qed

end
