(* ===== verification/Crossbar.thy ===== *)
theory Crossbar
  imports Active_Routing
begin

text \<open>
  The crossbar switch of a cube: \<open>CrossbarSwitch::Update\<close> of \<open>CrossbarSwitch.cpp\<close>. It passes the
  responses in its input buffers on to the links, putting segmented responses together again, and
  the requests on to the vaults and links, cutting requests larger than a block into segments. On the
  way it does the work of active routing (\<open>Active_Routing\<close>): it splits the two operands of a
  multiplication where their ways part, reserves operand buffers and replicates gathers to the
  children of a flow.

  The vault controllers and link masters a packet is handed to are lists of packet buffers, passed
  and returned. The source hands over a pointer and then sets members of the packet; here the
  finished packet is handed over, which is the same because taking a packet depends on its length
  only. The loops over an input buffer move their index both ways and are \<open>whileE\<close> loops.
\<close>

section \<open>Access to buffers\<close>

definition up_buf :: "nat \<Rightarrow> xbar \<Rightarrow> pbuffer" where
  "up_buf ll x = upBuffers (inputBuffers x ! ll)"

definition down_buf :: "nat \<Rightarrow> xbar \<Rightarrow> pbuffer" where
  "down_buf ll x = downBuffers (inputBuffers x ! ll)"

definition set_up :: "nat \<Rightarrow> pbuffer \<Rightarrow> xbar \<Rightarrow> xbar" where
  "set_up ll buf x = x\<lparr>inputBuffers := (inputBuffers x)[ll := (inputBuffers x ! ll)\<lparr>upBuffers := buf\<rparr>]\<rparr>"

definition set_down :: "nat \<Rightarrow> pbuffer \<Rightarrow> xbar \<Rightarrow> xbar" where
  "set_down ll buf x = x\<lparr>inputBuffers := (inputBuffers x)[ll := (inputBuffers x ! ll)\<lparr>downBuffers := buf\<rparr>]\<rparr>"

definition erase_up :: "nat \<Rightarrow> nat \<Rightarrow> xbar \<Rightarrow> xbar result" where
  "erase_up ll i x = bindE (erase_packet i (up_buf ll x)) (\<lambda>buf. Inr (set_up ll buf x))"

definition erase_down :: "nat \<Rightarrow> nat \<Rightarrow> xbar \<Rightarrow> xbar result" where
  "erase_down ll i x = bindE (erase_packet i (down_buf ll x)) (\<lambda>buf. Inr (set_down ll buf x))"

text \<open>A packet is made ready for its next link.\<close>

definition clean :: "packet \<Rightarrow> packet" where
  "clean p = p\<lparr>RTC := 0, URTC := 0, DRTC := 0, chkCRC := False, RRP := 0, chkRRP := False\<rparr>"

definition to_link :: "(packet \<Rightarrow> 'm dual_vector_scheme \<Rightarrow> bool \<times> 'm dual_vector_scheme) \<Rightarrow> packet \<Rightarrow> int \<Rightarrow>
    'm dual_vector_scheme list \<Rightarrow> (bool \<times> 'm dual_vector_scheme list) result" where
  "to_link recv p link ms = bindE (at_int ms link) (\<lambda>m.
     if currentState m = LINK_RETRY then Inr (False, ms)
     else (case recv p m of (ok, m) \<Rightarrow> Inr (ok, ms[nat link := m])))"

definition to_vault :: "packet \<Rightarrow> u32 \<Rightarrow> 'v dual_vector_scheme list \<Rightarrow> (bool \<times> 'v dual_vector_scheme list) result" where
  "to_vault p v vs = bindE (at_int vs (int (unat v))) (\<lambda>d. case ReceiveDown p d of (ok, d) \<Rightarrow> Inr (ok, vs[unat v := d]))"

section \<open>Responses\<close>

text \<open>
  A segment of a response. The first one is kept, the others are added to it; when the last has
  arrived the whole goes to the front of the buffer and the index moves on.
\<close>

definition merge_segment :: "net_par \<Rightarrow> packet \<Rightarrow> packet \<Rightarrow> packet" where
  "merge_segment par p q =
     (let q = (if LNG p > 1 then q\<lparr>LNG := LNG q + block_bytes (ADDRESS_MAPPING (np_cfg par)) div 16\<rparr> else q)
      in if trace p \<noteq> None then q\<lparr>trace := trace p\<rparr> else q)"

definition up_segment :: "net_par \<Rightarrow> nat \<Rightarrow> nat \<Rightarrow> packet \<Rightarrow> xbar \<Rightarrow> (nat \<times> xbar) result" where
  "up_segment par ll i p x = (case first_index (\<lambda>t. TAG p = t) (pendingSegTag x) of
     None \<Rightarrow> Inl (Exit ''pendingSegTag doesn't have segment packet tag'')
   | Some j \<Rightarrow>
       (let tags = erase_at j (pendingSegTag x); foundLastSeg = (TAG p \<notin> set (drop j tags)); x = x\<lparr>pendingSegTag := tags\<rparr>
        in bindE (erase_up ll i x) (\<lambda>x. case first_index (\<lambda>q. TAG p = TAG q) (pendingSegPacket x) of
             None \<Rightarrow> Inr (i, x\<lparr>pendingSegPacket := pendingSegPacket x @ [p]\<rparr>)
           | Some k \<Rightarrow> (let q = merge_segment par p (pendingSegPacket x ! k) in
               if foundLastSeg
               then Inr (i + 1, set_up ll (packet_slots ((copy_packet par q)\<lparr>segment := False\<rparr>) @ up_buf ll x)
                      (x\<lparr>pendingSegPacket := erase_at k (pendingSegPacket x)\<rparr>))
               else Inr (i, x\<lparr>pendingSegPacket := (pendingSegPacket x)[k := q]\<rparr>)))))"

definition taken_up :: "nat \<Rightarrow> nat \<Rightarrow> 'm list \<Rightarrow> xbar result \<Rightarrow> (nat \<times> xbar \<times> 'm list) result" where
  "taken_up ll i ms r = bindE r (\<lambda>x. bindE (erase_up ll i x) (\<lambda>x. Inr (i, x, ms)))"

definition up_packet :: "net_par \<Rightarrow> nat \<Rightarrow> nat \<times> xbar \<times> 'm dual_vector_scheme list \<Rightarrow>
    (nat \<times> xbar \<times> 'm dual_vector_scheme list) result" where
  "up_packet par ll s = (case s of (i, x, ms) \<Rightarrow> (case up_buf ll x ! i of None \<Rightarrow> Inr (i + 1, x, ms)
   | Some p \<Rightarrow> checkE (packetType p = RESPONSE) (Assertion ''RESPONSE'')
       (if segment p then bindE (up_segment par ll i p x) (\<lambda>(i, x). Inr (i, x, ms))
        else if CMD p = ACT_ADD \<or> CMD p = ACT_DOT then taken_up ll i ms (operand_arrives p x)
        else if CMD p = ACT_MULT \<and> here x (DESTCUB p) then taken_up ll i ms (factor_arrives par p x)
        else if CMD p = ACT_GET \<and> here x (DESTCUB p) \<and> \<not> here x (SRCCUB p) then taken_up ll i ms (child_answers par p x)
        else bindE (route par (DESTCUB p) False x) (\<lambda>(x, link). checkE (link \<noteq> -1) (Assertion ''link'')
              (bindE (to_link ReceiveUp (clean p) link ms) (\<lambda>(ok, ms).
                 if ok then taken_up ll i ms (Inr x) else Inr (i + 1, x, ms)))))))"

definition up_link :: "net_par \<Rightarrow> nat \<Rightarrow> xbar \<times> 'm dual_vector_scheme list \<Rightarrow> (xbar \<times> 'm dual_vector_scheme list) result" where
  "up_link par l s = (case s of (x, ms) \<Rightarrow> (let ll = (upLink x + l) mod length (inputBuffers x) in
     bindE (whileE (\<lambda>(i, x, ms). i < length (up_buf ll x)) (up_packet par ll) (0, x, ms)) (\<lambda>(i, x, ms). Inr (x, ms))))"

definition upstream :: "net_par \<Rightarrow> xbar \<times> 'm dual_vector_scheme list \<Rightarrow> (xbar \<times> 'm dual_vector_scheme list) result" where
  "upstream par s = bindE (foldE (up_link par) [0..<length (inputBuffers (fst s))] s) (\<lambda>(x, ms).
     Inr (x\<lparr>upLink := (upLink x + 1) mod length (inputBuffers x)\<rparr>, ms))"

section \<open>Requests for this cube\<close>

text \<open>What the loop over a buffer does next: the same index again, the next one, a given one, or end.\<close>

datatype (plugins only: code size) move = Again | Next | Goto nat | Leave

type_synonym ('v, 'm) cube = "bool list \<times> xbar \<times> 'v dual_vector_scheme list \<times> 'm dual_vector_scheme list"

text \<open>A request larger than a block is cut into segments, one a block.\<close>

definition segments :: "net_par \<Rightarrow> packet \<Rightarrow> nat" where
  "segments par p = (let am = unat (block_bytes (ADDRESS_MAPPING (np_cfg par))) in (unat (reqDataSize p) + am - 1) div am)"

definition segment_packet :: "net_par \<Rightarrow> packet \<Rightarrow> nat \<Rightarrow> packet" where
  "segment_packet par p j = (let am = block_bytes (ADDRESS_MAPPING (np_cfg par));
       q = p\<lparr>reqDataSize := am, LNG := (if LNG p > 1 then 1 + am div 16 else LNG p)\<rparr>;
       q = (copy_packet par q)\<lparr>ADRS := ADRS p + of_nat j * ucast am, segment := True\<rparr>
     in if j > 1 then q\<lparr>trace := None\<rparr> else q)"

definition insert_segment :: "net_par \<Rightarrow> packet \<Rightarrow> nat \<Rightarrow> nat \<times> pbuffer \<times> u32 list \<Rightarrow> nat \<times> pbuffer \<times> u32 list" where
  "insert_segment par p j s = (case s of (i, buf, tags) \<Rightarrow> (let q = segment_packet par p j in
     (i + unat (LNG q), take i buf @ packet_slots q @ drop i buf, tags @ [TAG q])))"

definition divide :: "net_par \<Rightarrow> nat \<Rightarrow> nat \<Rightarrow> packet \<Rightarrow> xbar \<Rightarrow> (move \<times> xbar) result" where
  "divide par ll i p x = bindE (erase_down ll i x) (\<lambda>x.
     (case fold (insert_segment par p) [0..<segments par p] (i, down_buf ll x, pendingSegTag x) of (i, buf, tags) \<Rightarrow>
        Inr (Goto (i + 1), set_down ll buf (x\<lparr>pendingSegTag := tags\<rparr>))))"

text \<open>After a line of a packet is sent, the packet goes on to its next line or is taken out.\<close>

definition next_line :: "net_par \<Rightarrow> nat \<Rightarrow> nat \<Rightarrow> packet \<Rightarrow> xbar \<Rightarrow> xbar result" where
  "next_line par ll i p x =
     (if LINES p = 1 then erase_down ll i x
      else bindE (copy_trace (trace p) x) (\<lambda>(t, x).
        (let q = (copy_packet par p)\<lparr>trace := t, SRCADRS1 := SRCADRS1 p + 64, ADRS := ADRS p + 64, LINES := LINES p - 1\<rparr>
         in checkE (ADRS q = low_addr (SRCADRS1 q)) (Assertion ''ADRS'') (Inr (set_down ll ((down_buf ll x)[i := Some q]) x)))))"

text \<open>An addition: it needs an operand buffer and a vault not served in this cycle.\<close>

definition local_add :: "net_par \<Rightarrow> nat \<Rightarrow> nat \<Rightarrow> packet \<Rightarrow> ('v, 'm) cube \<Rightarrow> (move \<times> ('v, 'm) cube) result" where
  "local_add par ll i p s = (case s of (vmask, x, vs, ms) \<Rightarrow>
     (let v = vaultMap (np_cfg par) (ADRS p) in
      case freeOperandBufIDs x of [] \<Rightarrow> Inr (Next, vmask, x\<lparr>opbufStalls := opbufStalls x + 1\<rparr>, vs, ms)
      | buf # _ \<Rightarrow>
          if vmask ! unat v then Inr (Next, s)
          else bindE (to_vault (p\<lparr>operandBufID := int buf, SRCCUB := sint (cubeID x), DESTCUB := sint (cubeID x)\<rparr>) v vs) (\<lambda>(ok, vs).
            if \<not> ok then Inr (Next, s)
            else bindE (register_update par ADD p (x\<lparr>numOperands := numOperands x + 1, numUpdates := numUpdates x + 1\<rparr>)) (\<lambda>x.
                 bindE (reserve_operand (DESTADRS p) (SRCADRS1 p) 0 x) (\<lambda>(_, x).
                 bindE (next_line par ll i p x) (\<lambda>x. Inr (Again, vmask[unat v := True], x, vs, ms)))))))"

text \<open>
  A multiplication with both operands: the one in this cube is sent to its vault, the packet goes on
  with the other half. (\<open>operandBufID\<close> is set to -1 first, inside an assertion.)
\<close>

definition local_mult :: "net_par \<Rightarrow> nat \<Rightarrow> nat \<Rightarrow> packet \<Rightarrow> ('v, 'm) cube \<Rightarrow> (move \<times> ('v, 'm) cube) result" where
  "local_mult par ll i p s = (case s of (vmask, x, vs, ms) \<Rightarrow>
     checkE (SRCADRS1 p \<noteq> 0 \<and> SRCADRS2 p \<noteq> 0) (Assertion ''SRCADRS'')
      (case freeOperandBufIDs x of [] \<Rightarrow> Inr (Next, vmask, x\<lparr>opbufStalls := opbufStalls x + 1\<rparr>, vs, ms)
       | buf # _ \<Rightarrow>
           (let p = p\<lparr>operandBufID := -1\<rparr>; x = set_down ll ((down_buf ll x)[i := Some p]) x; first = here x (DESTCUB1 p);
                cube = sint (cubeID x); v = vaultMap (np_cfg par) (if first then SRCADRS1 p else SRCADRS2 p);
                pkt = (copy_packet par p)\<lparr>operandBufID := int buf, SRCCUB := cube, DESTCUB := cube\<rparr>;
                pkt = (if first then pkt\<lparr>SRCADRS2 := 0, ADRS := low_addr (SRCADRS1 p), halfPkt1 := True\<rparr>
                       else pkt\<lparr>SRCADRS1 := 0, ADRS := low_addr (SRCADRS2 p), halfPkt2 := True\<rparr>);
                rest = p\<lparr>operandBufID := int buf, SRCCUB := (if LINES p = 1 then cube else SRCCUB p)\<rparr>;
                rest = (if first then rest\<lparr>ADRS := low_addr (SRCADRS2 p), DESTCUB := DESTCUB2 p, halfPkt2 := True\<rparr>
                        else rest\<lparr>ADRS := low_addr (SRCADRS1 p), DESTCUB := DESTCUB1 p, halfPkt1 := True\<rparr>)
            in checkE (first \<or> here x (DESTCUB2 p)) (Assertion ''DESTCUB2'')
              (bindE (to_vault pkt v vs) (\<lambda>(ok, vs).
                 if \<not> ok then Inr (Next, vmask, x, vs, ms)
                 else bindE (register_update par MAC p (x\<lparr>numUpdates := numUpdates x + 1, numOperands := numOperands x + 1\<rparr>)) (\<lambda>x.
                      bindE (reserve_operand (DESTADRS p) (SRCADRS1 p) (SRCADRS2 p) x) (\<lambda>(_, x).
                        Inr (Again, vmask, set_down ll ((down_buf ll x)[i := Some rest]) x, vs, ms))))))))"

text \<open>The second half of a multiplication. With more lines to come the packet becomes whole again.\<close>

definition half_packet :: "packet \<Rightarrow> packet result" where
  "half_packet pkt =
     checkE (halfPkt1 pkt \<noteq> halfPkt2 pkt) (Assertion ''halfPkt'')
      (if halfPkt1 pkt then checkE (ADRS pkt = low_addr (SRCADRS1 pkt)) (Assertion ''ADRS'') (Inr (pkt\<lparr>SRCADRS2 := 0, LINES := 1\<rparr>))
       else checkE (ADRS pkt = low_addr (SRCADRS2 pkt)) (Assertion ''ADRS'') (Inr (pkt\<lparr>SRCADRS1 := 0, LINES := 1\<rparr>)))"

definition whole_again :: "nat \<Rightarrow> nat \<Rightarrow> packet \<Rightarrow> xbar \<Rightarrow> xbar result" where
  "whole_again ll i p x = bindE (copy_trace (trace p) x) (\<lambda>(t, x).
     Inr (set_down ll ((down_buf ll x)[i := Some (p\<lparr>halfPkt1 := False, halfPkt2 := False, SRCADRS1 := SRCADRS1 p + 64,
       SRCADRS2 := SRCADRS2 p + 64, ADRS := low_addr (SRCADRS1 p + 64), LINES := LINES p - 1, operandBufID := -1, trace := t\<rparr>)]) x))"

definition local_half :: "net_par \<Rightarrow> nat \<Rightarrow> nat \<Rightarrow> packet \<Rightarrow> ('v, 'm) cube \<Rightarrow> (move \<times> ('v, 'm) cube) result" where
  "local_half par ll i p s = (case s of (vmask, x, vs, ms) \<Rightarrow>
     (let many = LINES p > 1; cube = sint (cubeID x) in
      bindE (to_vault p (vaultMap (np_cfg par) (ADRS p)) vs) (\<lambda>(room, _).
        if \<not> room then Inr (Next, s)
        else bindE (half_packet (if many then copy_packet par p else p)) (\<lambda>pkt.
             (let pkt = (if many then pkt\<lparr>SRCCUB := cube, DESTCUB := cube\<rparr> else pkt)
              in checkE (many \<longrightarrow> DESTCUB1 p = DESTCUB2 p) (Assertion ''DESTCUB'')
                (bindE (to_vault pkt (vaultMap (np_cfg par) (ADRS p)) vs) (\<lambda>(_, vs).
                 bindE (if many then whole_again ll i p x else erase_down ll i x) (\<lambda>x.
                   Inr (Again, vmask, x\<lparr>numOperands := numOperands x + 1\<rparr>, vs, ms)))))))))"

text \<open>A gather waits behind the updates of its flow and is first replicated to the children.\<close>

definition child_links :: "flow_entry \<Rightarrow> nat list" where
  "child_links fe = filter (\<lambda>c. children_count fe ! c > 0 \<and> \<not> children_gflag fe ! c) [0..<NUM_LINKS]"

fun gather_children :: "net_par \<Rightarrow> nat \<Rightarrow> packet \<Rightarrow> nat list \<Rightarrow> xbar \<Rightarrow> (bool \<times> xbar) result" where
  "gather_children par ll p [] x = Inr (False, x)"
| "gather_children par ll p (c # cs) x =
     bindE (at_int (neighborCubeID x) (int c)) (\<lambda>child_cube.
     bindE (route par child_cube False x) (\<lambda>(x, link).
     checkE (link = int c) (Assertion ''link'')
      (case ReceiveDown (clean ((copy_packet par p)\<lparr>SRCCUB := sint (cubeID x), DESTCUB := child_cube\<rparr>)) (inputBuffers x ! ll) of
         (ok, buf) \<Rightarrow>
           if ok then (case map_of (flowTable x) (DESTADRS p) of None \<Rightarrow> Inl (Undefined ''flow'')
             | Some fe \<Rightarrow> Inr (True, x\<lparr>inputBuffers := (inputBuffers x)[ll := buf],
                 flowTable := flow_insert (DESTADRS p) (fe\<lparr>children_gflag := (children_gflag fe)[c := True]\<rparr>) (flowTable x)\<rparr>))
           else gather_children par ll p cs x)))"

definition local_get :: "net_par \<Rightarrow> nat \<Rightarrow> nat \<Rightarrow> packet \<Rightarrow> ('v, 'm) cube \<Rightarrow> (move \<times> ('v, 'm) cube) result" where
  "local_get par ll i p s = (case s of (vmask, x, vs, ms) \<Rightarrow>
     if list_ex (update_of (DESTADRS p)) (take i (down_buf ll x)) then Inr (Next, s)
     else (case map_of (flowTable x) (DESTADRS p) of None \<Rightarrow> Inl (Assertion ''flowTable'')
       | Some fe \<Rightarrow>
           if child_links fe \<noteq> []
           then checkE (req_count fe - rep_count fe > 0) (Assertion ''req_count'')
                 (bindE (gather_children par ll p (child_links fe) x) (\<lambda>(sent, x).
                    Inr (if sent then Again else Next, vmask, x, vs, ms)))
           else bindE (erase_down ll i (x\<lparr>flowTable := flow_insert (DESTADRS p) (fe\<lparr>g_flag := True\<rparr>) (flowTable x)\<rparr>)) (\<lambda>x.
                  Inr (Again, vmask, x, vs, ms))))"

definition local_other :: "net_par \<Rightarrow> nat \<Rightarrow> nat \<Rightarrow> packet \<Rightarrow> ('v, 'm) cube \<Rightarrow> (move \<times> ('v, 'm) cube) result" where
  "local_other par ll i p s = (case s of (vmask, x, vs, ms) \<Rightarrow>
     bindE (to_vault p (vaultMap (np_cfg par) (ADRS p)) vs) (\<lambda>(ok, vs).
       if ok then bindE (erase_down ll i x) (\<lambda>x. Inr (Again, vmask, x, vs, ms)) else Inr (Next, s)))"

section \<open>Requests for other cubes\<close>

text \<open>
  A multiplication whose operands go different ways is split here: half of it is sent over one of
  the two links, the packet goes on with the other half.
\<close>

definition split_mult :: "net_par \<Rightarrow> nat \<Rightarrow> nat \<Rightarrow> packet \<Rightarrow> int \<Rightarrow> int \<Rightarrow> ('v, 'm) cube \<Rightarrow> (move \<times> ('v, 'm) cube) result" where
  "split_mult par ll i p link1 link2 s = (case s of (vmask, x, vs, ms) \<Rightarrow>
     (case freeOperandBufIDs x of [] \<Rightarrow> Inr (Next, vmask, x\<lparr>opbufStalls := opbufStalls x + 1\<rparr>, vs, ms)
      | buf # _ \<Rightarrow> checkE (operandBufID p = -1) (Assertion ''operandBufID'')
          (let cube = sint (cubeID x);
               pkt = clean ((copy_packet par p)\<lparr>operandBufID := int buf, SRCCUB := cube, LINES := 1\<rparr>);
               pkt1 = pkt\<lparr>SRCADRS2 := 0, ADRS := low_addr (SRCADRS1 p), halfPkt1 := True\<rparr>;
               pkt2 = pkt\<lparr>SRCADRS1 := 0, ADRS := low_addr (SRCADRS2 p), halfPkt2 := True, DESTCUB := DESTCUB2 p\<rparr>;
               rest = p\<lparr>operandBufID := int buf, SRCCUB := (if LINES p = 1 then cube else SRCCUB p)\<rparr>;
               rest1 = rest\<lparr>halfPkt2 := True, ADRS := low_addr (SRCADRS2 p), DESTCUB := DESTCUB2 p\<rparr>;
               rest2 = rest\<lparr>halfPkt1 := True, ADRS := low_addr (SRCADRS1 p), DESTCUB := DESTCUB1 p\<rparr>;
               sent = (\<lambda>rest ms. bindE (register_update par MAC p (x\<lparr>numUpdates := numUpdates x + 1\<rparr>)) (\<lambda>x.
                  bindE (reserve_operand (DESTADRS p) (SRCADRS1 p) (SRCADRS2 p) x) (\<lambda>(_, x).
                    Inr (Again, vmask, set_down ll ((down_buf ll x)[i := Some rest]) x, vs, ms))))
           in bindE (to_link ReceiveDown pkt1 link1 ms) (\<lambda>(ok, ms1).
              if ok then sent rest1 ms1
              else bindE (to_link ReceiveDown pkt2 link2 ms) (\<lambda>(ok, ms2).
                if ok then sent rest2 ms2 else Inr (Next, s))))))"

text \<open>An update passed on to a child of the flow.\<close>

definition pass_on :: "net_par \<Rightarrow> Opcode \<Rightarrow> nat \<Rightarrow> nat \<Rightarrow> packet \<Rightarrow> int \<Rightarrow> xbar \<Rightarrow> xbar result" where
  "pass_on par op ll i p link x =
     bindE (register_update par op p x) (\<lambda>x.
     bindE (bump_child (DESTADRS p) link (flowTable x)) (\<lambda>t. erase_down ll i (x\<lparr>flowTable := t\<rparr>)))"

definition forward_mult :: "net_par \<Rightarrow> nat \<Rightarrow> nat \<Rightarrow> packet \<Rightarrow> int \<Rightarrow> ('v, 'm) cube \<Rightarrow> (move \<times> ('v, 'm) cube) result" where
  "forward_mult par ll i p link s = (case s of (vmask, x, vs, ms) \<Rightarrow>
     checkE (SRCADRS1 p \<noteq> 0 \<and> SRCADRS2 p \<noteq> 0) (Assertion ''SRCADRS'')
      (bindE (route par (DESTCUB1 p) False x) (\<lambda>(x, link1).
       bindE (route par (DESTCUB2 p) False x) (\<lambda>(x, link2).
         if link1 \<noteq> link2 then split_mult par ll i p link1 link2 (vmask, x, vs, ms)
         else bindE (to_link ReceiveDown (clean p) link ms) (\<lambda>(ok, ms).
           if ok then bindE (pass_on par MAC ll i p link x) (\<lambda>x. Inr (Again, vmask, x, vs, ms))
           else Inr (Next, vmask, x, vs, ms))))))"

text \<open>The half of a multiplication; the source leaves the loop over this buffer after it.\<close>

definition forward_half :: "net_par \<Rightarrow> nat \<Rightarrow> nat \<Rightarrow> packet \<Rightarrow> int \<Rightarrow> ('v, 'm) cube \<Rightarrow> (move \<times> ('v, 'm) cube) result" where
  "forward_half par ll i p link s = (case s of (vmask, x, vs, ms) \<Rightarrow>
     (let many = LINES p > 1 in
      bindE (to_link ReceiveDown p link ms) (\<lambda>(room, _).
        if \<not> room then Inr (Next, s)
        else bindE (half_packet (if many then copy_packet par p else p)) (\<lambda>pkt.
             (let pkt = clean (if many then pkt\<lparr>SRCCUB := sint (cubeID x), DESTCUB := (if halfPkt1 pkt then DESTCUB1 pkt else DESTCUB2 pkt)\<rparr>
                               else pkt)
              in bindE (to_link ReceiveDown pkt link ms) (\<lambda>(_, ms).
                 bindE (if many then whole_again ll i p x else erase_down ll i x) (\<lambda>x. Inr (Leave, vmask, x, vs, ms))))))))"

definition forward_other :: "net_par \<Rightarrow> nat \<Rightarrow> nat \<Rightarrow> packet \<Rightarrow> int \<Rightarrow> ('v, 'm) cube \<Rightarrow> (move \<times> ('v, 'm) cube) result" where
  "forward_other par ll i p link s = (case s of (vmask, x, vs, ms) \<Rightarrow>
     bindE (to_link ReceiveDown (clean p) link ms) (\<lambda>(ok, ms).
       if ok then bindE (if CMD p = ACT_ADD \<or> CMD p = ACT_DOT then pass_on par ADD ll i p link x else erase_down ll i x) (\<lambda>x.
              Inr (Again, vmask, x, vs, ms))
       else Inr (Next, s)))"

section \<open>The update of a cycle\<close>

definition for_this_cube :: "packet \<Rightarrow> xbar \<Rightarrow> bool" where
  "for_this_cube p x \<longleftrightarrow> here x (DESTCUB p)
     \<or> CMD p = ACT_MULT \<and> halfPkt1 p \<and> SRCADRS1 p \<noteq> 0 \<and> here x (DESTCUB1 p)
     \<or> CMD p = ACT_MULT \<and> halfPkt2 p \<and> SRCADRS2 p \<noteq> 0 \<and> here x (DESTCUB2 p)
     \<or> (CMD p = ACT_MULT \<and> SRCADRS1 p \<noteq> 0 \<and> here x (DESTCUB1 p) \<or> CMD p = ACT_MULT \<and> SRCADRS2 p \<noteq> 0 \<and> here x (DESTCUB2 p))
       \<and> \<not> halfPkt1 p \<and> \<not> halfPkt2 p"

definition local_packet :: "net_par \<Rightarrow> nat \<Rightarrow> nat \<Rightarrow> packet \<Rightarrow> ('v, 'm) cube \<Rightarrow> (move \<times> ('v, 'm) cube) result" where
  "local_packet par ll i p s =
     (if reqDataSize p > block_bytes (ADDRESS_MAPPING (np_cfg par))
      then (case s of (vmask, x, vs, ms) \<Rightarrow> bindE (divide par ll i p x) (\<lambda>(m, x). Inr (m, vmask, x, vs, ms)))
      else if CMD p = ACT_ADD \<or> CMD p = ACT_DOT then local_add par ll i p s
      else if CMD p = ACT_MULT
      then (if \<not> halfPkt1 p \<and> \<not> halfPkt2 p then local_mult par ll i p s else local_half par ll i p s)
      else if CMD p = ACT_GET then local_get par ll i p s
      else local_other par ll i p s)"

definition forward_packet :: "net_par \<Rightarrow> nat \<Rightarrow> nat \<Rightarrow> packet \<Rightarrow> ('v, 'm) cube \<Rightarrow> (move \<times> ('v, 'm) cube) result" where
  "forward_packet par ll i p s = (case s of (vmask, x, vs, ms) \<Rightarrow>
     bindE (route par (DESTCUB p) False x) (\<lambda>(x, link). checkE (link \<noteq> -1) (Assertion ''link'')
      (if CMD p = ACT_MULT
       then (if \<not> halfPkt1 p \<and> \<not> halfPkt2 p then forward_mult par ll i p link (vmask, x, vs, ms)
             else forward_half par ll i p link (vmask, x, vs, ms))
       else forward_other par ll i p link (vmask, x, vs, ms))))"

definition moved :: "nat \<Rightarrow> move \<Rightarrow> nat \<times> bool" where
  "moved i m = (case m of Again \<Rightarrow> (i, False) | Next \<Rightarrow> (i + 1, False) | Goto j \<Rightarrow> (j, False) | Leave \<Rightarrow> (i, True))"

definition down_packet :: "net_par \<Rightarrow> nat \<Rightarrow> (nat \<times> bool) \<times> ('v, 'm) cube \<Rightarrow> ((nat \<times> bool) \<times> ('v, 'm) cube) result" where
  "down_packet par ll s = (case s of ((i, _), vmask, x, vs, ms) \<Rightarrow> (case down_buf ll x ! i of
     None \<Rightarrow> Inr ((i + 1, False), vmask, x, vs, ms)
   | Some p \<Rightarrow> checkE (packetType p = REQUEST) (Assertion ''REQUEST'')
       (bindE (if for_this_cube p x then local_packet par ll i p (vmask, x, vs, ms) else forward_packet par ll i p (vmask, x, vs, ms))
         (\<lambda>(m, c). Inr (moved i m, c)))))"

definition down_active :: "nat \<Rightarrow> (nat \<times> bool) \<times> ('v, 'm) cube \<Rightarrow> bool" where
  "down_active ll s = (case s of ((i, stop), vmask, x, vs, ms) \<Rightarrow> \<not> stop \<and> i < length (down_buf ll x))"

definition down_link :: "net_par \<Rightarrow> nat \<Rightarrow> ('v, 'm) cube \<Rightarrow> ('v, 'm) cube result" where
  "down_link par l s = (case s of (vmask, x, vs, ms) \<Rightarrow> (let ll = (downLink x + l) mod (length (inputBuffers x) - 1) in
     if dv_bufPopDelay (inputBuffers x ! ll) = 0
     then bindE (whileE (down_active ll) (down_packet par ll) ((0, False), s)) (\<lambda>(_, s). Inr s)
     else Inr s))"

definition downstream :: "net_par \<Rightarrow> xbar \<times> 'v dual_vector_scheme list \<times> 'm dual_vector_scheme list \<Rightarrow>
    (xbar \<times> 'v dual_vector_scheme list \<times> 'm dual_vector_scheme list) result" where
  "downstream par s = (case s of (x, vs, ms) \<Rightarrow>
     bindE (foldE (down_link par) [0..<length (inputBuffers x) - 1] (replicate NUM_VAULTS False, x, vs, ms)) (\<lambda>(_, x, vs, ms).
       Inr (x\<lparr>downLink := (downLink x + 1) mod (length (inputBuffers x) - 1)\<rparr>, vs, ms)))"

definition CrossbarSwitch_Update :: "net_par \<Rightarrow> xbar \<times> 'v dual_vector_scheme list \<times> 'm dual_vector_scheme list \<Rightarrow>
    (xbar \<times> 'v dual_vector_scheme list \<times> 'm dual_vector_scheme list) result" where
  "CrossbarSwitch_Update par s = (case s of (x, vs, ms) \<Rightarrow>
     bindE (upstream par (x, ms)) (\<lambda>(x, ms).
     bindE (downstream par (x, vs, ms)) (\<lambda>(x, vs, ms).
     bindE (consume_operands x) (\<lambda>x.
     bindE (gather_replies par (x, ms)) (\<lambda>(x, ms).
       Inr (dual_Step (x\<lparr>inputBuffers := map dual_Step (inputBuffers x)\<rparr>), vs, ms))))))"

section \<open>The invariant of the crossbar\<close>

text \<open>
  What the engine relies on of the packets that come up from the vaults: an operand of an addition
  carries the address it was read from, which is not null (the vault controller asserts it).
\<close>

definition good_response :: "packet \<Rightarrow> bool" where
  "good_response p \<longleftrightarrow> (CMD p = ACT_ADD \<or> CMD p = ACT_DOT \<longrightarrow> SRCADRS1 p \<noteq> 0)"

definition good_slot :: "packet option \<Rightarrow> bool" where
  "good_slot q \<longleftrightarrow> (case q of None \<Rightarrow> True | Some p \<Rightarrow> good_response p)"

definition good_buffers :: "pbuffer list \<Rightarrow> packet list \<Rightarrow> bool" where
  "good_buffers bufs ps \<longleftrightarrow> list_all (list_all good_slot) bufs \<and> list_all good_response ps"

definition up_part :: "xbar \<Rightarrow> pbuffer list \<times> packet list" where
  "up_part x = (map upBuffers (inputBuffers x), pendingSegPacket x)"

definition xbar_inv :: "xbar \<Rightarrow> bool" where
  "xbar_inv x \<longleftrightarrow> engine_inv x \<and> (case up_part x of (bufs, ps) \<Rightarrow> good_buffers bufs ps)"

text \<open>A step that leaves the tables and the responses alone.\<close>

definition same_part :: "xbar \<Rightarrow> xbar \<Rightarrow> bool" where
  "same_part x x' \<longleftrightarrow> art_part x' = art_part x \<and> up_part x' = up_part x"

named_theorems frame \<open>steps that leave the tables and the responses alone\<close>

lemma same_part_inv: "same_part x x' \<Longrightarrow> xbar_inv x' = xbar_inv x"
  using engine_inv_part [of x' x] by (simp add: same_part_def xbar_inv_def)

lemma same_part_refl [simp]: "same_part x x"
  by (simp add: same_part_def)

lemma same_part_trans: "same_part x y \<Longrightarrow> same_part y z \<Longrightarrow> same_part x z"
  by (simp add: same_part_def)

lemma up_part_update [simp]:
  "up_part (x\<lparr>inServiceLink := l\<rparr>) = up_part x" "up_part (x\<lparr>pendingSegTag := tags\<rparr>) = up_part x"
  "up_part (x\<lparr>opbufStalls := n\<rparr>) = up_part x" "up_part (x\<lparr>numUpdates := n\<rparr>) = up_part x"
  "up_part (x\<lparr>numOperands := n\<rparr>) = up_part x" "up_part (x\<lparr>upLink := m\<rparr>) = up_part x"
  "up_part (x\<lparr>downLink := m\<rparr>) = up_part x" "up_part (x\<lparr>x_traces := ts\<rparr>) = up_part x"
  "up_part (x\<lparr>x_statis := st\<rparr>) = up_part x" "up_part (x\<lparr>x_gtag := g\<rparr>) = up_part x"
  "up_part (delete_trace t x) = up_part x" "up_part (x\<lparr>flowTable := f\<rparr>) = up_part x"
  "up_part (x\<lparr>operandBuffers := ops\<rparr>) = up_part x" "up_part (x\<lparr>freeOperandBufIDs := free\<rparr>) = up_part x"
  "up_part (x\<lparr>total_ready_operands := a\<rparr>) = up_part x" "up_part (x\<lparr>total_results_ready := a\<rparr>) = up_part x"
  "up_part (x\<lparr>ready_operands_hist := h\<rparr>) = up_part x" "up_part (x\<lparr>results_ready_hist := h\<rparr>) = up_part x"
  "up_part (x\<lparr>multPipeOccupancy := a\<rparr>) = up_part x"
  by (simp_all add: up_part_def delete_trace_def split: option.splits)

lemma same_part_update [simp]:
  "same_part x (y\<lparr>inServiceLink := l\<rparr>) = same_part x y" "same_part x (y\<lparr>pendingSegTag := tags\<rparr>) = same_part x y"
  "same_part x (y\<lparr>opbufStalls := n\<rparr>) = same_part x y" "same_part x (y\<lparr>numUpdates := n\<rparr>) = same_part x y"
  "same_part x (y\<lparr>numOperands := n\<rparr>) = same_part x y" "same_part x (y\<lparr>upLink := m\<rparr>) = same_part x y"
  "same_part x (y\<lparr>downLink := m\<rparr>) = same_part x y" "same_part x (y\<lparr>x_traces := ts\<rparr>) = same_part x y"
  by (simp_all add: same_part_def)

lemma map_upBuffers_update: "map upBuffers (bs[ll := (bs ! ll)\<lparr>downBuffers := buf, dv_bufPopDelay := d\<rparr>]) = map upBuffers bs"
  "map upBuffers (bs[ll := (bs ! ll)\<lparr>downBuffers := buf\<rparr>]) = map upBuffers bs"
  by (cases "ll < length bs"; simp add: map_update list_update_beyond list_update_same_conv)+

lemma set_down_same [simp]: "same_part x (set_down ll buf y) = same_part x y"
  by (simp add: same_part_def set_down_def up_part_def map_upBuffers_update)

lemma erase_down_same [frame]: "erase_down ll i x = Inr x' \<Longrightarrow> same_part x x'"
  by (auto simp: erase_down_def err_simps)

lemma route_same [frame]: "route par d r x = Inr (x', l) \<Longrightarrow> same_part x x'"
  by (auto simp: route_def err_simps)

lemma copy_trace_same [frame]: "copy_trace t x = Inr (t', x') \<Longrightarrow> same_part x x'"
  by (auto simp: copy_trace_def split: option.splits)

lemma next_line_same [frame]: "next_line par ll i p x = Inr x' \<Longrightarrow> same_part x x'"
  by (auto simp: next_line_def err_simps Let_def dest: frame split: if_splits)

lemma whole_again_same [frame]: "whole_again ll i p x = Inr x' \<Longrightarrow> same_part x x'"
  by (auto simp: whole_again_def err_simps dest: frame)

lemma divide_same [frame]: "divide par ll i p x = Inr (m, x') \<Longrightarrow> same_part x x'"
  by (auto simp: divide_def err_simps case_prod_unfold dest: frame)

text \<open>Taking over and passing on keep the responses too.\<close>

lemma take_over_up: "register_update par op p x = Inr x1 \<Longrightarrow> reserve_operand k a b x1 = Inr (i, x2) \<Longrightarrow> up_part x2 = up_part x"
  by (auto simp: register_update_def reserve_operand_def route_def err_simps split: list.splits)

lemma take_over_xbar:
  "register_update par op p x = Inr x1 \<Longrightarrow> reserve_operand (DESTADRS p) a b x1 = Inr (i, x2) \<Longrightarrow> xbar_inv x \<Longrightarrow> xbar_inv x2"
  using take_over_inv take_over_up by (fastforce simp: xbar_inv_def)

lemma pass_on_xbar:
  assumes "pass_on par op ll i p link x = Inr x'" "xbar_inv x"
  shows "xbar_inv x'"
proof -
  obtain x1 t where s: "register_update par op p x = Inr x1" "bump_child (DESTADRS p) link (flowTable x1) = Inr t"
    "erase_down ll i (x1\<lparr>flowTable := t\<rparr>) = Inr x'"
    using assms(1) by (auto simp: pass_on_def err_simps)
  have "up_part x1 = up_part x" using s(1) by (auto simp: register_update_def route_def err_simps)
  then have "xbar_inv (x1\<lparr>flowTable := t\<rparr>)" using hand_on_inv [OF s(1,2)] assms(2) by (simp add: xbar_inv_def)
  then show ?thesis using same_part_inv [OF erase_down_same [OF s(3)]] by simp
qed

lemma ReceiveDown_up: "ReceiveDown p d = (ok, d') \<Longrightarrow> upBuffers d' = upBuffers d"
  by (auto simp: ReceiveDown_def split: prod.splits bool.splits)

abbreviation cube_x :: "('v, 'm) cube \<Rightarrow> xbar" where
  "cube_x s \<equiv> fst (snd s)"

named_theorems xbar_steps \<open>steps of the loop over the requests that keep the invariant\<close>

lemma same_partD: "same_part x x' \<Longrightarrow> xbar_inv x \<Longrightarrow> xbar_inv x'"
  by (simp add: same_part_inv)

lemma xbar_inv_update [simp]:
  "xbar_inv (x\<lparr>opbufStalls := n\<rparr>) = xbar_inv x" "xbar_inv (x\<lparr>numUpdates := n\<rparr>) = xbar_inv x" "xbar_inv (x\<lparr>numOperands := n\<rparr>) = xbar_inv x"
  "xbar_inv (set_down ll buf x) = xbar_inv x" "xbar_inv (x\<lparr>upLink := m\<rparr>) = xbar_inv x" "xbar_inv (x\<lparr>downLink := m\<rparr>) = xbar_inv x"
  "xbar_inv (x\<lparr>pendingSegTag := tags\<rparr>) = xbar_inv x" "xbar_inv (x\<lparr>inServiceLink := l\<rparr>) = xbar_inv x" "xbar_inv (x\<lparr>x_gtag := g\<rparr>) = xbar_inv x"
  "xbar_inv (x\<lparr>x_traces := ts\<rparr>) = xbar_inv x" "xbar_inv (delete_trace t x) = xbar_inv x"
  by (rule same_part_inv, simp add: same_part_def; simp add: set_down_def up_part_def map_upBuffers_update)+


lemmas okE_calls [wp] =
  okE_iff [where r = "to_vault p v vs" for p v vs] okE_iff [where r = "to_link recv p link ms" for recv p link ms]
  okE_iff [where r = "register_update par op p x" for par op p x] okE_iff [where r = "reserve_operand k a b x" for k a b x]
  okE_iff [where r = "route par d req x" for par d req x] okE_iff [where r = "erase_down ll i x" for ll i x]
  okE_iff [where r = "next_line par ll i p x" for par ll i p x] okE_iff [where r = "whole_again ll i p x" for ll i p x]
  okE_iff [where r = "half_packet p" for p] okE_iff [where r = "divide par ll i p x" for par ll i p x]
  okE_iff [where r = "pass_on par op ll i p link x" for par op ll i p link x]

lemmas frame_inv = frame [THEN same_partD]

lemma local_add_inv [xbar_steps]: "xbar_inv (cube_x s) \<Longrightarrow> okE (local_add par ll i p s) (\<lambda>(m, s'). xbar_inv (cube_x s'))"
  by (cases s) (auto simp: local_add_def wp Let_def dest!: take_over_xbar frame_inv split: list.split)

lemma local_mult_inv [xbar_steps]: "xbar_inv (cube_x s) \<Longrightarrow> okE (local_mult par ll i p s) (\<lambda>(m, s'). xbar_inv (cube_x s'))"
  by (cases s) (auto simp: local_mult_def wp Let_def dest!: take_over_xbar [where p = "p\<lparr>operandBufID := -1\<rparr>", simplified] split: list.split)

lemma local_half_inv [xbar_steps]: "xbar_inv (cube_x s) \<Longrightarrow> okE (local_half par ll i p s) (\<lambda>(m, s'). xbar_inv (cube_x s'))"
  by (cases s) (auto simp: local_half_def wp Let_def dest!: frame_inv)

lemma local_other_inv [xbar_steps]: "xbar_inv (cube_x s) \<Longrightarrow> okE (local_other par ll i p s) (\<lambda>(m, s'). xbar_inv (cube_x s'))"
  by (cases s) (auto simp: local_other_def wp dest!: frame_inv)

lemma split_mult_inv: "xbar_inv (cube_x s) \<Longrightarrow> okE (split_mult par ll i p link1 link2 s) (\<lambda>(m, s'). xbar_inv (cube_x s'))"
  by (cases s) (auto simp: split_mult_def wp Let_def dest!: take_over_xbar split: list.split)

lemma forward_mult_inv [xbar_steps]: "xbar_inv (cube_x s) \<Longrightarrow> okE (forward_mult par ll i p link s) (\<lambda>(m, s'). xbar_inv (cube_x s'))"
  by (cases s) (auto simp: forward_mult_def wp intro!: split_mult_inv dest!: frame_inv pass_on_xbar)

lemma forward_half_inv [xbar_steps]: "xbar_inv (cube_x s) \<Longrightarrow> okE (forward_half par ll i p link s) (\<lambda>(m, s'). xbar_inv (cube_x s'))"
  by (cases s) (auto simp: forward_half_def wp Let_def dest!: frame_inv)

lemma forward_other_inv [xbar_steps]: "xbar_inv (cube_x s) \<Longrightarrow> okE (forward_other par ll i p link s) (\<lambda>(m, s'). xbar_inv (cube_x s'))"
  by (cases s) (auto simp: forward_other_def wp dest!: frame_inv pass_on_xbar)

text \<open>A gather marks the entry of its flow and puts copies of itself into its own input buffer.\<close>

lemma xbar_flow:
  assumes "xbar_inv x" "map_of (flowTable x) k = Some fe" "opcode fe' = opcode fe" "\<And>n. counts_ok fe n \<Longrightarrow> counts_ok fe' n"
  shows "xbar_inv (x\<lparr>flowTable := flow_insert k fe' (flowTable x)\<rparr>)"
  using engine_flow [OF _ assms(2-4)] assms(1) by (simp add: xbar_inv_def)

lemma xbar_input:
  assumes "ReceiveDown p (inputBuffers x ! ll) = (ok, buf)"
  shows "xbar_inv (x\<lparr>inputBuffers := (inputBuffers x)[ll := buf]\<rparr>) = xbar_inv x"
proof (rule same_part_inv)
  have "upBuffers buf = upBuffers (inputBuffers x ! ll)" by (rule ReceiveDown_up [OF assms])
  then have "map upBuffers ((inputBuffers x)[ll := buf]) = map upBuffers (inputBuffers x)"
    by (metis list_update_id map_update)
  then show "same_part x (x\<lparr>inputBuffers := (inputBuffers x)[ll := buf]\<rparr>)" by (simp add: same_part_def up_part_def)
qed

lemma counts_flags [simp]: "counts_ok (fe\<lparr>children_gflag := (children_gflag fe)[c := b]\<rparr>) n = counts_ok fe n" "counts_ok (fe\<lparr>g_flag := b\<rparr>) n = counts_ok fe n"
  by (simp_all add: counts_ok_def)

lemma gather_mark:
  assumes "ReceiveDown p (inputBuffers x ! ll) = (ok, buf)" "map_of (flowTable x) k = Some fe" "xbar_inv x"
  shows "xbar_inv (x\<lparr>inputBuffers := (inputBuffers x)[ll := buf], flowTable := flow_insert k (fe\<lparr>children_gflag := (children_gflag fe)[c := b]\<rparr>) (flowTable x)\<rparr>)"
  using xbar_flow [of "x\<lparr>inputBuffers := (inputBuffers x)[ll := buf]\<rparr>" k fe "fe\<lparr>children_gflag := (children_gflag fe)[c := b]\<rparr>"] xbar_input [OF assms(1)] assms(2,3) by simp

lemmas okE_calls' [wp] = okE_iff [where r = "at_int xs i" for xs i] okE_iff [where r = "gather_children par ll p cs x" for par ll p cs x]
  okE_iff [where r = "operand_arrives p x" for p x] okE_iff [where r = "factor_arrives par p x" for par p x] 
  okE_iff [where r = "child_answers par p x" for par p x] okE_iff [where r = "erase_up ll i x" for ll i x]

lemma gather_children_inv: "gather_children par ll p cs x = Inr (sent, x') \<Longrightarrow> xbar_inv x \<Longrightarrow> xbar_inv x'"
proof (induction cs arbitrary: x)
  case (Cons c cs)
  obtain cc x1 where r: "at_int (neighborCubeID x) (int c) = Inr cc" "route par cc False x = Inr (x1, int c)"
    using Cons.prems(1) by (auto simp: err_simps)
  let ?q = "clean ((copy_packet par p)\<lparr>SRCCUB := sint (cubeID x1), DESTCUB := cc\<rparr>)"
  obtain ok buf where b: "ReceiveDown ?q (inputBuffers x1 ! ll) = (ok, buf)" by fastforce
  have i: "xbar_inv x1" using frame_inv(2) [OF r(2)] Cons.prems(2) by simp
  show ?case
  proof (cases ok)
    case True
    then show ?thesis using Cons.prems(1) r b gather_mark [OF b _ i] by (auto split: option.splits)
  next
    case False
    then show ?thesis using Cons.prems(1) r b Cons.IH [OF _ i] by auto
  qed
qed simp

lemma local_get_inv [xbar_steps]: "xbar_inv (cube_x s) \<Longrightarrow> okE (local_get par ll i p s) (\<lambda>(m, s'). xbar_inv (cube_x s'))"
proof (cases s)
  case (fields vmask x vs ms)
  assume "xbar_inv (cube_x s)"
  then have i: "xbar_inv x" by (simp add: fields)
  have "xbar_inv (x\<lparr>flowTable := flow_insert k (fe\<lparr>g_flag := True\<rparr>) (flowTable x)\<rparr>)" if "map_of (flowTable x) k = Some fe" for k fe
    by (rule xbar_flow [OF i that]) simp_all
  then show ?thesis using i unfolding fields local_get_def
    by (auto simp: wp dest!: frame_inv gather_children_inv split: option.split)
qed

lemma local_packet_inv: "xbar_inv (cube_x s) \<Longrightarrow> okE (local_packet par ll i p s) (\<lambda>(m, s'). xbar_inv (cube_x s'))"
  by (cases s) (auto simp: local_packet_def wp xbar_steps dest!: frame_inv)

lemma forward_packet_inv: "xbar_inv (cube_x s) \<Longrightarrow> okE (forward_packet par ll i p s) (\<lambda>(m, s'). xbar_inv (cube_x s'))"
  by (cases s) (auto simp: forward_packet_def wp xbar_steps dest!: frame_inv)

lemma down_packet_inv: "xbar_inv (cube_x (snd s)) \<Longrightarrow> okE (down_packet par ll s) (\<lambda>s'. xbar_inv (cube_x (snd s')))"
proof -
  obtain i stop vmask x vs ms where s: "s = ((i, stop), vmask, x, vs, ms)" by (cases s) auto
  assume i: "xbar_inv (cube_x (snd s))"
  show ?thesis using i local_packet_inv [of "(vmask, x, vs, ms)" par ll i] forward_packet_inv [of "(vmask, x, vs, ms)" par ll i]
    unfolding s down_packet_def by (auto simp: wp case_prod_unfold split: option.split)
qed

lemma down_link_inv: "down_link par l s = Inr s' \<Longrightarrow> xbar_inv (cube_x s) \<Longrightarrow> xbar_inv (cube_x s')"
proof -
  assume d: "down_link par l s = Inr s'" and i: "xbar_inv (cube_x s)"
  let ?ll = "(downLink (cube_x s) + l) mod (length (inputBuffers (cube_x s)) - 1)"
  show ?thesis
  proof (cases "dv_bufPopDelay (inputBuffers (cube_x s) ! ?ll) = 0")
    case True
    then obtain j where w: "whileE (down_active ?ll) (down_packet par ?ll) ((0, False), s) = Inr (j, s')"
      using d by (cases s) (auto simp: down_link_def Let_def err_simps)
    have "xbar_inv (cube_x (snd (j, s'))) \<and> \<not> down_active ?ll (j, s')"
      by (rule whileE_inv [OF w]) (use i in simp, rule okED [OF down_packet_inv])
    then show ?thesis by simp
  next
    case False
    then show ?thesis using d i by (cases s) (simp add: down_link_def Let_def)
  qed
qed

lemma downstream_inv: "downstream par (x, vs, ms) = Inr (x', vs', ms') \<Longrightarrow> xbar_inv x \<Longrightarrow> xbar_inv x'"
proof -
  assume d: "downstream par (x, vs, ms) = Inr (x', vs', ms')" and i: "xbar_inv x"
  obtain vm y where f: "foldE (down_link par) [0..<length (inputBuffers x) - 1] (replicate NUM_VAULTS False, x, vs, ms) = Inr (vm, y, vs', ms')"
    and x': "x' = y\<lparr>downLink := (downLink y + 1) mod (length (inputBuffers y) - 1)\<rparr>"
    using d by (auto simp: downstream_def err_simps)
  have "xbar_inv (cube_x (vm, y, vs', ms'))"
    by (rule foldE_inv [where P = "\<lambda>s. xbar_inv (cube_x s)", OF _ _ f]) (use i down_link_inv in auto)
  then show ?thesis by (simp add: x')
qed

text \<open>The responses: taking a packet out of a buffer and putting a reassembled one in.\<close>

lemma good_erase: "erase_packet i buf = Inr buf' \<Longrightarrow> list_all good_slot buf \<Longrightarrow> list_all good_slot buf'"
  using set_erase_range by (fastforce simp: erase_packet_def list_all_iff err_simps split: if_splits option.splits)

lemma good_buffers_update: "good_buffers bufs ps \<Longrightarrow> list_all good_slot b \<Longrightarrow> good_buffers (bufs[ll := b]) ps"
  using set_update_subset_insert [of bufs ll b] by (fastforce simp: good_buffers_def list_all_iff)

lemma set_up_part: "art_part (set_up ll b x) = art_part x" "up_part (set_up ll b x) = ((fst (up_part x))[ll := b], snd (up_part x))"
  by (simp_all add: set_up_def up_part_def map_update)

lemma set_up_inv: "xbar_inv x \<Longrightarrow> list_all good_slot b \<Longrightarrow> xbar_inv (set_up ll b x)"
  using engine_inv_part [OF set_up_part(1)] good_buffers_update
  by (simp add: xbar_inv_def case_prod_unfold set_up_part(2))

lemma up_buf_good: "xbar_inv x \<Longrightarrow> ll < length (inputBuffers x) \<Longrightarrow> list_all good_slot (up_buf ll x)"
  by (simp add: xbar_inv_def up_part_def good_buffers_def up_buf_def list_all_length)

lemma erase_up_inv:
  assumes "erase_up ll i x = Inr x'" "xbar_inv x"
  shows "xbar_inv x'"
proof (cases "ll < length (inputBuffers x)")
  case True
  then show ?thesis using assms set_up_inv good_erase up_buf_good by (fastforce simp: erase_up_def err_simps)
next
  case False
  then show ?thesis using assms by (auto simp: erase_up_def set_up_def list_update_beyond err_simps)
qed

lemma packet_payload_keeps [simp]: "CMD (copy_packet par p) = CMD p" "SRCADRS1 (copy_packet par p) = SRCADRS1 p" "LNG (copy_packet par p) = LNG p"
  "TAG (copy_packet par p) = TAG p"
  by (simp_all add: copy_packet_def Packet_copy_def packet_payload_def Let_def)

lemma merge_segment_keeps [simp]: "CMD (merge_segment par p q) = CMD q" "SRCADRS1 (merge_segment par p q) = SRCADRS1 q"
  "TAG (merge_segment par p q) = TAG q"
  by (simp_all add: merge_segment_def Let_def)

lemma good_slots: "good_response p \<Longrightarrow> list_all good_slot (packet_slots p)"
  by (simp add: packet_slots_def good_slot_def list_all_iff)

lemma xbar_pending: "xbar_inv x \<Longrightarrow> list_all good_response ps \<Longrightarrow> xbar_inv (x\<lparr>pendingSegPacket := ps\<rparr>)"
  using engine_inv_part [of "x\<lparr>pendingSegPacket := ps\<rparr>" x] by (simp add: xbar_inv_def up_part_def good_buffers_def)

lemma pending_good: "xbar_inv x \<Longrightarrow> list_all good_response (pendingSegPacket x)"
  by (simp add: xbar_inv_def up_part_def good_buffers_def)

text \<open>What the loop over the responses keeps; the buffer it runs over exists.\<close>

definition up_inv :: "nat \<Rightarrow> xbar \<Rightarrow> bool" where
  "up_inv ll x \<longleftrightarrow> xbar_inv x \<and> ll < length (inputBuffers x)"

lemma up_part_length: "up_part x' = up_part x \<Longrightarrow> length (inputBuffers x') = length (inputBuffers x)"
  by (metis up_part_def length_map prod.inject)

lemma erase_up_up: "erase_up ll i x = Inr x' \<Longrightarrow> up_inv ll x \<Longrightarrow> up_inv ll x'"
  using erase_up_inv by (auto simp: up_inv_def erase_up_def set_up_def err_simps)

lemma set_up_up: "up_inv ll x \<Longrightarrow> list_all good_slot b \<Longrightarrow> up_inv ll (set_up ll b x)"
  using set_up_inv by (auto simp: up_inv_def set_up_def)

lemma pending_up: "up_inv ll x \<Longrightarrow> list_all good_response ps \<Longrightarrow> up_inv ll (x\<lparr>pendingSegPacket := ps\<rparr>)"
  using xbar_pending by (simp add: up_inv_def)

lemma tags_up: "up_inv ll (x\<lparr>pendingSegTag := tags\<rparr>) = up_inv ll x"
  by (simp add: up_inv_def)

lemma good_erase_at: "list_all P xs \<Longrightarrow> list_all P (erase_at k xs)"
  using set_erase_at [of k xs] by (auto simp: list_all_iff)

lemma good_list_update: "list_all P xs \<Longrightarrow> P y \<Longrightarrow> list_all P (xs[k := y])"
  using set_update_subset_insert [of xs k y] by (auto simp: list_all_iff)

lemma up_segment_inv:
  assumes "up_inv ll x" "good_response p"
  shows "okE (up_segment par ll i p x) (\<lambda>(j, x'). up_inv ll x')"
proof -
  have merged: "good_response (merge_segment par p (pendingSegPacket y ! k))"
    if "up_inv ll y" "first_index (\<lambda>q. TAG p = TAG q) (pendingSegPacket y) = Some k" for y k
    using pending_good [of y] first_index_SomeD(1) [OF that(2)] that(1) by (auto simp: up_inv_def list_all_length good_response_def)
  have front: "list_all good_slot (packet_slots (q\<lparr>segment := False\<rparr>) @ up_buf ll y)" if "up_inv ll y" "good_response q" for q y
    using up_buf_good [of y ll] good_slots [of "q\<lparr>segment := False\<rparr>"] that by (simp add: up_inv_def good_response_def)
  have a: "up_inv ll (y\<lparr>pendingSegPacket := pendingSegPacket y @ [p]\<rparr>)" if "up_inv ll y" for y
    using pending_up [OF that] pending_good [of y] that assms(2) by (simp add: up_inv_def)
  have b: "up_inv ll (y\<lparr>pendingSegPacket := (pendingSegPacket y)[k := q]\<rparr>)" if "up_inv ll y" "good_response q" for y k q
    using pending_up [OF that(1)] pending_good [of y] good_list_update [of good_response] that by (simp add: up_inv_def)
  have c: "up_inv ll (set_up ll (packet_slots (q\<lparr>segment := False\<rparr>) @ up_buf ll y) (y\<lparr>pendingSegPacket := erase_at k (pendingSegPacket y)\<rparr>))"
    if "up_inv ll y" "good_response q" for y k q
    using set_up_up [OF pending_up [OF that(1)] front [OF that]] pending_good [of y] good_erase_at [of good_response] that(1) by (simp add: up_inv_def)
  have copied: "good_response (copy_packet par q) = good_response q" for q by (simp add: good_response_def)
  show ?thesis using assms(1) merged
    by (auto simp: up_segment_def wp Let_def tags_up copied intro!: a b c dest!: erase_up_up split: option.split)
qed

lemma arrivals_up:
  "operand_arrives p x = Inr x' \<Longrightarrow> up_part x' = up_part x"
  "child_answers par p x = Inr x' \<Longrightarrow> up_part x' = up_part x"
  by (auto simp: operand_arrives_def child_answers_def route_def err_simps split: option.splits)

lemma factor_arrives_up: "factor_arrives par p x = Inr x' \<Longrightarrow> up_part x' = up_part x"
  by (erule factor_arrivesD) (auto simp: route_def Let_def err_simps)

lemma taken_up_inv:
  assumes "\<And>y. r = Inr y \<Longrightarrow> engine_inv y \<and> up_part y = up_part x" "up_inv ll x"
  shows "okE (taken_up ll i ms r) (\<lambda>(i, x', ms). up_inv ll x')"
proof -
  have "up_inv ll y" if "r = Inr y" for y
    using assms(1) [OF that] assms(2) up_part_length [of y x] by (simp add: up_inv_def xbar_inv_def)
  then show ?thesis by (cases r) (auto simp: taken_up_def wp dest!: erase_up_up)
qed

lemma up_packet_inv:
  assumes "up_inv ll (fst (snd s))" "fst s < length (up_buf ll (fst (snd s)))"
  shows "okE (up_packet par ll s) (\<lambda>s'. up_inv ll (fst (snd s')))"
proof -
  obtain i x ms where s: "s = (i, x, ms)" by (cases s)
  have i: "up_inv ll x" and l: "i < length (up_buf ll x)" and e: "engine_inv x" using assms by (simp_all add: s up_inv_def xbar_inv_def)
  have g: "good_response p" if "up_buf ll x ! i = Some p" for p
    using up_buf_good [of x ll] i l that by (auto simp: up_inv_def list_all_length good_slot_def dest!: spec [of _ i])
  have r: "up_inv ll x1 \<and> engine_inv x1" if "route par d q x = Inr (x1, l)" for d q x1 l
    using route_same [OF that] same_partD [OF route_same [OF that]] i up_part_length [of x1 x] by (auto simp: up_inv_def same_part_def xbar_inv_def)
  have t: "okE (taken_up ll i ms r) (\<lambda>s'. up_inv ll (fst (snd s')))" if "\<And>y. r = Inr y \<Longrightarrow> engine_inv y \<and> up_part y = up_part x0" "up_inv ll x0" for r x0 and ms :: "'a dual_vector_scheme list"
    using taken_up_inv [OF that, where i = i and ms = ms] by (simp add: case_prod_unfold)
  show ?thesis
  proof (cases "up_buf ll x ! i")
    case None
    then show ?thesis using i by (simp add: s up_packet_def wp)
  next
    case (Some p)
    have seg: "okE (up_segment par ll i p x) (\<lambda>q. up_inv ll (snd q))" using up_segment_inv [OF i g [OF Some], of par i] by (simp add: case_prod_unfold)
    have A: "okE (taken_up ll i ms (operand_arrives p x)) (\<lambda>s'. up_inv ll (fst (snd s')))" if "CMD p = ACT_ADD \<or> CMD p = ACT_DOT" 
      using operand_arrives_inv [of p x] g [OF Some] that arrivals_up(1) [of p x] e by (intro t [OF _ i]) (auto simp: good_response_def)
    have B: "okE (taken_up ll i ms (factor_arrives par p x)) (\<lambda>s'. up_inv ll (fst (snd s')))"
      using factor_arrives_inv [of par p x] factor_arrives_up [of par p x] e by (intro t [OF _ i]) auto
    have C: "okE (taken_up ll i ms (child_answers par p x)) (\<lambda>s'. up_inv ll (fst (snd s')))"
      using child_answers_inv [of par p x] arrivals_up(2) [of par p x] e by (intro t [OF _ i]) auto
    have D: "okE (taken_up ll i ms' (Inr x1)) (\<lambda>s'. up_inv ll (fst (snd s')))" if "up_inv ll x1" "engine_inv x1" for x1 and ms' :: "'a dual_vector_scheme list"
      using that by (intro t [OF _ that(1)]) auto
    show ?thesis using Some seg A B C D r unfolding s up_packet_def
      by (auto simp: wp case_prod_unfold)
  qed
qed

lemma up_link_inv:
  assumes "up_link par l (x, ms) = Inr (x', ms')" "xbar_inv x" "inputBuffers x \<noteq> []"
  shows "xbar_inv x' \<and> inputBuffers x' \<noteq> []"
proof -
  define ll where "ll = (upLink x + l) mod length (inputBuffers x)"
  let ?b = "\<lambda>(i, x, ms). i < length (up_buf ll x)"
  obtain j where w: "whileE ?b (up_packet par ll) (0, x, ms) = Inr (j, x', ms')"
    using assms(1) by (auto simp: up_link_def Let_def err_simps ll_def)
  have "up_inv ll (fst (snd (j, x', ms'))) \<and> \<not> ?b (j, x', ms')"
  proof (rule whileE_inv [OF w])
    show "up_inv ll (fst (snd (0 :: nat, x, ms)))" using assms(2,3) by (simp add: up_inv_def ll_def)
    show "up_inv ll (fst (snd t))" if "?b s" "up_inv ll (fst (snd s))" "up_packet par ll s = Inr t" for s t
      by (rule okED [OF up_packet_inv that(3)]) (use that(1,2) in auto)
  qed
  then show ?thesis by (auto simp: up_inv_def)
qed

lemma upstream_inv:
  assumes "upstream par (x, ms) = Inr (x', ms')" "xbar_inv x"
  shows "xbar_inv x'"
proof -
  obtain y where f: "foldE (up_link par) [0..<length (inputBuffers x)] (x, ms) = Inr (y, ms')"
    and x': "x' = y\<lparr>upLink := (upLink y + 1) mod length (inputBuffers y)\<rparr>"
    using assms(1) by (auto simp: upstream_def err_simps)
  have "xbar_inv y"
  proof (cases "inputBuffers x = []")
    case True
    then show ?thesis using f assms(2) by simp
  next
    case False
    have "xbar_inv (fst (y, ms')) \<and> inputBuffers (fst (y, ms')) \<noteq> []"
      by (rule foldE_inv [where P = "\<lambda>s. xbar_inv (fst s) \<and> inputBuffers (fst s) \<noteq> []", OF _ _ f])
        (use False assms(2) in \<open>auto dest: up_link_inv\<close>)
    then show ?thesis by simp
  qed
  then show ?thesis by (simp add: x')
qed

text \<open>The whole cycle.\<close>

lemma map_step_good: "list_all good_slot buf \<Longrightarrow> list_all good_slot (map step_packet buf)"
  by (auto simp: list_all_iff step_packet_def good_slot_def good_response_def split: option.splits)

lemma dual_Step_good: "list_all good_slot (upBuffers d) \<Longrightarrow> list_all good_slot (upBuffers (dual_Step d))"
  using map_step_good by (simp add: dual_Step_def Let_def)

lemma step_inv: "xbar_inv x \<Longrightarrow> xbar_inv (dual_Step (x\<lparr>inputBuffers := map dual_Step (inputBuffers x)\<rparr>))"
proof -
  assume i: "xbar_inv x"
  let ?y = "x\<lparr>inputBuffers := map dual_Step (inputBuffers x)\<rparr>"
  have "engine_inv ?y" using i engine_inv_part [of ?y x] by (simp add: xbar_inv_def)
  then have e: "engine_inv (dual_Step ?y)" using engine_inv_part [of "dual_Step ?y" ?y] by simp
  have "up_part (dual_Step ?y) = (map (upBuffers \<circ> dual_Step) (inputBuffers x), pendingSegPacket x)"
    by (simp add: up_part_def dual_Step_def Let_def)
  then show ?thesis using i e dual_Step_good by (auto simp: xbar_inv_def up_part_def good_buffers_def list_all_iff)
qed

lemma consume_up: "consume_operands x = Inr x' \<Longrightarrow> up_part x' = up_part x"
proof -
  assume c: "consume_operands x = Inr x'"
  let ?x = "x\<lparr>total_ready_operands := 0, total_results_ready := 0\<rparr>"
  obtain a b y where f: "foldE consume_one [0..<length (operandBuffers x)] (False, False, ?x) = Inr (a, b, y)" and "up_part x' = up_part y"
    using c by (auto simp: consume_operands_def err_simps)
  moreover have "up_part (snd (snd (a, b, y))) = up_part x"
  proof (rule foldE_inv [where P = "\<lambda>s. up_part (snd (snd s)) = up_part x", OF _ _ f])
    fix i s t assume "up_part (snd (snd s)) = up_part x" "consume_one i s = Inr t"
    moreover have "okE (consume_one i s) (\<lambda>t. up_part (snd (snd t)) = up_part (snd (snd s)))"
      by (cases s) (simp add: consume_one_def wp Let_def up_part_def finish_operand_def split: option.split Opcode.split)
    ultimately show "up_part (snd (snd t)) = up_part x" by (auto dest: okED)
  qed simp
  ultimately show ?thesis by simp
qed

lemma consume_operands_inv: "consume_operands x = Inr x' \<Longrightarrow> xbar_inv x \<Longrightarrow> xbar_inv x'"
  using consume_operands_engine [of x] consume_up [of x x'] by (auto simp: xbar_inv_def)

lemma gather_up: "gather_replies par (x, ms) = Inr (x', ms') \<Longrightarrow> up_part x' = up_part x"
proof -
  assume g: "gather_replies par (x, ms) = Inr (x', ms')"
  have "up_part (fst (x', ms')) = up_part x"
  proof (rule foldE_inv [where P = "\<lambda>s. up_part (fst s) = up_part x", OF _ _ g [unfolded gather_replies_def]])
    fix kf s t assume "up_part (fst s) = up_part x" "gather_one par kf s = Inr t"
    moreover have "okE (gather_one par kf s) (\<lambda>t. up_part (fst t) = up_part (fst s))"
      by (cases kf; cases s) (auto simp: gather_one_def wp Let_def case_prod_unfold route_def err_simps)
    ultimately show "up_part (fst t) = up_part x" by (auto dest: okED)
  qed simp
  then show ?thesis by simp
qed

lemma CrossbarSwitch_Update_inv:
  assumes "CrossbarSwitch_Update par (x, vs, ms) = Inr (x', vs', ms')" "xbar_inv x"
  shows "xbar_inv x'"
proof -
  obtain x1 ms1 x2 ms2 x3 x4 where s: "upstream par (x, ms) = Inr (x1, ms1)" "downstream par (x1, vs, ms1) = Inr (x2, vs', ms2)"
    "consume_operands x2 = Inr x3" "gather_replies par (x3, ms2) = Inr (x4, ms')"
    and x': "x' = dual_Step (x4\<lparr>inputBuffers := map dual_Step (inputBuffers x4)\<rparr>)"
    using assms(1) by (auto simp: CrossbarSwitch_Update_def err_simps)
  have "xbar_inv x3" using upstream_inv [OF s(1) assms(2)] downstream_inv [OF s(2)] consume_operands_inv [OF s(3)] by simp
  then have "xbar_inv x4" using gather_replies_inv [OF s(4)] gather_up [OF s(4)] by (simp add: xbar_inv_def)
  then show ?thesis unfolding x' by (rule step_inv)
qed

section \<open>Reachable states\<close>

lemma CrossbarSwitch_fields:
  "flowTable (CrossbarSwitch cube gtag traces st) = []" "operandBuffers (CrossbarSwitch cube gtag traces st) = replicate MAX_OPERAND_BUF (OperandEntry 5)"
  "freeOperandBufIDs (CrossbarSwitch cube gtag traces st) = [0..<MAX_OPERAND_BUF]" "numMultStages (CrossbarSwitch cube gtag traces st) = 5"
  "multPipeOccupancy (CrossbarSwitch cube gtag traces st) = 0" "pendingSegPacket (CrossbarSwitch cube gtag traces st) = []"
  "inputBuffers (CrossbarSwitch cube gtag traces st) = replicate (NUM_LINKS + 1) InputBuffer"
  by (simp_all add: CrossbarSwitch_def dual_vector.extend_def xbar.fields_def DualVectorObject_def)

lemma CrossbarSwitch_inv: "xbar_inv (CrossbarSwitch cube gtag traces st)"
proof -
  have "art_ok [] (replicate MAX_OPERAND_BUF (OperandEntry 5)) [0..<MAX_OPERAND_BUF] 5"
    by (auto simp: art_ok_def clear_entry_def OperandEntry_def MAX_OPERAND_BUF_def)
  moreover have "pipe_ok [] (replicate MAX_OPERAND_BUF (OperandEntry 5)) 5 0"
    by (auto simp: pipe_ok_def in_pipe_def OperandEntry_def)
  ultimately show ?thesis
    by (simp add: xbar_inv_def engine_inv_def art_inv_def pipe_inv_def up_part_def good_buffers_def CrossbarSwitch_fields
        list_all_iff InputBuffer_def DualVectorObject_def)
qed

text \<open>
  The crossbar of a cube in a run: it is wired to its neighbours, packets arrive in its input buffers
  between its cycles, and the other components move the shared tag, traces and statistics. Vaults
  and links are seen as the packet buffers they are.
\<close>

inductive reach :: "net_par \<Rightarrow> xbar \<Rightarrow> bool" for par where
  init: "reach par (CrossbarSwitch cube gtag traces st)"
| wire: "reach par x \<Longrightarrow> reach par (x\<lparr>neighborCubeID := ns\<rparr>)"
| response: "reach par x \<Longrightarrow> good_response p \<Longrightarrow> ReceiveUp p (inputBuffers x ! ll) = (ok, buf) \<Longrightarrow> ll < length (inputBuffers x) \<Longrightarrow>
    reach par (x\<lparr>inputBuffers := (inputBuffers x)[ll := buf]\<rparr>)"
| request: "reach par x \<Longrightarrow> ReceiveDown p (inputBuffers x ! ll) = (ok, buf) \<Longrightarrow> reach par (x\<lparr>inputBuffers := (inputBuffers x)[ll := buf]\<rparr>)"
| shared: "reach par x \<Longrightarrow> reach par (x\<lparr>x_gtag := g, x_traces := ts, x_statis := st\<rparr>)"
| cycle: "reach par x \<Longrightarrow> CrossbarSwitch_Update par (x, vs :: dual_vector list, ms :: dual_vector list) = Inr (x', vs', ms') \<Longrightarrow> reach par x'"

lemma ReceiveUp_inv:
  assumes "ReceiveUp p (inputBuffers x ! ll) = (ok, buf)" "good_response p" "ll < length (inputBuffers x)" "xbar_inv x"
  shows "xbar_inv (x\<lparr>inputBuffers := (inputBuffers x)[ll := buf]\<rparr>)"
proof -
  have "list_all good_slot (up_buf ll x)" by (rule up_buf_good [OF assms(4,3)])
  then have "list_all good_slot (upBuffers buf)"
    using assms(1) good_slots [OF assms(2)] by (auto simp: ReceiveUp_def receive_def up_buf_def split: if_splits)
  moreover have "x\<lparr>inputBuffers := (inputBuffers x)[ll := buf]\<rparr> = set_up ll (upBuffers buf) x"
    using assms(1) by (auto simp: ReceiveUp_def receive_def set_up_def split: if_splits)
  ultimately show ?thesis using set_up_inv [OF assms(4)] by simp
qed

lemma reach_inv: "reach par x \<Longrightarrow> xbar_inv x"
proof (induction rule: reach.induct)
  case (wire x ns)
  then show ?case using same_part_inv [of x "x\<lparr>neighborCubeID := ns\<rparr>"] by (simp add: same_part_def art_part_def up_part_def)
next
  case (shared x st ts g)
  then show ?case using same_part_inv [of x "x\<lparr>x_gtag := g, x_traces := ts, x_statis := st\<rparr>"] by (simp add: same_part_def art_part_def up_part_def)
qed (use CrossbarSwitch_inv ReceiveUp_inv xbar_input CrossbarSwitch_Update_inv in auto)

text \<open>A cube that takes over one addition of flow 8.\<close>

definition add_packet :: packet where
  "add_packet = (fst (Packet_active False (\<lambda>i. 0) zero_packet 5 REQUEST ACT_ADD 8 64 0 2 None 1 0))\<lparr>ADRS := 64, LINES := 1, reqDataSize := 64\<rparr>"

definition wired_cube :: xbar where
  "wired_cube = (CrossbarSwitch 0 0 [] TranStatistic)\<lparr>neighborCubeID := [-1, 1, 2, 3]\<rparr>"

definition loaded_cube :: xbar where
  "loaded_cube = wired_cube\<lparr>inputBuffers := (inputBuffers wired_cube)[0 := snd (ReceiveDown add_packet (inputBuffers wired_cube ! 0))]\<rparr>"

definition run_cube :: "nat \<Rightarrow> (xbar \<times> dual_vector list \<times> dual_vector list) result" where
  "run_cube n = foldE (\<lambda>_. CrossbarSwitch_Update example_net) [0..<n]
     (loaded_cube, replicate NUM_VAULTS (DualVectorObject 8 8 0), example_links)"

lemma run_cube_table: "case run_cube 2 of Inl _ \<Rightarrow> False | Inr (x, vs, ms) \<Rightarrow>
   map_option (\<lambda>fe. (req_count fe, rep_count fe, parent fe)) (map_of (flowTable x) 8) = Some (1, 0, 1) \<and> hd (freeOperandBufIDs x) = 1
   \<and> flowID (operandBuffers x ! 0) = 8"
  by code_simp

lemma loaded_cube_reach: "reach example_net loaded_cube"
proof -
  have "reach example_net wired_cube" unfolding wired_cube_def by (intro reach.wire reach.init)
  then show ?thesis unfolding loaded_cube_def
    by (rule reach.request) (rule prod.collapse [symmetric])
qed

lemma run_cube_reach:
  assumes "run_cube n = Inr (x, vs, ms)"
  shows "reach example_net x"
proof -
  have "reach example_net (fst (x, vs, ms))"
    by (rule foldE_inv [where P = "\<lambda>s. reach example_net (fst s)", OF _ _ assms [unfolded run_cube_def]])
      (use loaded_cube_reach in \<open>auto intro: reach.cycle\<close>)
  then show ?thesis by simp
qed

lemma example_run: obtains x vs ms fe where "run_cube 2 = Inr (x, vs, ms)" "reach example_net x" "map_of (flowTable x) 8 = Some fe"
  "req_count fe = 1" "hd (freeOperandBufIDs x) = 1" "flowID (operandBuffers x ! 0) = 8"
proof -
  obtain x vs ms where r: "run_cube 2 = Inr (x, vs, ms)" using run_cube_table by (auto split: sum.splits)
  then show thesis using run_cube_table run_cube_reach [OF r] that [OF r] by auto
qed

section \<open>Properties of the crossbar\<close>

lemma reach_accounts: "reach par x \<Longrightarrow> art_ok (flowTable x) (operandBuffers x) (freeOperandBufIDs x) (numMultStages x)"
  using reach_inv by (simp add: xbar_inv_def engine_inv_def art_inv_def)

text \<open> C1. In every state a cube can reach, the accounts of every flow balance: the updates the cube
  has taken over are those it has accounted for, those that wait in its operand buffers and those it
  has passed on to its children. The counters wrap at 64 bits. \<close>

theorem flow_accounts:
  assumes "reach par x" "map_of (flowTable x) k = Some fe"
  shows "req_count fe = rep_count fe + of_nat (card (held (operandBuffers x) (freeOperandBufIDs x) k)) + of_int (sum_list (children_count fe))"
  using counts_okE [OF reach_accounts [OF assms(1)] assms(2)] by (simp add: counts_ok_def)

theorem flow_accounts_witness:
  "\<exists>x fe. reach example_net x \<and> map_of (flowTable x) 8 = Some fe \<and> req_count fe = 1 \<and>
     req_count fe = rep_count fe + of_nat (card (held (operandBuffers x) (freeOperandBufIDs x) 8)) + of_int (sum_list (children_count fe))"
proof -
  obtain x vs ms fe where "run_cube 2 = Inr (x, vs, ms)" "reach example_net x" "map_of (flowTable x) 8 = Some fe" "req_count fe = 1"
    by (rule example_run)
  then show ?thesis using flow_accounts [of example_net x 8 fe] by blast
qed

text \<open> C22. In every state a cube can reach, an operand buffer is either on the free list, once, with
  nothing left in it, or it holds an update of a flow that is in the table; so the assertions of
  the update and reply paths on the buffers they are given hold. \<close>

theorem operand_buffers_exclusive:
  assumes "reach par x"
  shows "distinct (freeOperandBufIDs x) \<and> (\<forall>i < length (operandBuffers x).
    if i \<in> set (freeOperandBufIDs x) then clear_entry (numMultStages x) (operandBuffers x ! i)
    else map_of (flowTable x) (flowID (operandBuffers x ! i)) \<noteq> None)"
  using reach_accounts [OF assms] by (auto simp: art_ok_def)

theorem operand_buffers_exclusive_witness:
  "distinct (freeOperandBufIDs loaded_cube) \<and> clear_entry (numMultStages loaded_cube) (operandBuffers loaded_cube ! 3)"
proof -
  have "3 < length (operandBuffers loaded_cube)" "3 \<in> set (freeOperandBufIDs loaded_cube)"
    by (simp_all add: loaded_cube_def wired_cube_def CrossbarSwitch_fields MAX_OPERAND_BUF_def)
  then show ?thesis using operand_buffers_exclusive [OF loaded_cube_reach] by (metis (full_types))
qed

text \<open>What taking over an addition does.\<close>

lemma local_addD:
  assumes "local_add par ll i p (vmask, x, vs, ms) = Inr (Again, vmask', x', vs', ms')"
  obtains buf x1 x2 where "to_vault (p\<lparr>operandBufID := int buf, SRCCUB := sint (cubeID x), DESTCUB := sint (cubeID x)\<rparr>)
      (vaultMap (np_cfg par) (ADRS p)) vs = Inr (True, vs')" "freeOperandBufIDs x = buf # tl (freeOperandBufIDs x)"
    "register_update par ADD p (x\<lparr>numOperands := numOperands x + 1, numUpdates := numUpdates x + 1\<rparr>) = Inr x1"
    "reserve_operand (DESTADRS p) (SRCADRS1 p) 0 x1 = Inr (buf, x2)" "next_line par ll i p x2 = Inr x'" "ms' = ms"
proof (cases "freeOperandBufIDs x")
  case (Cons buf free)
  have f: "freeOperandBufIDs x1 = freeOperandBufIDs x"
    if "register_update par ADD p (x\<lparr>numOperands := numOperands x + 1, numUpdates := numUpdates x + 1\<rparr>) = Inr x1" for x1
    using that by (auto simp: register_update_def route_def err_simps)
  have h: "j = buf" if "reserve_operand (DESTADRS p) (SRCADRS1 p) 0 x1 = Inr (j, x2)" "freeOperandBufIDs x1 = buf # free" for j x1 x2
    using that by (auto simp: reserve_operand_def err_simps)
  show thesis using assms that Cons f h unfolding local_add_def
    by (fastforce simp: Let_def err_simps split: if_splits)
qed (use assms in \<open>simp add: local_add_def Let_def\<close>)

text \<open> C25. An addition that is taken over comes back: a cube that hands an addition to a vault has
  reserved an operand buffer for it and put the number of the buffer into the packet; the vault's
  response, which carries the same number, flow and address, is accepted, passes every assertion
  and makes the operand ready. \<close>

theorem add_response_accepted:
  assumes "engine_inv x" "local_add par ll i p (vmask, x, vs, ms) = Inr (Again, vmask', x', vs', ms')"
    and "operandBufID r = int (hd (freeOperandBufIDs x))" "DESTADRS r = DESTADRS p" "SRCADRS1 r = SRCADRS1 p" "here x' (DESTCUB r)"
  shows "\<exists>x''. operand_arrives r x' = Inr x'' \<and> freeOperandBufIDs x'' = tl (freeOperandBufIDs x)
    \<and> oe_ready (operandBuffers x'' ! hd (freeOperandBufIDs x)) \<and> flowID (operandBuffers x'' ! hd (freeOperandBufIDs x)) = DESTADRS p"
proof -
  obtain buf x1 x2 where f: "freeOperandBufIDs x = buf # tl (freeOperandBufIDs x)"
    and r: "register_update par ADD p (x\<lparr>numOperands := numOperands x + 1, numUpdates := numUpdates x + 1\<rparr>) = Inr x1"
    and o: "reserve_operand (DESTADRS p) (SRCADRS1 p) 0 x1 = Inr (buf, x2)" and n: "next_line par ll i p x2 = Inr x'"
    using assms(2) by (rule local_addD)
  have p: "art_part x' = art_part x2" using next_line_same [OF n] by (simp add: same_part_def)
  have x1: "freeOperandBufIDs x1 = freeOperandBufIDs x" "operandBuffers x1 = operandBuffers x" "map_of (flowTable x1) (DESTADRS p) \<noteq> None"
    using r by (auto simp: register_update_def register_flow_def route_def err_simps split: option.splits)
  have "buf \<in> set (freeOperandBufIDs x)" using f by (metis list.set_intros(1))
  then have e: "buf < length (operandBuffers x)" using assms(1) by (simp add: engine_inv_def art_inv_def art_ok_def)
  let ?e = "operandBuffers x ! buf"
  have x2: "operandBuffers x2 = (operandBuffers x)[buf := ?e\<lparr>flowID := DESTADRS p, src_addr1 := SRCADRS1 p, src_addr2 := 0\<rparr>]"
    "flowTable x2 = flowTable x1" "freeOperandBufIDs x2 = tl (freeOperandBufIDs x)"
    "\<not> op1_ready ?e \<and> \<not> op2_ready ?e \<and> \<not> oe_ready ?e"
    using o x1(1,2) e by (auto simp: reserve_operand_def at_int_def err_simps split: list.splits)
  have "operandBuffers x' = operandBuffers x2" "flowTable x' = flowTable x2" "freeOperandBufIDs x' = freeOperandBufIDs x2"
    using p by (simp_all add: art_part_def)
  moreover have "hd (freeOperandBufIDs x) = buf" using f by (metis list.sel(1))
  ultimately show ?thesis using assms(3-6) x1(3) x2 e
    by (auto simp: operand_arrives_def at_int_def delete_trace_def split: option.split)
qed

definition example_add :: "(move \<times> (unit, unit) cube) result" where
  "example_add = local_add example_net 0 0 add_packet
     (replicate NUM_VAULTS False, loaded_cube, replicate NUM_VAULTS (DualVectorObject 8 8 0), example_links)"

lemma example_add_again: "\<exists>vm x' vs ms. example_add = Inr (Again, vm, x', vs, ms) \<and> cubeID x' = 0"
proof -
  have "case example_add of Inr (Again, vm, x', vs, ms) \<Rightarrow> cubeID x' = 0 | _ \<Rightarrow> False" by code_simp
  then show ?thesis by (auto split: sum.splits prod.splits move.splits)
qed

theorem add_response_accepted_witness:
  "\<exists>vm x' vs ms x''. example_add = Inr (Again, vm, x', vs, ms)
    \<and> operand_arrives (add_packet\<lparr>packetType := RESPONSE, operandBufID := 0, DESTCUB := 0\<rparr>) x' = Inr x'' \<and> oe_ready (operandBuffers x'' ! 0)"
proof -
  obtain vm x' vs ms where a: "example_add = Inr (Again, vm, x', vs, ms)" "cubeID x' = 0" using example_add_again by blast
  have free: "hd (freeOperandBufIDs loaded_cube) = 0"
    by (simp add: loaded_cube_def wired_cube_def CrossbarSwitch_fields MAX_OPERAND_BUF_def upt_rec)
  have "engine_inv loaded_cube" using reach_inv [OF loaded_cube_reach] by (simp add: xbar_inv_def)
  from add_response_accepted [OF this a(1) [unfolded example_add_def], of "add_packet\<lparr>packetType := RESPONSE, operandBufID := 0, DESTCUB := 0\<rparr>"]
  show ?thesis using a free by (auto simp: here_def)
qed

end
