(* ===== verification/Crossbar_Ends.thy ===== *)
theory Crossbar_Ends
  imports Crossbar
begin

text \<open>
  The loops of \<open>CrossbarSwitch::Update\<close> end. Both loops move their index back when a packet is taken
  out, and both may put packets into the buffer they run over: the upstream loop puts a reassembled
  response in front, the downstream loop cuts requests into segments and replicates gathers. The
  theory gives a measure for each and concludes that the cycle of a crossbar does not diverge when
  every packet has at least one flit.
\<close>

section \<open>Results that are not divergence\<close>

definition ends :: "'a result \<Rightarrow> bool" where
  "ends r \<longleftrightarrow> r \<noteq> Inl Diverges"

named_theorems ends_simps \<open>results that are not divergence, by their structure\<close>

lemma ends_wp [ends_simps]:
  "ends (Inr y)" "ends (Inl e) \<longleftrightarrow> e \<noteq> Diverges" "ends (bindE q f) \<longleftrightarrow> ends q \<and> okE q (\<lambda>z. ends (f z))"
  "ends (checkE b e r) \<longleftrightarrow> (if b then ends r else e \<noteq> Diverges)"
  by (auto simp: ends_def bindE_def checkE_def okE_def split: sum.splits)

lemma ends_cases [ends_simps]:
  "ends (case q of (a, b) \<Rightarrow> f a b) = (case q of (a, b) \<Rightarrow> ends (f a b))" "ends (if c then r else r') = (if c then ends r else ends r')"
  "ends (case xs of [] \<Rightarrow> r | y # ys \<Rightarrow> g y ys) = (case xs of [] \<Rightarrow> ends r | y # ys \<Rightarrow> ends (g y ys))"
  "ends (case m of None \<Rightarrow> r | Some v \<Rightarrow> h v) = (case m of None \<Rightarrow> ends r | Some v \<Rightarrow> ends (h v))"
  by (simp_all split: prod.split list.split option.split)

lemma foldE_ends:
  assumes "P s" and "\<And>x s. x \<in> set xs \<Longrightarrow> P s \<Longrightarrow> ends (f x s) \<and> okE (f x s) P"
  shows "ends (foldE f xs s) \<and> okE (foldE f xs s) P"
  using assms
proof (induction xs arbitrary: s)
  case (Cons x xs)
  have "ends (f x s)" "okE (f x s) P" using Cons.prems by auto
  moreover have "ends (foldE f xs t) \<and> okE (foldE f xs t) P" if "P t" for t using Cons.IH [OF that] Cons.prems(2) by auto
  ultimately show ?case by (cases "f x s") (simp_all add: ends_simps wp okE_def)
qed (simp add: ends_simps wp)

lemma whileE_ends_okE:
  assumes "P s" and "\<And>s. b s \<Longrightarrow> P s \<Longrightarrow> ends (c s) \<and> okE (c s) (\<lambda>t. P t \<and> (t, s) \<in> R)" and "wf R"
  shows "ends (whileE b c s) \<and> okE (whileE b c s) P"
proof -
  have "ends (whileE b (\<lambda>s. c s) s)" unfolding ends_def
    using assms(3,1)
  proof (induction s rule: wf_induct_rule)
    case (less s)
    show ?case
    proof (cases "b s")
      case True
      then have "ends (c s)" "okE (c s) (\<lambda>t. P t \<and> (t, s) \<in> R)" using assms(2) less.prems by auto
      then show ?thesis using True less.IH by (subst whileE_unfold) (cases "c s"; simp add: ends_def okE_def)
    qed (subst whileE_unfold, simp)
  qed
  moreover have "okE (whileE b c s) P"
    unfolding okE_iff using whileE_inv [of b c s _ P] assms(1,2) by (auto simp: okE_iff)
  ultimately show ?thesis by simp
qed

text \<open>No operation of the crossbar other than a loop can diverge.\<close>

lemma dfly_loop_ends: "ends (dfly_loop n d m dq mq)"
proof (induction n d m dq mq rule: dfly_loop.induct)
  case (1 nodes dest_node my_node dest_quad my_quad)
  show ?case by (subst dfly_loop.simps) (simp add: ends_simps Let_def 1)
qed

lemma route_ends [ends_simps]: "ends (route par d req x)"
  using dfly_loop_ends
  by (auto simp: route_def findNextLink_def meshRF_findNextLink_def meshRF_findXY_def dFlyRF_findNextLink_def ends_simps wp Let_def okE_iff
      split: topology.split)

lemma at_int_ends [ends_simps]: "ends (at_int xs i)"
  by (simp add: at_int_def ends_simps)

lemma small_ends [ends_simps]:
  "ends (erase_packet i buf)" "ends (half_operand p e)" "ends (half_packet p)" "ends (copy_trace t x)"
  "ends (register_flow op pc k tab)" "ends (bump_child k link tab)" "ends (reserve_operand k a b x)"
  by (auto simp: erase_packet_def half_operand_def half_packet_def copy_trace_def register_flow_def bump_child_def reserve_operand_def
      ends_simps okE_iff split: option.split list.split)

lemma step_ends [ends_simps]:
  "ends (erase_up ll i x)" "ends (erase_down ll i x)" "ends (register_update par op p x)" "ends (operand_arrives p x)"
  "ends (factor_arrives par p x)" "ends (child_answers par p x)" "ends (to_vault p v vs)" "ends (to_link recv p link ms)"
  by (auto simp: erase_up_def erase_down_def register_update_def operand_arrives_def factor_arrives_def child_answers_def to_vault_def
      to_link_def ends_simps okE_iff Let_def split: option.split prod.split)

lemma line_ends [ends_simps]:
  "ends (next_line par ll i p x)" "ends (whole_again ll i p x)" "ends (divide par ll i p x)" "ends (pass_on par op ll i p link x)"
  "ends (up_segment par ll i p x)"
  by (auto simp: next_line_def whole_again_def divide_def pass_on_def up_segment_def ends_simps okE_iff Let_def split: option.split prod.split)

lemma gather_children_ends [ends_simps]: "ends (gather_children par ll p cs x)"
proof (induction cs arbitrary: x)
  case (Cons c cs)
  then show ?case by (auto simp: ends_simps okE_iff split: option.split prod.split)
qed (simp add: ends_simps)

section \<open>The upstream loop\<close>

text \<open>
  Every response has a flit, and the segments that are still to come cannot make the length of a
  response under reassembly wrap.
\<close>

definition growth :: "net_par \<Rightarrow> nat" where
  "growth par = unat (block_bytes (ADDRESS_MAPPING (np_cfg par)) div 16)"

definition fits :: "net_par \<Rightarrow> nat \<Rightarrow> packet \<Rightarrow> bool" where
  "fits par n p \<longleftrightarrow> 1 \<le> LNG p \<and> unat (LNG p) + n * growth par < 2 ^ 32"

definition slot_fits :: "net_par \<Rightarrow> nat \<Rightarrow> packet option \<Rightarrow> bool" where
  "slot_fits par n q = (case q of None \<Rightarrow> True | Some p \<Rightarrow> fits par n p)"

definition responses_fit :: "net_par \<Rightarrow> xbar \<Rightarrow> bool" where
  "responses_fit par x \<longleftrightarrow> (let n = length (pendingSegTag x) in
     list_all (\<lambda>d. list_all (slot_fits par n) (upBuffers d)) (inputBuffers x) \<and> list_all (fits par n) (pendingSegPacket x))"

text \<open>Every request has a flit.\<close>

definition sized_slot :: "packet option \<Rightarrow> bool" where
  "sized_slot q = (case q of None \<Rightarrow> True | Some p \<Rightarrow> 1 \<le> LNG p)"

definition requests_sized :: "xbar \<Rightarrow> bool" where
  "requests_sized x \<longleftrightarrow> list_all (\<lambda>d. list_all sized_slot (downBuffers d)) (inputBuffers x)"

definition up_measure :: "nat \<Rightarrow> nat \<times> xbar \<times> 'm \<Rightarrow> nat \<times> nat" where
  "up_measure ll s = (case s of (i, x, ms) \<Rightarrow> (length (pendingSegTag x), length (up_buf ll x) - i))"

abbreviation up_rel :: "nat \<Rightarrow> ((nat \<times> xbar \<times> 'm) \<times> (nat \<times> xbar \<times> 'm)) set" where
  "up_rel ll \<equiv> inv_image (less_than <*lex*> less_than) (up_measure ll)"

lemma fits_mono:
  assumes "fits par n p" "m \<le> n"
  shows "fits par m p"
proof -
  have l: "1 \<le> LNG p" "unat (LNG p) + n * growth par < 2 ^ 32" using assms(1) unfolding fits_def by auto
  have "m * growth par \<le> n * growth par" using assms(2) by (rule mult_le_mono1)
  then have "unat (LNG p) + m * growth par < 2 ^ 32" using l(2) by linarith
  then show ?thesis using l(1) unfolding fits_def by blast
qed

lemma slot_fits_mono: "slot_fits par n q \<Longrightarrow> m \<le> n \<Longrightarrow> slot_fits par m q"
  using fits_mono by (auto simp: slot_fits_def split: option.splits)

lemma fits_copy [simp]: "fits par n (copy_packet par p) = fits par n p" "fits par n (p\<lparr>segment := b\<rparr>) = fits par n p"
  by (simp_all add: fits_def)

lemma merge_fits:
  assumes "fits par (Suc n) q"
  shows "fits par n (merge_segment par p q)"
proof -
  let ?g = "block_bytes (ADDRESS_MAPPING (np_cfg par)) div 16"
  have b: "unat (LNG q) + unat ?g < 2 ^ 32" using assms by (simp add: fits_def growth_def)
  then have "unat (LNG q + ?g) = unat (LNG q) + unat ?g" by (simp add: unat_word_ariths)
  moreover have "1 \<le> LNG q + ?g" using assms b calculation unfolding fits_def word_le_nat_alt by simp
  ultimately have "fits par n (q\<lparr>LNG := LNG q + ?g\<rparr>)" using assms by (simp add: fits_def growth_def)
  moreover have "fits par n q" using fits_mono [OF assms] by simp
  ultimately show ?thesis by (auto simp: merge_segment_def Let_def fits_def)
qed

lemma slots_fit: "fits par n p \<Longrightarrow> list_all (slot_fits par n) (packet_slots p)"
  by (simp add: packet_slots_def slot_fits_def list_all_iff)

lemma responses_fit_set_up: "responses_fit par x \<Longrightarrow> list_all (slot_fits par (length (pendingSegTag x))) b \<Longrightarrow> responses_fit par (set_up ll b x)"
  using set_update_subset_insert [of "inputBuffers x" ll "(inputBuffers x ! ll)\<lparr>upBuffers := b\<rparr>"]
  by (fastforce simp: responses_fit_def Let_def set_up_def list_all_iff)

lemma requests_sized_set_up [simp]: "ll < length (inputBuffers x) \<Longrightarrow> requests_sized (set_up ll b x) = requests_sized x"
  by (auto simp: requests_sized_def set_up_def list_all_length nth_list_update)

lemma responses_fit_up_buf: "responses_fit par x \<Longrightarrow> ll < length (inputBuffers x) \<Longrightarrow> list_all (slot_fits par (length (pendingSegTag x))) (up_buf ll x)"
  by (simp add: responses_fit_def Let_def up_buf_def list_all_length)

lemma up_buf_set_up [simp]: "ll < length (inputBuffers x) \<Longrightarrow> up_buf ll (set_up ll b x) = b"
  by (simp add: up_buf_def set_up_def)

lemma set_up_fields [simp]: "pendingSegTag (set_up ll b x) = pendingSegTag x" "pendingSegPacket (set_up ll b x) = pendingSegPacket x"
  "length (inputBuffers (set_up ll b x)) = length (inputBuffers x)"
  by (simp_all add: set_up_def)

lemma list_all_erase: "erase_packet i buf = Inr buf' \<Longrightarrow> list_all P buf \<Longrightarrow> list_all P buf'"
  using set_erase_range by (fastforce simp: erase_packet_def list_all_iff err_simps split: if_splits option.splits)

text \<open>Taking a packet out of the buffer at the index.\<close>

lemma erase_packet_shorter: "erase_packet i buf = Inr buf' \<Longrightarrow> buf ! i = Some p \<Longrightarrow> 1 \<le> LNG p \<Longrightarrow> length buf' < length buf \<and> drop i buf' = drop (i + unat (LNG p)) buf"
  by (auto simp: erase_packet_def erase_range_def err_simps LNG_pos split: if_splits option.splits)

lemma erase_up_fit:
  assumes "erase_up ll i x = Inr x'" "responses_fit par x" "ll < length (inputBuffers x)"
  shows "responses_fit par x' \<and> length (inputBuffers x') = length (inputBuffers x) \<and> pendingSegTag x' = pendingSegTag x
    \<and> requests_sized x' = requests_sized x"
proof -
  obtain buf where b: "erase_packet i (up_buf ll x) = Inr buf" "x' = set_up ll buf x" using assms(1) by (auto simp: erase_up_def err_simps)
  then show ?thesis using responses_fit_set_up [OF assms(2)] list_all_erase [OF b(1) responses_fit_up_buf [OF assms(2,3)]] assms(3) by simp
qed

lemma erase_up_shorter:
  assumes "erase_up ll i x = Inr x'" "ll < length (inputBuffers x)" "up_buf ll x ! i = Some p" "1 \<le> LNG p"
  shows "length (up_buf ll x') < length (up_buf ll x)"
  using assms erase_packet_shorter by (fastforce simp: erase_up_def err_simps)

definition up_loop_ok :: "net_par \<Rightarrow> nat \<Rightarrow> nat \<times> xbar \<times> 'm \<Rightarrow> bool" where
  "up_loop_ok par ll s = (case s of (i, x, ms) \<Rightarrow> responses_fit par x \<and> requests_sized x \<and> ll < length (inputBuffers x))"

lemma up_segment_fit:
  assumes "responses_fit par x" "ll < length (inputBuffers x)" "fits par (length (pendingSegTag x)) p"
  shows "okE (up_segment par ll i p x) (\<lambda>(j, x'). responses_fit par x' \<and> length (inputBuffers x') = length (inputBuffers x)
    \<and> length (pendingSegTag x') < length (pendingSegTag x) \<and> requests_sized x' = requests_sized x)"
proof (cases "first_index (\<lambda>t. TAG p = t) (pendingSegTag x)")
  case (Some k)
  define n where "n = length (pendingSegTag x) - 1"
  let ?x = "x\<lparr>pendingSegTag := erase_at k (pendingSegTag x)\<rparr>"
  have k: "k < length (pendingSegTag x)" by (rule first_index_SomeD(1) [OF Some])
  then have n: "length (erase_at k (pendingSegTag x)) = n" "length (pendingSegTag x) = Suc n" by (simp_all add: n_def)
  have x0: "responses_fit par ?x" using assms(1) n slot_fits_mono fits_mono
    by (fastforce simp: responses_fit_def Let_def list_all_iff)
  have y: "responses_fit par y \<and> length (inputBuffers y) = length (inputBuffers x) \<and> length (pendingSegTag y) = n \<and> pendingSegPacket y = pendingSegPacket x
      \<and> requests_sized y = requests_sized x"
    if "erase_up ll i ?x = Inr y" for y
    using erase_up_fit [OF that x0] assms(2) n that by (auto simp: erase_up_def err_simps requests_sized_def)
  have pend: "responses_fit par (y\<lparr>pendingSegPacket := ps\<rparr>)" if "responses_fit par y" "list_all (fits par (length (pendingSegTag y))) ps" for y ps
    using that by (simp add: responses_fit_def Let_def)
  have pr: "requests_sized (y\<lparr>pendingSegPacket := ps\<rparr>) = requests_sized y" for y ps by (simp add: requests_sized_def)
  have old: "list_all (fits par n) (pendingSegPacket x)" "list_all (fits par (Suc n)) (pendingSegPacket x)"
    using x0 assms(1) n by (simp_all add: responses_fit_def Let_def)
  have p: "fits par n p" using assms(3) fits_mono n(2) by fastforce
  have m: "fits par n (merge_segment par p (pendingSegPacket x ! j))" if "first_index (\<lambda>q. TAG p = TAG q) (pendingSegPacket x) = Some j" for j
    using merge_fits old(2) first_index_SomeD(1) [OF that] by (auto simp: list_all_length)
  have upd: "list_all (fits par n) ((pendingSegPacket x)[j := q])" if "fits par n q" for j q
    using old(1) that set_update_subset_insert [of "pendingSegPacket x" j q] by (fastforce simp: list_all_iff)
  have er: "list_all (fits par n) (erase_at j (pendingSegPacket x))" for j
    using old(1) set_erase_at [of j "pendingSegPacket x"] by (fastforce simp: list_all_iff)
  have whole: "responses_fit par (set_up ll (packet_slots ((copy_packet par q)\<lparr>segment := False\<rparr>) @ up_buf ll y) (y\<lparr>pendingSegPacket := erase_at j (pendingSegPacket x)\<rparr>))"
    if "erase_up ll i ?x = Inr y" "fits par n q" for y q j
    using y [OF that(1)] responses_fit_up_buf [of par y ll] slots_fit [of par n "(copy_packet par q)\<lparr>segment := False\<rparr>"] that(2) assms(2) er
    by (intro responses_fit_set_up pend) auto
  show ?thesis
    using y p m upd er whole old(1) n k assms(2) pend pr unfolding up_segment_def Some
    by (auto simp: wp Let_def split: option.split)
qed (simp add: up_segment_def wp)

text \<open>What the engine does with a response does not touch the buffers.\<close>

definition io_part :: "xbar \<Rightarrow> dual_vector list \<times> packet list \<times> u32 list" where
  "io_part x = (inputBuffers x, pendingSegPacket x, pendingSegTag x)"

lemma io_part_fit: "io_part x' = io_part x \<Longrightarrow> responses_fit par x' = responses_fit par x \<and> requests_sized x' = requests_sized x
    \<and> up_buf ll x' = up_buf ll x \<and> inputBuffers x' = inputBuffers x \<and> pendingSegTag x' = pendingSegTag x"
  by (simp add: io_part_def responses_fit_def requests_sized_def up_buf_def)

lemma route_io: "route par d q x = Inr (x', l) \<Longrightarrow> io_part x' = io_part x"
  by (auto simp: route_def err_simps io_part_def)

lemma delete_trace_io [simp]: "io_part (delete_trace t x) = io_part x"
  by (simp add: delete_trace_def io_part_def split: option.split)

lemma io_part_update [simp]: "io_part (x\<lparr>operandBuffers := ops\<rparr>) = io_part x" "io_part (x\<lparr>flowTable := t\<rparr>) = io_part x"
  by (simp_all add: io_part_def)

lemma arrivals_io:
  "operand_arrives p x = Inr x' \<Longrightarrow> io_part x' = io_part x" "child_answers par p x = Inr x' \<Longrightarrow> io_part x' = io_part x"
  by (auto simp: operand_arrives_def child_answers_def err_simps dest!: route_io split: option.splits)

lemma factor_arrives_io: "factor_arrives par p x = Inr x' \<Longrightarrow> io_part x' = io_part x"
  by (erule factor_arrivesD) (auto simp: Let_def dest!: route_io)

text \<open>A response that is taken shortens the buffer.\<close>

lemma taken_up_ends:
  assumes "ends r" "\<And>y. r = Inr y \<Longrightarrow> io_part y = io_part x"
    "responses_fit par x" "requests_sized x" "ll < length (inputBuffers x)" "up_buf ll x ! i = Some p" "1 \<le> LNG p" "i < length (up_buf ll x)"
  shows "ends (taken_up ll i ms r) \<and> okE (taken_up ll i ms r) (\<lambda>t. up_loop_ok par ll t \<and> (t, (i, x, ms')) \<in> up_rel ll)"
proof (cases r)
  case (Inr y)
  note y = io_part_fit [OF assms(2) [OF Inr], of par ll]
  have "up_loop_ok par ll (i, z, ms) \<and> ((i, z, ms), (i, x, ms')) \<in> up_rel ll" if z: "erase_up ll i y = Inr z" for z
    using erase_up_fit [OF z, of par] erase_up_shorter [OF z] assms(3-8) y
    by (auto simp: up_loop_ok_def up_measure_def)
  then show ?thesis using Inr by (simp add: taken_up_def ends_simps wp)
qed (use assms(1) in \<open>simp add: taken_up_def ends_simps wp\<close>)

lemma up_packet_ends:
  assumes "up_loop_ok par ll s" "fst s < length (up_buf ll (fst (snd s)))"
  shows "ends (up_packet par ll s) \<and> okE (up_packet par ll s) (\<lambda>t. up_loop_ok par ll t \<and> (t, s) \<in> up_rel ll)"
proof -
  obtain i x ms where s: "s = (i, x, ms)" by (cases s)
  have f: "responses_fit par x" and rs: "requests_sized x" and l: "ll < length (inputBuffers x)" and i: "i < length (up_buf ll x)"
    using assms by (simp_all add: s up_loop_ok_def)
  show ?thesis
  proof (cases "up_buf ll x ! i")
    case None
    then show ?thesis using f rs l i by (auto simp: s up_packet_def ends_simps wp up_loop_ok_def up_measure_def)
  next
    case (Some p)
    have p: "fits par (length (pendingSegTag x)) p" using responses_fit_up_buf [OF f l] Some i by (auto simp: list_all_length slot_fits_def dest!: spec [of _ i])
    then have p1: "1 \<le> LNG p" by (simp add: fits_def)
    have seg: "okE (up_segment par ll i p x) (\<lambda>(j, x'). up_loop_ok par ll (j, x', ms) \<and> ((j, x', ms), s) \<in> up_rel ll)"
      using up_segment_fit [OF f l p, of i] l rs by (auto simp: okE_iff s up_loop_ok_def up_measure_def)
    have T: "ends (taken_up ll i ms' r) \<and> okE (taken_up ll i ms' r) (\<lambda>t. up_loop_ok par ll t \<and> (t, s) \<in> up_rel ll)"
      if "ends r" "\<And>y. r = Inr y \<Longrightarrow> io_part y = io_part x" for r and ms' :: "'a dual_vector_scheme list"
      using taken_up_ends [OF that f rs l Some p1 i] by (simp add: s)
    have nxt: "up_loop_ok par ll (Suc i, y, ms') \<and> ((Suc i, y, ms'), s) \<in> up_rel ll" if "io_part y = io_part x" for y and ms' :: "'a dual_vector_scheme list"
      using io_part_fit [OF that, of par ll] f rs l i by (auto simp: s up_loop_ok_def up_measure_def)
    note T1 = T [OF step_ends(4) arrivals_io(1)] and T2 = T [OF step_ends(5) factor_arrives_io] and T3 = T [OF step_ends(6) arrivals_io(2)]
    have T4: "ends (taken_up ll i ms' (Inr y)) \<and> okE (taken_up ll i ms' (Inr y)) (\<lambda>t. up_loop_ok par ll t \<and> (t, s) \<in> up_rel ll)"
      if "io_part y = io_part x" for y and ms' :: "'a dual_vector_scheme list"
      using T [of "Inr y" ms'] that by (simp add: ends_simps)
    show ?thesis using seg T1 T2 T3 T4 nxt route_io Some unfolding s up_packet_def
      by (auto simp: ends_simps wp simp del: in_inv_image)
  qed
qed

lemma up_link_ends:
  assumes "responses_fit par x" "requests_sized x" "inputBuffers x \<noteq> []"
  shows "ends (up_link par l (x, ms)) \<and> okE (up_link par l (x, ms)) (\<lambda>(x', ms'). responses_fit par x' \<and> requests_sized x' \<and> inputBuffers x' \<noteq> [])"
proof -
  define ll where "ll = (upLink x + l) mod length (inputBuffers x)"
  let ?b = "\<lambda>(i, x, ms). i < length (up_buf ll x)" and ?s = "(0, x, ms)"
  have "up_loop_ok par ll ?s" using assms by (simp add: up_loop_ok_def ll_def)
  then have "ends (whileE ?b (up_packet par ll) ?s) \<and> okE (whileE ?b (up_packet par ll) ?s) (up_loop_ok par ll)"
  proof (rule whileE_ends_okE [where R = "up_rel ll"])
    fix s :: "nat \<times> xbar \<times> 'a dual_vector_scheme list" assume b: "?b s" and p: "up_loop_ok par ll s"
    show "ends (up_packet par ll s) \<and> okE (up_packet par ll s) (\<lambda>t. up_loop_ok par ll t \<and> (t, s) \<in> up_rel ll)"
      by (rule up_packet_ends [OF p]) (use b in auto)
  qed auto
  then show ?thesis by (auto simp: up_link_def Let_def ends_simps ll_def [symmetric] okE_iff err_simps up_loop_ok_def)
qed

lemma upstream_ends:
  assumes "responses_fit par x" "requests_sized x"
  shows "ends (upstream par (x, ms)) \<and> okE (upstream par (x, ms)) (\<lambda>(x', ms'). requests_sized x')"
proof (cases "inputBuffers x = []")
  case False
  let ?P = "\<lambda>s :: xbar \<times> 'a dual_vector_scheme list. responses_fit par (fst s) \<and> requests_sized (fst s) \<and> inputBuffers (fst s) \<noteq> []"
  have "ends (foldE (up_link par) [0..<length (inputBuffers x)] (x, ms)) \<and> okE (foldE (up_link par) [0..<length (inputBuffers x)] (x, ms)) ?P"
  proof (rule foldE_ends)
    show "?P (x, ms)" using assms False by simp
    show "ends (up_link par l s) \<and> okE (up_link par l s) ?P" if "?P s" for l s
      using up_link_ends [of par "fst s" l "snd s"] that by (simp add: case_prod_unfold)
  qed
  then show ?thesis by (auto simp: upstream_def ends_simps okE_iff err_simps requests_sized_def)
qed (use assms in \<open>auto simp: upstream_def ends_simps wp requests_sized_def\<close>)

section \<open>The downstream loop\<close>

text \<open>
  The measure looks at the rest of the buffer from the index on. Taking over an update uses up a
  free operand buffer; the half of a multiplication is gone after it is sent; passing an update on
  removes it from the buffer; replicating a gather marks one more child of its flow; everything
  else shortens the rest.
\<close>

definition is_half :: "packet option \<Rightarrow> bool" where
  "is_half q = (case q of None \<Rightarrow> False | Some p \<Rightarrow> CMD p = ACT_MULT \<and> (halfPkt1 p \<or> halfPkt2 p))"

definition is_update :: "packet option \<Rightarrow> bool" where
  "is_update q = (case q of None \<Rightarrow> False | Some p \<Rightarrow> CMD p = ACT_ADD \<or> CMD p = ACT_DOT \<or> CMD p = ACT_MULT)"

definition unasked :: "flow_table \<Rightarrow> nat" where
  "unasked t = (\<Sum>k \<in> dom (map_of t). length (child_links (the (map_of t k))))"

definition down_measure :: "nat \<Rightarrow> nat \<Rightarrow> xbar \<Rightarrow> nat \<times> nat \<times> nat \<times> nat \<times> nat" where
  "down_measure ll i x = (let rest = drop i (down_buf ll x) in
     (length (freeOperandBufIDs x), length (filter is_half rest), length (filter is_update rest), unasked (flowTable x), length rest))"

abbreviation lex5 :: "((nat \<times> nat \<times> nat \<times> nat \<times> nat) \<times> nat \<times> nat \<times> nat \<times> nat \<times> nat) set" where
  "lex5 \<equiv> less_than <*lex*> less_than <*lex*> less_than <*lex*> less_than <*lex*> less_than"

definition advances :: "nat \<Rightarrow> nat \<Rightarrow> xbar \<Rightarrow> move \<Rightarrow> xbar \<Rightarrow> bool" where
  "advances ll i x m x' \<longleftrightarrow> requests_sized x' \<and> length (inputBuffers x') = length (inputBuffers x) \<and>
     (m = Leave \<or> (down_measure ll (fst (moved i m)) x', down_measure ll i x) \<in> lex5)"

text \<open>The packet at the index, in a buffer of the crossbar.\<close>

definition at_packet :: "nat \<Rightarrow> nat \<Rightarrow> packet \<Rightarrow> xbar \<Rightarrow> bool" where
  "at_packet ll i p x \<longleftrightarrow> ll < length (inputBuffers x) \<and> i < length (down_buf ll x) \<and> down_buf ll x ! i = Some p \<and> requests_sized x"

lemma set_down_fields [simp]: "freeOperandBufIDs (set_down ll b x) = freeOperandBufIDs x" "flowTable (set_down ll b x) = flowTable x"
  "length (inputBuffers (set_down ll b x)) = length (inputBuffers x)"
  by (simp_all add: set_down_def)

lemma down_buf_set_down [simp]: "ll < length (inputBuffers x) \<Longrightarrow> down_buf ll (set_down ll b x) = b"
  by (simp add: down_buf_def set_down_def)

lemma requests_sized_set_down: "requests_sized x \<Longrightarrow> list_all sized_slot b \<Longrightarrow> requests_sized (set_down ll b x)"
  using set_update_subset_insert [of "inputBuffers x" ll "(inputBuffers x ! ll)\<lparr>downBuffers := b\<rparr>"]
  by (fastforce simp: requests_sized_def set_down_def list_all_iff)

lemma requests_sized_cong: "inputBuffers x' = inputBuffers x \<Longrightarrow> requests_sized x' = requests_sized x"
  by (simp add: requests_sized_def)

lemma down_buf_cong: "inputBuffers x' = inputBuffers x \<Longrightarrow> down_buf ll x' = down_buf ll x"
  by (simp add: down_buf_def)

lemma down_buf_sized: "requests_sized x \<Longrightarrow> ll < length (inputBuffers x) \<Longrightarrow> list_all sized_slot (down_buf ll x)"
  by (simp add: requests_sized_def down_buf_def list_all_length)

lemma at_packet_LNG: "at_packet ll i p x \<Longrightarrow> 1 \<le> LNG p"
  using down_buf_sized [of x ll] by (auto simp: at_packet_def list_all_length sized_slot_def dest!: spec [of _ i])

lemma sized_update: "list_all sized_slot b \<Longrightarrow> 1 \<le> LNG q \<Longrightarrow> list_all sized_slot (b[i := Some q])"
  using set_update_subset_insert [of b i "Some q"] by (fastforce simp: list_all_iff sized_slot_def)

lemma filter_drop_le:
  assumes "i \<le> j"
  shows "length (filter P (drop j xs)) \<le> length (filter P (drop i xs))"
proof -
  have "drop i xs = take (j - i) (drop i xs) @ drop j xs"
    using assms by (metis append_take_drop_id drop_drop le_add_diff_inverse2)
  then show ?thesis by (metis filter_append le_add2 length_append)
qed

lemma filter_drop_Suc: "i < length xs \<Longrightarrow> length (filter P (drop i xs)) = (if P (xs ! i) then 1 else 0) + length (filter P (drop (Suc i) xs))"
  by (simp flip: Cons_nth_drop_Suc)

text \<open>The ways in which the loop advances.\<close>

lemma advances_next:
  assumes "at_packet ll i p x" "drop (Suc i) (down_buf ll x') = drop (Suc i) (down_buf ll x)" "freeOperandBufIDs x' = freeOperandBufIDs x"
    "flowTable x' = flowTable x" "requests_sized x'" "length (inputBuffers x') = length (inputBuffers x)"
  shows "advances ll i x Next x'"
proof -
  have i: "i < length (down_buf ll x)" using assms(1) by (simp add: at_packet_def)
  have "length (drop (Suc i) (down_buf ll x)) < length (drop i (down_buf ll x))" using i by (simp del: length_drop add: length_drop)
  then show ?thesis using assms(2-6) filter_drop_Suc [OF i, of is_half] filter_drop_Suc [OF i, of is_update]
    by (auto simp: advances_def moved_def down_measure_def Let_def simp del: length_drop)
qed

lemma advances_next_same:
  "at_packet ll i p x \<Longrightarrow> freeOperandBufIDs x' = freeOperandBufIDs x \<Longrightarrow> flowTable x' = flowTable x \<Longrightarrow> inputBuffers x' = inputBuffers x \<Longrightarrow>
     advances ll i x Next x'"
  using advances_next [of ll i p x x'] down_buf_cong [of x' x ll] requests_sized_cong [of x' x] by (simp add: at_packet_def)

lemma advances_free:
  "length (freeOperandBufIDs x') < length (freeOperandBufIDs x) \<Longrightarrow> requests_sized x' \<Longrightarrow> length (inputBuffers x') = length (inputBuffers x) \<Longrightarrow>
     advances ll i x Again x'"
  by (simp add: advances_def moved_def down_measure_def Let_def)

lemma erase_downD:
  assumes "erase_down ll i y = Inr x'" "at_packet ll i p x" "inputBuffers y = inputBuffers x"
  obtains buf where "x' = set_down ll buf y" "drop i buf = drop (i + unat (LNG p)) (down_buf ll x)" "length buf < length (down_buf ll x)"
    "requests_sized x'" "down_buf ll x' = buf" "length (inputBuffers x') = length (inputBuffers x)"
proof -
  obtain buf where b: "erase_packet i (down_buf ll x) = Inr buf" "x' = set_down ll buf y"
    using assms(1) down_buf_cong [OF assms(3), of ll] by (auto simp: erase_down_def err_simps)
  have "1 \<le> LNG p" by (rule at_packet_LNG [OF assms(2)])
  then have s: "length buf < length (down_buf ll x) \<and> drop i buf = drop (i + unat (LNG p)) (down_buf ll x)"
    using erase_packet_shorter [OF b(1)] assms(2) by (simp add: at_packet_def)
  have l: "ll < length (inputBuffers x)" "requests_sized x" using assms(2) by (simp_all add: at_packet_def)
  have "requests_sized x'" unfolding b(2)
    using list_all_erase [OF b(1) down_buf_sized [OF l(2,1)]] l(2) requests_sized_cong [OF assms(3)] by (intro requests_sized_set_down) simp_all
  then show thesis using that b(2) s l assms(3) by simp
qed

lemma advances_erase:
  assumes "erase_down ll i y = Inr x'" "at_packet ll i p x" "inputBuffers y = inputBuffers x" "freeOperandBufIDs y = freeOperandBufIDs x"
    and "unasked (flowTable y) = unasked (flowTable x) \<or> is_update (Some p) \<or> is_half (Some p)"
  shows "advances ll i x Again x'"
proof -
  from assms(1-3) obtain buf where b: "x' = set_down ll buf y" "drop i buf = drop (i + unat (LNG p)) (down_buf ll x)" "length buf < length (down_buf ll x)"
    "requests_sized x'" "down_buf ll x' = buf" "length (inputBuffers x') = length (inputBuffers x)" by (rule erase_downD)
  let ?b = "down_buf ll x" and ?n = "unat (LNG p)"
  have i: "i < length ?b" "?b ! i = Some p" and n: "0 < ?n" using assms(2) at_packet_LNG [OF assms(2)] by (simp_all add: at_packet_def LNG_pos)
  have f: "(if P (Some p) then 1 else 0) + length (filter P (drop (i + ?n) ?b)) \<le> length (filter P (drop i ?b))" for P
    using filter_drop_Suc [OF i(1), of P] filter_drop_le [of "Suc i" "i + ?n" P ?b] n i(2) by simp
  have "length (drop (i + ?n) ?b) < length (drop i ?b)" using i n by simp
  then show ?thesis using b assms(4,5) f [of is_half] f [of is_update]
    by (auto simp: advances_def moved_def down_measure_def Let_def simp del: length_drop)
qed

lemma advances_whole:
  assumes "at_packet ll i p x" "is_half (Some p)" "\<not> is_half (Some q)" "LNG q = LNG p" "inputBuffers y = inputBuffers x"
    "freeOperandBufIDs y = freeOperandBufIDs x"
  shows "advances ll i x Again (set_down ll ((down_buf ll y)[i := Some q]) y)"
proof -
  let ?b = "down_buf ll x"
  have i: "i < length ?b" "?b ! i = Some p" "ll < length (inputBuffers x)" "requests_sized x" using assms(1) by (simp_all add: at_packet_def)
  have y: "down_buf ll y = ?b" "requests_sized y" using down_buf_cong [OF assms(5)] requests_sized_cong [OF assms(5)] i(4) by simp_all
  have "requests_sized (set_down ll (?b[i := Some q]) y)"
    using sized_update [OF down_buf_sized [OF i(4,3)]] at_packet_LNG [OF assms(1)] assms(4) y(2) by (intro requests_sized_set_down) simp_all
  moreover have "length (filter is_half (drop i (?b[i := Some q]))) < length (filter is_half (drop i ?b))"
    using filter_drop_Suc [OF i(1), of is_half] filter_drop_Suc [of i "?b[i := Some q]" is_half] i assms(2,3) by simp
  ultimately show ?thesis using i y assms(5,6) by (simp add: advances_def moved_def down_measure_def Let_def)
qed

text \<open>Parts of the state the steps keep.\<close>

definition io_free :: "xbar \<Rightarrow> dual_vector list \<times> nat list" where
  "io_free x = (inputBuffers x, freeOperandBufIDs x)"

lemma io_freeD: "io_free y = io_free x \<Longrightarrow> inputBuffers y = inputBuffers x" "io_free y = io_free x \<Longrightarrow> freeOperandBufIDs y = freeOperandBufIDs x"
  by (simp_all add: io_free_def)

lemma io_free_update [simp]: "io_free (x\<lparr>numOperands := n\<rparr>) = io_free x" "io_free (x\<lparr>numUpdates := n\<rparr>) = io_free x"
  "io_free (x\<lparr>opbufStalls := n\<rparr>) = io_free x" "io_free (x\<lparr>flowTable := t\<rparr>) = io_free x"
  by (simp_all add: io_free_def)

lemma route_io_free: "route par d q x = Inr (x', l) \<Longrightarrow> io_free x' = io_free x \<and> flowTable x' = flowTable x"
  by (auto simp: route_def io_free_def err_simps)

lemma register_io_free: "register_update par op p x = Inr x' \<Longrightarrow> io_free x' = io_free x"
  by (auto simp: register_update_def err_simps dest!: route_io_free)

lemma copy_trace_io_free: "copy_trace t x = Inr (t', x') \<Longrightarrow> io_free x' = io_free x \<and> flowTable x' = flowTable x"
  by (auto simp: copy_trace_def io_free_def split: option.splits)

lemma reserve_free: "reserve_operand k a b x = Inr (j, x') \<Longrightarrow> inputBuffers x' = inputBuffers x \<and> length (freeOperandBufIDs x') < length (freeOperandBufIDs x)"
  by (auto simp: reserve_operand_def err_simps split: list.splits)

text \<open>A reserved operand buffer makes up for whatever is done with the packet.\<close>

lemma take_over_free:
  assumes "register_update par op q y = Inr x1" "reserve_operand k a b x1 = Inr (j, x2)" "io_free y = io_free x"
  shows "inputBuffers x2 = inputBuffers x \<and> length (freeOperandBufIDs x2) < length (freeOperandBufIDs x)"
  using register_io_free [OF assms(1)] reserve_free [OF assms(2)] assms(3) by (simp add: io_free_def)

lemma rewrite_sized:
  assumes "at_packet ll i p x" "inputBuffers y = inputBuffers x" "LNG q = LNG p"
  shows "requests_sized (set_down ll ((down_buf ll y)[i := Some q]) y) \<and> length (inputBuffers (set_down ll ((down_buf ll y)[i := Some q]) y)) = length (inputBuffers x)"
proof -
  have i: "ll < length (inputBuffers x)" "requests_sized x" using assms(1) by (simp_all add: at_packet_def)
  have "requests_sized (set_down ll ((down_buf ll y)[i := Some q]) y)"
    using sized_update [OF down_buf_sized [OF i(2,1)]] at_packet_LNG [OF assms(1)] assms(3) requests_sized_cong [OF assms(2)] i(2)
      down_buf_cong [OF assms(2), of ll]
    by (intro requests_sized_set_down) simp_all
  then show ?thesis using assms(2) by simp
qed

lemma next_line_sized:
  assumes "next_line par ll i p y = Inr x'" "at_packet ll i p x" "inputBuffers y = inputBuffers x"
  shows "requests_sized x' \<and> length (inputBuffers x') = length (inputBuffers x) \<and> freeOperandBufIDs x' = freeOperandBufIDs y"
proof (cases "LINES p = 1")
  case True
  then have "erase_down ll i y = Inr x'" using assms(1) by (simp add: next_line_def)
  from this assms(2,3) obtain buf where "x' = set_down ll buf y" "requests_sized x'" "length (inputBuffers x') = length (inputBuffers x)"
    by (rule erase_downD)
  then show ?thesis by (metis set_down_fields(1))
next
  case False
  obtain t z where z: "copy_trace (trace p) y = Inr (t, z)"
    using assms(1) False unfolding next_line_def if_not_P [OF False] bindE_eq_Inr by (metis surj_pair)
  define q where "q = (copy_packet par p)\<lparr>trace := t, SRCADRS1 := SRCADRS1 p + 64, ADRS := ADRS p + 64, LINES := LINES p - 1\<rparr>"
  have "checkE (ADRS q = low_addr (SRCADRS1 q)) (Assertion ''ADRS'') (Inr (set_down ll ((down_buf ll z)[i := Some q]) z)) = Inr x'"
    using assms(1) unfolding next_line_def Let_def q_def if_not_P [OF False] z bindE_Inr prod.case .
  then have x': "x' = set_down ll ((down_buf ll z)[i := Some q]) z" unfolding checkE_eq_Inr by blast
  have "LNG q = LNG p" by (simp add: q_def)
  moreover have "io_free z = io_free y" using copy_trace_io_free [OF z] by simp
  then have "inputBuffers z = inputBuffers x" "freeOperandBufIDs z = freeOperandBufIDs y" using assms(3) io_freeD [of z y] by simp_all
  ultimately show ?thesis unfolding x' using rewrite_sized [OF assms(2), of z q] by (metis set_down_fields(1))
qed

lemma advances_update [simp]: "advances ll i x m (x'\<lparr>numOperands := n\<rparr>) = advances ll i x m x'"
  by (simp add: advances_def down_measure_def down_buf_def requests_sized_def)

lemma whole_again_advances:
  assumes "whole_again ll i p x = Inr x'" "at_packet ll i p x" "is_half (Some p)"
  shows "advances ll i x Again x'"
proof -
  let ?q = "\<lambda>t. p\<lparr>halfPkt1 := False, halfPkt2 := False, SRCADRS1 := SRCADRS1 p + 64, SRCADRS2 := SRCADRS2 p + 64,
    ADRS := low_addr (SRCADRS1 p + 64), LINES := LINES p - 1, operandBufID := -1, trace := t\<rparr>"
  obtain t z where z: "copy_trace (trace p) x = Inr (t, z)" "x' = set_down ll ((down_buf ll z)[i := Some (?q t)]) z"
    using assms(1) by (auto simp: whole_again_def err_simps)
  have "\<not> is_half (Some (?q t))" by (simp add: is_half_def)
  then show ?thesis unfolding z(2)
    using copy_trace_io_free [OF z(1)] by (intro advances_whole [OF assms(2,3)]) (auto simp: io_free_def)
qed

lemma pass_on_advances:
  assumes "pass_on par op ll i p link y = Inr x'" "at_packet ll i p x" "is_update (Some p)" "io_free y = io_free x"
  shows "advances ll i x Again x'"
proof -
  obtain x1 t where s: "register_update par op p y = Inr x1" "erase_down ll i (x1\<lparr>flowTable := t\<rparr>) = Inr x'"
    using assms(1) by (auto simp: pass_on_def err_simps)
  have "io_free x1 = io_free x" using register_io_free [OF s(1)] assms(4) by simp
  then show ?thesis using advances_erase [OF s(2) assms(2)] assms(3) by (simp add: io_free_def)
qed

text \<open>Dividing a request moves the index past the segments.\<close>

lemma segment_packet_LNG: "1 \<le> LNG p \<Longrightarrow> 1 \<le> LNG (segment_packet par p j)"
  by (cases "ADDRESS_MAPPING (np_cfg par)") (auto simp: segment_packet_def Let_def)

lemma insert_segments:
  assumes "1 \<le> LNG p" "i \<le> length buf" "list_all sized_slot buf"
  shows "case fold (insert_segment par p) js (i, buf, tags) of (i', buf', tags') \<Rightarrow>
    i' \<le> length buf' \<and> drop i' buf' = drop i buf \<and> list_all sized_slot buf'"
  using assms(2,3)
proof (induction js arbitrary: i buf tags)
  case (Cons j js)
  let ?q = "segment_packet par p j"
  have q: "1 \<le> LNG ?q" "length (packet_slots ?q) = unat (LNG ?q)" using segment_packet_LNG [OF assms(1)] length_packet_slots by simp_all
  have l: "list_all sized_slot (take i buf @ packet_slots ?q @ drop i buf)"
    using Cons.prems(2) q(1) by (auto simp: list_all_iff packet_slots_def sized_slot_def dest: in_set_takeD in_set_dropD)
  have "drop (i + unat (LNG ?q)) (take i buf @ packet_slots ?q @ drop i buf) = drop i buf" using Cons.prems(1) q(2) by simp
  then show ?case using Cons.IH [of "i + unat (LNG ?q)" "take i buf @ packet_slots ?q @ drop i buf" "tags @ [TAG ?q]"] Cons.prems(1) q(2) l
    by (simp add: insert_segment_def Let_def split: prod.splits)
qed simp

lemma divide_advances:
  assumes "divide par ll i p x = Inr (m, x')" "at_packet ll i p x"
  shows "advances ll i x m x'"
proof -
  obtain y where y: "erase_down ll i x = Inr y" using assms(1) by (auto simp: divide_def err_simps)
  from y assms(2) refl obtain buf where b: "y = set_down ll buf x" "drop i buf = drop (i + unat (LNG p)) (down_buf ll x)" "length buf < length (down_buf ll x)"
    "requests_sized y" "down_buf ll y = buf" "length (inputBuffers y) = length (inputBuffers x)" by (rule erase_downD)
  obtain i' buf' tags' where f: "fold (insert_segment par p) [0..<segments par p] (i, buf, pendingSegTag y) = (i', buf', tags')" by (metis prod_cases3)
  have m: "m = Goto (i' + 1)" "x' = set_down ll buf' (y\<lparr>pendingSegTag := tags'\<rparr>)" using assms(1) y f b(5) by (auto simp: divide_def err_simps)
  have i: "i < length (down_buf ll x)" "ll < length (inputBuffers x)" "down_buf ll x ! i = Some p" using assms(2) by (simp_all add: at_packet_def)
  have p: "1 \<le> LNG p" "0 < unat (LNG p)" using at_packet_LNG [OF assms(2)] by (simp_all add: LNG_pos)
  let ?b = "down_buf ll x"
  have l: "i \<le> length buf" unfolding b(5) [symmetric]
    using y i(1,2) by (auto simp: erase_down_def erase_packet_def erase_range_def err_simps split: option.splits)
  have s: "i' \<le> length buf' \<and> drop i' buf' = drop i buf \<and> list_all sized_slot buf'"
    using insert_segments [OF p(1) l, of par "[0..<segments par p]" "pendingSegTag y"] f down_buf_sized [OF b(4), of ll] b(5,6) i(2) by simp
  have d: "drop (Suc i') buf' = drop (Suc (i + unat (LNG p))) ?b" using s b(2) by (metis drop_Suc tl_drop)
  have "length (filter P (drop (Suc (i + unat (LNG p))) ?b)) \<le> length (filter P (drop i ?b))" for P by (rule filter_drop_le) simp
  note le = this [of is_half] this [of is_update]
  have "length (drop (Suc (i + unat (LNG p))) ?b) < length (drop i ?b)" using i(1) p(2) by simp
  moreover have "requests_sized x'" unfolding m(2)
    using s requests_sized_cong [of "y\<lparr>pendingSegTag := tags'\<rparr>" y] b(4) by (intro requests_sized_set_down) simp_all
  moreover have "down_buf ll x' = buf'" "flowTable x' = flowTable x" "freeOperandBufIDs x' = freeOperandBufIDs x"
    "length (inputBuffers x') = length (inputBuffers x)" using i(2) b(6) by (simp_all add: m(2) b(1))
  ultimately show ?thesis using le d
    by (auto simp: advances_def moved_def down_measure_def Let_def m(1) simp del: length_drop)
qed

text \<open>Replicating a gather marks a child.\<close>

lemma unasked_insert:
  assumes "map_of t k = Some fe"
  shows "unasked (flow_insert k fe' t) + length (child_links fe) = unasked t + length (child_links fe')"
proof -
  let ?D = "dom (map_of t)" and ?g = "\<lambda>m k. length (child_links (the (m k)))"
  have D: "finite ?D" "k \<in> ?D" "dom (map_of (flow_insert k fe' t)) = ?D" using assms by (auto simp: finite_dom_map_of)
  have o: "sum (?g (map_of (flow_insert k fe' t))) (?D - {k}) = sum (?g (map_of t)) (?D - {k})" by (rule sum.cong) auto
  show ?thesis unfolding unasked_def D(3) using sum.remove [OF D(1,2), of "?g (map_of t)"]
      sum.remove [OF D(1,2), of "?g (map_of (flow_insert k fe' t))"] o assms by simp
qed

lemma child_links_mark:
  assumes "c \<in> set (child_links fe)" "length (children_gflag fe) = NUM_LINKS"
  shows "length (child_links (fe\<lparr>children_gflag := (children_gflag fe)[c := True]\<rparr>)) < length (child_links fe)"
proof -
  let ?P = "\<lambda>c. children_count fe ! c > 0 \<and> \<not> children_gflag fe ! c"
  have e: "child_links (fe\<lparr>children_gflag := (children_gflag fe)[c := True]\<rparr>) = filter (\<lambda>d. d \<noteq> c) (child_links fe)"
    using assms by (auto simp: child_links_def nth_list_update intro!: filter_cong)
  show ?thesis unfolding e using length_filter_less [of c "child_links fe" "\<lambda>d. d \<noteq> c"] assms(1) by simp
qed

lemma advances_cong: "io_free y = io_free x \<Longrightarrow> flowTable y = flowTable x \<Longrightarrow> advances ll i y m x' = advances ll i x m x'"
  by (simp add: advances_def down_measure_def down_buf_def io_free_def)

lemma at_packet_cong: "io_free y = io_free x \<Longrightarrow> at_packet ll i p y = at_packet ll i p x"
  by (simp add: at_packet_def down_buf_def requests_sized_def io_free_def)

lemma advances_gather:
  assumes "ReceiveDown q (inputBuffers x ! ll) = (True, buf)" "at_packet ll i p x" "CMD q = ACT_GET" "1 \<le> LNG q"
    "map_of (flowTable x) k = Some fe" "c \<in> set (child_links fe)" "length (children_gflag fe) = NUM_LINKS"
  shows "advances ll i x Again (x\<lparr>inputBuffers := (inputBuffers x)[ll := buf],
    flowTable := flow_insert k (fe\<lparr>children_gflag := (children_gflag fe)[c := True]\<rparr>) (flowTable x)\<rparr>)" (is "advances ll i x Again ?x'")
proof -
  have b: "downBuffers buf = down_buf ll x @ packet_slots q"
    using assms(1) by (auto simp: ReceiveDown_def receive_def down_buf_def split: if_splits)
  have i: "ll < length (inputBuffers x)" "i < length (down_buf ll x)" "requests_sized x" using assms(2) by (simp_all add: at_packet_def)
  have d: "down_buf ll ?x' = down_buf ll x @ packet_slots q" using i(1) b by (simp add: down_buf_def)
  have "list_all sized_slot (downBuffers buf)"
    using down_buf_sized [OF i(3,1)] assms(4) unfolding b by (auto simp: packet_slots_def sized_slot_def list_all_iff)
  then have s: "requests_sized ?x'" using i(1,3) set_update_subset_insert [of "inputBuffers x" ll buf]
    by (fastforce simp: requests_sized_def list_all_iff)
  have "filter is_half (packet_slots q) = []" "filter is_update (packet_slots q) = []"
    using assms(3) by (simp_all add: packet_slots_def is_half_def is_update_def filter_empty_conv)
  then have f: "filter is_half (drop i (down_buf ll ?x')) = filter is_half (drop i (down_buf ll x))"
    "filter is_update (drop i (down_buf ll ?x')) = filter is_update (drop i (down_buf ll x))" using i(2) unfolding d by simp_all
  have u: "unasked (flowTable ?x') < unasked (flowTable x)"
    using unasked_insert [OF assms(5), of "fe\<lparr>children_gflag := (children_gflag fe)[c := True]\<rparr>"] child_links_mark [OF assms(6,7)] by simp
  then show ?thesis using s f by (simp add: advances_def moved_def down_measure_def Let_def)
qed

lemma clean_keeps [simp]: "CMD (clean p) = CMD p" "LNG (clean p) = LNG p"
  by (simp_all add: clean_def)

lemma gather_children_advances:
  assumes "gather_children par ll p cs x = Inr (sent, x')" "at_packet ll i p x" "CMD p = ACT_GET"
    "map_of (flowTable x) (DESTADRS p) = Some fe" "set cs \<subseteq> set (child_links fe)" "length (children_gflag fe) = NUM_LINKS"
  shows "advances ll i x (if sent then Again else Next) x'"
  using assms(1,2,4,5)
proof (induction cs arbitrary: x)
  case (Cons c cs)
  obtain cc x1 where r: "at_int (neighborCubeID x) (int c) = Inr cc" "route par cc False x = Inr (x1, int c)"
    using Cons.prems(1) by (auto simp: err_simps)
  let ?q = "clean ((copy_packet par p)\<lparr>SRCCUB := sint (cubeID x1), DESTCUB := cc\<rparr>)"
  have x1: "io_free x1 = io_free x" "flowTable x1 = flowTable x" using route_io_free [OF r(2)] by simp_all
  have a: "at_packet ll i p x1" using at_packet_cong [OF x1(1)] Cons.prems(2) by simp
  obtain ok buf where b: "ReceiveDown ?q (inputBuffers x1 ! ll) = (ok, buf)" by fastforce
  have "advances ll i x1 (if sent then Again else Next) x'"
  proof (cases ok)
    case True
    then have b': "ReceiveDown ?q (inputBuffers x1 ! ll) = (True, buf)" using b by simp
    have "advances ll i x1 Again (x1\<lparr>inputBuffers := (inputBuffers x1)[ll := buf],
      flowTable := flow_insert (DESTADRS p) (fe\<lparr>children_gflag := (children_gflag fe)[c := True]\<rparr>) (flowTable x1)\<rparr>)"
      using advances_gather [OF b' a, of "DESTADRS p" fe c] assms(3,6) at_packet_LNG [OF a] Cons.prems(3,4) x1(2) by simp
    then show ?thesis using Cons.prems(1,3) r b True x1(2) by auto
  next
    case False
    then show ?thesis using Cons.prems r b Cons.IH [of x1] a x1(2) by auto
  qed
  then show ?case using advances_cong [OF x1] by simp
qed (auto intro: advances_next_same)

section \<open>Each operation of the downstream loop\<close>

named_theorems advance_steps \<open>operations of the loop over the requests that make it advance\<close>

lemma advances_stall [simp]: "advances ll i x m (x'\<lparr>opbufStalls := n\<rparr>) = advances ll i x m x'"
  by (simp add: advances_def down_measure_def down_buf_def requests_sized_def)

lemma advances_here: "at_packet ll i p x \<Longrightarrow> advances ll i x Next x"
  by (rule advances_next_same) simp_all

lemma add_advances:
  assumes "register_update par op p y = Inr x1" "reserve_operand k a b x1 = Inr (j, x2)" "next_line par ll i p x2 = Inr x'" "io_free y = io_free x"
    "at_packet ll i p x"
  shows "advances ll i x Again x'"
  using next_line_sized [OF assms(3,5)] take_over_free [OF assms(1,2,4)] by (intro advances_free) simp_all

lemma split_advances:
  assumes "register_update par op q y = Inr x1" "reserve_operand k a b x1 = Inr (j, x2)" "at_packet ll i p x" "io_free y = io_free x" "LNG r = LNG p"
  shows "advances ll i x Again (set_down ll ((down_buf ll x2)[i := Some r]) x2)"
  using rewrite_sized [OF assms(3) _ assms(5), of x2] take_over_free [OF assms(1,2,4)] by (intro advances_free) simp_all

lemma local_add_advances [advance_steps]:
  "at_packet ll i p (cube_x s) \<Longrightarrow> okE (local_add par ll i p s) (\<lambda>(m, s'). advances ll i (cube_x s) m (cube_x s'))"
  by (cases s) (auto simp: local_add_def wp Let_def intro: advances_here add_advances split: list.split)

text \<open>Marking the packet at the index does not change where the loop stands.\<close>

lemma remark:
  assumes "at_packet ll i p x" "LNG q = LNG p"
  shows "at_packet ll i q (set_down ll ((down_buf ll x)[i := Some q]) x)" "advances ll i x Next (set_down ll ((down_buf ll x)[i := Some q]) x)"
proof -
  let ?y = "set_down ll ((down_buf ll x)[i := Some q]) x"
  have s: "requests_sized ?y" using rewrite_sized [OF assms(1) refl assms(2)] by simp
  then show "at_packet ll i q ?y" using assms(1) by (simp add: at_packet_def)
  show "advances ll i x Next ?y" using s assms(1) by (intro advances_next [OF assms(1)]) (simp_all add: at_packet_def)
qed

lemma mult_advances:
  assumes "register_update par op q' y = Inr x1" "reserve_operand k a b x1 = Inr (j, x2)" "at_packet ll i p x" 
    "io_free y = io_free (set_down ll ((down_buf ll x)[i := Some q]) x)" "LNG q = LNG p" "LNG r = LNG p"
  shows "advances ll i x Again (set_down ll ((down_buf ll x2)[i := Some r]) x2)"
  using split_advances [OF assms(1,2) remark(1) [OF assms(3,5)] assms(4), of r] rewrite_sized [OF remark(1) [OF assms(3,5)], of x2 r]
    take_over_free [OF assms(1,2,4)] assms(5,6)
  by (intro advances_free) simp_all

lemma local_mult_advances [advance_steps]:
  "at_packet ll i p (cube_x s) \<Longrightarrow> okE (local_mult par ll i p s) (\<lambda>(m, s'). advances ll i (cube_x s) m (cube_x s'))"
  by (cases s) (auto simp: local_mult_def wp Let_def intro: advances_here remark mult_advances split: list.split)

lemma local_half_advances [advance_steps]:
  "at_packet ll i p (cube_x s) \<Longrightarrow> is_half (Some p) \<Longrightarrow> okE (local_half par ll i p s) (\<lambda>(m, s'). advances ll i (cube_x s) m (cube_x s'))"
  by (cases s) (auto simp: local_half_def wp Let_def intro: advances_here whole_again_advances advances_erase)

lemma local_other_advances [advance_steps]:
  "at_packet ll i p (cube_x s) \<Longrightarrow> okE (local_other par ll i p s) (\<lambda>(m, s'). advances ll i (cube_x s) m (cube_x s'))"
  by (cases s) (auto simp: local_other_def wp Let_def intro: advances_here advances_erase)

lemma flow_shape:
  assumes "xbar_inv x" "map_of (flowTable x) k = Some fe"
  shows "length (children_gflag fe) = NUM_LINKS"
  using counts_okE [of "flowTable x" "operandBuffers x" "freeOperandBufIDs x" "numMultStages x" k fe] assms
  by (simp add: xbar_inv_def engine_inv_def art_inv_def counts_ok_def)

lemma unasked_flag [simp]: "map_of t k = Some fe \<Longrightarrow> unasked (flow_insert k (fe\<lparr>g_flag := b\<rparr>) t) = unasked t"
  using unasked_insert [of t k fe "fe\<lparr>g_flag := b\<rparr>"] by (simp add: child_links_def)

lemma gather_done_advances:
  assumes "erase_down ll i (x\<lparr>flowTable := flow_insert k (fe\<lparr>g_flag := True\<rparr>) (flowTable x)\<rparr>) = Inr x'" "map_of (flowTable x) k = Some fe"
    "at_packet ll i p x"
  shows "advances ll i x Again x'"
  by (rule advances_erase [OF assms(1,3)]) (simp_all add: assms(2))

lemma local_get_advances [advance_steps]:
  assumes "at_packet ll i p (cube_x s)" "CMD p = ACT_GET" "xbar_inv (cube_x s)"
  shows "okE (local_get par ll i p s) (\<lambda>(m, s'). advances ll i (cube_x s) m (cube_x s'))"
proof -
  obtain vm x vs ms where s: "s = (vm, x, vs, ms)" by (cases s)
  have a: "at_packet ll i p x" "xbar_inv x" using assms by (simp_all add: s)
  have "advances ll i x (if sent then Again else Next) x'"
    if "map_of (flowTable x) (DESTADRS p) = Some fe" "gather_children par ll p (child_links fe) x = Inr (sent, x')" for sent x' fe
    using gather_children_advances [OF that(2) a(1) assms(2) that(1)] flow_shape [OF a(2) that(1)] by simp
  then have "advances ll i x Again x'" if "map_of (flowTable x) (DESTADRS p) = Some fe" "gather_children par ll p (child_links fe) x = Inr (True, x')" for x' fe
    using that by fastforce
  moreover have "advances ll i x Next x'"
    if "map_of (flowTable x) (DESTADRS p) = Some fe" "gather_children par ll p (child_links fe) x = Inr (False, x')" for x' fe
    using gather_children_advances [OF that(2) a(1) assms(2) that(1)] flow_shape [OF a(2) that(1)] by simp
  ultimately show ?thesis using a(1) unfolding s
    by (auto simp: local_get_def wp intro: advances_here gather_done_advances split: option.split)
qed

lemma forwarded:
  assumes "okE r (\<lambda>(m, s'). advances ll i y m (cube_x s'))" "io_free y = io_free x" "flowTable y = flowTable x"
  shows "okE r (\<lambda>(m, s'). advances ll i x m (cube_x s'))"
  using assms(1) unfolding advances_cong [OF assms(2,3)] .

lemma split_mult_advances [advance_steps]:
  "at_packet ll i p (cube_x s) \<Longrightarrow> okE (split_mult par ll i p l1 l2 s) (\<lambda>(m, s'). advances ll i (cube_x s) m (cube_x s'))"
  by (cases s) (auto simp: split_mult_def wp Let_def intro: advances_here split_advances split: list.split)

lemma forward_mult_advances [advance_steps]:
  assumes "at_packet ll i p (cube_x s)" "CMD p = ACT_MULT"
  shows "okE (forward_mult par ll i p link s) (\<lambda>(m, s'). advances ll i (cube_x s) m (cube_x s'))"
proof -
  obtain vm x vs ms where s: "s = (vm, x, vs, ms)" by (cases s)
  have a: "at_packet ll i p x" and u: "is_update (Some p)" using assms by (simp_all add: s is_update_def)
  have y: "io_free y = io_free x \<and> flowTable y = flowTable x" if "route par d q x = Inr (x1, k)" "route par d' q' x1 = Inr (y, k')" for d q x1 k d' q' y k'
    using route_io_free [OF that(1)] route_io_free [OF that(2)] by simp
  have 1: "okE (split_mult par ll i p k k' (vm, y, vs, ms)) (\<lambda>(m, s'). advances ll i x m (cube_x s'))" if "io_free y = io_free x \<and> flowTable y = flowTable x" for y k k'
    using forwarded [OF split_mult_advances [of ll i p "(vm, y, vs, ms)"], of x] that a at_packet_cong [of y x ll i p] by simp
  have 2: "advances ll i x Again x'" if "pass_on par MAC ll i p k y = Inr x'" "io_free y = io_free x \<and> flowTable y = flowTable x" for y k x'
    using pass_on_advances [OF that(1) a u] that(2) by simp
  have 3: "advances ll i x Next y" if "io_free y = io_free x \<and> flowTable y = flowTable x" for y
    using advances_next_same [OF a, of y] that io_freeD [of y x] by simp
  show ?thesis using 1 2 3 unfolding s by (auto simp: forward_mult_def wp dest!: y)
qed

lemma advances_Leave: "advances ll i x m x' \<Longrightarrow> advances ll i x Leave x'"
  by (simp add: advances_def)

lemma forward_half_advances [advance_steps]:
  "at_packet ll i p (cube_x s) \<Longrightarrow> is_half (Some p) \<Longrightarrow> okE (forward_half par ll i p link s) (\<lambda>(m, s'). advances ll i (cube_x s) m (cube_x s'))"
  by (cases s) (auto simp: forward_half_def wp Let_def intro: advances_here advances_Leave [OF whole_again_advances] advances_Leave [OF advances_erase])

lemma forward_other_advances [advance_steps]:
  "at_packet ll i p (cube_x s) \<Longrightarrow> okE (forward_other par ll i p link s) (\<lambda>(m, s'). advances ll i (cube_x s) m (cube_x s'))"
  by (cases s) (auto simp: forward_other_def wp is_update_def intro: advances_here pass_on_advances advances_erase)

lemma local_packet_advances:
  "at_packet ll i p (cube_x s) \<Longrightarrow> xbar_inv (cube_x s) \<Longrightarrow> okE (local_packet par ll i p s) (\<lambda>(m, s'). advances ll i (cube_x s) m (cube_x s'))"
  by (cases s) (auto simp: local_packet_def wp is_half_def intro: divide_advances advance_steps [where s = "(vm, x, vs, ms)" for vm x vs ms, simplified])

lemma forward_packet_advances:
  assumes "at_packet ll i p (cube_x s)"
  shows "okE (forward_packet par ll i p s) (\<lambda>(m, s'). advances ll i (cube_x s) m (cube_x s'))"
proof -
  obtain vm x vs ms where s: "s = (vm, x, vs, ms)" by (cases s)
  have "at_packet ll i p y" "io_free y = io_free x" "flowTable y = flowTable x" if "route par d q x = Inr (y, k)" for d q y k
    using at_packet_cong [of y x] route_io_free [OF that] assms s by simp_all
  then show ?thesis unfolding s forward_packet_def
    by (auto simp: wp is_half_def intro!: advance_steps [where s = "(vm, x, vs, ms)" for vm x vs ms, simplified, THEN forwarded])
qed

text \<open>None of the operations diverges.\<close>

lemma local_ops_end [ends_simps]:
  "ends (local_add par ll i p s)" "ends (local_mult par ll i p s)" "ends (local_half par ll i p s)" "ends (local_get par ll i p s)"
  "ends (local_other par ll i p s)" "ends (split_mult par ll i p l1 l2 s)" "ends (forward_half par ll i p l s)" "ends (forward_other par ll i p l s)"
  by (cases s; auto simp: local_add_def local_mult_def local_half_def local_get_def local_other_def split_mult_def forward_half_def forward_other_def
      ends_simps okE_iff Let_def split: list.split option.split)+

lemma packet_ops_end [ends_simps]: "ends (local_packet par ll i p s)" "ends (forward_packet par ll i p s)"
  by (cases s; auto simp: local_packet_def forward_packet_def forward_mult_def ends_simps okE_iff)+

section \<open>The loop over the requests ends\<close>

definition down_loop_ok :: "nat \<Rightarrow> nat \<Rightarrow> (nat \<times> bool) \<times> ('v, 'm) cube \<Rightarrow> bool" where
  "down_loop_ok n ll s \<longleftrightarrow> xbar_inv (cube_x (snd s)) \<and> requests_sized (cube_x (snd s)) \<and> length (inputBuffers (cube_x (snd s))) = n \<and> ll < n"

definition down_state :: "nat \<Rightarrow> (nat \<times> bool) \<times> ('v, 'm) cube \<Rightarrow> nat \<times> nat \<times> nat \<times> nat \<times> nat \<times> nat" where
  "down_state ll s = (if snd (fst s) then 0 else 1, down_measure ll (fst (fst s)) (cube_x (snd s)))"

abbreviation down_rel :: "nat \<Rightarrow> (((nat \<times> bool) \<times> ('v, 'm) cube) \<times> (nat \<times> bool) \<times> ('v, 'm) cube) set" where
  "down_rel ll \<equiv> inv_image (less_than <*lex*> lex5) (down_state ll)"

lemma advances_rel:
  assumes "advances ll i x m (cube_x c)" "xbar_inv (cube_x c)" "length (inputBuffers x) = n" "ll < n"
  shows "down_loop_ok n ll (moved i m, c) \<and> ((moved i m, c), ((i, False), vm, x, vs, ms)) \<in> down_rel ll"
  using assms by (cases m) (auto simp: advances_def down_loop_ok_def down_state_def moved_def)

lemma empty_slot_rel:
  assumes "i < length (down_buf ll x)"
  shows "(((Suc i, False), vm, x, vs, ms), ((i, False), vm, x, vs, ms)) \<in> down_rel ll"
proof -
  have "length (drop (Suc i) (down_buf ll x)) < length (drop i (down_buf ll x))" using assms by simp
  then show ?thesis using filter_drop_le [of i "Suc i" is_half "down_buf ll x"] filter_drop_le [of i "Suc i" is_update "down_buf ll x"]
    by (auto simp: down_state_def down_measure_def Let_def simp del: length_drop)
qed

lemma down_packet_ends:
  assumes "down_active ll s" "down_loop_ok n ll s"
  shows "ends (down_packet par ll s) \<and> okE (down_packet par ll s) (\<lambda>t. down_loop_ok n ll t \<and> (t, s) \<in> down_rel ll)"
proof -
  obtain i vm x vs ms where s: "s = ((i, False), vm, x, vs, ms)" using assms(1) by (cases s) (auto simp: down_active_def)
  have i: "i < length (down_buf ll x)" "xbar_inv x" "requests_sized x" "length (inputBuffers x) = n" "ll < n"
    using assms by (simp_all add: s down_active_def down_loop_ok_def)
  show ?thesis
  proof (cases "down_buf ll x ! i")
    case None
    then show ?thesis using i empty_slot_rel [OF i(1), of vm vs ms] by (simp add: s down_packet_def ends_simps wp down_loop_ok_def)
  next
    case (Some p)
    then have a: "at_packet ll i p (cube_x (vm, x, vs, ms))" using i by (simp add: at_packet_def)
    define r where "r = (if for_this_cube p x then local_packet par ll i p (vm, x, vs, ms) else forward_packet par ll i p (vm, x, vs, ms))"
    have "okE r (\<lambda>(m, c). advances ll i x m (cube_x c))" "okE r (\<lambda>(m, c). xbar_inv (cube_x c))"
      using local_packet_advances [OF a, of par] forward_packet_advances [OF a, of par] local_packet_inv [of "(vm, x, vs, ms)" par ll i p]
        forward_packet_inv [of "(vm, x, vs, ms)" par ll i p] i(2) unfolding r_def by auto
    then have "okE r (\<lambda>(m, c). down_loop_ok n ll (moved i m, c) \<and> ((moved i m, c), s) \<in> down_rel ll)"
      using advances_rel [OF _ _ i(4,5)] by (fastforce simp: okE_iff s)
    moreover have "ends r" by (simp add: r_def ends_simps)
    ultimately show ?thesis using Some unfolding s down_packet_def r_def [symmetric] prod.case
      by (simp add: ends_simps wp case_prod_unfold r_def del: in_inv_image split: if_splits)
  qed
qed


lemma down_link_ends:
  assumes "xbar_inv (cube_x s)" "requests_sized (cube_x s)" "length (inputBuffers (cube_x s)) = n" "1 < n"
  shows "ends (down_link par l s) \<and> okE (down_link par l s) (\<lambda>t. xbar_inv (cube_x t) \<and> requests_sized (cube_x t) \<and> length (inputBuffers (cube_x t)) = n)"
    (is "_ \<and> okE _ ?Q")
proof -
  define ll where "ll = (downLink (cube_x s) + l) mod (length (inputBuffers (cube_x s)) - 1)"
  have "ll < n - 1" unfolding ll_def using assms(3,4) by simp
  then have "down_loop_ok n ll ((0, False), s)" using assms by (simp add: down_loop_ok_def)
  then have "ends (whileE (down_active ll) (down_packet par ll) ((0, False), s)) \<and> okE (whileE (down_active ll) (down_packet par ll) ((0, False), s)) (down_loop_ok n ll)"
  proof (rule whileE_ends_okE [where R = "down_rel ll"])
    show "ends (down_packet par ll t) \<and> okE (down_packet par ll t) (\<lambda>u. down_loop_ok n ll u \<and> (u, t) \<in> down_rel ll)"
      if "down_active ll t" "down_loop_ok n ll t" for t using down_packet_ends [OF that] .
  qed auto
  then have w: "ends (whileE (down_active ll) (down_packet par ll) ((0, False), s))"
    "okE (whileE (down_active ll) (down_packet par ll) ((0, False), s)) (\<lambda>t. ?Q (snd t))" by (auto simp: okE_def down_loop_ok_def split: sum.splits)
  have e: "down_link par l s = (if dv_bufPopDelay (inputBuffers (cube_x s) ! ll) = 0
      then bindE (whileE (down_active ll) (down_packet par ll) ((0, False), s)) (\<lambda>t. Inr (snd t)) else Inr s)"
    by (cases s) (simp add: down_link_def Let_def ll_def case_prod_unfold)
  show ?thesis unfolding e using w assms(1-3) by (simp add: ends_simps wp)
qed

lemma downstream_ends:
  assumes "xbar_inv x" "requests_sized x"
  shows "ends (downstream par (x, vs, ms))"
proof -
  let ?n = "length (inputBuffers x)" and ?s = "(replicate NUM_VAULTS False, x, vs, ms)"
  let ?P = "\<lambda>s. xbar_inv (cube_x s) \<and> requests_sized (cube_x s) \<and> length (inputBuffers (cube_x s)) = ?n"
  have "ends (foldE (down_link par) [0..<?n - 1] ?s) \<and> okE (foldE (down_link par) [0..<?n - 1] ?s) ?P"
  proof (rule foldE_ends)
    show "?P ?s" using assms by simp
    show "ends (down_link par l s) \<and> okE (down_link par l s) ?P" if "l \<in> set [0..<?n - 1]" "?P s" for l s
      using down_link_ends [of s ?n par l] that by auto
  qed
  then show ?thesis unfolding downstream_def prod.case ends_wp(3) by (simp add: ends_simps okE_def case_prod_unfold split: sum.splits)
qed

lemma one_ends [ends_simps]: "ends (consume_one i s)" "ends (gather_one par kf t)"
  by (cases s, auto simp: consume_one_def ends_simps okE_iff Let_def split: option.split Opcode.split,
      cases kf, cases t, auto simp: gather_one_def ends_simps okE_iff Let_def)

lemma foldE_always_ends: "(\<And>x s. ends (f x s)) \<Longrightarrow> ends (foldE f xs s)"
  using foldE_ends [of "\<lambda>_. True" s xs f] by (simp add: wp)

lemma engine_ends: "ends (consume_operands x)" "ends (gather_replies par s)"
  by (cases s, auto simp: consume_operands_def gather_replies_def ends_simps okE_iff intro: foldE_always_ends)

text \<open> C21. A cycle of a crossbar ends. Whatever the vaults and links are ready to take, the loops
  over the responses and the requests come to an end when every packet in the input buffers has at
  least one flit and the segments still to come cannot make the length of a response wrap. The
  result is then a new state or one of the errors the code can raise. \<close>

theorem CrossbarSwitch_Update_ends:
  assumes "xbar_inv x" "requests_sized x" "responses_fit par x"
  shows "CrossbarSwitch_Update par (x, vs, ms) \<noteq> Inl Diverges"
proof -
  have u: "ends (upstream par (x, ms))" "okE (upstream par (x, ms)) (\<lambda>(x', ms'). xbar_inv x' \<and> requests_sized x')"
    using upstream_ends [OF assms(3,2), of ms] upstream_inv [OF _ assms(1), of par ms] by (auto simp: okE_iff)
  then have "ends (CrossbarSwitch_Update par (x, vs, ms))"
    using downstream_ends engine_ends by (auto simp: CrossbarSwitch_Update_def ends_simps okE_iff)
  then show ?thesis by (simp add: ends_def)
qed

theorem CrossbarSwitch_Update_ends_witness:
  "down_buf 0 loaded_cube \<noteq> [] \<and> CrossbarSwitch_Update example_net (loaded_cube, replicate NUM_VAULTS (DualVectorObject 8 8 0), example_links) \<noteq> Inl Diverges"
proof -
  have "requests_sized loaded_cube" "responses_fit example_net loaded_cube" "down_buf 0 loaded_cube \<noteq> []" by code_simp+
  then show ?thesis using CrossbarSwitch_Update_ends [OF reach_inv [OF loaded_cube_reach]] by blast
qed

end
