(* ===== verification/Links.thy ===== *)
theory Links
  imports Active_Routing
begin

text \<open>
  The links: \<open>LinkMaster.cpp\<close>, \<open>Link.cpp\<close> and \<open>LinkSlave.cpp\<close>. A link master sends the packets of
  its buffers one at a time over a link to a link slave, which passes them on to a crossbar or a
  controller. A master sends only what the slave has room for: it counts tokens, one a flit, for
  requests and responses apart; the slave returns a packet's tokens when it has passed the packet on,
  in the next packet that the master beside it sends the other way, or in a packet of its own
  (\<open>TRET\<close>). With \<open>CRC_CHECK\<close> a packet is kept in the retry buffer until the other side has
  acknowledged it, and packets with a wrong checksum or sequence number start a retry.

  The standby buffers \<open>linkRxTx\<close> hold no null pointers, only packets are put into them. What the code
  computes in double precision (the cycles of a checksum, the time of a retry, the error probability)
  are parameters. The vectors of counters indexed by the link are one list of records.
\<close>

section \<open>Settings, statistics and state\<close>

definition MAX_LINK_BUF :: nat where "MAX_LINK_BUF = 32"
definition MAX_RETRY_BUF :: nat where "MAX_RETRY_BUF = 32"
definition NUM_OF_IRTRY :: nat where "NUM_OF_IRTRY = 2"
definition RETRY_ATTEMPT_LIMIT :: u32 where "RETRY_ATTEMPT_LIMIT = 2"

record link_par =
  lp_CRC_CHECK :: bool
  lp_crc_cycles :: "u32 \<Rightarrow> int"
  lp_retry_time :: "u32 \<Rightarrow> u32"
  lp_LINK_WIDTH :: u32
  lp_errorProba :: u32
  lp_raw :: packet
  lp_rnd :: "nat \<Rightarrow> u64"
  lp_garbage :: "nat \<Rightarrow> u64"

record link_count =
  downLinkTransmitSize :: u64
  upLinkTransmitSize :: u64
  downLinkDataSize :: u64
  upLinkDataSize :: u64
  linkActTransmitSize :: u64
  linkPasTransmitSize :: u64
  linkFlowTransmitSize :: u64
  readPerLink :: u64
  writePerLink :: u64
  atomicPerLink :: u64
  reqPerLink :: u64
  resPerLink :: u64
  flowPerLink :: u64
  errorPerLink :: u32

record link_statis =
  perLink :: "link_count list"
  errorRetryLat :: "u32 list"

definition link_zero :: link_count where
  "link_zero = \<lparr>downLinkTransmitSize = 0, upLinkTransmitSize = 0, downLinkDataSize = 0, upLinkDataSize = 0,
     linkActTransmitSize = 0, linkPasTransmitSize = 0, linkFlowTransmitSize = 0, readPerLink = 0, writePerLink = 0,
     atomicPerLink = 0, reqPerLink = 0, resPerLink = 0, flowPerLink = 0, errorPerLink = 0\<rparr>"

record link_master = dual_vector +
  m_downstream :: bool
  m_linkRxTx :: "packet list"
  upTokenCount :: u32
  downTokenCount :: u32
  lastestRRP :: u32
  backupBuffers :: pbuffer
  masterSEQ :: int
  m_countdownCRC :: int
  m_startCRC :: bool
  retryStartPacket :: "packet option"
  readyStartRetry :: bool
  startRetryTimer :: bool
  retryTimer :: u32
  retryAttempts :: u32
  retBufReadP :: u32
  retBufWriteP :: u32
  retryBuffers :: pbuffer

definition LinkMaster :: "bool \<Rightarrow> link_master" where
  "LinkMaster down = dual_vector.extend ((DualVectorObject MAX_LINK_BUF MAX_LINK_BUF 0)\<lparr>is_link := True\<rparr>)
     (link_master.fields down [] (of_nat MAX_LINK_BUF) (of_nat MAX_LINK_BUF) 0 [] 0 0 False None False False 0 1 0 0
       (replicate MAX_RETRY_BUF None))"

record link_slave = dual_vector +
  s_downstream :: bool
  s_linkRxTx :: "packet list"
  slaveSEQ :: int
  s_countdownCRC :: int
  s_startCRC :: bool
  linkSlaveID :: nat

definition LinkSlave :: "bool \<Rightarrow> nat \<Rightarrow> link_slave" where
  "LinkSlave down ID = dual_vector.extend ((DualVectorObject MAX_LINK_BUF MAX_LINK_BUF 0)\<lparr>is_link := True\<rparr>)
     (link_slave.fields down [] 0 0 False ID)"

record link =
  lk_downstream :: bool
  linkID :: nat
  inFlightPacket :: "packet option"
  inFlightCountdown :: u32
  lk_clock :: u64

definition Link :: "bool \<Rightarrow> nat \<Rightarrow> link" where
  "Link down ID = \<lparr>lk_downstream = down, linkID = ID, inFlightPacket = None, inFlightCountdown = 0, lk_clock = 0\<rparr>"

text \<open>A flow control packet: \<open>new Packet(FLOW, cmd, 0, 0, 1, NULL, 0, 0)\<close> with the tag of another.\<close>

definition flow_packet :: "link_par \<Rightarrow> bool \<Rightarrow> PacketCommandType \<Rightarrow> u32 \<Rightarrow> packet" where
  "flow_packet par downstream cmd tag = (let p = (fst (Packet_request (lp_CRC_CHECK par) (lp_rnd par) (lp_raw par) 0 FLOW cmd 0 0 1 None 0 0))\<lparr>TAG := tag\<rparr>
     in if downstream then p\<lparr>bufPopDelay := 0\<rparr> else p)"

section \<open>Link master\<close>

text \<open>The read pointer of the retry buffer moves up to an acknowledged packet.\<close>

definition next_slot :: "u32 \<Rightarrow> u32" where
  "next_slot i = (if i + 1 < of_nat MAX_RETRY_BUF then i + 1 else i + 1 - of_nat MAX_RETRY_BUF)"

definition UpdateRetryPointer :: "packet \<Rightarrow> link_master \<Rightarrow> link_master result" where
  "UpdateRetryPointer p m = whileE (\<lambda>m. retBufReadP m \<noteq> RRP p) (\<lambda>m.
     checkE (unat (retBufReadP m) < length (retryBuffers m)) (Undefined ''retryBuffers'')
       (Inr (m\<lparr>retryBuffers := (retryBuffers m)[unat (retBufReadP m) := None], retBufReadP := next_slot (retBufReadP m)\<rparr>))) m"

text \<open>An acknowledgement travels in the first packet of a buffer, or in a packet of its own.\<close>

definition first_packet :: "pbuffer \<Rightarrow> (packet \<Rightarrow> packet) \<Rightarrow> pbuffer result" where
  "first_packet buf f = (case buf of Some p # rest \<Rightarrow> Inr (Some (f p) # rest) | _ \<Rightarrow> Inl (Undefined ''null''))"

definition ReturnRetryPointer :: "link_par \<Rightarrow> packet \<Rightarrow> link_master \<Rightarrow> link_master result" where
  "ReturnRetryPointer par p m = (let m = m\<lparr>lastestRRP := FRP p\<rparr> in
     if upBuffers m \<noteq> [] then bindE (first_packet (upBuffers m) (\<lambda>q. q\<lparr>RRP := FRP p\<rparr>)) (\<lambda>buf. Inr (m\<lparr>upBuffers := buf\<rparr>))
     else if downBuffers m \<noteq> [] then bindE (first_packet (downBuffers m) (\<lambda>q. q\<lparr>RRP := FRP p\<rparr>)) (\<lambda>buf. Inr (m\<lparr>downBuffers := buf\<rparr>))
     else Inr (m\<lparr>m_linkRxTx := m_linkRxTx m @ [(flow_packet par (m_downstream m) PRET (TAG p))\<lparr>RRP := FRP p\<rparr>]\<rparr>))"

definition UpdateToken :: "packet \<Rightarrow> link_master \<Rightarrow> link_master result" where
  "UpdateToken p m =
     (let d = downTokenCount m + DRTC p; u = upTokenCount m + URTC p
      in checkE (DRTC p = 0 \<or> d \<le> of_nat MAX_LINK_BUF) (Exit ''DOWN TOKEN COUNT register is over the maximum'')
         (checkE (URTC p = 0 \<or> u \<le> of_nat MAX_LINK_BUF) (Exit ''UP TOKEN COUNT register is over the maximum'')
           (Inr (m\<lparr>downTokenCount := d, upTokenCount := u\<rparr>))))"

text \<open>The first packet of a buffer that is no acknowledgement, if there are tokens for it.\<close>

definition carrier :: "u32 \<Rightarrow> pbuffer \<Rightarrow> nat option" where
  "carrier tokens buf = (case first_index (\<lambda>q. case q of None \<Rightarrow> False | Some q \<Rightarrow> CMD q \<noteq> PRET \<and> CMD q \<noteq> IRTRY) buf of
     None \<Rightarrow> None | Some i \<Rightarrow> if LNG (the (buf ! i)) \<le> tokens then Some i else None)"

definition embed :: "u32 \<Rightarrow> u32 \<Rightarrow> packet \<Rightarrow> packet" where
  "embed d u q = (if d \<noteq> 0 then q\<lparr>DRTC := DRTC q + d\<rparr> else q\<lparr>URTC := URTC q + u\<rparr>)"

definition ReturnToken :: "link_par \<Rightarrow> packet \<Rightarrow> link_master \<Rightarrow> link_master result" where
  "ReturnToken par p m = checkE (packetType p = REQUEST \<or> packetType p = RESPONSE) (Assertion ''RESPONSE'')
     (let extDRTC = (if packetType p = REQUEST then LNG p else 0); extURTC = (if packetType p = REQUEST then 0 else LNG p)
      in case carrier (upTokenCount m) (upBuffers m) of
           Some i \<Rightarrow> checkE (extDRTC \<noteq> 0 \<or> extURTC \<noteq> 0) (Assertion ''extURTC'')
             (Inr (m\<lparr>upBuffers := (upBuffers m)[i := map_option (embed extDRTC extURTC) (upBuffers m ! i)]\<rparr>))
         | None \<Rightarrow> (case carrier (downTokenCount m) (downBuffers m) of
             Some i \<Rightarrow> checkE (extDRTC \<noteq> 0 \<or> extURTC \<noteq> 0) (Assertion ''extURTC'')
               (Inr (m\<lparr>downBuffers := (downBuffers m)[i := map_option (embed extDRTC extURTC) (downBuffers m ! i)]\<rparr>))
           | None \<Rightarrow> (let t = (flow_packet par (m_downstream m) TRET (TAG p))\<lparr>URTC := extURTC, DRTC := extDRTC\<rparr> in
               if currentState m = LINK_RETRY then Inr (m\<lparr>backupBuffers := backupBuffers m @ [Some t]\<rparr>)
               else if m_startCRC m
               then (case upBuffers m of Some q # rest \<Rightarrow> checkE (unat (LNG q) \<le> length (upBuffers m)) (Undefined ''insert'')
                       (Inr (m\<lparr>upBuffers := insert_at (unat (LNG q)) (Some t) (upBuffers m)\<rparr>))
                     | _ \<Rightarrow> Inl (Undefined ''null''))
               else Inr (m\<lparr>upBuffers := Some t # upBuffers m\<rparr>))))"

section \<open>The retry sequence\<close>

definition irtry :: "link_par \<Rightarrow> link_master \<Rightarrow> u32 \<Rightarrow> packet \<Rightarrow> packet list" where
  "irtry par m flag p = replicate NUM_OF_IRTRY ((flow_packet par (m_downstream m) IRTRY (TAG p))\<lparr>RRP := lastestRRP m, FRP := flag\<rparr>)"

definition StartRetry :: "link_par \<Rightarrow> packet \<Rightarrow> link_master \<Rightarrow> link_master" where
  "StartRetry par p m = (let m = m\<lparr>startRetryTimer := True, retryTimer := 0\<rparr> in
     if currentState m = LINK_RETRY then m\<lparr>readyStartRetry := True\<rparr>
     else m\<lparr>m_linkRxTx := irtry par m 1 p @ m_linkRxTx m, currentState := START_RETRY\<rparr>)"

text \<open>The saved packets go back into the buffers; their tokens are given back.\<close>

definition retry_slot :: "link_par \<Rightarrow> u32 \<times> bool \<times> u32 \<times> u32 \<times> link_master \<Rightarrow> (u32 \<times> bool \<times> u32 \<times> u32 \<times> link_master) result" where
  "retry_slot par s = (case s of (i, upPkt, u, d, m) \<Rightarrow>
     checkE (unat i < length (retryBuffers m)) (Undefined ''retryBuffers'')
      (let slot = map_option (\<lambda>q. (Packet_copy (lp_CRC_CHECK par) (lp_rnd par) (lp_raw par) q)\<lparr>bufPopDelay := (if m_downstream m then 0 else 1)\<rparr>)
              (retryBuffers m ! unat i);
           upPkt = (case slot of None \<Rightarrow> upPkt | Some q \<Rightarrow> packetType q \<noteq> REQUEST);
           u = (case slot of None \<Rightarrow> u | Some q \<Rightarrow> if packetType q = RESPONSE then u + LNG q else u);
           d = (case slot of None \<Rightarrow> d | Some q \<Rightarrow> if packetType q = REQUEST then d + LNG q else d);
           m = m\<lparr>retryBuffers := (retryBuffers m)[unat i := None]\<rparr>
       in Inr (next_slot i, upPkt, u, d,
            if upPkt then m\<lparr>upBuffers := upBuffers m @ [slot]\<rparr> else m\<lparr>downBuffers := downBuffers m @ [slot]\<rparr>)))"

definition LinkRetry :: "link_par \<Rightarrow> packet \<Rightarrow> link_master \<Rightarrow> link_master result" where
  "LinkRetry par p m =
     (let m = m\<lparr>m_startCRC := False, m_linkRxTx := m_linkRxTx m @ irtry par m 2 p, masterSEQ := 0,
            backupBuffers := backupBuffers m @ upBuffers m @ downBuffers m, upBuffers := [], downBuffers := []\<rparr>;
          r = retBufReadP m
      in checkE (unat r < length (retryBuffers m)) (Undefined ''retryBuffers'')
         (checkE (retryBuffers m ! unat r \<noteq> None) (Exit ''The first retry packet is NULL'')
         (checkE (r \<noteq> retBufWriteP m) (Exit ''Retry buffer has no packets to be transmitted for LINK RETRY sequence'')
         (bindE (whileE (\<lambda>(i, _). i \<noteq> retBufWriteP m) (retry_slot par) (r, False, 0, 0, m)) (\<lambda>(_, _, u, d, m).
            Inr (m\<lparr>upTokenCount := upTokenCount m + u, downTokenCount := downTokenCount m + d, retBufWriteP := r,
              currentState := LINK_RETRY\<rparr>))))))"

definition FinishRetry :: "link_par \<Rightarrow> link_master \<times> link_statis \<Rightarrow> link_master \<times> link_statis" where
  "FinishRetry par s = (case s of (m, st) \<Rightarrow>
     (m\<lparr>currentState := NORMAL, retryStartPacket := None, retryAttempts := 1, startRetryTimer := False, retryTimer := 0\<rparr>,
      st\<lparr>errorRetryLat := errorRetryLat st @ [if m_downstream m then retryTimer m else lp_retry_time par (retryTimer m)]\<rparr>))"

section \<open>The update of a master\<close>

text \<open>
  Sequence number, acknowledgement, checksum and tokens of a packet that goes out. The buffer it is
  taken from is told by its type; \<open>upBuffers\<close> hold responses and flow packets, \<open>downBuffers\<close> requests.
\<close>

definition save_retry :: "link_par \<Rightarrow> packet \<Rightarrow> link_master \<Rightarrow> link_master result" where
  "save_retry par p m = (let w = unat (retBufWriteP m) in
     checkE (w < length (retryBuffers m)) (Undefined ''retryBuffers'')
      (checkE (retryBuffers m ! w = None) (Exit ''retryBuffers is not NULL'')
        (bindE (foldE (\<lambda>i buf. let j = (if w + i < MAX_RETRY_BUF then w + i else w + i - MAX_RETRY_BUF) in
                  checkE (j < length buf) (Undefined ''retryBuffers'') (Inr (buf[j := None])))
                [1..<unat (LNG p)] ((retryBuffers m)[w := Some (Packet_copy (lp_CRC_CHECK par) (lp_rnd par) (lp_raw par) p)]))
          (\<lambda>buf. Inr (m\<lparr>retryBuffers := buf, retBufWriteP := FRP p\<rparr>)))))"

definition UpdateField :: "link_par \<Rightarrow> int \<Rightarrow> packet \<Rightarrow> link_master \<Rightarrow> link_master result" where
  "UpdateField par nextWriteP p m =
     (let (s, n) = (if masterSEQ m < 7 then (masterSEQ m, masterSEQ m + 1) else (0, masterSEQ m));
          p = p\<lparr>SEQ := word_of_int s, RRP := lastestRRP m,
                FRP := word_of_int (if nextWriteP < int MAX_RETRY_BUF then nextWriteP else nextWriteP - int MAX_RETRY_BUF)\<rparr>;
          m = m\<lparr>masterSEQ := n, m_startCRC := False\<rparr>
      in bindE (if lp_CRC_CHECK par then bindE (GetCRC (lp_garbage par) p) (\<lambda>c. Inr (p\<lparr>CRC := c\<rparr>)) else Inr p) (\<lambda>p.
         (let m = (if packetType p = REQUEST then m\<lparr>downTokenCount := downTokenCount m - LNG p\<rparr>
                   else if packetType p = RESPONSE then m\<lparr>upTokenCount := upTokenCount m - LNG p\<rparr> else m)
          in bindE (if lp_CRC_CHECK par then save_retry par p m else Inr m) (\<lambda>m.
             (let m = m\<lparr>m_linkRxTx := m_linkRxTx m @ [p\<lparr>bufPopDelay := 1\<rparr>]\<rparr>; n = unat (LNG p) in
              if packetType p = REQUEST
              then checkE (n \<le> length (downBuffers m)) (Undefined ''erase'') (Inr (m\<lparr>downBuffers := drop n (downBuffers m)\<rparr>))
              else checkE (n \<le> length (upBuffers m)) (Undefined ''erase'') (Inr (m\<lparr>upBuffers := drop n (upBuffers m)\<rparr>)))))))"

definition CRCCountdown :: "link_par \<Rightarrow> int \<Rightarrow> packet \<Rightarrow> link_master \<Rightarrow> link_master result" where
  "CRCCountdown par writeP p m =
     (let m = (if lp_CRC_CHECK par \<and> \<not> m_startCRC m then m\<lparr>m_startCRC := True, m_countdownCRC := lp_crc_cycles par (LNG p)\<rparr> else m)
      in bindE (if lp_CRC_CHECK par \<and> m_countdownCRC m > 0 then Inr m else UpdateField par writeP p m) (\<lambda>m.
           Inr (m\<lparr>m_countdownCRC := dec_sat (m_countdownCRC m)\<rparr>)))"

text \<open>Room for the packet in the retry buffer.\<close>

definition retry_room :: "int \<Rightarrow> link_master \<Rightarrow> bool" where
  "retry_room tempWriteP m \<longleftrightarrow> (if retBufWriteP m \<ge> retBufReadP m then tempWriteP - uint (retBufReadP m) < int MAX_RETRY_BUF
     else uint (retBufReadP m) - tempWriteP > 0)"

definition send_front :: "link_par \<Rightarrow> bool \<Rightarrow> link_master \<Rightarrow> link_master result" where
  "send_front par up m = (case (if up then upBuffers m else downBuffers m) of
     [] \<Rightarrow> Inr m
   | None # _ \<Rightarrow> Inl (Exit ''Buffers[0] is NULL'')
   | Some p # _ \<Rightarrow>
       if bufPopDelay p = 0 \<and> m_linkRxTx m = [] \<and> (packetType p = FLOW \<or> LNG p \<le> (if up then upTokenCount m else downTokenCount m))
       then (let tempWriteP = uint (retBufWriteP m + LNG p) in
         if \<not> lp_CRC_CHECK par \<or> retry_room tempWriteP m then CRCCountdown par tempWriteP p m else Inr m)
       else Inr m)"

text \<open>The packets set aside during a retry go back into the buffers of their kind.\<close>

fun restore :: "bool \<Rightarrow> pbuffer \<Rightarrow> pbuffer \<Rightarrow> pbuffer \<Rightarrow> pbuffer \<times> pbuffer" where
  "restore upPkt [] up down = (up, down)"
| "restore upPkt (q # qs) up down =
     (let upPkt = (case q of None \<Rightarrow> upPkt | Some q \<Rightarrow> packetType q \<noteq> REQUEST) in
      if upPkt then restore upPkt qs (up @ [q]) down else restore upPkt qs up (down @ [q]))"

definition finish_link_retry :: "link_par \<Rightarrow> link_master \<Rightarrow> link_master result" where
  "finish_link_retry par m =
     (if currentState m = LINK_RETRY \<and> upBuffers m = [] \<and> downBuffers m = [] \<and> m_linkRxTx m = []
      then bindE (if readyStartRetry m
              then (case retryStartPacket m of None \<Rightarrow> Inl (Undefined ''retryStartPacket'')
                | Some p \<Rightarrow> Inr (m\<lparr>readyStartRetry := False, m_linkRxTx := irtry par m 1 p, currentState := START_RETRY\<rparr>))
              else Inr (m\<lparr>currentState := NORMAL\<rparr>)) (\<lambda>m.
            (case restore False (backupBuffers m) [] [] of (up, down) \<Rightarrow> Inr (m\<lparr>upBuffers := up, downBuffers := down, backupBuffers := []\<rparr>)))
      else Inr m)"

definition retry_time_out :: "link_par \<Rightarrow> link_master \<times> link_statis \<Rightarrow> (link_master \<times> link_statis) result" where
  "retry_time_out par s = (case s of (m, st) \<Rightarrow> (let m = (if startRetryTimer m then m\<lparr>retryTimer := retryTimer m + 1\<rparr> else m) in
     if retryTimer m > of_nat (MAX_RETRY_BUF * 4)
     then (if retryAttempts m = RETRY_ATTEMPT_LIMIT then Inr (FinishRetry par (m, st))
           else (case retryStartPacket m of None \<Rightarrow> Inl (Undefined ''retryStartPacket'')
             | Some p \<Rightarrow> Inr (StartRetry par p (m\<lparr>retryAttempts := retryAttempts m + 1\<rparr>), st)))
     else Inr (m, st)))"

definition LinkMaster_Update :: "link_par \<Rightarrow> link_master \<times> link_statis \<Rightarrow> (link_master \<times> link_statis) result" where
  "LinkMaster_Update par s = (case s of (m, st) \<Rightarrow>
     bindE (send_front par True m) (\<lambda>m. bindE (send_front par False m) (\<lambda>m. bindE (finish_link_retry par m) (\<lambda>m.
     bindE (retry_time_out par (m, st)) (\<lambda>(m, st). Inr (dual_Step m, st))))))"

section \<open>Link\<close>

text \<open>The comparisons \<open>lo <= CMD && CMD <= hi\<close> on the codes of the commands.\<close>

definition cmd_range :: "PacketCommandType \<Rightarrow> PacketCommandType \<Rightarrow> PacketCommandType \<Rightarrow> bool" where
  "cmd_range lo hi c \<longleftrightarrow> cmd_code lo \<le> cmd_code c \<and> cmd_code c \<le> cmd_code hi"

definition UpdateStatistic :: "link \<Rightarrow> link_master \<Rightarrow> packet \<Rightarrow> tran_trace list \<times> link_statis \<Rightarrow> (tran_trace list \<times> link_statis) result" where
  "UpdateStatistic l m p s = (case s of (traces, st) \<Rightarrow>
     checkE (linkID l < length (perLink st)) (Undefined ''linkID'')
      (let c = perLink st ! linkID l; n = ucast (LNG p * 16); k = ucast ((LNG p - 1) * 16);
           c = (if lk_downstream l then c\<lparr>downLinkTransmitSize := downLinkTransmitSize c + n,
                    downLinkDataSize := (if LNG p > 1 then downLinkDataSize c + k else downLinkDataSize c)\<rparr>
                else c\<lparr>upLinkTransmitSize := upLinkTransmitSize c + n,
                    upLinkDataSize := (if LNG p > 1 then upLinkDataSize c + k else upLinkDataSize c)\<rparr>);
           c = (if cmd_range ACT_ADD ACT_GET (CMD p) then c\<lparr>linkActTransmitSize := linkActTransmitSize c + n\<rparr>
                else if cmd_range NULL_CMD IRTRY (CMD p) then c\<lparr>linkFlowTransmitSize := linkFlowTransmitSize c + n\<rparr>
                else c\<lparr>linkPasTransmitSize := linkPasTransmitSize c + n\<rparr>);
           put = (\<lambda>c. st\<lparr>perLink := (perLink st)[linkID l := c]\<rparr>)
       in case packetType p of
            REQUEST \<Rightarrow>
              if CMD p = ACT_GET then Inr (traces, put c)
              else (case trace p of None \<Rightarrow> Inl (Undefined ''trace'')
                | Some t \<Rightarrow> checkE (t < length traces) (Undefined ''trace'')
                    (let c = c\<lparr>reqPerLink := reqPerLink c + 1\<rparr>;
                         c = (if cmd_range WR16 MD_WR (CMD p) \<or> CMD p = WR256 \<or> cmd_range P_WR16 P_WR128 (CMD p) \<or> CMD p = P_WR256
                              then c\<lparr>writePerLink := writePerLink c + 1\<rparr>
                              else if cmd_range RD16 RD128 (CMD p) \<or> CMD p = RD256 \<or> CMD p = MD_RD
                              then c\<lparr>readPerLink := readPerLink c + 1\<rparr>
                              else c\<lparr>atomicPerLink := atomicPerLink c + 1\<rparr>)
                     in Inr (traces[t := (traces ! t)\<lparr>linkTransmitTime := ucast (currentClockCycle m)\<rparr>], put c)))
          | RESPONSE \<Rightarrow> Inr (traces, put (c\<lparr>resPerLink := resPerLink c + 1\<rparr>))
          | FLOW \<Rightarrow> Inr (traces, put (c\<lparr>flowPerLink := flowPerLink c + 1\<rparr>))))"

text \<open>A bit error inverts the checksum; \<open>rnd\<close> are the values \<open>rand()\<close> returns.\<close>

definition NoisePacket :: "link_par \<Rightarrow> (nat \<Rightarrow> u32) \<Rightarrow> packet \<Rightarrow> packet result" where
  "NoisePacket par rnd p =
     (if CMD p = ACT_GET then Inr p
      else checkE (LNG p = 0 \<or> lp_errorProba par \<noteq> 0) (Undefined ''modulo'')
        (Inr (if list_ex (\<lambda>i. rnd (2 * i) mod lp_errorProba par = 0 \<and> rnd (2 * i + 1) mod lp_errorProba par = 0) [0..<unat (LNG p)]
              then p\<lparr>CRC := NOT (CRC p)\<rparr> else p)))"

type_synonym wire = "link \<times> link_master \<times> link_slave \<times> tran_trace list \<times> link_statis"

definition start_transmission :: "link_par \<Rightarrow> wire \<Rightarrow> wire result" where
  "start_transmission par w = (case w of (l, m, s, traces, st) \<Rightarrow> (case m_linkRxTx m of
     [] \<Rightarrow> Inr w
   | p # rest \<Rightarrow>
       if bufPopDelay p = 0 \<and> inFlightPacket l = None \<and> (currentState m = NORMAL \<or> currentState m = LINK_RETRY
            \<or> currentState m = START_RETRY \<and> CMD p = IRTRY \<and> FRP p = 1)
       then checkE (lp_LINK_WIDTH par \<noteq> 0) (Undefined ''LINK_WIDTH'')
         (bindE (UpdateStatistic l m p (traces, st)) (\<lambda>(traces, st).
            Inr (l\<lparr>inFlightPacket := Some p, inFlightCountdown := LNG p * 128 div lp_LINK_WIDTH par\<rparr>, m\<lparr>m_linkRxTx := rest\<rparr>, s, traces, st)))
       else Inr w))"

definition transmit :: "link_par \<Rightarrow> (nat \<Rightarrow> u32) \<Rightarrow> wire \<Rightarrow> wire result" where
  "transmit par rnd w = (case w of (l, m, s, traces, st) \<Rightarrow>
     if inFlightCountdown l > 0
     then (let l = l\<lparr>inFlightCountdown := inFlightCountdown l - 1\<rparr> in
       if inFlightCountdown l = 0
       then (case inFlightPacket l of None \<Rightarrow> Inl (Undefined ''inFlightPacket'')
         | Some p \<Rightarrow> bindE (NoisePacket par rnd p) (\<lambda>p.
             (let s = s\<lparr>s_linkRxTx := s_linkRxTx s @ [p\<lparr>bufPopDelay := 1\<rparr>]\<rparr>; l = l\<lparr>inFlightPacket := None\<rparr> in
              if packetType p = RESPONSE
              then (case trace p of None \<Rightarrow> Inl (Undefined ''trace'')
                | Some t \<Rightarrow> checkE (t < length traces) (Undefined ''trace'')
                    (Inr (l, m, s, traces[t := (traces ! t)\<lparr>linkFullLat := ucast (currentClockCycle s - ucast (linkTransmitTime (traces ! t)))\<rparr>], st)))
              else Inr (l, m, s, traces, st))))
       else Inr (l, m, s, traces, st))
     else Inr w)"

definition tick_packets :: "packet list \<Rightarrow> packet list" where
  "tick_packets = map (\<lambda>p. p\<lparr>bufPopDelay := dec_sat (bufPopDelay p)\<rparr>)"

definition Link_Update :: "link_par \<Rightarrow> (nat \<Rightarrow> u32) \<Rightarrow> bool \<Rightarrow> wire \<Rightarrow> wire result" where
  "Link_Update par rnd lastUpdate w =
     bindE (start_transmission par w) (\<lambda>w. bindE (transmit par rnd w) (\<lambda>(l, m, s, traces, st).
       Inr (l\<lparr>lk_clock := lk_clock l + 1\<rparr>, (if lastUpdate then m\<lparr>m_linkRxTx := tick_packets (m_linkRxTx m)\<rparr> else m), s, traces, st)))"

section \<open>Link slave\<close>

text \<open>The callbacks of a slave: flow packets do not come here, and a full buffer is a lost packet.\<close>

definition slave_receive :: "packet \<Rightarrow> link_slave \<Rightarrow> link_slave result" where
  "slave_receive p s = (case (if packetType p = REQUEST then ReceiveDown p s else ReceiveUp p s) of (ok, s) \<Rightarrow>
     checkE (packetType p \<noteq> FLOW) (Exit ''flow packet is not meant to be here'')
      (checkE ok (Exit ''packet is missed, because link slave buffer is FULL'') (Inr s)))"

definition CheckNoError :: "link_par \<Rightarrow> packet \<Rightarrow> link_slave \<Rightarrow> (bool \<times> link_slave) result" where
  "CheckNoError par p s =
     (let (q, n) = (if slaveSEQ s < 7 then (slaveSEQ s, slaveSEQ s + 1) else (0, slaveSEQ s)); s = s\<lparr>slaveSEQ := n\<rparr>; same = (SEQ p = word_of_int q)
      in if lp_CRC_CHECK par then bindE (GetCRC (lp_garbage par) p) (\<lambda>c. Inr (CRC p = c \<and> same, s)) else Inr (same, s))"

type_synonym rx = "bool \<times> link_slave \<times> link_master \<times> link_statis"

definition rx_done :: "nat \<Rightarrow> link_slave \<Rightarrow> link_slave" where
  "rx_done i s = s\<lparr>s_linkRxTx := erase_at i (s_linkRxTx s)\<rparr>"

text \<open>A packet without an error: acknowledge it, take the tokens it carries, put it into a buffer.\<close>

definition accept :: "link_par \<Rightarrow> nat \<Rightarrow> packet \<Rightarrow> link_slave \<times> link_master \<times> link_statis \<Rightarrow> rx result" where
  "accept par i p s = (case s of (s, m, st) \<Rightarrow>
     bindE (ReturnRetryPointer par p m) (\<lambda>m. bindE (UpdateToken p m) (\<lambda>m.
     bindE (if CMD p \<noteq> TRET then slave_receive p s else Inr s) (\<lambda>s. Inr (True, rx_done i s, m, st)))))"

definition error_abort :: "link_par \<Rightarrow> packet \<Rightarrow> link_slave \<times> link_master \<times> link_statis \<Rightarrow> rx result" where
  "error_abort par p s = (case s of (s, m, st) \<Rightarrow>
     checkE (retryStartPacket m = None) (Exit ''localLinkMaster->retryStartPacket is NOT NULL'')
      (checkE (linkSlaveID s < length (perLink st)) (Undefined ''linkSlaveID'')
        (let m = StartRetry par p (m\<lparr>retryStartPacket := Some (Packet_copy (lp_CRC_CHECK par) (lp_rnd par) (lp_raw par) p)\<rparr>);
             c = perLink st ! linkSlaveID s
         in Inr (False, s\<lparr>s_linkRxTx := [], currentState := START_RETRY, s_startCRC := False, s_countdownCRC := dec_sat (s_countdownCRC s)\<rparr>,
              m, st\<lparr>perLink := (perLink st)[linkSlaveID s := c\<lparr>errorPerLink := errorPerLink c + 1\<rparr>]\<rparr>))))"

text \<open>The check of the packet; a packet that waits for its checksum stays.\<close>

definition check_packet :: "link_par \<Rightarrow> nat \<Rightarrow> packet \<Rightarrow> link_slave \<times> link_master \<times> link_statis \<Rightarrow> rx result" where
  "check_packet par i p s = (case s of (s, m, st) \<Rightarrow>
     (let s = (if lp_CRC_CHECK par \<and> \<not> s_startCRC s then s\<lparr>s_startCRC := True, s_countdownCRC := lp_crc_cycles par (LNG p)\<rparr> else s) in
      if lp_CRC_CHECK par \<and> s_countdownCRC s > 0
      then Inr (False, s\<lparr>s_linkRxTx := (s_linkRxTx s)[i := p], s_countdownCRC := dec_sat (s_countdownCRC s)\<rparr>, m, st)
      else (let p = p\<lparr>chkCRC := True\<rparr> in bindE (CheckNoError par p s) (\<lambda>(ok, s).
        if ok then accept par i p (s, m, st) else error_abort par p (s, m, st)))))"

definition retry_packet :: "link_par \<Rightarrow> nat \<Rightarrow> packet \<Rightarrow> link_slave \<times> link_master \<times> link_statis \<Rightarrow> rx result" where
  "retry_packet par i p s = (case s of (s, m, st) \<Rightarrow>
     bindE (UpdateRetryPointer p m) (\<lambda>m.
       if FRP p = 1
       then bindE (if currentState m \<noteq> LINK_RETRY then LinkRetry par p m else Inr m) (\<lambda>m. Inr (True, rx_done i s, m, st))
       else if FRP p = 2 \<and> currentState m \<noteq> NORMAL
       then (case FinishRetry par (m, st) of (m, st) \<Rightarrow> Inr (True, rx_done i (s\<lparr>currentState := NORMAL, slaveSEQ := 0\<rparr>), m, st))
       else Inr (True, rx_done i s, m, st)))"

text \<open>The body of the loop over the packets that have come in; the flag tells that it was left.\<close>

definition rx_packet :: "link_par \<Rightarrow> nat \<Rightarrow> rx \<Rightarrow> rx result" where
  "rx_packet par i r = (case r of (stop, s, m, st) \<Rightarrow>
     if stop \<or> i \<ge> length (s_linkRxTx s) then Inr r
     else (let p = s_linkRxTx s ! i in
       if bufPopDelay p \<noteq> 0 then Inr r
       else if CMD p = IRTRY then retry_packet par i p (s, m, st)
       else if currentState s = START_RETRY then Inr (True, rx_done i s, m, st)
       else bindE (if chkRRP p then Inr m else UpdateRetryPointer p m) (\<lambda>m.
         if \<not> chkRRP p \<and> CMD p = PRET then Inr (True, rx_done i s, m, st)
         else if chkCRC p then Inr (False, s\<lparr>s_linkRxTx := (s_linkRxTx s)[i := p\<lparr>chkRRP := True\<rparr>]\<rparr>, m, st)
         else check_packet par i (p\<lparr>chkRRP := True\<rparr>) (s, m, st))))"

text \<open>Passing a packet on to the crossbar or the controller returns its tokens.\<close>

definition pass_up :: "link_par \<Rightarrow> link_slave \<times> link_master \<times> 'd dual_vector_scheme \<Rightarrow>
    (bool \<times> link_slave \<times> link_master \<times> 'd dual_vector_scheme) result" where
  "pass_up par s = (case s of (s, m, d) \<Rightarrow> (case upBuffers s of
     [] \<Rightarrow> Inr (False, s, m, d)
   | None # _ \<Rightarrow> Inl (Undefined ''null'')
   | Some p # _ \<Rightarrow> (case ReceiveUp p d of (ok, d) \<Rightarrow>
       if ok then bindE (ReturnToken par p m) (\<lambda>m. checkE (unat (LNG p) \<le> length (upBuffers s)) (Undefined ''erase'')
                (Inr (True, s\<lparr>upBuffers := drop (unat (LNG p)) (upBuffers s)\<rparr>, m, d)))
       else Inr (False, s, m, d))))"

definition pass_down :: "link_par \<Rightarrow> link_slave \<times> link_master \<times> 'd dual_vector_scheme \<Rightarrow>
    (link_slave \<times> link_master \<times> 'd dual_vector_scheme) result" where
  "pass_down par s = (case s of (s, m, d) \<Rightarrow> (case downBuffers s of
     [] \<Rightarrow> Inr (s, m, d)
   | q # _ \<Rightarrow> checkE (s_downstream s) (Assertion ''downstream'')
       (case q of None \<Rightarrow> Inl (Undefined ''null'')
        | Some p \<Rightarrow> (case ReceiveDown p d of (ok, d) \<Rightarrow>
            if ok then bindE (ReturnToken par p m) (\<lambda>m. checkE (unat (LNG p) \<le> length (downBuffers s)) (Undefined ''erase'')
                     (Inr (s\<lparr>downBuffers := drop (unat (LNG p)) (downBuffers s)\<rparr>, m, d)))
            else Inr (s, m, d)))))"

definition slave_receives :: "link_par \<Rightarrow> link_slave \<times> link_master \<times> link_statis \<Rightarrow> (link_slave \<times> link_master \<times> link_statis) result" where
  "slave_receives par s = (case s of (s, m, st) \<Rightarrow>
     bindE (foldE (rx_packet par) [0..<length (s_linkRxTx s)] (False, s, m, st)) (\<lambda>(_, s, m, st). Inr (s, m, st)))"

definition LinkSlave_Update :: "link_par \<Rightarrow> link_slave \<times> link_master \<times> link_statis \<times> 'd dual_vector_scheme \<Rightarrow>
    (link_slave \<times> link_master \<times> link_statis \<times> 'd dual_vector_scheme) result" where
  "LinkSlave_Update par s = (case s of (s, m, st, d) \<Rightarrow>
     bindE (slave_receives par (s, m, st)) (\<lambda>(s, m, st).
     bindE (pass_up par (s, m, d)) (\<lambda>(up_sent, s, m, d).
     bindE (if up_sent then Inr (s, m, d) else pass_down par (s, m, d)) (\<lambda>(s, m, d).
       Inr ((dual_Step s)\<lparr>s_linkRxTx := tick_packets (s_linkRxTx s)\<rparr>, m, st, d)))))"

section \<open>The choice of a link\<close>

datatype link_priority = ROUND_ROBIN | BUFFER_AWARE

definition FindAvailableLink :: "link_priority \<Rightarrow> int \<Rightarrow> link_master list \<Rightarrow> int \<times> int" where
  "FindAvailableLink prio link LM = (case prio of
     ROUND_ROBIN \<Rightarrow> (let link = (if link + 1 \<ge> int (length LM) then 0 else link + 1) in (link, link))
   | BUFFER_AWARE \<Rightarrow>
       (let size = (\<lambda>m. length (upBuffers m) + length (downBuffers m) + sum_list (map (\<lambda>p. unat (LNG p)) (m_linkRxTx m)));
            best = fold (\<lambda>l (n, k). if size (LM ! l) < n then (size (LM ! l), l) else (n, k)) [0..<length LM] (MAX_LINK_BUF, 0)
        in (int (snd best), link)))"

end
