(* ===== verification/Link_Flow.thy ===== *)
theory Link_Flow
  imports Links
begin

text \<open>
  Flow control of a link without checksums (\<open>CRC_CHECK\<close> off, as it is configured). Two link ends,
  each with a master, a slave and the link it sends over, and every interleaving of their updates:
  the tokens of a class are conserved, so that a slave always has room for what comes in; no update
  fails; and what a master has accepted arrives once and in order.
\<close>

section \<open>Results that are there\<close>

definition runs :: "'a result \<Rightarrow> ('a \<Rightarrow> bool) \<Rightarrow> bool" where
  "runs r P = (case r of Inl e \<Rightarrow> False | Inr y \<Rightarrow> P y)"

named_theorems runs_simps \<open>an operation succeeds with a result that has a property, by its structure\<close>

lemma runs_wp [runs_simps]:
  "runs (Inl e) P = False" "runs (Inr y) P = P y" "runs (bindE q f) P = runs q (\<lambda>z. runs (f z) P)" "runs (checkE b e r) P \<longleftrightarrow> b \<and> runs r P"
  by (auto simp: runs_def bindE_def checkE_def split: sum.splits)

lemma runs_cases [runs_simps]:
  "runs (case q of (a, b) \<Rightarrow> f a b) P = (case q of (a, b) \<Rightarrow> runs (f a b) P)" "runs (if c then r else r') P = (if c then runs r P else runs r' P)"
  "runs (case xs of [] \<Rightarrow> r | y # ys \<Rightarrow> g y ys) P = (case xs of [] \<Rightarrow> runs r P | y # ys \<Rightarrow> runs (g y ys) P)"
  "runs (case v of None \<Rightarrow> r | Some w \<Rightarrow> h w) P = (case v of None \<Rightarrow> runs r P | Some w \<Rightarrow> runs (h w) P)"
  by (simp_all split: prod.split list.split option.split)

lemma runs_mono: "runs r P \<Longrightarrow> (\<And>y. P y \<Longrightarrow> Q y) \<Longrightarrow> runs r Q"
  by (auto simp: runs_def split: sum.splits)

lemma runsE: assumes "runs r P" obtains y where "r = Inr y" "P y"
  using assms by (auto simp: runs_def split: sum.splits)

lemma runsD: "runs r P \<Longrightarrow> r = Inr y \<Longrightarrow> P y"
  by (simp add: runs_def)

section \<open>The two classes of packets\<close>

datatype cls = Req | Resp

primrec ty :: "cls \<Rightarrow> PacketType" where
  "ty Req = REQUEST" | "ty Resp = RESPONSE"

primrec tok :: "cls \<Rightarrow> link_master \<Rightarrow> u32" where
  "tok Req m = downTokenCount m" | "tok Resp m = upTokenCount m"

primrec rtc :: "cls \<Rightarrow> packet \<Rightarrow> u32" where
  "rtc Req p = DRTC p" | "rtc Resp p = URTC p"

primrec sbuf :: "cls \<Rightarrow> 'a dual_vector_scheme \<Rightarrow> pbuffer" where
  "sbuf Req s = downBuffers s" | "sbuf Resp s = upBuffers s"

definition of_cls :: "cls \<Rightarrow> packet list \<Rightarrow> packet list" where
  "of_cls c = filter (\<lambda>p. packetType p = ty c)"

lemma all_cls: "(\<forall>c. P c) \<longleftrightarrow> P Req \<and> P Resp"
  by (metis cls.exhaust)

lemma ty_not_flow [simp]: "ty c \<noteq> FLOW" "FLOW \<noteq> ty c"
  by (cases c; simp)+

text \<open>The flits of a class in a list of packets, and the tokens the packets carry back.\<close>

definition load :: "cls \<Rightarrow> packet list \<Rightarrow> nat" where
  "load c ps = flits (of_cls c ps)"

definition carried :: "cls \<Rightarrow> packet list \<Rightarrow> nat" where
  "carried c ps = sum_list (map (\<lambda>p. unat (rtc c p)) ps)"

lemma view_simps [simp]:
  "of_cls c [] = []" "of_cls c (ps @ qs) = of_cls c ps @ of_cls c qs"
  "load c [] = 0" "load c (ps @ qs) = load c ps + load c qs" "load c (p # ps) = (if packetType p = ty c then unat (LNG p) else 0) + load c ps"
  "carried c [] = 0" "carried c (ps @ qs) = carried c ps + carried c qs" "carried c (p # ps) = unat (rtc c p) + carried c ps"
  by (simp_all add: of_cls_def load_def carried_def)

lemma of_cls_Cons: "of_cls c (p # ps) = (if packetType p = ty c then [p] else []) @ of_cls c ps"
  by (simp add: of_cls_def)

text \<open>What a link does not change in a packet.\<close>

definition strip :: "packet \<Rightarrow> packet" where
  "strip p = p\<lparr>SEQ := 0, RRP := 0, FRP := 0, CRC := 0, bufPopDelay := 0, DRTC := 0, URTC := 0, chkRRP := False, chkCRC := False\<rparr>"

lemma strip_simps [simp]:
  "strip (p\<lparr>SEQ := a\<rparr>) = strip p" "strip (p\<lparr>RRP := a\<rparr>) = strip p" "strip (p\<lparr>FRP := a\<rparr>) = strip p" "strip (p\<lparr>CRC := a\<rparr>) = strip p"
  "strip (p\<lparr>bufPopDelay := n\<rparr>) = strip p" "strip (p\<lparr>DRTC := a\<rparr>) = strip p" "strip (p\<lparr>URTC := a\<rparr>) = strip p"
  "strip (p\<lparr>chkRRP := b\<rparr>) = strip p" "strip (p\<lparr>chkCRC := b\<rparr>) = strip p"
  by (simp_all add: strip_def)

lemma stripD: "strip p = strip q \<Longrightarrow> packetType p = packetType q \<and> LNG p = LNG q \<and> CMD p = CMD q"
  by (cases p; cases q) (simp add: strip_def)

section \<open>The retry pointer\<close>

lemma next_slot_bound: "i < 32 \<Longrightarrow> next_slot i < 32 \<and> unat (next_slot i) = (unat i + 1) mod 32"
proof -
  assume i: "i < 32"
  then have n: "unat i < 32" by (simp add: word_less_nat_alt)
  then have s: "unat (i + 1) = unat i + 1" by (simp add: unat_word_ariths)
  show ?thesis
  proof (cases "unat i = 31")
    case True
    then have "i = 31" by (simp add: word_unat_eq_iff)
    then show ?thesis by (simp add: next_slot_def MAX_RETRY_BUF_def)
  next
    case False
    then have "i + 1 < 32" using n s by (simp add: word_less_nat_alt)
    then show ?thesis using s n False by (simp add: next_slot_def MAX_RETRY_BUF_def)
  qed
qed

lemma ring_distance:
  assumes "a < 32" "b < 32" "a \<noteq> b"
  shows "(a + 32 - (b + 1) mod 32) mod 32 < (a + 32 - b) mod (32 :: nat)"
proof -
  have w: "(k + 32) mod 32 = k" if "k < 32" for k :: nat using that by simp
  have b: "(b + 1) mod 32 = b + 1" if "b < 31" using that by simp
  consider "b = 31" | "b < 31" "a < b" | "b < 31" "b < a" using assms by linarith
  then obtain n where "(a + 32 - (b + 1) mod 32) mod 32 = n" "(a + 32 - b) mod 32 = Suc n"
  proof cases
    case 1
    then show thesis using that [of a] w [OF assms(1)] assms by simp
  next
    case 2
    have "(a + 32 - (b + 1)) mod 32 = a + 32 - (b + 1)" "(a + 32 - b) mod 32 = a + 32 - b" "a + 32 - b = Suc (a + 32 - (b + 1))"
      using 2 assms by (auto intro!: mod_less)
    then show thesis using that b [OF 2(1)] by metis
  next
    case 3
    have "a + 32 - (b + 1) = (a - (b + 1)) + 32" "a + 32 - b = (a - b) + 32" "a - b = Suc (a - (b + 1))" using 3 by linarith+
    moreover have "((a - (b + 1)) + 32) mod 32 = a - (b + 1)" "((a - b) + 32) mod 32 = a - b" using assms by (auto intro!: w)
    ultimately show thesis using that b [OF 3(1)] by metis
  qed
  then show ?thesis by (simp only: lessI)
qed

lemma UpdateRetryPointer_runs:
  assumes "RRP p < 32" "retBufReadP m < 32" "length (retryBuffers m) = 32"
  shows "runs (UpdateRetryPointer p m) (\<lambda>m'. \<exists>i bs. m' = m\<lparr>retBufReadP := i, retryBuffers := bs\<rparr> \<and> i < 32 \<and> length bs = 32)"
  using assms(2,3)
proof (induction "(unat (RRP p) + 32 - unat (retBufReadP m)) mod 32" arbitrary: m rule: less_induct)
  case less
  show ?case
  proof (cases "retBufReadP m = RRP p")
    case True
    then show ?thesis using less.prems unfolding UpdateRetryPointer_def by (subst whileE_unfold) (auto simp: runs_simps intro!: exI [of _ "retBufReadP m"] exI [of _ "retryBuffers m"])
  next
    case False
    let ?m = "m\<lparr>retryBuffers := (retryBuffers m)[unat (retBufReadP m) := None], retBufReadP := next_slot (retBufReadP m)\<rparr>"
    have b: "unat (RRP p) < 32" "unat (retBufReadP m) < 32" using assms(1) less.prems by (simp_all add: word_less_nat_alt)
    note n = next_slot_bound [OF less.prems(1)]
    have "unat (RRP p) \<noteq> unat (retBufReadP m)" using False by (simp add: word_unat_eq_iff)
    then have "(unat (RRP p) + 32 - unat (retBufReadP ?m)) mod 32 < (unat (RRP p) + 32 - unat (retBufReadP m)) mod 32"
      using ring_distance [OF b] n by simp
    then have "runs (UpdateRetryPointer p ?m) (\<lambda>m'. \<exists>i bs. m' = ?m\<lparr>retBufReadP := i, retryBuffers := bs\<rparr> \<and> i < 32 \<and> length bs = 32)"
      using n less.prems by (intro less.hyps) simp_all
    moreover have "UpdateRetryPointer p m = UpdateRetryPointer p ?m"
      unfolding UpdateRetryPointer_def using False b less.prems by (subst whileE_unfold) simp
    ultimately show ?thesis by (auto elim!: runs_mono)
  qed
qed

section \<open>Well-formed masters and slaves\<close>

text \<open>The packets that wait in the buffers of a master, and those that are on their way.\<close>

definition wait_ok :: "packet \<Rightarrow> bool" where
  "wait_ok p \<longleftrightarrow> \<not> chkCRC p \<and> 1 \<le> LNG p \<and> LNG p \<le> 32 \<and> CMD p \<noteq> PRET \<and> CMD p \<noteq> IRTRY \<and> (packetType p = FLOW \<longleftrightarrow> CMD p = TRET)"

definition up_ok :: "packet \<Rightarrow> bool" where
  "up_ok p \<longleftrightarrow> wait_ok p \<and> packetType p \<noteq> REQUEST"

definition down_ok :: "packet \<Rightarrow> bool" where
  "down_ok p \<longleftrightarrow> wait_ok p \<and> packetType p = REQUEST"

definition wire_ok :: "packet \<Rightarrow> bool" where
  "wire_ok p \<longleftrightarrow> \<not> chkCRC p \<and> 1 \<le> LNG p \<and> LNG p \<le> 32 \<and> CMD p \<noteq> IRTRY \<and> (packetType p = FLOW \<longleftrightarrow> CMD p = TRET \<or> CMD p = PRET)
     \<and> (CMD p = PRET \<longrightarrow> \<not> chkRRP p \<and> DRTC p = 0 \<and> URTC p = 0) \<and> RRP p < 32 \<and> FRP p < 32"

definition m_ok :: "link_master \<Rightarrow> bool" where
  "m_ok m \<longleftrightarrow> currentState m = NORMAL \<and> \<not> m_startCRC m \<and> \<not> startRetryTimer m \<and> retryTimer m = 0 \<and> length (retryBuffers m) = 32
     \<and> retBufReadP m < 32 \<and> retBufWriteP m = 0 \<and> lastestRRP m < 32 \<and> is_link m
     \<and> (\<exists>us. sized us \<and> upBuffers m = layout us \<and> list_all up_ok us) \<and> (\<exists>ds. sized ds \<and> downBuffers m = layout ds \<and> list_all down_ok ds)"

definition waiting :: "link_master \<Rightarrow> packet list" where
  "waiting m = queue_of (upBuffers m) @ queue_of (downBuffers m)"

definition s_ok :: "link_slave \<Rightarrow> bool" where
  "s_ok s \<longleftrightarrow> currentState s = NORMAL \<and> is_link s \<and> upBufferMax s = 32 \<and> downBufferMax s = 32
     \<and> (\<exists>us. sized us \<and> upBuffers s = layout us \<and> list_all (\<lambda>p. packetType p = RESPONSE \<and> LNG p \<le> 32) us)
     \<and> (\<exists>ds. sized ds \<and> downBuffers s = layout ds \<and> list_all (\<lambda>p. packetType p = REQUEST \<and> LNG p \<le> 32) ds)
     \<and> sorted (map bufPopDelay (s_linkRxTx s)) \<and> (\<forall>p \<in> set (s_linkRxTx s). 0 \<le> bufPopDelay p \<and> bufPopDelay p \<le> 1)"

lemma m_okE:
  assumes "m_ok m"
  obtains us ds where "sized us" "upBuffers m = layout us" "list_all up_ok us" "sized ds" "downBuffers m = layout ds" "list_all down_ok ds"
    "waiting m = us @ ds"
  using assms by (auto simp: m_ok_def waiting_def)

text \<open>A master with other packets in its buffers.\<close>

lemma m_ok_buffers:
  assumes "m_ok m" "sized us" "list_all up_ok us" "sized ds" "list_all down_ok ds"
  shows "m_ok (m\<lparr>upBuffers := layout us, downBuffers := layout ds\<rparr>)" "waiting (m\<lparr>upBuffers := layout us, downBuffers := layout ds\<rparr>) = us @ ds"
  using assms by (auto simp: m_ok_def waiting_def)

lemma head_update: "LNG q = LNG p \<Longrightarrow> (layout (p # ps))[0 := Some q] = layout (q # ps)"
  by (simp add: packet_slots_def)

lemma carrier_layout: "list_all wait_ok ps \<Longrightarrow> carrier t (layout ps) = (case ps of [] \<Rightarrow> None | p # _ \<Rightarrow> if LNG p \<le> t then Some 0 else None)"
  by (cases ps) (auto simp: carrier_def packet_slots_def wait_ok_def)

lemma flow_packet_fields [simp]:
  "packetType (flow_packet par b c t) = FLOW" "CMD (flow_packet par b c t) = c" "LNG (flow_packet par b c t) = 1"
  "chkCRC (flow_packet par b c t) = False" "chkRRP (flow_packet par b c t) = False" "DRTC (flow_packet par b c t) = 0"
  "URTC (flow_packet par b c t) = 0" "RRP (flow_packet par b c t) = 0" "FRP (flow_packet par b c t) = 0"
  by (simp_all add: flow_packet_def Packet_request_def packet_payload_def packet_reset_def Let_def)

section \<open>Returning tokens\<close>

text \<open>What returning tokens does to the packets that wait: one of them carries more, or there is one more.\<close>

definition returned :: "cls \<Rightarrow> nat \<Rightarrow> packet list \<Rightarrow> packet list \<Rightarrow> bool" where
  "returned c n ps qs \<longleftrightarrow> carried c qs = carried c ps + n \<and> (\<forall>d. d \<noteq> c \<longrightarrow> carried d qs = carried d ps)
     \<and> (\<forall>d. map strip (of_cls d qs) = map strip (of_cls d ps))"

lemma embed_carries:
  assumes "n \<noteq> 0" "unat (rtc c p) + unat n < 2 ^ 32"
  shows "LNG (embed (if c = Req then n else 0) (if c = Req then 0 else n) p) = LNG p" "strip (embed (if c = Req then n else 0) (if c = Req then 0 else n) p) = strip p"
    "unat (rtc c (embed (if c = Req then n else 0) (if c = Req then 0 else n) p)) = unat (rtc c p) + unat n"
    "d \<noteq> c \<Longrightarrow> rtc d (embed (if c = Req then n else 0) (if c = Req then 0 else n) p) = rtc d p"
  using assms by (cases c; cases d; simp add: embed_def unat_word_ariths)+

lemma embed_ok [simp]: "wait_ok (embed d u p) = wait_ok p" "packetType (embed d u p) = packetType p"
  by (simp_all add: embed_def wait_ok_def)

lemma returned_embed:
  assumes "n \<noteq> 0" "unat (rtc c p) + unat n < 2 ^ 32" "q = embed (if c = Req then n else 0) (if c = Req then 0 else n) p"
  shows "returned c (unat n) (xs @ p # ys) (xs @ q # ys)"
  using embed_carries [OF assms(1,2)] assms(3) by (auto simp: returned_def of_cls_Cons)

lemma carried_member: "p \<in> set ps \<Longrightarrow> unat (rtc c p) \<le> carried c ps"
  unfolding carried_def by (rule member_le_sum_list) auto

text \<open>A waiting packet that carries the tokens of a packet of the class.\<close>

definition loaded :: "cls \<Rightarrow> u32 \<Rightarrow> packet \<Rightarrow> packet" where
  "loaded c n = embed (if c = Req then n else 0) (if c = Req then 0 else n)"

lemma loaded_facts:
  assumes "n \<noteq> 0" "n \<le> 32" "p \<in> set ps" "carried c ps \<le> 32"
  shows "LNG (loaded c n p) = LNG p" "up_ok (loaded c n p) = up_ok p" "down_ok (loaded c n p) = down_ok p"
    "returned c (unat n) (xs @ p # ys) (xs @ loaded c n p # ys)"
proof -
  have "unat (rtc c p) + unat n < 2 ^ 32" using carried_member [OF assms(3), of c] assms(2,4) by (simp add: word_le_nat_alt)
  then show "LNG (loaded c n p) = LNG p" "up_ok (loaded c n p) = up_ok p" "down_ok (loaded c n p) = down_ok p"
    "returned c (unat n) (xs @ p # ys) (xs @ loaded c n p # ys)"
    using embed_carries [OF assms(1)] returned_embed [OF assms(1)] by (simp_all add: loaded_def up_ok_def down_ok_def)
qed

definition rebuffered :: "link_master \<Rightarrow> link_master \<Rightarrow> bool" where
  "rebuffered m m' \<longleftrightarrow> m_ok m' \<and> (\<exists>ub db. m' = m\<lparr>upBuffers := ub, downBuffers := db\<rparr>)"

lemma rebufferedI:
  assumes "m_ok m" "sized us" "list_all up_ok us" "sized ds" "list_all down_ok ds" "m' = m\<lparr>upBuffers := layout us, downBuffers := layout ds\<rparr>"
  shows "rebuffered m m'" "waiting m' = us @ ds"
  using m_ok_buffers [OF assms(1-5)] assms(6) by (auto simp: rebuffered_def)

lemma ReturnToken_runs:
  assumes "m_ok m" "packetType p = ty c" "1 \<le> LNG p" "LNG p \<le> 32" "carried c (waiting m) \<le> 32"
  shows "runs (ReturnToken par p m) (\<lambda>m'. rebuffered m m' \<and> returned c (unat (LNG p)) (waiting m) (waiting m'))"
proof -
  obtain us ds where b: "sized us" "upBuffers m = layout us" "list_all up_ok us" "sized ds" "downBuffers m = layout ds" "list_all down_ok ds"
    "waiting m = us @ ds" using assms(1) by (rule m_okE)
  define e where "e = loaded c (LNG p)"
  have n: "LNG p \<noteq> 0" using assms(3) by auto
  have x: "embed (if packetType p = REQUEST then LNG p else 0) (if packetType p = REQUEST then 0 else LNG p) = e"
    "(if packetType p = REQUEST then LNG p else 0) \<noteq> 0 \<or> (if packetType p = REQUEST then 0 else LNG p) \<noteq> 0" "packetType p = REQUEST \<or> packetType p = RESPONSE"
    using assms(2) n by (cases c; simp add: e_def loaded_def)+
  have w: "list_all wait_ok us" "list_all wait_ok ds" using b(3,6) by (simp_all add: list_all_iff up_ok_def down_ok_def)
  have e: "LNG (e q) = LNG q" "up_ok (e q) = up_ok q" "down_ok (e q) = down_ok q" "returned c (unat (LNG p)) (xs @ q # ys) (xs @ e q # ys)"
    if "q \<in> set (us @ ds)" for q xs ys
    using loaded_facts [OF n assms(4) that] assms(5) b(7) by (simp_all add: e_def)
  consider (up) u us' where "us = u # us'" "LNG u \<le> upTokenCount m" | (down) d ds' where "ds = d # ds'" "LNG d \<le> downTokenCount m"
      "carrier (upTokenCount m) (upBuffers m) = None"
    | (none) "carrier (upTokenCount m) (upBuffers m) = None" "carrier (downTokenCount m) (downBuffers m) = None"
    using carrier_layout [OF w(1), of "upTokenCount m"] carrier_layout [OF w(2), of "downTokenCount m"] b(2,5)
    by (cases us; cases ds) (auto split: if_splits)
  then show ?thesis
  proof cases
    case up
    let ?m = "m\<lparr>upBuffers := layout (e u # us')\<rparr>"
    have "carrier (upTokenCount m) (upBuffers m) = Some 0" using carrier_layout [OF w(1)] b(2) up by simp
    moreover have "(upBuffers m)[0 := map_option e (upBuffers m ! 0)] = layout (e u # us')" using e(1) [of u] by (simp add: b(2) up(1) packet_slots_def)
    ultimately have "ReturnToken par p m = Inr ?m" using x by (auto simp: ReturnToken_def Let_def)
    moreover have "rebuffered m ?m" "waiting ?m = (e u # us') @ ds"
      using rebufferedI [OF assms(1), of "e u # us'" ds ?m] b up(1) e [of u] by auto
    moreover have "returned c (unat (LNG p)) (waiting m) ((e u # us') @ ds)" using e(4) [of u "[]" "us' @ ds"] b(7) up(1) by simp
    ultimately show ?thesis by (simp add: runs_simps)
  next
    case down
    let ?m = "m\<lparr>downBuffers := layout (e d # ds')\<rparr>"
    have "carrier (downTokenCount m) (downBuffers m) = Some 0" using carrier_layout [OF w(2)] b(5) down by simp
    moreover have "(downBuffers m)[0 := map_option e (downBuffers m ! 0)] = layout (e d # ds')" using e(1) [of d] by (simp add: b(5) down(1) packet_slots_def)
    ultimately have "ReturnToken par p m = Inr ?m" using x down(3) by (auto simp: ReturnToken_def Let_def)
    moreover have "rebuffered m ?m" "waiting ?m = us @ e d # ds'"
      using rebufferedI [OF assms(1), of us "e d # ds'" ?m] b down(1) e [of d] by auto
    moreover have "returned c (unat (LNG p)) (waiting m) (us @ e d # ds')" using e(4) [of d us ds'] b(7) down(1) by simp
    ultimately show ?thesis by (simp add: runs_simps)
  next
    case none
    define q where "q = (flow_packet par (m_downstream m) TRET (TAG p))\<lparr>URTC := (if c = Req then 0 else LNG p), DRTC := (if c = Req then LNG p else 0)\<rparr>"
    let ?m = "m\<lparr>upBuffers := Some q # upBuffers m\<rparr>"
    have q: "up_ok q" "1 \<le> LNG q" "packet_slots q = [Some q]" by (simp_all add: q_def up_ok_def wait_ok_def packet_slots_def)
    have "ReturnToken par p m = Inr ?m" using x(3) none assms(1,2) by (cases c) (simp_all add: ReturnToken_def q_def m_ok_def Let_def)
    moreover have "rebuffered m ?m" "waiting ?m = (q # us) @ ds"
      using rebufferedI [OF assms(1), of "q # us" ds ?m] b q by auto
    moreover have "returned c (unat (LNG p)) (waiting m) ((q # us) @ ds)"
      by (cases c) (simp_all add: returned_def b(7) q_def of_cls_Cons all_cls)
    ultimately show ?thesis by (simp add: runs_simps)
  qed
qed

section \<open>A packet that comes in\<close>

text \<open>Sequence numbers count to seven and stay there; from then on every packet has number 0.\<close>

definition seq_next :: "int \<Rightarrow> int" where
  "seq_next n = (if n < 7 then n + 1 else n)"

definition seq_val :: "int \<Rightarrow> u32" where
  "seq_val n = word_of_int (if n < 7 then n else 0)"

fun sync :: "int \<Rightarrow> packet list \<Rightarrow> int \<Rightarrow> bool" where
  "sync n [] k \<longleftrightarrow> n = k"
| "sync n (p # ps) k \<longleftrightarrow> (if CMD p = PRET then sync n ps k else SEQ p = seq_val n \<and> sync (seq_next n) ps k)"

lemma sync_append: "sync n (ps @ qs) k \<longleftrightarrow> (\<exists>j. sync n ps j \<and> sync j qs k)"
  by (induction ps arbitrary: n) auto

definition same_load :: "packet list \<Rightarrow> packet list \<Rightarrow> bool" where
  "same_load ps qs \<longleftrightarrow> (\<forall>c. carried c qs = carried c ps \<and> map strip (of_cls c qs) = map strip (of_cls c ps))"

text \<open>Acknowledgements are put into linkRxTx and nothing else.\<close>

definition acks :: "packet list \<Rightarrow> packet list \<Rightarrow> bool" where
  "acks ps qs \<longleftrightarrow> (\<exists>as. qs = ps @ as \<and> list_all (\<lambda>q. wire_ok q \<and> CMD q = PRET) as)"

lemma acks_refl [simp]: "acks ps ps"
  by (simp add: acks_def)

definition quiet_step :: "link_master \<Rightarrow> link_master \<Rightarrow> bool" where
  "quiet_step m m' \<longleftrightarrow> m_ok m' \<and> masterSEQ m' = masterSEQ m \<and> acks (m_linkRxTx m) (m_linkRxTx m') \<and> same_load (waiting m) (waiting m')"

lemma UpdateRetryPointer_quiet:
  assumes "m_ok m" "RRP p < 32"
  shows "runs (UpdateRetryPointer p m) (\<lambda>m'. quiet_step m m' \<and> (\<forall>c. tok c m' = tok c m) \<and> m_linkRxTx m' = m_linkRxTx m)"
proof -
  have "runs (UpdateRetryPointer p m) (\<lambda>m'. \<exists>i bs. m' = m\<lparr>retBufReadP := i, retryBuffers := bs\<rparr> \<and> i < 32 \<and> length bs = 32)"
    using assms by (intro UpdateRetryPointer_runs) (simp_all add: m_ok_def)
  then show ?thesis using assms(1) by (elim runs_mono) (auto simp: quiet_step_def m_ok_def waiting_def same_load_def all_cls)
qed

lemma same_load_head: "strip q = strip p \<Longrightarrow> DRTC q = DRTC p \<Longrightarrow> URTC q = URTC p \<Longrightarrow> same_load (xs @ p # ys) (xs @ q # ys)"
  using stripD [of q p] by (auto simp: same_load_def of_cls_Cons all_cls)

lemma same_load_refl [simp]: "same_load ps ps"
  by (simp add: same_load_def)

lemma same_load_trans: "same_load ps qs \<Longrightarrow> same_load qs rs \<Longrightarrow> same_load ps rs"
  by (simp add: same_load_def)

lemma ReturnRetryPointer_quiet:
  assumes "m_ok m" "FRP p < 32"
  shows "runs (ReturnRetryPointer par p m) (\<lambda>m'. quiet_step m m' \<and> (\<forall>c. tok c m' = tok c m))"
proof -
  let ?m = "m\<lparr>lastestRRP := FRP p\<rparr>" and ?f = "\<lambda>q. q\<lparr>RRP := FRP p\<rparr>"
  obtain us ds where b: "sized us" "upBuffers m = layout us" "list_all up_ok us" "sized ds" "downBuffers m = layout ds" "list_all down_ok ds"
    "waiting m = us @ ds" using assms(1) by (rule m_okE)
  have m: "m_ok ?m" using assms by (simp add: m_ok_def)
  have f: "wait_ok (?f q) = wait_ok q" "up_ok (?f q) = up_ok q" "down_ok (?f q) = down_ok q" "packet_slots (?f q) = Some (?f q) # replicate (unat (LNG q) - 1) None" for q
    by (simp_all add: wait_ok_def up_ok_def down_ok_def packet_slots_def)
  consider (up) u us' where "us = u # us'" | (down) d ds' where "us = []" "ds = d # ds'" | (none) "us = []" "ds = []" by (cases us; cases ds) auto
  then show ?thesis
  proof cases
    case up
    then have "upBuffers m = Some u # replicate (unat (LNG u) - 1) None @ layout us'" using b(2) by (simp add: packet_slots_def)
    then have "ReturnRetryPointer par p m = Inr (?m\<lparr>upBuffers := layout (?f u # us')\<rparr>)" using f(4) [of u] by (simp add: ReturnRetryPointer_def first_packet_def)
    moreover have "rebuffered ?m (?m\<lparr>upBuffers := layout (?f u # us')\<rparr>)" "waiting (?m\<lparr>upBuffers := layout (?f u # us')\<rparr>) = (?f u # us') @ ds"
      using rebufferedI [OF m, of "?f u # us'" ds "?m\<lparr>upBuffers := layout (?f u # us')\<rparr>"] b up f by auto
    ultimately show ?thesis using same_load_head [of "?f u" u "[]" "us' @ ds"] b(7) up by (simp add: runs_simps quiet_step_def rebuffered_def all_cls)
  next
    case down
    then have "upBuffers m = []" "downBuffers m = Some d # replicate (unat (LNG d) - 1) None @ layout ds'" using b(2,5) by (simp_all add: packet_slots_def)
    then have "ReturnRetryPointer par p m = Inr (?m\<lparr>downBuffers := layout (?f d # ds')\<rparr>)" using f(4) [of d] by (simp add: ReturnRetryPointer_def first_packet_def)
    moreover have "rebuffered ?m (?m\<lparr>downBuffers := layout (?f d # ds')\<rparr>)" "waiting (?m\<lparr>downBuffers := layout (?f d # ds')\<rparr>) = us @ ?f d # ds'"
      using rebufferedI [OF m, of us "?f d # ds'" "?m\<lparr>downBuffers := layout (?f d # ds')\<rparr>"] b down f by auto
    ultimately show ?thesis using same_load_head [of "?f d" d us ds'] b(7) down by (simp add: runs_simps quiet_step_def rebuffered_def all_cls)
  next
    case none
    then have "upBuffers m = []" "downBuffers m = []" using b(2,5) by simp_all
    then show ?thesis using m assms(2) by (simp add: ReturnRetryPointer_def runs_simps quiet_step_def m_ok_def waiting_def acks_def wire_ok_def all_cls)
  qed
qed

lemma UpdateToken_quiet:
  assumes "m_ok m" "\<And>c. unat (tok c m) + unat (rtc c p) \<le> 32"
  shows "runs (UpdateToken p m) (\<lambda>m'. quiet_step m m' \<and> (\<forall>c. unat (tok c m') = unat (tok c m) + unat (rtc c p)) \<and> m_linkRxTx m' = m_linkRxTx m)"
proof -
  have t: "unat (tok c m + rtc c p) = unat (tok c m) + unat (rtc c p)" "tok c m + rtc c p \<le> 32" for c
    using assms(2) [of c] by (simp_all add: unat_word_ariths word_le_nat_alt)
  show ?thesis using t [of Req] t [of Resp] assms(1)
    by (simp add: UpdateToken_def runs_simps Let_def MAX_LINK_BUF_def quiet_step_def m_ok_def waiting_def all_cls)
qed

definition took :: "packet \<Rightarrow> link_slave \<Rightarrow> link_slave \<Rightarrow> bool" where
  "took p s s' \<longleftrightarrow> s_ok s' \<and> s_linkRxTx s' = tl (s_linkRxTx s) \<and> s_downstream s' = s_downstream s
     \<and> (\<forall>c. map strip (queue_of (sbuf c s')) = map strip (queue_of (sbuf c s) @ of_cls c [p]) \<and> length (sbuf c s') = length (sbuf c s) + load c [p])"

lemma s_okE:
  assumes "s_ok s"
  obtains us ds where "sized us" "upBuffers s = layout us" "list_all (\<lambda>p. packetType p = RESPONSE \<and> LNG p \<le> 32) us"
    "sized ds" "downBuffers s = layout ds" "list_all (\<lambda>p. packetType p = REQUEST \<and> LNG p \<le> 32) ds" "queue_of (upBuffers s) = us" "queue_of (downBuffers s) = ds"
  using assms by (auto simp: s_ok_def)

text \<open>There is room for a packet whose tokens were taken.\<close>

lemma slave_receive_runs:
  assumes "s_ok s" "packetType p = ty c" "1 \<le> LNG p" "LNG p \<le> 32" "length (sbuf c s) + unat (LNG p) \<le> 32"
  shows "runs (slave_receive p s) (\<lambda>s'. s_ok s' \<and> s_linkRxTx s' = s_linkRxTx s \<and> s_downstream s' = s_downstream s \<and> slaveSEQ s' = slaveSEQ s
    \<and> (\<forall>d. queue_of (sbuf d s') = queue_of (sbuf d s) @ of_cls d [p] \<and> length (sbuf d s') = length (sbuf d s) + load d [p]))"
proof -
  obtain us ds where b: "sized us" "upBuffers s = layout us" "list_all (\<lambda>p. packetType p = RESPONSE \<and> LNG p \<le> 32) us"
    "sized ds" "downBuffers s = layout ds" "list_all (\<lambda>p. packetType p = REQUEST \<and> LNG p \<le> 32) ds" using assms(1) by (rule s_okE)
  have q: "queue_of (layout xs @ packet_slots p) = xs @ [p]" if "sized xs" for xs using buffer_snoc(1) [OF that assms(3)] .
  have l: "length (packet_slots p) = unat (LNG p)" by (rule length_packet_slots [OF assms(3)])
  have max: "upBufferMax s = 32" "downBufferMax s = 32" using assms(1) by (simp_all add: s_ok_def)
  have so: "\<exists>xs. sized xs \<and> layout ys @ packet_slots p = layout xs \<and> list_all P xs" if "sized ys" "list_all P ys" "P p" for ys P
    using that assms(3) by (intro exI [of _ "ys @ [p]"]) simp
  show ?thesis
  proof (cases c)
    case Req
    then show ?thesis using assms b q [OF b(4)] so [OF b(4) b(6)] l max
      by (auto simp: slave_receive_def runs_simps ReceiveDown_def receive_def s_ok_def all_cls of_cls_Cons)
  next
    case Resp
    then show ?thesis using assms b q [OF b(1)] so [OF b(1) b(3)] l max
      by (auto simp: slave_receive_def runs_simps ReceiveUp_def receive_def s_ok_def all_cls of_cls_Cons)
  qed
qed

lemma rx_done_0: "s_linkRxTx s = p # ps \<Longrightarrow> rx_done 0 s = s\<lparr>s_linkRxTx := ps\<rparr>"
  by (simp add: rx_done_def)

lemma s_ok_tail: "s_ok s \<Longrightarrow> s_linkRxTx s = p # ps \<Longrightarrow> s_ok (s\<lparr>s_linkRxTx := ps\<rparr>)"
  by (auto simp: s_ok_def)

lemma quiet_step_trans: "quiet_step m m1 \<Longrightarrow> quiet_step m1 m2 \<Longrightarrow> quiet_step m m2"
  by (auto simp: quiet_step_def acks_def intro: same_load_trans)

lemma accept_runs:
  assumes "s_ok s" "m_ok m" "s_linkRxTx s = q # ps" "strip p = strip q" "wire_ok q" "CMD p \<noteq> PRET" "FRP p = FRP q" "\<And>c. rtc c p = rtc c q"
    "\<And>c. unat (tok c m) + unat (rtc c q) \<le> 32" "\<And>c. length (sbuf c s) + load c [q] \<le> 32"
  shows "runs (accept par 0 p (s, m, st)) (\<lambda>(stop, s', m', st'). stop \<and> st' = st \<and> quiet_step m m' \<and> took q s s' \<and> slaveSEQ s' = slaveSEQ s
    \<and> (\<forall>c. unat (tok c m') = unat (tok c m) + unat (rtc c q)))"
proof -
  have w: "1 \<le> LNG p" "LNG p \<le> 32" "packetType p = FLOW \<longleftrightarrow> CMD p = TRET" "packetType p = packetType q" "LNG p = LNG q" "FRP p < 32"
    using assms(4-7) stripD [OF assms(4)] by (auto simp: wire_ok_def)
  have 1: "runs (ReturnRetryPointer par p m) (\<lambda>m'. quiet_step m m' \<and> (\<forall>c. tok c m' = tok c m))"
    by (rule ReturnRetryPointer_quiet [OF assms(2) w(6)])
  have 2: "runs (UpdateToken p m1) (\<lambda>m'. quiet_step m m' \<and> (\<forall>c. unat (tok c m') = unat (tok c m) + unat (rtc c q)))"
    if "quiet_step m m1 \<and> (\<forall>c. tok c m1 = tok c m)" for m1
  proof -
    have "m_ok m1" "\<And>c. unat (tok c m1) + unat (rtc c p) \<le> 32" using that assms(8,9) by (simp_all add: quiet_step_def)
    from UpdateToken_quiet [OF this] show ?thesis using that assms(8) by (elim runs_mono) (auto intro: quiet_step_trans)
  qed
  have 3: "runs (if CMD p \<noteq> TRET then slave_receive p s else Inr s) (\<lambda>s'. took q s (rx_done 0 s') \<and> slaveSEQ s' = slaveSEQ s)"
  proof (cases "CMD p = TRET")
    case True
    then have "packetType q = FLOW" using w(3,4) by simp
    then show ?thesis using True assms(1,3) s_ok_tail [OF assms(1,3)]
      by (simp add: runs_simps took_def rx_done_0 of_cls_Cons all_cls)
  next
    case False
    then obtain c where c: "packetType p = ty c" using w(3) by (metis PacketType.exhaust ty.simps)
    have "runs (slave_receive p s) (\<lambda>s'. s_ok s' \<and> s_linkRxTx s' = s_linkRxTx s \<and> s_downstream s' = s_downstream s \<and> slaveSEQ s' = slaveSEQ s
      \<and> (\<forall>d. queue_of (sbuf d s') = queue_of (sbuf d s) @ of_cls d [p] \<and> length (sbuf d s') = length (sbuf d s) + load d [p]))"
      by (rule slave_receive_runs [OF assms(1) c w(1,2)]) (use assms(10) [of c] w(4,5) c in simp)
    then show ?thesis using False w(4,5) assms(3,4) s_ok_tail
      by (simp, elim runs_mono) (auto simp: took_def rx_done_0 of_cls_Cons all_cls)
  qed
  show ?thesis unfolding accept_def prod.case runs_wp
    by (rule runs_mono [OF 1], rule runs_mono [OF 2], assumption, rule runs_mono [OF 3]) (simp add: rx_done_def)
qed

lemma wire_ok_check [simp]: "strip (p\<lparr>chkRRP := True, chkCRC := True\<rparr>) = strip p"
  by (simp add: strip_def)

lemma s_ok_SEQ [simp]: "s_ok (s\<lparr>slaveSEQ := n\<rparr>) = s_ok s"
  by (simp add: s_ok_def)

lemma took_SEQ: "took p (s\<lparr>slaveSEQ := n\<rparr>) s' = took p s s'"
  by (simp add: took_def all_cls)

text \<open>The first packet that has come in is taken; it passes the check.\<close>

lemma rx_head:
  assumes "\<not> lp_CRC_CHECK par" "s_ok s" "m_ok m" "s_linkRxTx s = p # ps" "bufPopDelay p = 0" "wire_ok p" "CMD p \<noteq> PRET \<Longrightarrow> SEQ p = seq_val (slaveSEQ s)"
    "\<And>c. unat (tok c m) + unat (rtc c p) \<le> 32" "\<And>c. length (sbuf c s) + load c [p] \<le> 32"
  shows "runs (rx_packet par 0 (False, s, m, st)) (\<lambda>(stop, s', m', st'). stop \<and> st' = st \<and> quiet_step m m' \<and> took p s s'
    \<and> slaveSEQ s' = (if CMD p = PRET then slaveSEQ s else seq_next (slaveSEQ s)) \<and> (\<forall>c. unat (tok c m') = unat (tok c m) + unat (rtc c p)))"
    (is "runs _ ?Q")
proof -
  have p: "CMD p \<noteq> IRTRY" "\<not> chkCRC p" "RRP p < 32" "CMD p = PRET \<Longrightarrow> \<not> chkRRP p \<and> packetType p = FLOW \<and> DRTC p = 0 \<and> URTC p = 0"
    using assms(6) by (auto simp: wire_ok_def)
  have st: "currentState s = NORMAL" using assms(2) by (simp add: s_ok_def)
  have 1: "runs (if chkRRP p then Inr m else UpdateRetryPointer p m) (\<lambda>m'. quiet_step m m' \<and> (\<forall>c. tok c m' = tok c m))"
  proof (cases "chkRRP p")
    case True
    then show ?thesis using assms(3) by (simp add: runs_simps quiet_step_def)
  next
    case False
    then show ?thesis using UpdateRetryPointer_quiet [OF assms(3) p(3)] by (auto elim!: runs_mono)
  qed
  have 2: "runs (if \<not> chkRRP p \<and> CMD p = PRET then Inr (True, rx_done 0 s, m1, st)
      else check_packet par 0 (p\<lparr>chkRRP := True\<rparr>) (s, m1, st)) ?Q" if m1: "quiet_step m m1 \<and> (\<forall>c. tok c m1 = tok c m)" for m1
  proof (cases "CMD p = PRET")
    case True
    then show ?thesis using p(4) m1 s_ok_tail [OF assms(2,4)] assms(4)
      by (simp add: runs_simps took_def rx_done_0 all_cls of_cls_Cons)
  next
    case False
    let ?s = "s\<lparr>slaveSEQ := seq_next (slaveSEQ s)\<rparr>" and ?p = "p\<lparr>chkRRP := True, chkCRC := True\<rparr>"
    have e: "check_packet par 0 (p\<lparr>chkRRP := True\<rparr>) (s, m1, st) = accept par 0 ?p (?s, m1, st)"
      using assms(1,7) False by (simp add: check_packet_def CheckNoError_def seq_next_def seq_val_def Let_def split: if_splits)
    have "runs (accept par 0 ?p (?s, m1, st)) (\<lambda>(stop, s', m', st'). stop \<and> st' = st \<and> quiet_step m1 m' \<and> took p ?s s' \<and> slaveSEQ s' = slaveSEQ ?s
      \<and> (\<forall>c. unat (tok c m') = unat (tok c m1) + unat (rtc c p)))"
    proof (rule accept_runs)
      show "rtc c ?p = rtc c p" for c by (cases c) simp_all
      show "length (sbuf c ?s) + load c [p] \<le> 32" for c using assms(9) [of c] by (cases c) simp_all
    qed (use assms False m1 in \<open>simp_all add: quiet_step_def\<close>)
    then show ?thesis using False m1 unfolding e took_SEQ by (auto elim!: runs_mono intro: quiet_step_trans)
  qed
  have e: "rx_packet par 0 (False, s, m, st) = bindE (if chkRRP p then Inr m else UpdateRetryPointer p m) (\<lambda>m.
      if \<not> chkRRP p \<and> CMD p = PRET then Inr (True, rx_done 0 s, m, st) else check_packet par 0 (p\<lparr>chkRRP := True\<rparr>) (s, m, st))"
    using assms(4,5) p(1,2) st by (simp add: rx_packet_def cong: if_cong)
  show ?thesis unfolding e runs_wp(3) by (rule runs_mono [OF 1]) (rule 2)
qed

lemma rx_stopped: "foldE (rx_packet par) is (True, s, m, st) = Inr (True, s, m, st)"
  by (induction "is") (simp_all add: rx_packet_def)

lemma rx_idle: "\<forall>p \<in> set (s_linkRxTx s). bufPopDelay p \<noteq> 0 \<Longrightarrow> foldE (rx_packet par) is (False, s, m, st) = Inr (False, s, m, st)"
  by (induction "is") (auto simp: rx_packet_def Let_def)

definition rx_result :: "link_slave \<Rightarrow> link_master \<Rightarrow> link_slave \<Rightarrow> link_master \<Rightarrow> packet list \<Rightarrow> bool" where
  "rx_result s m s' m' ps \<longleftrightarrow> quiet_step m m' \<and> s_ok s' \<and> s_linkRxTx s = ps @ s_linkRxTx s' \<and> s_downstream s' = s_downstream s
     \<and> sync (slaveSEQ s) ps (slaveSEQ s') \<and> (\<forall>c. unat (tok c m') = unat (tok c m) + carried c ps
     \<and> map strip (queue_of (sbuf c s')) = map strip (queue_of (sbuf c s) @ of_cls c ps) \<and> length (sbuf c s') = length (sbuf c s) + load c ps)"

lemma slave_receives_runs:
  assumes "\<not> lp_CRC_CHECK par" "s_ok s" "m_ok m" "list_all wire_ok (s_linkRxTx s)" "sync (slaveSEQ s) (s_linkRxTx s) k"
    "\<And>c. unat (tok c m) + carried c (s_linkRxTx s) \<le> 32" "\<And>c. length (sbuf c s) + load c (s_linkRxTx s) \<le> 32"
  shows "runs (slave_receives par (s, m, st)) (\<lambda>(s', m', st'). st' = st \<and> (\<exists>ps. rx_result s m s' m' ps))"
proof -
  have idle: "rx_result s m s m []" using assms(2,3) by (simp add: rx_result_def quiet_step_def)
  show ?thesis
  proof (cases "s_linkRxTx s")
    case Nil
    then show ?thesis using idle by (auto simp: slave_receives_def runs_simps)
  next
    case (Cons p ps)
    have d: "sorted (map bufPopDelay (p # ps))" "\<forall>q \<in> set (p # ps). 0 \<le> bufPopDelay q" using assms(2) Cons by (auto simp: s_ok_def)
    show ?thesis
    proof (cases "bufPopDelay p = 0")
      case False
      then have "\<forall>q \<in> set (s_linkRxTx s). bufPopDelay q \<noteq> 0" using d Cons by force
      from rx_idle [OF this] show ?thesis using idle by (auto simp: slave_receives_def runs_simps)
    next
      case True
      have u: "[0..<length (s_linkRxTx s)] = 0 # [1..<length (s_linkRxTx s)]" using Cons by (simp add: upt_rec)
      have "runs (rx_packet par 0 (False, s, m, st)) (\<lambda>(stop, s', m', st'). stop \<and> st' = st \<and> quiet_step m m' \<and> took p s s'
        \<and> slaveSEQ s' = (if CMD p = PRET then slaveSEQ s else seq_next (slaveSEQ s)) \<and> (\<forall>c. unat (tok c m') = unat (tok c m) + unat (rtc c p)))"
      proof (rule rx_head [OF assms(1-3) Cons True])
        show "unat (tok c m) + unat (rtc c p) \<le> 32" "length (sbuf c s) + load c [p] \<le> 32" for c using assms(6,7) [of c] Cons by simp_all
      qed (use assms(4,5) Cons in auto)
      then have "runs (rx_packet par 0 (False, s, m, st)) (\<lambda>(stop, s', m', st'). stop \<and> st' = st \<and> rx_result s m s' m' [p])"
        using assms(5) by (elim runs_mono) (auto simp: rx_result_def took_def Cons)
      then show ?thesis unfolding slave_receives_def prod.case u foldE.simps
        by (elim runsE) (auto simp: runs_simps rx_stopped)
    qed
  qed
qed

section \<open>Passing packets on\<close>

text \<open>Packets that leave the slave for the destination \<open>d\<close>; their tokens start their way back.\<close>

definition pass_result :: "link_slave \<Rightarrow> link_master \<Rightarrow> 'd dual_vector_scheme \<Rightarrow> link_slave \<Rightarrow> link_master \<Rightarrow> 'd dual_vector_scheme \<Rightarrow> (cls \<Rightarrow> packet list) \<Rightarrow> bool" where
  "pass_result s m d s' m' d' dl \<longleftrightarrow> s_ok s' \<and> s_linkRxTx s' = s_linkRxTx s \<and> s_downstream s' = s_downstream s \<and> slaveSEQ s' = slaveSEQ s
     \<and> m_ok m' \<and> masterSEQ m' = masterSEQ m \<and> m_linkRxTx m' = m_linkRxTx m
     \<and> (\<forall>c. tok c m' = tok c m \<and> sized (dl c) \<and> sbuf c d' = sbuf c d @ layout (dl c)
       \<and> map strip (queue_of (sbuf c s)) = map strip (dl c @ queue_of (sbuf c s')) \<and> length (sbuf c s) = flits (dl c) + length (sbuf c s')
       \<and> carried c (waiting m') = carried c (waiting m) + flits (dl c) \<and> map strip (of_cls c (waiting m')) = map strip (of_cls c (waiting m)))"

lemma pass_none: "s_ok s \<Longrightarrow> m_ok m \<Longrightarrow> (\<And>c. sbuf c d' = sbuf c d) \<Longrightarrow> pass_result s m d s m d' (\<lambda>_. [])"
  by (simp add: pass_result_def)

lemma layout_headE:
  assumes "buf = layout (p # ps)" "sized (p # ps)"
  obtains t where "buf = Some p # t" "drop (unat (LNG p)) (Some p # t) = layout ps" "unat (LNG p) \<le> length (Some p # t)"
    "length (Some p # t) = unat (LNG p) + length (layout ps)"
proof
  let ?t = "replicate (unat (LNG p) - 1) None @ layout ps"
  show b: "buf = Some p # ?t" using assms(1) by (simp add: packet_slots_def)
  have "Some p # ?t = packet_slots p @ layout ps" by (simp add: packet_slots_def)
  note e = this
  show "drop (unat (LNG p)) (Some p # ?t) = layout ps" "unat (LNG p) \<le> length (Some p # ?t)" "length (Some p # ?t) = unat (LNG p) + length (layout ps)"
    unfolding e using assms(2) length_packet_slots [of p] by simp_all
qed

primrec set_sbuf :: "cls \<Rightarrow> pbuffer \<Rightarrow> link_slave \<Rightarrow> link_slave" where
  "set_sbuf Req b s = s\<lparr>downBuffers := b\<rparr>" | "set_sbuf Resp b s = s\<lparr>upBuffers := b\<rparr>"

text \<open>The packet in front of a class that is to be passed on.\<close>

lemma s_frontE:
  assumes "s_ok s" "sbuf c s = q # buf"
  obtains p ps t where "q = Some p" "packetType p = ty c" "1 \<le> LNG p" "LNG p \<le> 32" "sized (p # ps)" "s_ok (set_sbuf c (layout ps) s)" "queue_of (sbuf c s) = p # ps"
    "drop (unat (LNG p)) (sbuf c s) = layout ps" "unat (LNG p) \<le> length (sbuf c s)" "length (sbuf c s) = unat (LNG p) + length (layout ps)"
proof -
  obtain xs where b: "sized xs" "sbuf c s = layout xs" "list_all (\<lambda>p. packetType p = ty c \<and> LNG p \<le> 32) xs"
    using assms(1) by (cases c) (auto simp: s_ok_def)
  then obtain p ps where x: "xs = p # ps" using assms(2) by (cases xs) auto
  then obtain t where t: "sbuf c s = Some p # t" "drop (unat (LNG p)) (Some p # t) = layout ps" "unat (LNG p) \<le> length (Some p # t)"
    "length (Some p # t) = unat (LNG p) + length (layout ps)" using layout_headE [OF b(2) [unfolded x]] b(1) by metis
  have "s_ok (set_sbuf c (layout ps) s)" using assms(1) b x by (cases c) (auto simp: s_ok_def)
  moreover have "queue_of (sbuf c s) = p # ps" unfolding b(2) x using b(1) x by (intro queue_of_layout) simp
  moreover have "q = Some p" using t(1) assms(2) by simp
  ultimately show thesis using that [of p ps] b(1,3) x t by simp
qed

lemma pass_one:
  assumes "m_ok m" "packetType p = ty c" "1 \<le> LNG p" "LNG p \<le> 32" "sized (p # ps)" "s_ok (set_sbuf c (layout ps) s)" "queue_of (sbuf c s) = p # ps"
    "length (sbuf c s) = unat (LNG p) + length (layout ps)" "carried c (waiting m) \<le> 32" "\<And>e. sbuf e d' = sbuf e d @ (if e = c then layout [p] else [])"
  shows "runs (ReturnToken par p m) (\<lambda>m'. pass_result s m d (set_sbuf c (layout ps) s) m' d' (\<lambda>e. if e = c then [p] else []))"
proof -
  have "runs (ReturnToken par p m) (\<lambda>m'. rebuffered m m' \<and> returned c (unat (LNG p)) (waiting m) (waiting m'))"
    by (rule ReturnToken_runs [OF assms(1-4,9)])
  then show ?thesis using assms(2-8,10)
    by (elim runs_mono, cases c) (auto simp: pass_result_def rebuffered_def returned_def all_cls)
qed

lemma receive_sbuf:
  "ReceiveUp p d = (ok, d') \<Longrightarrow> sbuf c d' = sbuf c d @ (if ok \<and> c = Resp then layout [p] else [])"
  "ReceiveDown p d = (ok, d') \<Longrightarrow> sbuf c d' = sbuf c d @ (if ok \<and> c = Req then layout [p] else [])"
  by (cases c; auto simp: ReceiveUp_def ReceiveDown_def receive_def split: if_splits)+

lemma pass_up_runs:
  assumes "s_ok s" "m_ok m" "carried Resp (waiting m) \<le> 32"
  shows "runs (pass_up par (s, m, d)) (\<lambda>(sent, s', m', d'). (\<exists>dl. pass_result s m d s' m' d' dl) \<and> (\<not> sent \<longrightarrow> s' = s \<and> m' = m \<and> (\<forall>c. sbuf c d' = sbuf c d)))"
proof (cases "upBuffers s")
  case Nil
  then show ?thesis using pass_none [OF assms(1,2)] by (auto simp: pass_up_def runs_simps)
next
  case (Cons q buf)
  then have "sbuf Resp s = q # buf" by simp
  from assms(1) this obtain p ps where p: "q = Some p" "packetType p = ty Resp" "1 \<le> LNG p" "LNG p \<le> 32" "sized (p # ps)" "s_ok (set_sbuf Resp (layout ps) s)"
    "queue_of (sbuf Resp s) = p # ps" "drop (unat (LNG p)) (sbuf Resp s) = layout ps" "unat (LNG p) \<le> length (sbuf Resp s)"
    "length (sbuf Resp s) = unat (LNG p) + length (layout ps)" by (rule s_frontE)
  obtain ok d' where r: "ReceiveUp p d = (ok, d')" by fastforce
  show ?thesis
  proof (cases ok)
    case True
    have "runs (ReturnToken par p m) (\<lambda>m'. pass_result s m d (set_sbuf Resp (layout ps) s) m' d' (\<lambda>e. if e = Resp then [p] else []))"
      by (rule pass_one [OF assms(2) p(2-7,10) assms(3)]) (use receive_sbuf(1) [OF r] True in simp)
    then show ?thesis using r True p Cons by (auto simp: pass_up_def runs_simps elim!: runs_mono)
  next
    case False
    then have e: "pass_up par (s, m, d) = Inr (False, s, m, d')" using r Cons p(1) by (simp add: pass_up_def)
    show ?thesis unfolding e using pass_none [OF assms(1,2), of d' d] receive_sbuf(1) [OF r] False by (auto simp: runs_simps)
  qed
qed

lemma pass_down_runs:
  assumes "s_ok s" "m_ok m" "carried Req (waiting m) \<le> 32" "s_downstream s \<or> downBuffers s = []"
  shows "runs (pass_down par (s, m, d)) (\<lambda>(s', m', d'). \<exists>dl. pass_result s m d s' m' d' dl)"
proof (cases "downBuffers s")
  case Nil
  then show ?thesis using pass_none [OF assms(1,2)] by (auto simp: pass_down_def runs_simps)
next
  case (Cons q buf)
  then have "sbuf Req s = q # buf" and dn: "s_downstream s" using assms(4) by simp_all
  from assms(1) this(1) obtain p ps where p: "q = Some p" "packetType p = ty Req" "1 \<le> LNG p" "LNG p \<le> 32" "sized (p # ps)" "s_ok (set_sbuf Req (layout ps) s)"
    "queue_of (sbuf Req s) = p # ps" "drop (unat (LNG p)) (sbuf Req s) = layout ps" "unat (LNG p) \<le> length (sbuf Req s)"
    "length (sbuf Req s) = unat (LNG p) + length (layout ps)" by (rule s_frontE)
  obtain ok d' where r: "ReceiveDown p d = (ok, d')" by fastforce
  show ?thesis
  proof (cases ok)
    case True
    have "runs (ReturnToken par p m) (\<lambda>m'. pass_result s m d (set_sbuf Req (layout ps) s) m' d' (\<lambda>e. if e = Req then [p] else []))"
      by (rule pass_one [OF assms(2) p(2-7,10) assms(3)]) (use receive_sbuf(2) [OF r] True in simp)
    then show ?thesis using r True p Cons dn by (auto simp: pass_down_def runs_simps elim!: runs_mono)
  next
    case False
    then have e: "pass_down par (s, m, d) = Inr (s, m, d')" using r Cons p(1) dn by (simp add: pass_down_def)
    show ?thesis unfolding e using pass_none [OF assms(1,2), of d' d] receive_sbuf(2) [OF r] False by (auto simp: runs_simps)
  qed
qed

section \<open>The update of a slave\<close>

text \<open>Time passes: delays count down and nothing else happens. \<open>core\<close> is a packet on its way without its delay and checksum.\<close>

definition core :: "packet \<Rightarrow> packet" where
  "core p = p\<lparr>bufPopDelay := 0, CRC := 0\<rparr>"

definition aged :: "packet \<Rightarrow> packet" where
  "aged p = p\<lparr>bufPopDelay := dec_sat (bufPopDelay p)\<rparr>"

lemma aged_simps [simp]: "core (aged p) = core p" "strip (aged p) = strip p" "LNG (aged p) = LNG p" "packetType (aged p) = packetType p"
  "rtc c (aged p) = rtc c p" "wait_ok (aged p) = wait_ok p" "up_ok (aged p) = up_ok p" "down_ok (aged p) = down_ok p"
  by (simp_all add: core_def aged_def wait_ok_def up_ok_def down_ok_def, cases c, simp_all)

lemma tick_aged: "tick_packets ps = map aged ps"
  by (simp add: tick_packets_def aged_def)

lemma step_layout: "map step_packet (layout ps) = layout (map aged ps)"
  by (induction ps) (simp_all add: packet_slots_def step_packet_def aged_def)

lemma aged_lists [simp]: "sized (map aged ps) = sized ps" "list_all up_ok (map aged ps) = list_all up_ok ps" "list_all down_ok (map aged ps) = list_all down_ok ps"
  "map strip (map aged ps) = map strip ps" "map core (map aged ps) = map core ps"
  "list_all (\<lambda>p. packetType p = t \<and> LNG p \<le> n) (map aged ps) = list_all (\<lambda>p. packetType p = t \<and> LNG p \<le> n) ps"
  by (induction ps) simp_all

lemma flits_aged [simp]: "flits (map aged ps) = flits ps"
  by (induction ps) simp_all

definition slave_stepped :: "link_slave \<Rightarrow> link_slave" where
  "slave_stepped s = (dual_Step s)\<lparr>s_linkRxTx := tick_packets (s_linkRxTx s)\<rparr>"

lemma zero_delays: "\<forall>p \<in> set ps. bufPopDelay p = 0 \<Longrightarrow> sorted (map bufPopDelay ps)"
  by (induction ps) auto

lemma aged_layout: "sized ps \<Longrightarrow> list_all P ps \<Longrightarrow> (\<And>p. P (aged p) = P p) \<Longrightarrow> \<exists>xs. sized xs \<and> layout (map aged ps) = layout xs \<and> list_all P xs"
  by (rule exI [of _ "map aged ps"]) (simp add: list_all_iff)

lemma slave_stepped_sbuf:
  assumes "s_ok s"
  shows "map strip (queue_of (sbuf c (slave_stepped s))) = map strip (queue_of (sbuf c s)) \<and> length (sbuf c (slave_stepped s)) = length (sbuf c s)"
proof -
  obtain xs where b: "sized xs" "sbuf c s = layout xs" using assms by (cases c) (auto simp: s_ok_def)
  have "sbuf c (slave_stepped s) = map step_packet (sbuf c s)"
    using assms by (cases c) (simp_all add: s_ok_def slave_stepped_def dual_Step_def Let_def)
  then have n: "sbuf c (slave_stepped s) = layout (map aged xs)" by (simp only: b(2) step_layout)
  have "queue_of (layout (map aged xs)) = map aged xs" "queue_of (layout xs) = xs" using b(1) by (intro queue_of_layout, simp)+
  then have "map strip (queue_of (sbuf c (slave_stepped s))) = map strip (queue_of (sbuf c s))" unfolding n b(2) by (simp only: aged_lists)
  moreover have "length (sbuf c (slave_stepped s)) = length (sbuf c s)" unfolding n b(2) using b(1) by (simp only: length_layout aged_lists flits_aged)
  ultimately show ?thesis ..
qed

lemma slave_stepped_ok:
  assumes "s_ok s"
  shows "s_ok (slave_stepped s)" "slaveSEQ (slave_stepped s) = slaveSEQ s" "s_downstream (slave_stepped s) = s_downstream s"
    "map core (s_linkRxTx (slave_stepped s)) = map core (s_linkRxTx s)"
proof -
  have rx: "s_linkRxTx (slave_stepped s) = map aged (s_linkRxTx s)" by (simp add: slave_stepped_def tick_aged)
  have z: "\<forall>p \<in> set (s_linkRxTx (slave_stepped s)). bufPopDelay p = 0" using assms by (auto simp: rx s_ok_def aged_def dec_sat_def)
  obtain us ds where b: "sized us" "upBuffers s = layout us" "list_all (\<lambda>p. packetType p = RESPONSE \<and> LNG p \<le> 32) us"
    "sized ds" "downBuffers s = layout ds" "list_all (\<lambda>p. packetType p = REQUEST \<and> LNG p \<le> 32) ds" using assms by (rule s_okE)
  have n: "upBuffers (slave_stepped s) = layout (map aged us)" "downBuffers (slave_stepped s) = layout (map aged ds)"
    using assms b by (simp_all add: s_ok_def slave_stepped_def dual_Step_def Let_def step_layout)
  have "currentState (slave_stepped s) = NORMAL" "is_link (slave_stepped s)" "upBufferMax (slave_stepped s) = 32" "downBufferMax (slave_stepped s) = 32"
    using assms by (simp_all add: s_ok_def slave_stepped_def dual_Step_def Let_def)
  then show "s_ok (slave_stepped s)" unfolding s_ok_def n using z zero_delays [OF z] aged_layout [OF b(1,3)] aged_layout [OF b(4,6)] by simp
  show "slaveSEQ (slave_stepped s) = slaveSEQ s" "s_downstream (slave_stepped s) = s_downstream s" by (simp_all add: slave_stepped_def dual_Step_def Let_def)
  show "map core (s_linkRxTx (slave_stepped s)) = map core (s_linkRxTx s)" by (simp only: rx aged_lists)
qed

text \<open>
  What an update of a slave does: it takes the packets \<open>ps\<close> that have come in, the tokens they carry
  go to the master, and it passes the packets \<open>dl\<close> of each class on to the destination.
\<close>

definition slave_result :: "link_slave \<Rightarrow> link_master \<Rightarrow> 'd dual_vector_scheme \<Rightarrow> link_slave \<Rightarrow> link_master \<Rightarrow> 'd dual_vector_scheme \<Rightarrow>
    packet list \<Rightarrow> (cls \<Rightarrow> packet list) \<Rightarrow> bool" where
  "slave_result s m d s' m' d' ps dl \<longleftrightarrow> s_ok s' \<and> s_downstream s' = s_downstream s \<and> map core (s_linkRxTx s) = map core (ps @ s_linkRxTx s')
     \<and> sync (slaveSEQ s) ps (slaveSEQ s') \<and> m_ok m' \<and> masterSEQ m' = masterSEQ m \<and> acks (m_linkRxTx m) (m_linkRxTx m')
     \<and> (\<forall>c. unat (tok c m') = unat (tok c m) + carried c ps \<and> sized (dl c) \<and> sbuf c d' = sbuf c d @ layout (dl c)
       \<and> map strip (queue_of (sbuf c s) @ of_cls c ps) = map strip (dl c @ queue_of (sbuf c s'))
       \<and> length (sbuf c s) + load c ps = flits (dl c) + length (sbuf c s')
       \<and> carried c (waiting m') = carried c (waiting m) + flits (dl c) \<and> map strip (of_cls c (waiting m')) = map strip (of_cls c (waiting m)))"

lemma rx_pass_result:
  assumes "rx_result s m s1 m1 ps" "pass_result s1 m1 d s2 m2 d' dl"
  shows "slave_result s m d (slave_stepped s2) m2 d' ps dl"
proof -
  have s2: "s_ok s2" using assms(2) by (simp add: pass_result_def)
  note st = slave_stepped_ok [OF s2] slave_stepped_sbuf [OF s2]
  show ?thesis using assms st by (auto simp: slave_result_def rx_result_def pass_result_def quiet_step_def same_load_def)
qed

lemma LinkSlave_Update_runs:
  assumes "\<not> lp_CRC_CHECK par" "s_ok s" "m_ok m" "list_all wire_ok (s_linkRxTx s)" "sync (slaveSEQ s) (s_linkRxTx s) k"
    and tk: "\<And>c. unat (tok c m) + carried c (s_linkRxTx s) \<le> 32" and room: "\<And>c. length (sbuf c s) + load c (s_linkRxTx s) \<le> 32"
    and cr: "\<And>c. carried c (waiting m) \<le> 32" and dn: "\<not> s_downstream s \<Longrightarrow> downBuffers s = [] \<and> load Req (s_linkRxTx s) = 0"
  shows "runs (LinkSlave_Update par (s, m, st, d)) (\<lambda>(s', m', st', d'). \<exists>ps dl. slave_result s m d s' m' d' ps dl)"
proof -
  have 1: "runs (slave_receives par (s, m, st)) (\<lambda>(s', m', st'). st' = st \<and> (\<exists>ps. rx_result s m s' m' ps))"
    by (rule slave_receives_runs [OF assms(1-5) tk room])
  have 2: "runs (pass_up par (s1, m1, d)) (\<lambda>(sent, s', m', d'). (\<exists>dl. pass_result s1 m1 d s' m' d' dl) \<and> (\<not> sent \<longrightarrow> s' = s1 \<and> m' = m1 \<and> (\<forall>c. sbuf c d' = sbuf c d)))"
    if "rx_result s m s1 m1 ps" for s1 m1 ps
    using that cr [of Resp] by (intro pass_up_runs) (simp_all add: rx_result_def quiet_step_def same_load_def)
  have 3: "runs (pass_down par (s1, m1, d1)) (\<lambda>(s', m', d'). \<exists>dl. pass_result s1 m1 d s' m' d' dl)"
    if r: "rx_result s m s1 m1 ps" and "\<forall>c. sbuf c d1 = sbuf c d" for s1 m1 d1 ps
  proof -
    have "downBuffers s1 = []" if "\<not> s_downstream s1"
    proof -
      have "\<not> s_downstream s" "length (sbuf Req s1) = length (sbuf Req s) + load Req ps" "s_linkRxTx s = ps @ s_linkRxTx s1"
        using that r by (auto simp: rx_result_def all_cls)
      then show ?thesis using dn by simp
    qed
    then have "runs (pass_down par (s1, m1, d1)) (\<lambda>(s', m', d'). \<exists>dl. pass_result s1 m1 d1 s' m' d' dl)"
      using r cr [of Req] by (intro pass_down_runs) (auto simp: rx_result_def quiet_step_def same_load_def)
    then show ?thesis using that(2) by (elim runs_mono) (auto simp: pass_result_def)
  qed
  let ?Q = "\<lambda>(s', m', st', d'). \<exists>ps dl. slave_result s m d s' m' d' ps dl"
  have 4: "runs (bindE (if sent then Inr (s2, m2, d2) else pass_down par (s2, m2, d2)) (\<lambda>(s, m, d). Inr (slave_stepped s, m, st, d))) ?Q"
    if r: "rx_result s m s1 m1 ps" and p: "(\<exists>dl. pass_result s1 m1 d s2 m2 d2 dl) \<and> (\<not> sent \<longrightarrow> s2 = s1 \<and> m2 = m1 \<and> (\<forall>c. sbuf c d2 = sbuf c d))" for s1 m1 ps sent s2 m2 d2
  proof (cases sent)
    case True
    then show ?thesis using p rx_pass_result [OF r] by (simp add: runs_simps) blast
  next
    case False
    then have "runs (pass_down par (s2, m2, d2)) (\<lambda>(s', m', d'). \<exists>dl. pass_result s1 m1 d s' m' d' dl)" using 3 [OF r, of d2] p by simp
    then have "runs (pass_down par (s2, m2, d2)) (\<lambda>(s', m', d'). ?Q (slave_stepped s', m', st, d'))" using rx_pass_result [OF r] by (elim runs_mono) (clarsimp, blast)
    then show ?thesis using False by (simp add: runs_wp case_prod_unfold)
  qed
  have 5: "runs (bindE (pass_up par (s1, m1, d)) (\<lambda>(up_sent, s, m, d). bindE (if up_sent then Inr (s, m, d) else pass_down par (s, m, d)) (\<lambda>(s, m, d).
       Inr (slave_stepped s, m, st, d)))) ?Q" if r: "rx_result s m s1 m1 ps" for s1 m1 ps
    unfolding runs_wp(3) by (rule runs_mono [OF 2 [OF r]], simp only: split_paired_all prod.case) (rule 4 [OF r])
  show ?thesis unfolding LinkSlave_Update_def prod.case runs_wp(3) [of "slave_receives par (s, m, st)"] slave_stepped_def [symmetric]
    by (rule runs_mono [OF 1], simp only: split_paired_all prod.case) (use 5 in blast)
qed

end
