(* ===== verification/Link_Channel.thy ===== *)
theory Link_Channel
  imports Link_Flow
begin

text \<open>
  Two link ends that face each other, and every interleaving of the updates of their masters, links
  and slaves. The invariant of this channel carries the theorems: tokens are conserved, no update
  fails, and the channel is a queue in each direction for each class.
\<close>

section \<open>The update of a master\<close>

text \<open>A master puts the packets \<open>ps\<close> on the link and gives their tokens.\<close>

definition sends :: "link_master \<Rightarrow> link_master \<Rightarrow> packet list \<Rightarrow> bool" where
  "sends m m' ps \<longleftrightarrow> m_ok m' \<and> m_linkRxTx m' = m_linkRxTx m @ ps \<and> list_all wire_ok ps \<and> sync (masterSEQ m) ps (masterSEQ m')
     \<and> (\<forall>c. unat (tok c m) = unat (tok c m') + load c ps \<and> carried c (waiting m) = carried c ps + carried c (waiting m')
       \<and> map strip (of_cls c (waiting m)) = map strip (of_cls c ps @ of_cls c (waiting m')))"

lemma sends_none: "m_ok m \<Longrightarrow> sends m m []"
  by (simp add: sends_def)

lemma sends_trans: "sends m m1 ps \<Longrightarrow> sends m1 m2 qs \<Longrightarrow> sends m m2 (ps @ qs)"
  by (auto simp: sends_def sync_append)

definition outgoing :: "link_master \<Rightarrow> packet \<Rightarrow> packet" where
  "outgoing m p = p\<lparr>SEQ := seq_val (masterSEQ m), RRP := lastestRRP m,
     FRP := word_of_int (if uint (LNG p) < 32 then uint (LNG p) else uint (LNG p) - 32), bufPopDelay := 1\<rparr>"

lemma outgoing_facts [simp]: "strip (outgoing m p) = strip p" "rtc c (outgoing m p) = rtc c p" "packetType (outgoing m p) = packetType p" "LNG (outgoing m p) = LNG p"
  "CMD (outgoing m p) = CMD p" "SEQ (outgoing m p) = seq_val (masterSEQ m)"
  by (simp_all add: outgoing_def strip_def, cases c, simp_all)

lemma outgoing_ok: "wait_ok p \<Longrightarrow> lastestRRP m < 32 \<Longrightarrow> wire_ok (outgoing m p)"
proof -
  assume p: "wait_ok p" and r: "lastestRRP m < 32"
  have "LNG p \<le> 32" using p by (simp add: wait_ok_def)
  then have "uint (LNG p) \<le> 32" by (simp add: word_le_def)
  then have "FRP (outgoing m p) < 32" by (cases "uint (LNG p) = 32") (auto simp: outgoing_def word_less_def)
  then show ?thesis using p r by (auto simp: wire_ok_def wait_ok_def outgoing_def)
qed

definition sent_front :: "link_master \<Rightarrow> packet \<Rightarrow> link_master" where
  "sent_front m p = m\<lparr>masterSEQ := seq_next (masterSEQ m), m_startCRC := False, m_linkRxTx := m_linkRxTx m @ [outgoing m p],
     downTokenCount := (if packetType p = REQUEST then downTokenCount m - LNG p else downTokenCount m),
     upTokenCount := (if packetType p = RESPONSE then upTokenCount m - LNG p else upTokenCount m),
     downBuffers := (if packetType p = REQUEST then drop (unat (LNG p)) (downBuffers m) else downBuffers m),
     upBuffers := (if packetType p = REQUEST then upBuffers m else drop (unat (LNG p)) (upBuffers m)),
     m_countdownCRC := dec_sat (m_countdownCRC m)\<rparr>"

lemma CRCCountdown_eq:
  assumes "\<not> lp_CRC_CHECK par" "unat (LNG p) \<le> length (if packetType p = REQUEST then downBuffers m else upBuffers m)"
  shows "CRCCountdown par (uint (LNG p)) p m = Inr (sent_front m p)"
  using assms by (cases "packetType p")
    (simp_all add: CRCCountdown_def UpdateField_def sent_front_def outgoing_def seq_next_def seq_val_def MAX_RETRY_BUF_def Let_def)

text \<open>The packet in front of a buffer for which there are tokens.\<close>

lemma sent_tokens: "n \<le> t \<Longrightarrow> unat (t - n) + unat n = unat (t :: u32)"
  by (metis unat_sub add.commute le_add_diff_inverse word_le_nat_alt)

lemma sent_request:
  assumes "m_ok m" "upBuffers m = layout us" "downBuffers m = layout (p # ps)" "sized us" "sized (p # ps)" "list_all up_ok us" "list_all down_ok (p # ps)"
    "LNG p \<le> downTokenCount m"
  shows "unat (LNG p) \<le> length (downBuffers m)" "sends m (sent_front m p) [outgoing m p]"
proof -
  have p: "packetType p = REQUEST" "wait_ok p" "sized ps" "list_all down_ok ps" using assms(5,7) by (simp_all add: down_ok_def)
  obtain t where t: "downBuffers m = Some p # t" "drop (unat (LNG p)) (Some p # t) = layout ps" "unat (LNG p) \<le> length (Some p # t)"
    "length (Some p # t) = unat (LNG p) + length (layout ps)" using assms(3,5) by (rule layout_headE)
  then show "unat (LNG p) \<le> length (downBuffers m)" by simp
  have d: "drop (unat (LNG p)) (downBuffers m) = layout ps" using t by simp
  have m': "m_ok (sent_front m p)" using assms(1,2,4,6) p d by (auto simp: m_ok_def sent_front_def)
  have w: "waiting m = us @ p # ps" "waiting (sent_front m p) = us @ ps" using assms p d queue_of_layout [of "p # ps"] by (simp_all add: waiting_def sent_front_def del: layout_simps)
  have n: "of_cls Req us = []" using assms(6) by (auto simp: of_cls_def filter_empty_conv list_all_iff up_ok_def)
  have "lastestRRP m < 32" using assms(1) by (simp add: m_ok_def)
  then show "sends m (sent_front m p) [outgoing m p]" using m' p w n outgoing_ok [OF p(2)] sent_tokens [OF assms(8)]
    by (simp add: sends_def all_cls of_cls_Cons, simp add: sent_front_def wait_ok_def)
qed

lemma sent_response:
  assumes "m_ok m" "upBuffers m = layout (p # ps)" "downBuffers m = layout ds" "sized (p # ps)" "sized ds" "list_all up_ok (p # ps)" "list_all down_ok ds"
    "packetType p = FLOW \<or> LNG p \<le> upTokenCount m"
  shows "unat (LNG p) \<le> length (upBuffers m)" "sends m (sent_front m p) [outgoing m p]"
proof -
  have p: "packetType p \<noteq> REQUEST" "wait_ok p" "sized ps" "list_all up_ok ps" using assms(4,6) by (simp_all add: up_ok_def)
  obtain t where t: "upBuffers m = Some p # t" "drop (unat (LNG p)) (Some p # t) = layout ps" "unat (LNG p) \<le> length (Some p # t)"
    "length (Some p # t) = unat (LNG p) + length (layout ps)" using assms(2,4) by (rule layout_headE)
  then show "unat (LNG p) \<le> length (upBuffers m)" by simp
  have d: "drop (unat (LNG p)) (upBuffers m) = layout ps" using t by simp
  have m': "m_ok (sent_front m p)" using assms(1,3,5,7) p d by (auto simp: m_ok_def sent_front_def)
  have w: "waiting m = p # ps @ ds" "waiting (sent_front m p) = ps @ ds" using assms p d queue_of_layout [of "p # ps"] by (simp_all add: waiting_def sent_front_def del: layout_simps)
  have k: "packetType p = RESPONSE \<Longrightarrow> unat (upTokenCount m - LNG p) + unat (LNG p) = unat (upTokenCount m)" using sent_tokens assms(8) by auto
  have "lastestRRP m < 32" using assms(1) by (simp add: m_ok_def)
  then show "sends m (sent_front m p) [outgoing m p]" using m' p w outgoing_ok [OF p(2)] k
    by (simp add: sends_def all_cls of_cls_Cons, simp add: sent_front_def wait_ok_def)
qed

lemma send_front_runs:
  assumes "\<not> lp_CRC_CHECK par" "m_ok m"
  shows "runs (send_front par up m) (\<lambda>m'. \<exists>ps. sends m m' ps)"
proof -
  obtain us ds where b: "sized us" "upBuffers m = layout us" "list_all up_ok us" "sized ds" "downBuffers m = layout ds" "list_all down_ok ds"
    "waiting m = us @ ds" using assms(2) by (rule m_okE)
  have w: "retBufWriteP m = 0" using assms(2) by (simp add: m_ok_def)
  have none: "runs (Inr m) (\<lambda>m'. \<exists>ps. sends m m' ps)" using sends_none [OF assms(2)] by (auto simp: runs_simps)
  show ?thesis
  proof (cases up)
    case True
    show ?thesis
    proof (cases us)
      case (Cons p ps)
      note r = sent_response [OF assms(2) b(2) [unfolded Cons] b(5) b(1) [unfolded Cons] b(4) b(3) [unfolded Cons] b(6)]
      have "packetType p \<noteq> REQUEST" "upBuffers m = Some p # replicate (unat (LNG p) - 1) None @ layout ps" using b(2,3) Cons by (simp_all add: up_ok_def packet_slots_def)
      then show ?thesis using True none r CRCCountdown_eq [OF assms(1), of p m] w assms(1) unfolding send_front_def
        by (auto simp: runs_simps Let_def)
    qed (use True b(2) none in \<open>simp add: send_front_def\<close>)
  next
    case False
    show ?thesis
    proof (cases ds)
      case (Cons p ps)
      note r = sent_request [OF assms(2) b(2) b(5) [unfolded Cons] b(1) b(4) [unfolded Cons] b(3) b(6) [unfolded Cons]]
      have "packetType p = REQUEST" "downBuffers m = Some p # replicate (unat (LNG p) - 1) None @ layout ps" using b(5,6) Cons by (simp_all add: down_ok_def packet_slots_def)
      then show ?thesis using False none r CRCCountdown_eq [OF assms(1), of p m] w assms(1) unfolding send_front_def
        by (auto simp: runs_simps Let_def)
    qed (use False b(5) none in \<open>simp add: send_front_def\<close>)
  qed
qed


lemma m_okD: assumes "m_ok m" shows "currentState m = NORMAL" "\<not> startRetryTimer m" "retryTimer m = 0"
  using assms by (simp_all add: m_ok_def)

lemma dual_Step_sends:
  assumes "m_ok m"
  shows "sends m (dual_Step m) []"
proof -
  obtain us ds where b: "sized us" "upBuffers m = layout us" "list_all up_ok us" "sized ds" "downBuffers m = layout ds" "list_all down_ok ds"
    "waiting m = us @ ds" using assms by (rule m_okE)
  have l: "is_link m" using assms by (simp add: m_ok_def)
  have n: "upBuffers (dual_Step m) = layout (map aged us)" "downBuffers (dual_Step m) = layout (map aged ds)"
    using l b by (simp_all add: dual_Step_def Let_def step_layout)
  have "m_ok (m\<lparr>upBuffers := layout (map aged us), downBuffers := layout (map aged ds)\<rparr>)" using b by (intro m_ok_buffers [OF assms]) simp_all
  moreover have e: "dual_Step m = m\<lparr>currentClockCycle := currentClockCycle m + 1, upBuffers := layout (map aged us), downBuffers := layout (map aged ds)\<rparr>"
    using l b by (simp add: dual_Step_def Let_def step_layout)
  ultimately have ok: "m_ok (dual_Step m)" by (simp add: m_ok_def)
  have "queue_of (layout (map aged us)) = map aged us" "queue_of (layout (map aged ds)) = map aged ds" using b by (intro queue_of_layout, simp)+
  then have w: "waiting (dual_Step m) = map aged (us @ ds)" by (simp add: waiting_def n)
  have "carried c (map aged ps) = carried c ps" "map strip (of_cls c (map aged ps)) = map strip (of_cls c ps)" for c ps by (induction ps) (simp_all add: of_cls_Cons)
  moreover have "m_linkRxTx (dual_Step m) = m_linkRxTx m" "masterSEQ (dual_Step m) = masterSEQ m" "tok c (dual_Step m) = tok c m" for c
    by (simp_all add: e, cases c, simp_all)
  ultimately show ?thesis using ok w b(7) by (simp add: sends_def)
qed

lemma LinkMaster_Update_runs:
  assumes "\<not> lp_CRC_CHECK par" "m_ok m"
  shows "runs (LinkMaster_Update par (m, st)) (\<lambda>(m', st'). st' = st \<and> (\<exists>ps. sends m m' ps))"
proof -
  have quiet: "finish_link_retry par m1 = Inr m1" "retry_time_out par (m1, st) = Inr (m1, st)" if "m_ok m1" for m1
    using m_okD [OF that] by (simp_all add: finish_link_retry_def retry_time_out_def)
  have 1: "runs (send_front par True m) (\<lambda>m1. \<exists>ps. sends m m1 ps)" by (rule send_front_runs [OF assms])
  have 2: "runs (send_front par False m1) (\<lambda>m2. \<exists>ps. sends m m2 ps)" if "sends m m1 ps" for m1 ps
  proof -
    have "m_ok m1" using that by (simp add: sends_def)
    from send_front_runs [OF assms(1) this] show ?thesis by (rule runs_mono) (use sends_trans [OF that] in blast)
  qed
  have 3: "runs (bindE (finish_link_retry par m2) (\<lambda>m. bindE (retry_time_out par (m, st)) (\<lambda>(m, st). Inr (dual_Step m, st))))
      (\<lambda>(m', st'). st' = st \<and> (\<exists>ps. sends m m' ps))" if "sends m m2 ps" for m2 ps
  proof -
    have m2: "m_ok m2" using that by (simp add: sends_def)
    then have "sends m (dual_Step m2) ps" using sends_trans [OF that dual_Step_sends [OF m2]] by simp
    then show ?thesis by (auto simp: runs_simps quiet [OF m2])
  qed
  show ?thesis unfolding LinkMaster_Update_def prod.case runs_wp(3) [of "send_front par True m"] runs_wp(3) [of "send_front par False m'" for m']
    by (rule runs_mono [OF 1], erule exE, rule runs_mono [OF 2], assumption, erule exE, rule 3)
qed

section \<open>The update of a link\<close>

definition flight :: "link \<Rightarrow> packet list" where
  "flight l = (case inFlightPacket l of None \<Rightarrow> [] | Some p \<Rightarrow> [p])"

lemma s_ok_push: "s_ok s \<Longrightarrow> s_ok (s\<lparr>s_linkRxTx := s_linkRxTx s @ [p\<lparr>bufPopDelay := 1\<rparr>]\<rparr>)"
  by (auto simp: s_ok_def sorted_append)

lemma start_transmission_path:
  "start_transmission par (l, m, s, tr, st) = Inr (l', m', s', tr', st') \<Longrightarrow>
     s' = s \<and> (\<exists>x. m' = m\<lparr>m_linkRxTx := x\<rparr>) \<and> flight l' @ m_linkRxTx m' = flight l @ m_linkRxTx m"
  by (auto simp: start_transmission_def err_simps flight_def split: list.splits if_splits intro: exI [of _ "m_linkRxTx m"])

lemma NoisePacket_core: "NoisePacket par rnd p = Inr q \<Longrightarrow> core q = core p"
  by (auto simp: NoisePacket_def err_simps core_def split: if_splits)

lemma core_delay [simp]: "core (p\<lparr>bufPopDelay := n\<rparr>) = core p"
  by (simp add: core_def)

lemma transmit_path:
  assumes "transmit par rnd (l, m, s, tr, st) = Inr (l', m', s', tr', st')" "s_ok s"
  shows "s_ok s' \<and> m' = m \<and> (\<exists>y. s' = s\<lparr>s_linkRxTx := y\<rparr>) \<and> map core (s_linkRxTx s' @ flight l') = map core (s_linkRxTx s @ flight l)"
proof (cases "inFlightCountdown l > 0 \<and> inFlightCountdown l - 1 = 0")
  case True
  then obtain p q where p: "inFlightPacket l = Some p" "NoisePacket par rnd p = Inr q" "l' = l\<lparr>inFlightCountdown := inFlightCountdown l - 1, inFlightPacket := None\<rparr>"
      "m' = m" "s' = s\<lparr>s_linkRxTx := s_linkRxTx s @ [q\<lparr>bufPopDelay := 1\<rparr>]\<rparr>"
    using assms(1) by (auto simp: transmit_def Let_def err_simps split: option.splits if_splits)
  then show ?thesis using NoisePacket_core [OF p(2)] s_ok_push [OF assms(2), of q] by (auto simp: flight_def)
next
  case False
  then show ?thesis using assms by (auto simp: transmit_def Let_def flight_def split: if_splits intro: exI [of _ "s_linkRxTx s"])
qed

lemma Link_Update_path:
  assumes "Link_Update par rnd b (l, m, s, tr, st) = Inr (l', m', s', tr', st')" "s_ok s"
  shows "s_ok s' \<and> (\<exists>x. m' = m\<lparr>m_linkRxTx := x\<rparr>) \<and> (\<exists>y. s' = s\<lparr>s_linkRxTx := y\<rparr>)
    \<and> map core (s_linkRxTx s' @ flight l' @ m_linkRxTx m') = map core (s_linkRxTx s @ flight l @ m_linkRxTx m)"
proof -
  obtain l1 m1 s1 tr1 st1 l2 m2 s2 where 1: "start_transmission par (l, m, s, tr, st) = Inr (l1, m1, s1, tr1, st1)"
    and 2: "transmit par rnd (l1, m1, s1, tr1, st1) = Inr (l2, m2, s2, tr', st')"
    and e: "l' = l2\<lparr>lk_clock := lk_clock l2 + 1\<rparr>" "m' = (if b then m2\<lparr>m_linkRxTx := tick_packets (m_linkRxTx m2)\<rparr> else m2)" "s' = s2"
    using assms(1) by (auto simp: Link_Update_def err_simps)
  note p1 = start_transmission_path [OF 1]
  then have p2: "s_ok s2 \<and> m2 = m1 \<and> (\<exists>y. s2 = s1\<lparr>s_linkRxTx := y\<rparr>) \<and> map core (s_linkRxTx s2 @ flight l2) = map core (s_linkRxTx s1 @ flight l1)"
    using transmit_path [OF 2] assms(2) by simp
  have t: "map core (m_linkRxTx m') = map core (m_linkRxTx m2)" by (simp add: e(2) tick_aged del: map_map)
  have f: "flight l' = flight l2" by (simp add: e(1) flight_def)
  have "map core (s_linkRxTx s' @ flight l' @ m_linkRxTx m') = map core (s_linkRxTx s1 @ flight l1) @ map core (m_linkRxTx m1)"
    using p2 t f e(3) by simp
  also have "\<dots> = map core (s_linkRxTx s @ flight l @ m_linkRxTx m)" using p1 by (metis append.assoc map_append)
  finally show ?thesis using p1 p2 e by auto
qed


section \<open>The packets between two ends\<close>

lemma coreD: "core p = core q \<Longrightarrow> strip p = strip q \<and> SEQ p = SEQ q \<and> DRTC p = DRTC q \<and> URTC p = URTC q \<and> RRP p = RRP q \<and> FRP p = FRP q
    \<and> chkRRP p = chkRRP q \<and> chkCRC p = chkCRC q \<and> packetType p = packetType q \<and> LNG p = LNG q \<and> CMD p = CMD q"
  by (cases p; cases q) (simp add: core_def strip_def)

lemma core_wire: "core p = core q \<Longrightarrow> wire_ok p = wire_ok q"
  by (drule coreD) (simp add: wire_ok_def)

lemma core_rtc: "core p = core q \<Longrightarrow> rtc c p = rtc c q"
  by (drule coreD) (cases c; simp)

lemma core_views:
  assumes "map core ps = map core qs"
  shows "list_all wire_ok ps = list_all wire_ok qs" "sync n ps k = sync n qs k" "load c ps = load c qs" "carried c ps = carried c qs"
    "map strip (of_cls c ps) = map strip (of_cls c qs)"
proof -
  have "list_all2 (\<lambda>p q. core p = core q) ps qs" using assms by (simp add: list_all2_conv_all_nth list_eq_iff_nth_eq)
  then have "list_all wire_ok ps = list_all wire_ok qs \<and> (\<forall>n. sync n ps k = sync n qs k) \<and> load c ps = load c qs \<and> carried c ps = carried c qs
      \<and> map strip (of_cls c ps) = map strip (of_cls c qs)"
  proof (induction rule: list_all2_induct)
    case (Cons p ps q qs)
    then show ?case using coreD [OF Cons.hyps(1)] core_wire [OF Cons.hyps(1)] core_rtc [OF Cons.hyps(1), of c] by (simp add: of_cls_Cons)
  qed simp
  then show "list_all wire_ok ps = list_all wire_ok qs" "sync n ps k = sync n qs k" "load c ps = load c qs" "carried c ps = carried c qs"
    "map strip (of_cls c ps) = map strip (of_cls c qs)" by blast+
qed

lemma sync_fun: "sync n ps j \<Longrightarrow> sync n ps k \<Longrightarrow> j = k"
  by (induction ps arbitrary: n) (auto split: if_splits)

lemma acks_views:
  assumes "acks ps qs"
  obtains as where "qs = ps @ as" "list_all wire_ok as" "\<And>n. sync n as n" "\<And>c. load c as = 0" "\<And>c. carried c as = 0" "\<And>c. of_cls c as = []"
proof -
  obtain as where a: "qs = ps @ as" "list_all (\<lambda>q. wire_ok q \<and> CMD q = PRET) as" using assms by (auto simp: acks_def)
  have r: "rtc c q = 0" if "wire_ok q" "CMD q = PRET" for c q using that by (cases c) (simp_all add: wire_ok_def)
  have t: "packetType q \<noteq> ty c" if "wire_ok q" "CMD q = PRET" for c q using that by (cases c) (simp_all add: wire_ok_def)
  have "list_all wire_ok as \<and> sync n as n \<and> load c as = 0 \<and> carried c as = 0 \<and> of_cls c as = []" for n c
    using a(2) by (induction as) (auto simp: of_cls_Cons r t)
  then show thesis using that [OF a(1)] by blast
qed

section \<open>Two ends\<close>

text \<open>
  One end of a channel: its master, the link that the master sends over and its slave. The last two
  fields are no part of the program: they record what the master has accepted and what the slave has
  passed on, by class.
\<close>

record side =
  e_master :: link_master
  e_link :: link
  e_slave :: link_slave
  e_sent :: "cls \<Rightarrow> packet list"
  e_got :: "cls \<Rightarrow> packet list"

definition side_start :: "bool \<Rightarrow> bool \<Rightarrow> nat \<Rightarrow> side" where
  "side_start out inc i = \<lparr>e_master = LinkMaster out, e_link = Link out i, e_slave = LinkSlave inc i, e_sent = (\<lambda>_. []), e_got = (\<lambda>_. [])\<rparr>"

text \<open>The packets on their way from one end to the other, the oldest first.\<close>

definition path :: "side \<Rightarrow> side \<Rightarrow> packet list" where
  "path a b = s_linkRxTx (e_slave b) @ flight (e_link a) @ m_linkRxTx (e_master a)"

text \<open>The packets that components put into a master: those of the controller are new, the crossbar resets the fields.\<close>

definition fresh :: "packet \<Rightarrow> bool" where
  "fresh p \<longleftrightarrow> \<not> chkCRC p \<and> DRTC p = 0 \<and> URTC p = 0 \<and> 1 \<le> LNG p \<and> LNG p \<le> 32 \<and> packetType p \<noteq> FLOW \<and> CMD p \<noteq> PRET \<and> CMD p \<noteq> TRET \<and> CMD p \<noteq> IRTRY"

definition offer :: "packet \<Rightarrow> link_master \<Rightarrow> bool \<times> link_master" where
  "offer p m = (if packetType p = REQUEST then ReceiveDown p m else ReceiveUp p m)"

text \<open>
  Every interleaving of what can happen at two ends: a packet is offered to a master, a master, a
  link or a slave is updated; the destination \<open>d\<close> of a slave is any buffer and may be full. A request
  is only sent to an end whose slave is downstream.
\<close>

inductive channel :: "link_par \<Rightarrow> side \<Rightarrow> side \<Rightarrow> bool" for par where
  start: "channel par (side_start x y i) (side_start y x j)"
| turn: "channel par a b \<Longrightarrow> channel par b a"
| offer: "channel par a b \<Longrightarrow> fresh p \<Longrightarrow> packetType p = ty c \<Longrightarrow> (c = Req \<longrightarrow> s_downstream (e_slave b)) \<Longrightarrow> offer p (e_master a) = (True, m') \<Longrightarrow>
    channel par (a\<lparr>e_master := m', e_sent := (e_sent a)(c := e_sent a c @ [p])\<rparr>) b"
| master: "channel par a b \<Longrightarrow> LinkMaster_Update par (e_master a, st) = Inr (m', st') \<Longrightarrow> channel par (a\<lparr>e_master := m'\<rparr>) b"
| link: "channel par a b \<Longrightarrow> Link_Update par rnd upd (e_link a, e_master a, e_slave b, tr, st) = Inr (l', m', s', tr', st') \<Longrightarrow>
    channel par (a\<lparr>e_link := l', e_master := m'\<rparr>) (b\<lparr>e_slave := s'\<rparr>)"
| slave: "channel par a b \<Longrightarrow> LinkSlave_Update par (e_slave b, e_master b, st, d) = Inr (s', m', st', d' :: dual_vector) \<Longrightarrow>
    channel par a (b\<lparr>e_slave := s', e_master := m', e_got := (\<lambda>c. e_got b c @ queue_of (drop (length (sbuf c d)) (sbuf c d')))\<rparr>)"

text \<open>The tokens of a class: with the master, on the way as flits, in the slave, and on the way back.\<close>

definition tokens :: "cls \<Rightarrow> side \<Rightarrow> side \<Rightarrow> nat" where
  "tokens c a b = unat (tok c (e_master a)) + load c (path a b) + length (sbuf c (e_slave b)) + carried c (waiting (e_master b)) + carried c (path b a)"

definition transit :: "cls \<Rightarrow> side \<Rightarrow> side \<Rightarrow> packet list" where
  "transit c a b = queue_of (sbuf c (e_slave b)) @ of_cls c (path a b) @ of_cls c (waiting (e_master a))"

definition dir_inv :: "side \<Rightarrow> side \<Rightarrow> bool" where
  "dir_inv a b \<longleftrightarrow> m_ok (e_master a) \<and> s_ok (e_slave b) \<and> list_all wire_ok (path a b)
     \<and> sync (slaveSEQ (e_slave b)) (path a b) (masterSEQ (e_master a))
     \<and> (\<forall>c. tokens c a b = 32 \<and> map strip (e_sent a c) = map strip (e_got b c @ transit c a b))
     \<and> (\<not> s_downstream (e_slave b) \<longrightarrow> downBuffers (e_slave b) = [] \<and> load Req (path a b) = 0 \<and> of_cls Req (waiting (e_master a)) = [])"

section \<open>Every step keeps the invariant\<close>

lemma dir_inv_start: "dir_inv (side_start x y i) (side_start y x j)"
proof -
  have e: "m_ok (LinkMaster x)" "s_ok (LinkSlave x j)" for x by (simp_all add: m_ok_def s_ok_def LinkMaster_def LinkSlave_def dual_vector.defs link_master.defs link_slave.defs
      DualVectorObject_def MAX_LINK_BUF_def MAX_RETRY_BUF_def) (auto intro!: exI [of _ "[]"])
  then show ?thesis
    by (simp add: dir_inv_def tokens_def transit_def path_def side_start_def flight_def waiting_def all_cls)
       (simp add: Link_def LinkMaster_def LinkSlave_def dual_vector.defs link_master.defs link_slave.defs DualVectorObject_def MAX_LINK_BUF_def MAX_RETRY_BUF_def queue_of_def)
qed

lemma offer_waiting:
  assumes "m_ok m" "fresh p" "packetType p = ty c" "offer p m = (True, m')"
  shows "m_ok m'" "m_linkRxTx m' = m_linkRxTx m" "masterSEQ m' = masterSEQ m" "tok e m' = tok e m" "carried e (waiting m') = carried e (waiting m)"
    "of_cls e (waiting m') = of_cls e (waiting m) @ (if e = c then [p] else [])"
proof -
  obtain us ds where b: "sized us" "upBuffers m = layout us" "list_all up_ok us" "sized ds" "downBuffers m = layout ds" "list_all down_ok ds"
    "waiting m = us @ ds" using assms(1) by (rule m_okE)
  have p: "wait_ok p" "1 \<le> LNG p" "rtc e p = 0" for e using assms(2) by (cases e; simp add: fresh_def wait_ok_def)+
  have n: "of_cls Req us = []" "of_cls Resp ds = []" using b(3,6) by (auto simp: of_cls_def filter_empty_conv list_all_iff up_ok_def down_ok_def)
  let ?us = "if c = Req then us else us @ [p]" and ?ds = "if c = Req then ds @ [p] else ds"
  have l: "sized ?us" "list_all up_ok ?us" "sized ?ds" "list_all down_ok ?ds" using b p assms(3) by (cases c; simp add: up_ok_def down_ok_def)+
  have "\<exists>k. m' = m\<lparr>upBuffers := layout ?us, downBuffers := layout ?ds, dv_bufPopDelay := k\<rparr>"
    using assms(3,4) b(2,5) by (cases c) (auto simp: offer_def ReceiveDown_def ReceiveUp_def receive_def split: if_splits intro: exI [of _ "dv_bufPopDelay m"] exI [of _ 1])
  then obtain k where m': "m' = m\<lparr>upBuffers := layout ?us, downBuffers := layout ?ds, dv_bufPopDelay := k\<rparr>" ..
  have w: "waiting m' = ?us @ ?ds" using m_ok_buffers(2) [OF assms(1) l] by (simp add: m' waiting_def)
  show "m_ok m'" using m_ok_buffers(1) [OF assms(1) l] by (simp add: m' m_ok_def)
  show "m_linkRxTx m' = m_linkRxTx m" "masterSEQ m' = masterSEQ m" by (simp_all add: m')
  show "tok e m' = tok e m" by (cases e) (simp_all add: m')
  show "carried e (waiting m') = carried e (waiting m)" using p(3) [of e] by (simp add: w b(7))
  show "of_cls e (waiting m') = of_cls e (waiting m) @ (if e = c then [p] else [])" using assms(3) n by (cases c; cases e) (simp_all add: w b(7) of_cls_Cons)
qed

lemma offer_inv:
  assumes "dir_inv a b" "dir_inv b a" "fresh p" "packetType p = ty c" "c = Req \<longrightarrow> s_downstream (e_slave b)" "offer p (e_master a) = (True, m')"
    "a' = a\<lparr>e_master := m', e_sent := (e_sent a)(c := e_sent a c @ [p])\<rparr>"
  shows "dir_inv a' b" "dir_inv b a'"
proof -
  have "m_ok (e_master a)" using assms(1) by (simp add: dir_inv_def)
  note o = offer_waiting [OF this assms(3,4,6)]
  have p: "path a' b = path a b" "path b a' = path b a" using o(2) by (simp_all add: path_def assms(7))
  show "dir_inv a' b" using assms(1,5) o p by (auto simp: dir_inv_def tokens_def transit_def assms(7))
  show "dir_inv b a'" using assms(2) o p by (simp add: dir_inv_def tokens_def transit_def assms(7))
qed

lemma master_inv:
  assumes "dir_inv a b" "dir_inv b a" "sends (e_master a) m' ps"
  shows "dir_inv (a\<lparr>e_master := m'\<rparr>) b" "dir_inv b (a\<lparr>e_master := m'\<rparr>)"
proof -
  let ?a = "a\<lparr>e_master := m'\<rparr>"
  have p: "path ?a b = path a b @ ps" "path b ?a = path b a" using assms(3) by (simp_all add: path_def sends_def)
  note s = assms(3) [unfolded sends_def]
  have k: "unat (tok c (e_master a)) = unat (tok c m') + load c ps" "carried c (waiting (e_master a)) = carried c ps + carried c (waiting m')"
    "map strip (of_cls c (waiting (e_master a))) = map strip (of_cls c ps @ of_cls c (waiting m'))" for c using s by simp_all
  have q: "sync (slaveSEQ (e_slave b)) (path a b @ ps) (masterSEQ m')" using assms(1) s by (auto simp: dir_inv_def sync_append)
  have t: "tokens c ?a b = tokens c a b" "tokens c b ?a = tokens c b a" "map strip (transit c ?a b) = map strip (transit c a b)" "transit c b ?a = transit c b a" for c
    using k [of c] by (simp_all add: tokens_def transit_def p)
  have r: "load Req ps = 0 \<and> of_cls Req (waiting m') = []" if "of_cls Req (waiting (e_master a)) = []" using k(3) [of Req] that by (simp add: load_def)
  show "dir_inv ?a b" using assms(1) s q t r by (simp add: dir_inv_def p)
  show "dir_inv b ?a" using assms(2) t by (simp add: dir_inv_def p)
qed

lemma link_inv:
  assumes "dir_inv a b" "dir_inv b a" "s_ok s'" "m' = (e_master a)\<lparr>m_linkRxTx := x\<rparr>" "s' = (e_slave b)\<lparr>s_linkRxTx := y\<rparr>"
    "map core (y @ flight l' @ x) = map core (path a b)"
  shows "dir_inv (a\<lparr>e_link := l', e_master := m'\<rparr>) (b\<lparr>e_slave := s'\<rparr>)" "dir_inv (b\<lparr>e_slave := s'\<rparr>) (a\<lparr>e_link := l', e_master := m'\<rparr>)"
proof -
  let ?a = "a\<lparr>e_link := l', e_master := m'\<rparr>" and ?b = "b\<lparr>e_slave := s'\<rparr>"
  have p: "path ?a ?b = y @ flight l' @ x" "path ?b ?a = path b a" using assms(4,5) by (simp_all add: path_def)
  note v = core_views [OF assms(6)]
  have f: "waiting m' = waiting (e_master a)" "tok c m' = tok c (e_master a)" "sbuf c s' = sbuf c (e_slave b)" "m_ok m' = m_ok (e_master a)" "masterSEQ m' = masterSEQ (e_master a)"
    "slaveSEQ s' = slaveSEQ (e_slave b)" "s_downstream s' = s_downstream (e_slave b)" "downBuffers s' = downBuffers (e_slave b)" for c
    using assms(4,5) by (cases c; simp add: waiting_def m_ok_def)+
  have t: "tokens c ?a ?b = tokens c a b" "tokens c ?b ?a = tokens c b a" "map strip (transit c ?a ?b) = map strip (transit c a b)" "transit c ?b ?a = transit c b a" for c
    using v(3-5) [of c] by (simp_all add: tokens_def transit_def p f)
  show "dir_inv ?a ?b" using assms(1,3) t v by (simp add: dir_inv_def p f)
  show "dir_inv ?b ?a" using assms(2) t by (simp add: dir_inv_def p f)
qed

lemma slave_inv:
  assumes "dir_inv a b" "dir_inv b a" "slave_result (e_slave b) (e_master b) d s' m' d' ps dl"
    "b' = b\<lparr>e_slave := s', e_master := m', e_got := (\<lambda>c. e_got b c @ queue_of (drop (length (sbuf c d)) (sbuf c d')))\<rparr>"
  shows "dir_inv a b'" "dir_inv b' a"
proof -
  note s = assms(3) [unfolded slave_result_def]
  obtain as where x: "m_linkRxTx m' = m_linkRxTx (e_master b) @ as" "list_all wire_ok as" "\<And>n. sync n as n" "\<And>c. load c as = 0" "\<And>c. carried c as = 0" "\<And>c. of_cls c as = []"
    using acks_views [of "m_linkRxTx (e_master b)" "m_linkRxTx m'"] s by blast
  have p: "path b' a = path b a @ as" "map core (path a b) = map core (ps @ path a b')" using x(1) s by (simp_all add: path_def assms(4))
  note v = core_views [OF p(2)]
  have k: "unat (tok c m') = unat (tok c (e_master b)) + carried c ps" "sized (dl c)" "sbuf c d' = sbuf c d @ layout (dl c)"
    "map strip (queue_of (sbuf c (e_slave b)) @ of_cls c ps) = map strip (dl c @ queue_of (sbuf c s'))"
    "length (sbuf c (e_slave b)) + load c ps = flits (dl c) + length (sbuf c s')" "carried c (waiting m') = carried c (waiting (e_master b)) + flits (dl c)"
    "map strip (of_cls c (waiting m')) = map strip (of_cls c (waiting (e_master b)))" for c using s by simp_all
  have "sync (slaveSEQ (e_slave b)) (ps @ path a b') (masterSEQ (e_master a))" using assms(1) v(2) by (simp add: dir_inv_def)
  then have q: "sync (slaveSEQ s') (path a b') (masterSEQ (e_master a))" using s sync_fun by (metis sync_append)
  have g: "e_got b' c = e_got b c @ dl c" for c using k(2,3) [of c] by (simp add: assms(4))
  have t: "tokens c a b' = tokens c a b" "tokens c b' a = tokens c b a" for c
    using k [of c] v(3,4) [of c] x(4,5) [of c] by (simp_all add: tokens_def p(1)) (simp_all add: assms(4))
  have f: "map strip (e_got b' c @ transit c a b') = map strip (e_got b c @ transit c a b)" "map strip (transit c b' a) = map strip (transit c b a)" for c
    using k(4,7) [of c] v(5) [of c] x(6) [of c] g [of c] by (simp_all add: transit_def p(1)) (simp_all add: assms(4))
  have r: "downBuffers s' = [] \<and> load Req (path a b') = 0" if "downBuffers (e_slave b) = []" "load Req (path a b) = 0" using k(5) [of Req] v(3) [of Req] that by simp
  show "dir_inv a b'" using assms(1) s q t f r v(1) by (simp add: dir_inv_def) (simp add: assms(4))
  have "s_downstream (e_slave a) \<or> of_cls Req (waiting m') = []" using assms(2) k(7) [of Req] by (auto simp: dir_inv_def)
  then show "dir_inv b' a" using assms(2) s t f x by (simp add: dir_inv_def p(1) sync_append) (auto simp: assms(4))
qed

lemma slave_runs:
  assumes "\<not> lp_CRC_CHECK par" "dir_inv a b" "dir_inv b a"
  shows "runs (LinkSlave_Update par (e_slave b, e_master b, st, d)) (\<lambda>(s', m', st', d'). \<exists>ps dl. slave_result (e_slave b) (e_master b) d s' m' d' ps dl)"
proof -
  let ?rx = "s_linkRxTx (e_slave b)"
  have p: "path a b = ?rx @ flight (e_link a) @ m_linkRxTx (e_master a)" by (simp add: path_def)
  have ok: "s_ok (e_slave b)" "m_ok (e_master b)" "list_all wire_ok ?rx" using assms(2,3) by (simp_all add: dir_inv_def p)
  obtain k where q: "sync (slaveSEQ (e_slave b)) ?rx k" using assms(2) by (auto simp: dir_inv_def p sync_append)
  have t: "tokens c a b = 32" "tokens c b a = 32" for c using assms(2,3) by (simp_all add: dir_inv_def)
  have v: "carried c ?rx \<le> carried c (path a b)" "load c ?rx \<le> load c (path a b)" for c by (simp_all add: p)
  show ?thesis
  proof (rule LinkSlave_Update_runs [OF assms(1) ok q])
    show "unat (tok c (e_master b)) + carried c ?rx \<le> 32" for c using t(2) [of c] v(1) [of c] by (simp add: tokens_def)
    show "length (sbuf c (e_slave b)) + load c ?rx \<le> 32" for c using t(1) [of c] v(2) [of c] by (simp add: tokens_def)
    show "carried c (waiting (e_master b)) \<le> 32" for c using t(1) [of c] by (simp add: tokens_def)
    show "downBuffers (e_slave b) = [] \<and> load Req ?rx = 0" if "\<not> s_downstream (e_slave b)" using assms(2) that v(2) [of Req] by (simp add: dir_inv_def)
  qed
qed

lemma master_runs:
  assumes "\<not> lp_CRC_CHECK par" "dir_inv a b"
  shows "runs (LinkMaster_Update par (e_master a, st)) (\<lambda>(m', st'). st' = st \<and> (\<exists>ps. sends (e_master a) m' ps))"
  using assms by (intro LinkMaster_Update_runs) (simp_all add: dir_inv_def)

lemma channel_inv:
  assumes "\<not> lp_CRC_CHECK par"
  shows "channel par a b \<Longrightarrow> dir_inv a b \<and> dir_inv b a"
proof (induction rule: channel.induct)
  case start
  show ?case by (simp add: dir_inv_start)
next
  case (offer a b p c m')
  then show ?case using offer_inv [OF _ _ offer.hyps(2-5) refl] by simp
next
  case (master a b st m' st')
  then obtain ps where "sends (e_master a) m' ps" using runsD [OF master_runs [OF assms] master.hyps(2)] by auto
  then show ?case using master_inv [of a b] master.IH by simp
next
  case (link a b rnd upd tr st l' m' s' tr' st')
  then have "s_ok (e_slave b)" by (simp add: dir_inv_def)
  from Link_Update_path [OF link.hyps(2) this] obtain x y where l: "s_ok s'" "m' = (e_master a)\<lparr>m_linkRxTx := x\<rparr>" "s' = (e_slave b)\<lparr>s_linkRxTx := y\<rparr>"
    "map core (y @ flight l' @ x) = map core (path a b)" by (auto simp: path_def)
  then show ?case using link_inv [OF _ _ l] link.IH by simp
next
  case (slave a b st d s' m' st' d')
  from runsD [OF slave_runs [OF assms conjunct1 [OF slave.IH] conjunct2 [OF slave.IH]] slave.hyps(2)]
  obtain ps dl where "slave_result (e_slave b) (e_master b) d s' m' d' ps dl" by auto
  then show ?case using slave_inv [OF _ _ _ refl] slave.IH by blast
qed simp

section \<open>Properties of a channel\<close>

text \<open>A run of a channel, step by step; an update of a link has one link in its statistics.\<close>

datatype chan_op = Turn | Offer packet | Master | Wire | Slave dual_vector

fun chan_step :: "link_par \<Rightarrow> chan_op \<Rightarrow> side \<times> side \<Rightarrow> (side \<times> side) result" where
  "chan_step par Turn (a, b) = Inr (b, a)"
| "chan_step par (Offer p) (a, b) = (let c = (if packetType p = REQUEST then Req else Resp); (ok, m) = offer p (e_master a) in
     checkE (fresh p \<and> ok \<and> (c = Req \<longrightarrow> s_downstream (e_slave b))) (Undefined ''offer'') (Inr (a\<lparr>e_master := m, e_sent := (e_sent a)(c := e_sent a c @ [p])\<rparr>, b)))"
| "chan_step par Master (a, b) = bindE (LinkMaster_Update par (e_master a, \<lparr>perLink = [link_zero], errorRetryLat = []\<rparr>)) (\<lambda>(m, _). Inr (a\<lparr>e_master := m\<rparr>, b))"
| "chan_step par Wire (a, b) = bindE (Link_Update par (\<lambda>_. 1) True (e_link a, e_master a, e_slave b, [], \<lparr>perLink = [link_zero], errorRetryLat = []\<rparr>))
     (\<lambda>(l, m, s, _). Inr (a\<lparr>e_link := l, e_master := m\<rparr>, b\<lparr>e_slave := s\<rparr>))"
| "chan_step par (Slave d) (a, b) = bindE (LinkSlave_Update par (e_slave b, e_master b, \<lparr>perLink = [link_zero], errorRetryLat = []\<rparr>, d))
     (\<lambda>(s, m, _, d'). Inr (a, b\<lparr>e_slave := s, e_master := m, e_got := (\<lambda>c. e_got b c @ queue_of (drop (length (sbuf c d)) (sbuf c d')))\<rparr>))"

lemma chan_step_channel:
  assumes "channel par a b" "chan_step par op (a, b) = Inr (a', b')"
  shows "channel par a' b'"
proof (cases op)
  case (Offer p)
  let ?c = "if packetType p = REQUEST then Req else Resp"
  obtain ok m where o: "offer p (e_master a) = (ok, m)" by fastforce
  then have m: "fresh p" "ok" "?c = Req \<longrightarrow> s_downstream (e_slave b)" "a' = a\<lparr>e_master := m, e_sent := (e_sent a)(?c := e_sent a ?c @ [p])\<rparr>" "b' = b"
    using assms(2) by (simp_all add: Offer Let_def checkE_def split: if_splits)
  have "packetType p = ty ?c" using m(1) by (cases "packetType p") (simp_all add: fresh_def)
  then show ?thesis using channel.offer [OF assms(1) m(1) _ m(3)] m(2,4,5) o by simp
next
  case Turn
  then show ?thesis using assms by (simp add: channel.turn)
next
  case Master
  then show ?thesis using assms channel.master [OF assms(1)] by (auto simp: bindE_def split: sum.splits)
next
  case Wire
  then show ?thesis using assms channel.link [OF assms(1)] by (auto simp: bindE_def split: sum.splits)
next
  case (Slave d)
  then show ?thesis using assms channel.slave [OF assms(1)] by (auto simp: bindE_def split: sum.splits)
qed

definition example_par :: link_par where
  "example_par = \<lparr>lp_CRC_CHECK = False, lp_crc_cycles = (\<lambda>_. 0), lp_retry_time = (\<lambda>t. t), lp_LINK_WIDTH = 128, lp_errorProba = 100,
     lp_raw = zero_packet, lp_rnd = (\<lambda>_. 0), lp_garbage = (\<lambda>_. 0)\<rparr>"

definition get_packet :: packet where
  "get_packet = fst (Packet_request False (\<lambda>i. 0) zero_packet 1 REQUEST ACT_GET 0x1000 2 1 None 0 1)"

definition example_ops :: "chan_op list" where
  "example_ops = [Offer get_packet, Master, Master, Wire, Wire, Slave (DualVectorObject 8 8 0), Slave (DualVectorObject 8 8 0), Turn, Master, Turn, Offer get_packet]"

lemma example_run_channel: "foldE (chan_step par) ops s = Inr (a', b') \<Longrightarrow> channel par (fst s) (snd s) \<Longrightarrow> channel par a' b'"
proof (induction ops arbitrary: s)
  case (Cons op ops)
  obtain a b where s: "s = (a, b)" by fastforce
  with Cons.prems(1) obtain a1 b1 where "chan_step par op (a, b) = Inr (a1, b1)" "foldE (chan_step par) ops (a1, b1) = Inr (a', b')" by (auto simp: err_simps)
  then show ?case using Cons.IH [of "(a1, b1)"] chan_step_channel Cons.prems(2) s by simp
qed simp

lemma example_par_crc: "\<not> lp_CRC_CHECK example_par"
  by (simp add: example_par_def)

lemma example_channel:
  obtains a b where "foldE (chan_step example_par) example_ops (side_start True True 0, side_start True True 0) = Inr (a, b)" "channel example_par a b"
    "length (e_sent a Req) = 2" "length (e_got b Req) = 1" "tok Req (e_master a) = 31"
proof -
  have "case foldE (chan_step example_par) example_ops (side_start True True 0, side_start True True 0) of Inl e \<Rightarrow> False
      | Inr (a, b) \<Rightarrow> length (e_sent a Req) = 2 \<and> length (e_got b Req) = 1 \<and> tok Req (e_master a) = 31" by code_simp
  then obtain a b where r: "foldE (chan_step example_par) example_ops (side_start True True 0, side_start True True 0) = Inr (a, b)"
    "length (e_sent a Req) = 2" "length (e_got b Req) = 1" "tok Req (e_master a) = 31" by (auto split: sum.splits)
  moreover have "channel example_par a b" using example_run_channel [OF r(1)] by (simp add: channel.start)
  ultimately show thesis using that by blast
qed

text \<open> C4. Tokens are conserved. Whatever the two ends have done, in whatever order, the tokens of a
  class that a master has, the flits of that class on the way to the slave, those in the buffers of
  the slave, and the tokens that are on their way back add up to the size of a buffer; so the flits on the
  way always fit into the buffer. \<close>

theorem link_tokens_conserved:
  assumes "channel par a b" "\<not> lp_CRC_CHECK par"
  shows "unat (tok c (e_master a)) + load c (path a b) + length (sbuf c (e_slave b)) + carried c (waiting (e_master b)) + carried c (path b a) = MAX_LINK_BUF"
  using channel_inv [OF assms(2,1)] by (simp add: dir_inv_def tokens_def MAX_LINK_BUF_def)

theorem link_tokens_conserved_witness:
  "\<exists>(a :: side) (b :: side). tok Req (e_master a) = 31 \<and> load Req (path a b) + length (sbuf Req (e_slave b)) + carried Req (waiting (e_master b)) + carried Req (path b a) = 1"
proof -
  obtain a b where r: "channel example_par a b" "tok Req (e_master a) = 31" by (rule example_channel)
  have "load Req (path a b) + length (sbuf Req (e_slave b)) + carried Req (waiting (e_master b)) + carried Req (path b a) = 1"
    using link_tokens_conserved [OF r(1) example_par_crc, of Req] r(2) by (simp add: MAX_LINK_BUF_def)
  then show ?thesis using r(2) by blast
qed

text \<open> C5. Without checksums the updates of a link do not fail in a state that its ends can reach: a master
  never reads a null pointer or erases past the end of a buffer, the token registers never go over their
  maximum, a slave never misses a packet because its buffer is full, every sequence number is the expected one,
  and the loop over the retry pointer ends. \<close>

theorem link_updates_succeed:
  assumes "channel par a b" "\<not> lp_CRC_CHECK par"
  shows "isOK (LinkMaster_Update par (e_master a, st)) \<and> isOK (LinkSlave_Update par (e_slave b, e_master b, st, d :: dual_vector))"
proof -
  note i = channel_inv [OF assms(2,1)]
  then show ?thesis using master_runs [OF assms(2), of a b st] slave_runs [OF assms(2), of a b st d] by (auto elim!: runsE)
qed

theorem link_updates_succeed_witness:
  "\<exists>(a :: side) (b :: side). length (e_sent a Req) = 2 \<and> isOK (LinkMaster_Update example_par (e_master a, \<lparr>perLink = [link_zero], errorRetryLat = []\<rparr>))
     \<and> isOK (LinkSlave_Update example_par (e_slave b, e_master b, \<lparr>perLink = [link_zero], errorRetryLat = []\<rparr>, DualVectorObject 8 8 0))"
proof -
  obtain a b where r: "channel example_par a b" "length (e_sent a Req) = 2" by (rule example_channel)
  show ?thesis using r(2) link_updates_succeed [OF r(1) example_par_crc, of "\<lparr>perLink = [link_zero], errorRetryLat = []\<rparr>" "DualVectorObject 8 8 0"]
    by (intro exI [of _ a] exI [of _ b] conjI) simp_all
qed

text \<open> C6. A link is a queue in each direction and for each class of packets: the packets that a master has
  accepted are those that the slave at the other end has passed on, followed by those in the slave, on the way
  and in the master, in this order. No packet is lost, doubled or overtaken by one of its class, and only the
  link's own fields of a packet change. \<close>

theorem link_fifo:
  assumes "channel par a b" "\<not> lp_CRC_CHECK par"
  shows "map strip (e_sent a c) = map strip (e_got b c @ queue_of (sbuf c (e_slave b)) @ of_cls c (path a b) @ of_cls c (waiting (e_master a)))"
  using channel_inv [OF assms(2,1)] by (simp add: dir_inv_def transit_def)

theorem link_fifo_witness:
  "\<exists>(a :: side) (b :: side). length (e_sent a Req) = 2 \<and> length (e_got b Req) = 1
     \<and> map strip (e_sent a Req) = map strip (e_got b Req @ queue_of (sbuf Req (e_slave b)) @ of_cls Req (path a b) @ of_cls Req (waiting (e_master a)))"
proof -
  obtain a b where "channel example_par a b" "length (e_sent a Req) = 2" "length (e_got b Req) = 1" by (rule example_channel)
  then show ?thesis using link_fifo [of example_par a b Req] example_par_crc by blast
qed

end
