(* ===== verification/Controller.thy ===== *)
theory Controller
  imports Link_Channel Address_Mapping
begin

text \<open>
  The HMC controller: \<open>HMCController.cpp\<close>. Transactions of the processor wait in \<open>downBuffers\<close>, are
  made into packets and handed to the masters of the links; responses leave from \<open>upBuffers\<close>. The
  gathers of the threads of a flow meet at a barrier, and the last of them is sent for all.

  The controller is a dual vector of transactions and packets: its record extends the dual vector
  of packets, whose \<open>downBuffers\<close> stay empty, with the buffer of transactions \<open>tranBuffers\<close>. A
  transaction takes one place. A trace that is deleted stays in the store, and its latencies
  enter the statistics. The variants of the code for \<open>McSim\<close> (without \<open>CASHMC\<close>) are modelled.
\<close>

section \<open>State\<close>

definition MAX_REQ_BUF :: nat where "MAX_REQ_BUF = 4"

definition CPU_LINKS :: "topology \<Rightarrow> nat" where
  "CPU_LINKS t = (case t of DUAL_HMC \<Rightarrow> 1 | MESH \<Rightarrow> 1 | DFLY \<Rightarrow> 1 | DEFAULT \<Rightarrow> 4)"

record hmc_par =
  hp_link :: link_par
  hp_topology :: topology
  hp_priority :: link_priority
  hp_mapping :: mapping_scheme

text \<open>What the controller shares with others: traces, statistics and the global tag of packets.\<close>

record hmc_env =
  w_traces :: "tran_trace list"
  w_statis :: tran_statistic
  hmcTransmitSize :: u64
  packetGlobalTAG :: u32

record hmc_controller = dual_vector +
  tranBuffers :: "transaction list"
  downLinkMasters :: "link_master list"
  upLinkSlaves :: "link_slave list"
  hc_inServiceLink :: int
  hcID :: nat
  responseQ :: "u64 list"
  gatherBarrier :: "u64 \<Rightarrow> (int \<times> int) option"
  serv_trans :: "(u64 \<times> PacketCommandType) list"

definition HMCController :: "topology \<Rightarrow> nat \<Rightarrow> hmc_controller" where
  "HMCController topo i = dual_vector.extend (DualVectorObject MAX_REQ_BUF MAX_LINK_BUF 0)
     (hmc_controller.fields [] (replicate (CPU_LINKS topo) (LinkMaster True))
       (map (\<lambda>l. LinkSlave False (64 + i * CPU_LINKS topo + l)) [0..<CPU_LINKS topo]) (-1) i [] (\<lambda>_. None) [])"

section \<open>Receiving transactions\<close>

definition controller_CallbackReceiveDown :: "transaction \<Rightarrow> bool \<Rightarrow> hmc_controller \<times> hmc_env \<Rightarrow> (hmc_controller \<times> hmc_env) result" where
  "controller_CallbackReceiveDown t chkReceive s = (case s of (c, w) \<Rightarrow>
     if chkReceive
     then checkE (t_trace t < length (w_traces w)) (Undefined ''trace'')
       (Inr (c, w\<lparr>w_traces := (w_traces w)[t_trace t := (w_traces w ! t_trace t)\<lparr>tranTransmitTime := ucast (currentClockCycle c)\<rparr>],
                hmcTransmitSize := (if transactionType t = DATA_WRITE then hmcTransmitSize w + ucast (t_dataSize t) else hmcTransmitSize w)\<rparr>))
     else Inr (c, w))"

definition controller_ReceiveDown :: "transaction \<Rightarrow> hmc_controller \<times> hmc_env \<Rightarrow> (bool \<times> hmc_controller \<times> hmc_env) result" where
  "controller_ReceiveDown t s = (case s of (c, w) \<Rightarrow>
     let ok = (length (tranBuffers c) + unat (t_LNG t) \<le> downBufferMax c);
         c = (if ok then c\<lparr>dv_bufPopDelay := (if tranBuffers c = [] \<and> \<not> dv_bufPopDelay c > 0 then 1 else dv_bufPopDelay c), tranBuffers := tranBuffers c @ [t]\<rparr> else c)
     in bindE (controller_CallbackReceiveDown t ok (c, w)) (\<lambda>(c, w). Inr (ok, c, w)))"

section \<open>Transactions into packets\<close>

definition read_command :: "u32 \<Rightarrow> PacketCommandType option" where
  "read_command = map_of [(16, RD16), (32, RD32), (48, RD48), (64, RD64), (80, RD80), (96, RD96), (112, RD112), (128, RD128), (256, RD256)]"

definition write_command :: "u32 \<Rightarrow> PacketCommandType option" where
  "write_command = map_of [(16, WR16), (32, WR32), (48, WR48), (64, WR64), (80, WR80), (96, WR96), (112, WR112), (128, WR128), (256, WR256)]"

definition sized_command :: "PacketCommandType option \<Rightarrow> u32 \<Rightarrow> u32 \<Rightarrow> (PacketCommandType \<times> u32 \<times> u32) result" where
  "sized_command cmd len sz = (case cmd of None \<Rightarrow> Inl (Exit ''WRONG transaction data size'') | Some c \<Rightarrow> Inr (c, len, sz))"

text \<open>The command, the length and \<open>reqDataSize\<close> of the packet.\<close>

fun command_of :: "TransactionType \<Rightarrow> u32 \<Rightarrow> (PacketCommandType \<times> u32 \<times> u32) result" where
  "command_of DATA_READ n = sized_command (read_command n) 1 n"
| "command_of DATA_WRITE n = sized_command (write_command n) (n div 16 + 1) n"
| "command_of ATM_2ADD8 n = Inr (TWOADD8, 2, 16)" | "command_of ATM_ADD16 n = Inr (ADD16, 2, 16)"
| "command_of ATM_P_2ADD8 n = Inr (P_2ADD8, 2, 16)" | "command_of ATM_P_ADD16 n = Inr (P_ADD16, 2, 16)"
| "command_of ATM_2ADDS8R n = Inr (TWOADDS8R, 2, 16)" | "command_of ATM_ADDS16R n = Inr (ADDS16R, 2, 16)"
| "command_of ATM_INC8 n = Inr (INC8, 1, 16)" | "command_of ATM_P_INC8 n = Inr (P_INC8, 1, 16)"
| "command_of ATM_XOR16 n = Inr (XOR16, 2, 16)" | "command_of ATM_OR16 n = Inr (OR16, 2, 16)"
| "command_of ATM_NOR16 n = Inr (NOR16, 2, 16)" | "command_of ATM_AND16 n = Inr (AND16, 2, 16)"
| "command_of ATM_NAND16 n = Inr (NAND16, 2, 16)" | "command_of ATM_CASGT8 n = Inr (CASGT8, 2, 16)"
| "command_of ATM_CASLT8 n = Inr (CASLT8, 2, 16)" | "command_of ATM_CASGT16 n = Inr (CASGT16, 2, 16)"
| "command_of ATM_CASLT16 n = Inr (CASLT16, 2, 16)" | "command_of ATM_CASEQ8 n = Inr (CASEQ8, 2, 16)"
| "command_of ATM_CASZERO16 n = Inr (CASZERO16, 2, 16)" | "command_of ATM_EQ16 n = Inr (EQ16, 2, 16)"
| "command_of ATM_EQ8 n = Inr (EQ8, 2, 16)" | "command_of ATM_BWR n = Inr (BWR, 2, 16)"
| "command_of ATM_P_BWR n = Inr (P_BWR, 2, 16)" | "command_of ATM_BWR8R n = Inr (BWR8R, 2, 16)"
| "command_of ATM_SWAP16 n = Inr (SWAP16, 2, 16)"
| "command_of ACTIVE_GET n = Inr (ACT_GET, 1, n)" | "command_of ACTIVE_ADD n = Inr (ACT_ADD, 1, n)"
| "command_of ACTIVE_MULT n = Inr (ACT_MULT, 1, n)" | "command_of ACTIVE_DOT n = Inr (ACT_DOT, 1 + n div 16, n)"
| "command_of PIM_DOT n = Inr (PEI_DOT, 1 + n div 16, n)" | "command_of PIM_ATOMIC n = Inr (PEI_ATOMIC, 1 + n div 16, n)"
| "command_of RETURN_DATA n = Inl (Exit ''WRONG transaction type'')"

definition packet_of :: "hmc_par \<Rightarrow> transaction \<Rightarrow> PacketCommandType \<Rightarrow> u32 \<Rightarrow> u32 \<Rightarrow> packet \<times> u32" where
  "packet_of par t cmd len gtag =
     (let crc = lp_CRC_CHECK (hp_link par); rnd = lp_rnd (hp_link par); raw = lp_raw (hp_link par); y = transactionType t;
          low = drop_bit 30 (push_bit 30 (src_address1 t))
      in if y = ACTIVE_GET \<or> y = ACTIVE_ADD \<or> y = ACTIVE_DOT
         then (case Packet_active crc rnd raw gtag REQUEST cmd (dest_address t) (src_address1 t) 0 len (Some (t_trace t)) (src_cube t) (dest_cube1 t) of (p, gtag) \<Rightarrow>
                (let p = p\<lparr>active := True\<rparr>;
                     p = (if y = ACTIVE_ADD \<or> y = ACTIVE_DOT then p\<lparr>ADRS := low\<rparr> else p)
                 in (if y = ACTIVE_ADD then p\<lparr>LINES := t_lines t\<rparr> else p, gtag)))
         else if y = ACTIVE_MULT
         then (case Packet_active2 crc rnd raw gtag REQUEST cmd 0 len (Some (t_trace t)) (dest_address t) (src_address1 t) (src_address2 t) (src_cube t) (dest_cube1 t) (dest_cube2 t) of
                (p, gtag) \<Rightarrow> (p\<lparr>ADRS := low, LINES := t_lines t, active := True\<rparr>, gtag))
         else (case Packet_request crc rnd raw gtag REQUEST cmd (address t) 0 len (Some (t_trace t)) (src_cube t) (dest_cube1 t) of
                (p, gtag) \<Rightarrow> (p\<lparr>active := False\<rparr>, gtag)))"

definition ConvTranIntoPacket :: "hmc_par \<Rightarrow> transaction \<Rightarrow> u32 \<Rightarrow> (packet \<times> u32) result" where
  "ConvTranIntoPacket par t gtag = bindE (command_of (transactionType t) (t_dataSize t)) (\<lambda>(cmd, len, sz).
     case packet_of par t cmd len gtag of (p, gtag) \<Rightarrow> Inr (p\<lparr>reqDataSize := sz, orig_addr := address t, tran_tag := ucast (transactionID t)\<rparr>, gtag))"

section \<open>The barrier of gathers\<close>

type_synonym barrier = "u64 \<Rightarrow> (int \<times> int) option"

text \<open>A thread arrives.\<close>

definition barrier_arrive :: "u64 \<Rightarrow> int \<Rightarrow> barrier \<Rightarrow> barrier result" where
  "barrier_arrive d n b = (case b d of
     Some (m, k) \<Rightarrow> checkE (n = m) (Assertion ''nthreads'') (checkE (k < n) (Assertion ''count'') (Inr (b(d \<mapsto> (m, k + 1)))))
   | None \<Rightarrow> Inr (b(d \<mapsto> (n, 1))))"

text \<open>\<open>gatherBarrier[d].second\<close>: the operator creates a missing entry.\<close>

definition barrier_count :: "u64 \<Rightarrow> barrier \<Rightarrow> int" where
  "barrier_count d b = (case b d of Some (m, k) \<Rightarrow> k | None \<Rightarrow> 0)"

definition barrier_leave :: "u64 \<Rightarrow> barrier \<Rightarrow> barrier" where
  "barrier_leave d b = (case b d of Some (m, k) \<Rightarrow> b(d \<mapsto> (m, k - 1)) | None \<Rightarrow> b(d \<mapsto> (0, -1)))"

definition free_trace :: "nat option \<Rightarrow> hmc_env \<Rightarrow> hmc_env result" where
  "free_trace tr w = (case tr of None \<Rightarrow> Inr w
   | Some t \<Rightarrow> checkE (t < length (w_traces w)) (Undefined ''trace'') (Inr (w\<lparr>w_statis := delete_TranTrace (w_traces w ! t) (w_statis w)\<rparr>)))"

section \<open>Sending\<close>

text \<open>The link whose buffer holds a packet to the same block; the last one that has any.\<close>

definition dependent_link :: "hmc_par \<Rightarrow> hmc_controller \<Rightarrow> transaction \<Rightarrow> int" where
  "dependent_link par c t = (let bits = unat (log2u (block_bytes (hp_mapping par))) in
     fold (\<lambda>l link. if list_ex (\<lambda>q. case q of None \<Rightarrow> False | Some p \<Rightarrow> drop_bit bits (ADRS p) = drop_bit bits (address t)) (downBuffers (downLinkMasters c ! l))
                    then int l else link) [0..<CPU_LINKS (hp_topology par)] (-1))"

text \<open>A packet that is handed to a master; a gather leaves the barrier, a packet that is not taken goes back.\<close>

definition hand_over :: "nat \<Rightarrow> packet \<Rightarrow> hmc_controller \<times> hmc_env \<Rightarrow> (bool \<times> hmc_controller \<times> hmc_env) result" where
  "hand_over l p s = (case s of (c, w) \<Rightarrow> (case ReceiveDown p (downLinkMasters c ! l) of
     (True, m) \<Rightarrow> (let c = c\<lparr>downLinkMasters := (downLinkMasters c)[l := m]\<rparr> in
        bindE (if CMD p = ACT_GET
               then checkE (gatherBarrier c (DESTADRS p) \<noteq> None) (Assertion ''gatherBarrier'')
                 (bindE (free_trace (trace p) w) (\<lambda>w. Inr (c\<lparr>gatherBarrier := (gatherBarrier c)(DESTADRS p := None)\<rparr>, w)))
               else Inr (c, w)) (\<lambda>(c, w). Inr (True, c\<lparr>tranBuffers := tl (tranBuffers c)\<rparr>, w)))
   | (False, m) \<Rightarrow> Inr (False, (if CMD p = ACT_GET then c\<lparr>gatherBarrier := barrier_leave (DESTADRS p) (gatherBarrier c)\<rparr> else c),
        w\<lparr>packetGlobalTAG := ReductGlobalTAG (packetGlobalTAG w)\<rparr>)))"

text \<open>The barrier for a gather in front: the flag tells that not all threads have arrived.\<close>

definition meet :: "packet \<Rightarrow> transaction \<Rightarrow> hmc_controller \<Rightarrow> (bool \<times> hmc_controller) result" where
  "meet p t c = (if CMD p = ACT_GET
     then bindE (barrier_arrive (DESTADRS p) (nthreads t) (gatherBarrier c)) (\<lambda>b. Inr (barrier_count (DESTADRS p) b \<noteq> nthreads t, c\<lparr>gatherBarrier := b\<rparr>))
     else Inr (False, c))"

text \<open>The attempt on one link; the flag tells that the loop over the links is left.\<close>

definition send_free :: "hmc_par \<Rightarrow> nat \<Rightarrow> bool \<times> hmc_controller \<times> hmc_env \<Rightarrow> (bool \<times> hmc_controller \<times> hmc_env) result" where
  "send_free par i s = (case s of (stop, c, w) \<Rightarrow>
     if stop then Inr s
     else (case FindAvailableLink (hp_priority par) (hc_inServiceLink c) (downLinkMasters c) of (link, serv) \<Rightarrow>
       let c = c\<lparr>hc_inServiceLink := serv\<rparr> in
       checkE (hp_topology par = DFLY \<or> hp_topology par = MESH \<longrightarrow> CPU_LINKS (hp_topology par) = 1 \<and> link = 0) (Assertion ''link == 0'')
        (if link = -1 then Inr (False, c, w)
         else checkE (0 \<le> link \<and> nat link < length (downLinkMasters c)) (Undefined ''downLinkMasters'')
          (if currentState (downLinkMasters c ! nat link) = LINK_RETRY then Inr (False, c, w)
           else (case tranBuffers c of [] \<Rightarrow> Inl (Undefined ''downBuffers'')
             | t # rest \<Rightarrow> bindE (ConvTranIntoPacket par t (packetGlobalTAG w)) (\<lambda>(p, gtag).
                 let w = w\<lparr>packetGlobalTAG := gtag\<rparr> in
                 bindE (meet p t c) (\<lambda>(wait, c).
                 if wait
                 then bindE (free_trace (Some (t_trace t)) w) (\<lambda>w.
                   Inr (True, c\<lparr>tranBuffers := rest\<rparr>, w\<lparr>packetGlobalTAG := ReductGlobalTAG (packetGlobalTAG w)\<rparr>))
                 else hand_over (nat link) p (c, w))))))))"

definition send_dependent :: "hmc_par \<Rightarrow> nat \<Rightarrow> transaction \<Rightarrow> hmc_controller \<times> hmc_env \<Rightarrow> (hmc_controller \<times> hmc_env) result" where
  "send_dependent par link t s = (case s of (c, w) \<Rightarrow>
     bindE (ConvTranIntoPacket par t (packetGlobalTAG w)) (\<lambda>(p, gtag).
       let w = w\<lparr>packetGlobalTAG := gtag\<rparr> in
       bindE (meet p t c) (\<lambda>(wait, c).
       if wait
       then bindE (free_trace (Some (t_trace t)) w) (\<lambda>w.
         Inr (c\<lparr>tranBuffers := tl (tranBuffers c), gatherBarrier := barrier_leave (DESTADRS p) (gatherBarrier c)\<rparr>,
              w\<lparr>packetGlobalTAG := ReductGlobalTAG (packetGlobalTAG w)\<rparr>))
       else bindE (hand_over link p (c, w)) (\<lambda>(_, s). Inr s))))"

definition controller_down :: "hmc_par \<Rightarrow> hmc_controller \<times> hmc_env \<Rightarrow> (hmc_controller \<times> hmc_env) result" where
  "controller_down par s = (case s of (c, w) \<Rightarrow> (case tranBuffers c of
     [] \<Rightarrow> Inr s
   | t # _ \<Rightarrow>
       if dv_bufPopDelay c \<noteq> 0 then Inr s
       else checkE (CPU_LINKS (hp_topology par) \<le> length (downLinkMasters c)) (Undefined ''downLinkMasters'')
        (let link = dependent_link par c t in
         if link = -1
         then bindE (foldE (send_free par) [0..<CPU_LINKS (hp_topology par)] (False, c, w)) (\<lambda>(_, s). Inr s)
         else send_dependent par (nat link) t (c, w))))"

section \<open>Responses\<close>

definition controller_up :: "hmc_controller \<times> hmc_env \<Rightarrow> (hmc_controller \<times> hmc_env) result" where
  "controller_up s = (case s of (c, w) \<Rightarrow> (case upBuffers c of
     [] \<Rightarrow> Inr s
   | None # _ \<Rightarrow> Inl (Exit ''HMC controller up buffer[0] is NULL'')
   | Some p # _ \<Rightarrow>
       (let c = (if CMD p = ACT_GET then c\<lparr>responseQ := responseQ c @ [DESTADRS p]\<rparr> else c) in
        case trace p of None \<Rightarrow> Inl (Undefined ''trace'')
        | Some i \<Rightarrow> checkE (i < length (w_traces w)) (Undefined ''trace'')
           (let tr = w_traces w ! i;
                w = w\<lparr>w_traces := (w_traces w)[i := tr\<lparr>tranFullLat := ucast (currentClockCycle c - ucast (tranTransmitTime tr))\<rparr>],
                      hmcTransmitSize := (if CMD p = RD_RS then hmcTransmitSize w + ucast ((LNG p - 1) * 16) else hmcTransmitSize w)\<rparr>;
                c = c\<lparr>serv_trans := serv_trans c @ [if CMD p = ACT_GET then (DESTADRS p, ACT_GET) else (tran_tag p, CMD p)]\<rparr>
            in checkE (packetType p = RESPONSE) (Assertion ''RESPONSE'')
                (bindE (free_trace (Some i) w) (\<lambda>w.
                 checkE (unat (LNG p) \<le> length (upBuffers c)) (Undefined ''erase'')
                  (Inr (c\<lparr>upBuffers := drop (unat (LNG p)) (upBuffers c)\<rparr>, w))))))))"

definition HMCController_Update :: "hmc_par \<Rightarrow> hmc_controller \<times> hmc_env \<Rightarrow> (hmc_controller \<times> hmc_env) result" where
  "HMCController_Update par s = bindE (controller_down par s) (\<lambda>s. bindE (controller_up s) (\<lambda>(c, w). Inr (dual_Step c, w)))"


section \<open>The packets of transactions\<close>

lemma command_of_get: "command_of y n = Inr (cmd, len, sz) \<Longrightarrow> cmd = ACT_GET \<longleftrightarrow> y = ACTIVE_GET"
  by (cases "(y, n)" rule: command_of.cases) (auto simp: sized_command_def read_command_def write_command_def split: option.splits if_splits)

lemma packet_of_fields:
  assumes "packet_of par t cmd len g = (p, g')"
  shows "CMD p = cmd \<and> LNG p = len \<and> trace p = Some (t_trace t) \<and> packetType p = REQUEST \<and> \<not> chkCRC p \<and> DRTC p = 0 \<and> URTC p = 0
    \<and> (transactionType t = ACTIVE_GET \<longrightarrow> DESTADRS p = dest_address t)"
proof -
  have "p = fst (packet_of par t cmd len g)" using assms by simp
  then show ?thesis
    by (cases "transactionType t = ACTIVE_GET \<or> transactionType t = ACTIVE_ADD \<or> transactionType t = ACTIVE_DOT"; cases "transactionType t = ACTIVE_MULT")
      (auto simp: packet_of_def Let_def Packet_active_def Packet_active2_def Packet_request_def packet_payload_def packet_reset_def)
qed

lemma ConvTranIntoPacket_fields:
  assumes "ConvTranIntoPacket par t g = Inr (p, g')"
  obtains cmd len sz where "command_of (transactionType t) (t_dataSize t) = Inr (cmd, len, sz)" "CMD p = cmd" "LNG p = len" "trace p = Some (t_trace t)"
    "packetType p = REQUEST" "\<not> chkCRC p" "DRTC p = 0" "URTC p = 0" "transactionType t = ACTIVE_GET \<Longrightarrow> DESTADRS p = dest_address t"
proof -
  obtain cmd len sz where c: "command_of (transactionType t) (t_dataSize t) = Inr (cmd, len, sz)" using assms by (auto simp: ConvTranIntoPacket_def err_simps)
  obtain q g1 where q: "packet_of par t cmd len g = (q, g1)" by fastforce
  have "p = q\<lparr>reqDataSize := sz, orig_addr := address t, tran_tag := ucast (transactionID t)\<rparr>" using assms c q by (simp add: ConvTranIntoPacket_def bindE_def)
  then show thesis using that [OF c] packet_of_fields [OF q] by simp
qed

lemma ConvTranIntoPacket_get:
  assumes "ConvTranIntoPacket par t g = Inr (p, g')"
  shows "CMD p = ACT_GET \<longleftrightarrow> transactionType t = ACTIVE_GET" "transactionType t = ACTIVE_GET \<Longrightarrow> DESTADRS p = dest_address t"
  using assms by (auto elim!: ConvTranIntoPacket_fields dest: command_of_get)

section \<open>The barrier\<close>

text \<open>A barrier in which nobody has arrived or left; empty entries may have been made.\<close>

definition calm :: "barrier \<Rightarrow> barrier \<Rightarrow> bool" where
  "calm b b' \<longleftrightarrow> (\<forall>d. b' d = b d \<or> (b d = None \<and> (\<exists>n. b' d = Some (n, 0))))"

lemma calm_refl [simp]: "calm b b"
  by (simp add: calm_def)

lemma calm_trans: "calm b b1 \<Longrightarrow> calm b1 b2 \<Longrightarrow> calm b b2"
  unfolding calm_def by metis

lemma arrive_leave: "barrier_arrive d n b = Inr b1 \<Longrightarrow> calm b (barrier_leave d b1)"
  by (auto simp: barrier_arrive_def barrier_leave_def calm_def err_simps split: option.splits)

lemma arrive_Some: "barrier_arrive d n b = Inr b1 \<Longrightarrow> b1 d = Some (n, barrier_count d b + 1) \<and> barrier_count d b1 = barrier_count d b + 1 \<and> (\<forall>e. e \<noteq> d \<longrightarrow> b1 e = b e)"
  by (auto simp: barrier_arrive_def barrier_count_def err_simps split: option.splits)

text \<open>
  What the downstream part does with the transaction in front: it stays; it is a gather that waits
  for others; or its packet is in a link buffer, and for a gather all have arrived.
\<close>

definition kept :: "hmc_controller \<Rightarrow> hmc_controller \<Rightarrow> bool" where
  "kept c c' \<longleftrightarrow> tranBuffers c' = tranBuffers c \<and> downLinkMasters c' = downLinkMasters c \<and> calm (gatherBarrier c) (gatherBarrier c')"

definition gone :: "transaction \<Rightarrow> hmc_controller \<Rightarrow> hmc_controller \<Rightarrow> bool" where
  "gone t c c' \<longleftrightarrow> tranBuffers c' = tl (tranBuffers c) \<and> downLinkMasters c' = downLinkMasters c \<and> transactionType t = ACTIVE_GET
     \<and> (\<exists>b. calm (gatherBarrier c) b \<and> (gatherBarrier c' = b \<or> barrier_arrive (dest_address t) (nthreads t) b = Inr (gatherBarrier c')))"

definition sent :: "transaction \<Rightarrow> hmc_controller \<Rightarrow> hmc_controller \<Rightarrow> bool" where
  "sent t c c' \<longleftrightarrow> tranBuffers c' = tl (tranBuffers c) \<and> downLinkMasters c' \<noteq> downLinkMasters c
     \<and> (if transactionType t = ACTIVE_GET
        then \<exists>b b1. calm (gatherBarrier c) b \<and> barrier_arrive (dest_address t) (nthreads t) b = Inr b1 \<and> barrier_count (dest_address t) b1 = nthreads t
               \<and> gatherBarrier c' = b1(dest_address t := None)
        else calm (gatherBarrier c) (gatherBarrier c'))"

lemma kept_trans: "kept c c1 \<Longrightarrow> kept c1 c2 \<Longrightarrow> kept c c2" "kept c c1 \<Longrightarrow> gone t c1 c2 \<Longrightarrow> gone t c c2" "kept c c1 \<Longrightarrow> sent t c1 c2 \<Longrightarrow> sent t c c2"
  by (auto simp: kept_def gone_def sent_def intro: calm_trans split: if_splits)

lemma ReceiveDown_grows: "ReceiveDown p m = (True, m') \<Longrightarrow> m' \<noteq> m"
proof -
  assume "ReceiveDown p m = (True, m')"
  then have "downBuffers m' = downBuffers m @ packet_slots p" by (auto simp: ReceiveDown_def receive_def split: if_splits)
  then have "downBuffers m' \<noteq> downBuffers m" by (simp add: packet_slots_def)
  then show ?thesis by auto
qed

lemma hand_over_cases:
  assumes "hand_over l p (c1, w) = Inr (stop, c', w')" "l < length (downLinkMasters c)" "meet p t c = Inr (False, c1)" "ConvTranIntoPacket par t g = Inr (p, g')"
  shows "if stop then sent t c c' else kept c c'"
proof -
  note k = ConvTranIntoPacket_get [OF assms(4)]
  obtain ok m where r: "ReceiveDown p (downLinkMasters c1 ! l) = (ok, m)" by fastforce
  have c1: "tranBuffers c1 = tranBuffers c" "downLinkMasters c1 = downLinkMasters c"
    "if transactionType t = ACTIVE_GET then barrier_arrive (dest_address t) (nthreads t) (gatherBarrier c) = Inr (gatherBarrier c1) \<and> barrier_count (dest_address t) (gatherBarrier c1) = nthreads t
     else gatherBarrier c1 = gatherBarrier c" using assms(3) k by (auto simp: meet_def err_simps split: if_splits)
  show ?thesis
  proof (cases ok)
    case True
    then have "(downLinkMasters c)[l := m] \<noteq> downLinkMasters c" using ReceiveDown_grows r assms(2) c1(2) by (metis nth_list_update_eq)
    then show ?thesis using assms(1) r True c1 k by (auto simp: hand_over_def err_simps sent_def split: if_splits) (use calm_refl in blast)
  next
    case False
    then show ?thesis using assms(1) r c1 k arrive_leave by (auto simp: hand_over_def kept_def split: if_splits)
  qed
qed

lemma meet_wait:
  assumes "meet p t c = Inr (True, c1)" "ConvTranIntoPacket par t g = Inr (p, g')"
  shows "transactionType t = ACTIVE_GET" "DESTADRS p = dest_address t" "barrier_arrive (dest_address t) (nthreads t) (gatherBarrier c) = Inr (gatherBarrier c1)"
    "tranBuffers c1 = tranBuffers c" "downLinkMasters c1 = downLinkMasters c"
  using assms(1) ConvTranIntoPacket_get [OF assms(2)] by (auto simp: meet_def err_simps split: if_splits)

lemma send_free_cases:
  assumes "send_free par i (False, c, w) = Inr (stop, c', w')" "tranBuffers c = t # rest"
  shows "if stop then gone t c c' \<or> sent t c c' else kept c c'"
proof -
  obtain link serv where f: "FindAvailableLink (hp_priority par) (hc_inServiceLink c) (downLinkMasters c) = (link, serv)" by fastforce
  let ?c = "c\<lparr>hc_inServiceLink := serv\<rparr>"
  have k: "kept c ?c" by (simp add: kept_def)
  show ?thesis
  proof (cases "link = -1 \<or> currentState (downLinkMasters c ! nat link) = LINK_RETRY")
    case True
    then show ?thesis using assms f k by (auto simp: send_free_def err_simps Let_def split: if_splits)
  next
    case False
    then obtain p g wait c1 where p: "ConvTranIntoPacket par t (packetGlobalTAG w) = Inr (p, g)" "meet p t ?c = Inr (wait, c1)" "nat link < length (downLinkMasters ?c)"
      and r: "(if wait then bindE (free_trace (Some (t_trace t)) (w\<lparr>packetGlobalTAG := g\<rparr>)) (\<lambda>w. Inr (True, c1\<lparr>tranBuffers := rest\<rparr>, w\<lparr>packetGlobalTAG := ReductGlobalTAG (packetGlobalTAG w)\<rparr>))
         else hand_over (nat link) p (c1, w\<lparr>packetGlobalTAG := g\<rparr>)) = Inr (stop, c', w')"
      using assms f by (auto simp: send_free_def err_simps Let_def)
    show ?thesis
    proof (cases wait)
      case True
      then have "meet p t ?c = Inr (True, c1)" using p(2) by simp
      note m = meet_wait [OF this p(1)]
      have "stop" "c' = c1\<lparr>tranBuffers := rest\<rparr>" using r True by (auto simp: err_simps)
      moreover have "tranBuffers c1 = t # rest" "downLinkMasters c1 = downLinkMasters c" using m(4,5) assms(2) by simp_all
      ultimately have "gone t ?c c'" using m(1,3) assms(2) by (auto simp: gone_def intro: exI [of _ "gatherBarrier c"])
      then show ?thesis using kept_trans(2) [OF k] \<open>stop\<close> by simp
    next
      case False
      then have "if stop then sent t ?c c' else kept ?c c'" using hand_over_cases [OF _ p(3) _ p(1)] p(2) r by simp
      then show ?thesis using kept_trans(1,3) [OF k] by (simp split: if_splits)
    qed
  qed
qed

lemma send_free_stopped: "foldE (send_free par) is (True, c, w) = Inr (True, c, w)"
  by (induction "is") (simp_all add: send_free_def)

lemma send_free_all:
  assumes "foldE (send_free par) is (False, c, w) = Inr (stop, c', w')" "tranBuffers c = t # rest"
  shows "if stop then gone t c c' \<or> sent t c c' else kept c c'"
  using assms
proof (induction "is" arbitrary: c w)
  case (Cons i "is")
  then obtain s1 c1 w1 where r: "send_free par i (False, c, w) = Inr (s1, c1, w1)" "foldE (send_free par) is (s1, c1, w1) = Inr (stop, c', w')" by (auto simp: err_simps)
  note k = send_free_cases [OF r(1) Cons.prems(2)]
  show ?case
  proof (cases s1)
    case True
    then show ?thesis using r(2) k by (simp add: send_free_stopped)
  next
    case False
    then have "kept c c1" "tranBuffers c1 = t # rest" using k Cons.prems(2) by (simp_all add: kept_def)
    moreover have "if stop then gone t c1 c' \<or> sent t c1 c' else kept c1 c'" using Cons.IH [of c1 w1] r(2) False calculation by simp
    ultimately show ?thesis using kept_trans(1) [of c c1 c'] kept_trans(2,3) [of c c1 t c'] by (auto split: if_splits)
  qed
qed (simp add: kept_def)

lemma send_dependent_cases:
  assumes "send_dependent par l t (c, w) = Inr (c', w')" "l < length (downLinkMasters c)"
  shows "kept c c' \<or> gone t c c' \<or> sent t c c'"
proof -
  obtain p g wait c1 where p: "ConvTranIntoPacket par t (packetGlobalTAG w) = Inr (p, g)" "meet p t c = Inr (wait, c1)"
    and r: "(if wait then bindE (free_trace (Some (t_trace t)) (w\<lparr>packetGlobalTAG := g\<rparr>)) (\<lambda>w.
         Inr (c1\<lparr>tranBuffers := tl (tranBuffers c1), gatherBarrier := barrier_leave (DESTADRS p) (gatherBarrier c1)\<rparr>, w\<lparr>packetGlobalTAG := ReductGlobalTAG (packetGlobalTAG w)\<rparr>))
       else bindE (hand_over l p (c1, w\<lparr>packetGlobalTAG := g\<rparr>)) (\<lambda>(_, s). Inr s)) = Inr (c', w')"
    using assms(1) by (auto simp: send_dependent_def err_simps Let_def)
  show ?thesis
  proof (cases wait)
    case True
    then have "meet p t c = Inr (True, c1)" using p(2) by simp
    note m = meet_wait [OF this p(1)]
    have "c' = c1\<lparr>tranBuffers := tl (tranBuffers c1), gatherBarrier := barrier_leave (DESTADRS p) (gatherBarrier c1)\<rparr>" using r True by (auto simp: err_simps)
    then have "gone t c c'" using m arrive_leave [OF m(3)] by (auto simp: gone_def)
    then show ?thesis by blast
  next
    case False
    then obtain stop where "hand_over l p (c1, w\<lparr>packetGlobalTAG := g\<rparr>) = Inr (stop, c', w')" using r by (auto simp: err_simps)
    then have "if stop then sent t c c' else kept c c'" using hand_over_cases [OF _ assms(2) _ p(1)] p(2) False by simp
    then show ?thesis by (simp split: if_splits)
  qed
qed

lemma dependent_link_range: "dependent_link par c t \<noteq> -1 \<Longrightarrow> 0 \<le> dependent_link par c t \<and> nat (dependent_link par c t) < CPU_LINKS (hp_topology par)"
proof -
  assume a: "dependent_link par c t \<noteq> -1"
  have "fold (\<lambda>l link. if P l then int l else link) xs k = k \<or> fold (\<lambda>l link. if P l then int l else link) xs k \<in> int ` set xs" for P xs k
    by (induction xs arbitrary: k) auto
  then have "dependent_link par c t = -1 \<or> dependent_link par c t \<in> int ` set [0..<CPU_LINKS (hp_topology par)]" unfolding dependent_link_def Let_def .
  then show ?thesis using a by auto
qed

lemma controller_down_cases:
  assumes "controller_down par (c, w) = Inr (c', w')"
  shows "kept c c' \<or> (\<exists>t rest. tranBuffers c = t # rest \<and> (gone t c c' \<or> sent t c c'))"
proof (cases "tranBuffers c")
  case Nil
  then show ?thesis using assms by (simp add: controller_down_def kept_def)
next
  case (Cons t rest)
  show ?thesis
  proof (cases "dv_bufPopDelay c = 0")
    case True
    note r = assms [unfolded controller_down_def prod.case Cons list.case]
    show ?thesis
    proof (cases "dependent_link par c t = -1")
      case d: True
      obtain stop where "foldE (send_free par) [0..<CPU_LINKS (hp_topology par)] (False, c, w) = Inr (stop, c', w')"
        using r True d by (auto simp: err_simps Let_def)
      from send_free_all [OF this Cons] show ?thesis using Cons by (auto split: if_splits)
    next
      case d: False
      then have "send_dependent par (nat (dependent_link par c t)) t (c, w) = Inr (c', w')" "CPU_LINKS (hp_topology par) \<le> length (downLinkMasters c)"
        using r True by (auto simp: err_simps Let_def)
      then show ?thesis using send_dependent_cases dependent_link_range [OF d] Cons by (metis order_less_le_trans)
    qed
  next
    case False
    then show ?thesis using assms Cons by (simp add: controller_down_def kept_def)
  qed
qed

lemma controller_up_frame:
  "controller_up (c, w) = Inr (c', w') \<Longrightarrow> tranBuffers c' = tranBuffers c \<and> downLinkMasters c' = downLinkMasters c \<and> gatherBarrier c' = gatherBarrier c"
  by (auto simp: controller_up_def err_simps Let_def split: list.splits option.splits if_splits)

lemma Update_cases:
  assumes "HMCController_Update par (c, w) = Inr (c', w')"
  shows "kept c c' \<or> (\<exists>t rest. tranBuffers c = t # rest \<and> (gone t c c' \<or> sent t c c'))"
proof -
  obtain c1 w1 c2 where r: "controller_down par (c, w) = Inr (c1, w1)" "controller_up (c1, w1) = Inr (c2, w')" "c' = dual_Step c2"
    using assms by (auto simp: HMCController_Update_def err_simps)
  have "tranBuffers c' = tranBuffers c1" "downLinkMasters c' = downLinkMasters c1" "gatherBarrier c' = gatherBarrier c1"
    using controller_up_frame [OF r(2)] r(3) by (simp_all add: dual_Step_def Let_def)
  then show ?thesis using controller_down_cases [OF r(1)] by (simp only: kept_def gone_def sent_def)
qed

section \<open>The states of a controller\<close>

text \<open>
  The states that a controller reaches while transactions come in, its links work on their own and
  responses arrive. The second component counts, for every flow, the gathers that were taken from
  the buffer since one was sent.
\<close>

definition taken :: "hmc_controller \<Rightarrow> hmc_controller \<Rightarrow> (u64 \<Rightarrow> nat) \<Rightarrow> u64 \<Rightarrow> nat" where
  "taken c c' h = (case tranBuffers c of [] \<Rightarrow> h
   | t # rest \<Rightarrow> if transactionType t = ACTIVE_GET \<and> tranBuffers c' = rest
       then h(dest_address t := (if downLinkMasters c' = downLinkMasters c then h (dest_address t) + 1 else 0)) else h)"

inductive served :: "hmc_par \<Rightarrow> hmc_controller \<Rightarrow> (u64 \<Rightarrow> nat) \<Rightarrow> bool" for par where
  start: "served par (HMCController (hp_topology par) i) (\<lambda>_. 0)"
| receive: "served par c h \<Longrightarrow> controller_ReceiveDown t (c, w) = Inr (ok, c', w') \<Longrightarrow> served par c' h"
| links: "served par c h \<Longrightarrow> length ms = length (downLinkMasters c) \<Longrightarrow> served par (c\<lparr>downLinkMasters := ms, upLinkSlaves := ss, upBuffers := ub\<rparr>) h"
| update: "served par c h \<Longrightarrow> HMCController_Update par (c, w) = Inr (c', w') \<Longrightarrow> served par c' (taken c c' h)"

definition barrier_inv :: "hmc_controller \<Rightarrow> (u64 \<Rightarrow> nat) \<Rightarrow> bool" where
  "barrier_inv c h \<longleftrightarrow> (\<forall>d n k. gatherBarrier c d = Some (n, k) \<longrightarrow> 0 \<le> k \<and> k \<le> int (h d))"

lemma barrier_inv_calm: "calm (gatherBarrier c) b \<Longrightarrow> barrier_inv c h \<Longrightarrow> b d = Some (n, k) \<Longrightarrow> 0 \<le> k \<and> k \<le> int (h d)"
  by (auto simp: calm_def barrier_inv_def) (metis prod.inject option.inject option.simps(3) of_nat_0_le_iff order_refl)+

lemma barrier_inv_count: "calm (gatherBarrier c) b \<Longrightarrow> barrier_inv c h \<Longrightarrow> 0 \<le> barrier_count d b \<and> barrier_count d b \<le> int (h d)"
  using barrier_inv_calm [of c b h d] by (auto simp: barrier_count_def split: option.splits)

lemma tl_shorter: "tranBuffers c = t # rest \<Longrightarrow> tranBuffers c \<noteq> rest"
  by auto

lemma Update_barrier_inv:
  assumes "HMCController_Update par (c, w) = Inr (c', w')" "barrier_inv c h"
  shows "barrier_inv c' (taken c c' h)"
proof -
  from Update_cases [OF assms(1)] consider (kept) "kept c c'" | (gone) t rest where "tranBuffers c = t # rest" "gone t c c'"
    | (sent) t rest where "tranBuffers c = t # rest" "sent t c c'" by blast
  then show ?thesis
  proof cases
    case kept
    then have "taken c c' h = h" using tl_shorter by (auto simp: taken_def kept_def split: list.splits)
    then show ?thesis using barrier_inv_calm [OF _ assms(2)] kept by (auto simp: barrier_inv_def kept_def)
  next
    case gone
    let ?d = "dest_address t"
    have h: "taken c c' h = h(?d := h ?d + 1)" using gone by (simp add: taken_def gone_def)
    obtain b where b: "calm (gatherBarrier c) b" "gatherBarrier c' = b \<or> barrier_arrive ?d (nthreads t) b = Inr (gatherBarrier c')" using gone(2) by (auto simp: gone_def)
    note i = barrier_inv_calm [OF b(1) assms(2)] barrier_inv_count [OF b(1) assms(2), of ?d]
    have "0 \<le> k \<and> k \<le> int ((h(?d := h ?d + 1)) d)" if "gatherBarrier c' d = Some (n, k)" for d n k
      using b(2) that i(1) [of d n k] i(1) [of ?d n k] i(2) arrive_Some [of ?d "nthreads t" b "gatherBarrier c'"] by (cases "d = ?d") auto
    then show ?thesis by (simp add: h barrier_inv_def)
  next
    case sent
    show ?thesis
    proof (cases "transactionType t = ACTIVE_GET")
      case True
      let ?d = "dest_address t"
      have h: "taken c c' h = h(?d := 0)" using sent True by (simp add: taken_def sent_def)
      obtain b b1 where b: "calm (gatherBarrier c) b" "barrier_arrive ?d (nthreads t) b = Inr b1" "gatherBarrier c' = b1(?d := None)" using sent(2) True by (auto simp: sent_def)
      then show ?thesis using barrier_inv_calm [OF b(1) assms(2)] arrive_Some [OF b(2)] by (auto simp: h barrier_inv_def)
    next
      case False
      then have "taken c c' h = h" using sent(1) by (simp add: taken_def)
      then show ?thesis using sent(2) False barrier_inv_calm [OF _ assms(2)] by (simp add: sent_def barrier_inv_def) blast
    qed
  qed
qed

lemma served_inv: "served par c h \<Longrightarrow> barrier_inv c h"
proof (induction rule: served.induct)
  case start
  show ?case by (simp add: barrier_inv_def HMCController_def dual_vector.defs hmc_controller.defs)
next
  case (receive c h t w ok c' w')
  then have "gatherBarrier c' = gatherBarrier c"
    by (auto simp: controller_ReceiveDown_def controller_CallbackReceiveDown_def err_simps Let_def split: if_splits)
  then show ?case using receive.IH by (simp add: barrier_inv_def)
next
  case links
  then show ?case by (simp add: barrier_inv_def)
next
  case update
  then show ?case using Update_barrier_inv by blast
qed

section \<open>Properties of the controller\<close>

definition example_hmc :: hmc_par where
  "example_hmc = \<lparr>hp_link = \<lparr>lp_CRC_CHECK = False, lp_crc_cycles = (\<lambda>_. 0), lp_retry_time = (\<lambda>t. t), lp_LINK_WIDTH = 128, lp_errorProba = 100,
     lp_raw = zero_packet, lp_rnd = (\<lambda>_. 0), lp_garbage = (\<lambda>_. 0)\<rparr>, hp_topology = DFLY, hp_priority = ROUND_ROBIN, hp_mapping = MAX_BLOCK_64B\<rparr>"

definition gather_tran :: "u32 \<Rightarrow> transaction" where
  "gather_tran i = \<lparr>t_trace = 0, transactionType = ACTIVE_GET, address = 64, t_dataSize = 16, transactionID = i, t_LNG = 1, dest_address = 8,
     src_address1 = 0, src_address2 = 0, t_lines = 0, src_cube = 0, dest_cube1 = 1, dest_cube2 = -1, nthreads = 2, t_bufPopDelay = 0\<rparr>"

definition example_env :: hmc_env where
  "example_env = \<lparr>w_traces = [TranTrace], w_statis = TranStatistic, hmcTransmitSize = 0, packetGlobalTAG = 0\<rparr>"

text \<open>Two threads gather, and the controller is updated.\<close>

fun example_controller :: "nat \<Rightarrow> (hmc_controller \<times> hmc_env) result" where
  "example_controller 0 = bindE (controller_ReceiveDown (gather_tran 1) (HMCController DFLY 0, example_env)) (\<lambda>(_, s).
     bindE (controller_ReceiveDown (gather_tran 2) s) (\<lambda>(_, s). Inr s))"
| "example_controller (Suc n) = bindE (example_controller n) (HMCController_Update example_hmc)"

lemma example_controller_served:
  obtains c w h c' w' where "example_controller 2 = Inr (c, w)" "served example_hmc c h" "h 8 = 1" "HMCController_Update example_hmc (c, w) = Inr (c', w')"
    "tranBuffers c = [gather_tran 2]" "downLinkMasters c' \<noteq> downLinkMasters c"
proof -
  have "runs (example_controller 0) (\<lambda>(c0, w0). runs (HMCController_Update example_hmc (c0, w0)) (\<lambda>(c1, w1). runs (HMCController_Update example_hmc (c1, w1)) (\<lambda>(c2, w2).
      runs (HMCController_Update example_hmc (c2, w2)) (\<lambda>(c3, w3).
        tranBuffers c0 = [gather_tran 1, gather_tran 2] \<and> tranBuffers c1 = [gather_tran 1, gather_tran 2] \<and> tranBuffers c2 = [gather_tran 2]
        \<and> length (downBuffers (downLinkMasters c3 ! 0)) \<noteq> length (downBuffers (downLinkMasters c2 ! 0)) \<and> downLinkMasters c2 = downLinkMasters c1))))" by code_simp
  then obtain c0 w0 c1 w1 c2 w2 c3 w3 where r: "example_controller 0 = Inr (c0, w0)" "HMCController_Update example_hmc (c0, w0) = Inr (c1, w1)"
    "HMCController_Update example_hmc (c1, w1) = Inr (c2, w2)" "HMCController_Update example_hmc (c2, w2) = Inr (c3, w3)"
    "tranBuffers c0 = [gather_tran 1, gather_tran 2]" "tranBuffers c1 = [gather_tran 1, gather_tran 2]" "tranBuffers c2 = [gather_tran 2]"
    "length (downBuffers (downLinkMasters c3 ! 0)) \<noteq> length (downBuffers (downLinkMasters c2 ! 0))" "downLinkMasters c2 = downLinkMasters c1"
    by (auto simp del: example_controller.simps elim!: runsE)
  have "served example_hmc (HMCController DFLY 0) (\<lambda>_. 0)" using served.start [of example_hmc 0] by (simp add: example_hmc_def)
  then have "served example_hmc c0 (\<lambda>_. 0)" using r(1) by (auto simp: err_simps intro: served.receive)
  from served.update [OF served.update [OF this r(2)] r(3)]
  have "served example_hmc c2 (taken c1 c2 (taken c0 c1 (\<lambda>_. 0)))" .
  moreover have "taken c1 c2 (taken c0 c1 (\<lambda>_. 0)) 8 = 1" using r by (simp add: taken_def gather_tran_def)
  moreover have "example_controller 2 = Inr (c2, w2)" using r(1-3) by (simp add: numeral_2_eq_2)
  moreover have "downLinkMasters c3 \<noteq> downLinkMasters c2" using r(8) by auto
  ultimately show thesis using that r(4,7) by blast
qed

text \<open> C7. A gather is not sent before all threads of the flow have gathered: when the controller hands the gather
  in front to a link, it has taken at least as many gathers of this flow from its buffer, this one included,
  since the last one was sent, as the gather names threads; and the barrier of the flow starts again. \<close>

theorem gather_waits_for_threads:
  assumes "served par c h" "HMCController_Update par (c, w) = Inr (c', w')" "tranBuffers c = t # rest" "transactionType t = ACTIVE_GET"
    "downLinkMasters c' \<noteq> downLinkMasters c"
  shows "nthreads t \<le> int (h (dest_address t)) + 1 \<and> gatherBarrier c' (dest_address t) = None \<and> tranBuffers c' = rest"
proof -
  have "sent t c c'" using Update_cases [OF assms(2)] assms(3,5) by (auto simp: kept_def gone_def)
  then obtain b b1 where b: "calm (gatherBarrier c) b" "barrier_arrive (dest_address t) (nthreads t) b = Inr b1" "barrier_count (dest_address t) b1 = nthreads t"
    "gatherBarrier c' = b1(dest_address t := None)" "tranBuffers c' = rest" using assms(3,4) by (auto simp: sent_def)
  then show ?thesis using arrive_Some [OF b(2)] barrier_inv_count [OF b(1) served_inv [OF assms(1)], of "dest_address t"] by simp
qed

theorem gather_waits_for_threads_witness:
  "\<exists>c w c' w' (h :: u64 \<Rightarrow> nat). example_controller 2 = Inr (c, w) \<and> HMCController_Update example_hmc (c, w) = Inr (c', w') \<and> h 8 = 1 \<and> 2 \<le> int (h 8) + 1 \<and> gatherBarrier c' 8 = None"
proof -
  obtain c w h c' w' where r: "example_controller 2 = Inr (c, w)" "served example_hmc c h" "h 8 = 1" "HMCController_Update example_hmc (c, w) = Inr (c', w')"
    "tranBuffers c = [gather_tran 2]" "downLinkMasters c' \<noteq> downLinkMasters c" by (rule example_controller_served)
  then show ?thesis using gather_waits_for_threads [OF r(2,4,5) _ r(6)] by (auto simp: gather_tran_def)
qed

text \<open>C37. A gather is lost when its address is in the block of a packet that waits at a link: it is taken from the buffer and
  the barrier counts as before, so the threads of the flow wait for it forever.\<close>

theorem dependent_gather_lost:
  assumes "tranBuffers c = t # rest" "transactionType t = ACTIVE_GET" "dv_bufPopDelay c = 0" "dependent_link par c t \<noteq> -1"
    "CPU_LINKS (hp_topology par) \<le> length (downLinkMasters c)" "gatherBarrier c (dest_address t) = Some (nthreads t, k)" "k + 1 < nthreads t" "t_trace t < length (w_traces w)"
  shows "\<exists>w'. controller_down par (c, w) = Inr (c\<lparr>tranBuffers := rest\<rparr>, w')"
proof -
  obtain p g where p: "ConvTranIntoPacket par t (packetGlobalTAG w) = Inr (p, g)"
    using assms(2) by (cases "packet_of par t ACT_GET 1 (packetGlobalTAG w)") (simp add: ConvTranIntoPacket_def)
  note k = ConvTranIntoPacket_get [OF p]
  let ?b = "(gatherBarrier c)(dest_address t \<mapsto> (nthreads t, k + 1))"
  have a: "barrier_arrive (dest_address t) (nthreads t) (gatherBarrier c) = Inr ?b" "barrier_leave (dest_address t) ?b = gatherBarrier c"
    using assms(6,7) by (auto simp: barrier_arrive_def barrier_leave_def)
  have m: "meet p t c = Inr (True, c\<lparr>gatherBarrier := ?b\<rparr>)" using k a(1) assms(2,7) by (simp add: meet_def barrier_count_def)
  have "\<exists>w'. send_dependent par l t (c, w) = Inr (c\<lparr>tranBuffers := rest\<rparr>, w')" for l
    using p m k a(2) assms(1,2,8) by (simp add: send_dependent_def free_trace_def Let_def)
  then show ?thesis using assms(1,3,4,5) by (simp add: controller_down_def Let_def)
qed

lemma flits_of_size: "n \<le> 496 \<Longrightarrow> 1 \<le> 1 + n div 16 \<and> 1 + n div 16 \<le> (32 :: u32)"
proof -
  assume "n \<le> 496"
  then have "unat n \<le> 496" by (simp add: word_le_nat_alt)
  then have "unat n div 16 \<le> 31" using div_le_mono [of "unat n" 496 16] by simp
  then have "unat (1 + n div 16) = 1 + unat n div 16" by (simp add: unat_word_ariths unat_div)
  then show ?thesis using \<open>unat n div 16 \<le> 31\<close> by (simp add: word_le_nat_alt)
qed

lemma command_of_bounds:
  assumes "command_of y n = Inr (cmd, len, sz)" "n \<le> 496"
  shows "1 \<le> len \<and> len \<le> 32 \<and> cmd \<noteq> PRET \<and> cmd \<noteq> TRET \<and> cmd \<noteq> IRTRY"
  using assms flits_of_size [OF assms(2)] flits_of_size [OF assms(2), unfolded add.commute [of 1]] by (cases "(y, n)" rule: command_of.cases)
    (auto simp: sized_command_def read_command_def write_command_def split: option.splits if_splits)

text \<open> C38. The packets of the controller are what a link expects: whatever the transaction, its packet has between
  one and 32 flits, is a request and no command of the link, and carries no tokens; so a master may be offered it. \<close>

theorem controller_packets_fresh:
  assumes "ConvTranIntoPacket par t g = Inr (p, g')" "t_dataSize t \<le> 496"
  shows "fresh p \<and> packetType p = REQUEST \<and> trace p = Some (t_trace t)"
proof -
  obtain cmd len sz where "command_of (transactionType t) (t_dataSize t) = Inr (cmd, len, sz)" "CMD p = cmd" "LNG p = len" "trace p = Some (t_trace t)"
    "packetType p = REQUEST" "\<not> chkCRC p" "DRTC p = 0" "URTC p = 0" using assms(1) by (rule ConvTranIntoPacket_fields)
  then show ?thesis using command_of_bounds [OF _ assms(2)] by (simp add: fresh_def)
qed

theorem controller_packets_fresh_witness:
  "\<exists>p g. ConvTranIntoPacket example_hmc (gather_tran 1) 0 = Inr (p, g) \<and> fresh p"
proof -
  obtain p g where "ConvTranIntoPacket example_hmc (gather_tran 1) 0 = Inr (p, g)"
    by (cases "packet_of example_hmc (gather_tran 1) ACT_GET 1 0") (simp add: ConvTranIntoPacket_def gather_tran_def)
  moreover have "t_dataSize (gather_tran 1) \<le> 496" by (simp add: gather_tran_def)
  ultimately show ?thesis using controller_packets_fresh [of example_hmc "gather_tran 1" 0 p g] by blast
qed

definition blocked_controller :: hmc_controller where
  "blocked_controller = (HMCController DFLY 0)\<lparr>tranBuffers := [gather_tran 1], gatherBarrier := [8 \<mapsto> (2, 0)],
     downLinkMasters := [snd (ReceiveDown (zero_packet\<lparr>LNG := 1, ADRS := 64\<rparr>) (LinkMaster True))]\<rparr>"

theorem dependent_gather_lost_witness:
  "\<exists>w'. controller_down example_hmc (blocked_controller, example_env) = Inr (blocked_controller\<lparr>tranBuffers := []\<rparr>, w')"
proof (rule dependent_gather_lost)
  show "dependent_link example_hmc blocked_controller (gather_tran 1) \<noteq> -1" by code_simp
  show "tranBuffers blocked_controller = [gather_tran 1]" by (simp add: blocked_controller_def)
  show "gatherBarrier blocked_controller (dest_address (gather_tran 1)) = Some (nthreads (gather_tran 1), 0)" by (simp add: blocked_controller_def gather_tran_def)
qed (simp_all add: blocked_controller_def gather_tran_def example_hmc_def example_env_def HMCController_def CPU_LINKS_def dual_vector.defs hmc_controller.defs DualVectorObject_def)

end
