(* ===== verification/Dram.thy ===== *)
theory Dram
  imports Packets
begin

text \<open>
  The DRAM of a vault: \<open>DRAMCommand.h\<close>, \<open>DRAMCommand.cpp\<close>, \<open>BankState.h\<close>, \<open>BankState.cpp\<close>,
  \<open>DRAM.h\<close> and \<open>DRAM.cpp\<close>. Each bank has a state and the clock cycles before which it must not
  be activated, read, written, precharged or woken; a received command raises them. The
  second half is the timing protocol: a step relation of a DRAM whose user respects these
  cycles, with the history of the commands it received, and the distances that hold between
  them.
\<close>

section \<open>Commands\<close>

datatype DRAMCommandType = ACTIVATE | READ | READ_P | WRITE | WRITE_P | READ_DATA | WRITE_DATA
  | PRECHARGE | REFRESH | POWERDOWN_ENTRY | POWERDOWN_EXIT

record dram_command =
  dc_trace :: "nat option"
  commandType :: DRAMCommandType
  packetTAG :: u32
  bank :: u32
  column :: u32
  row :: u32
  dataSize :: u32
  posted :: bool
  lastCMD :: bool
  packetCMD :: PacketCommandType
  atomic :: bool
  dc_segment :: bool
  dc_tran_tag :: u64
  addr :: u64
  destAddr :: u64
  srcAddr1 :: u64
  srcAddr2 :: u64
  dc_operandBufID :: int
  dc_vaultOperandBufID :: int
  dc_computeVault :: int
  dc_src_cube :: u32
  dc_dest_cube :: u32

text \<open>The constructor leaves \<open>computeVault\<close> as the memory \<open>raw\<close> has it.\<close>

definition DRAMCommand ::
  "dram_command \<Rightarrow> DRAMCommandType \<Rightarrow> u32 \<Rightarrow> u32 \<Rightarrow> u32 \<Rightarrow> u32 \<Rightarrow> u32 \<Rightarrow> bool \<Rightarrow> nat option \<Rightarrow> bool
     \<Rightarrow> PacketCommandType \<Rightarrow> bool \<Rightarrow> bool \<Rightarrow> dram_command" where
  "DRAMCommand raw cmdtype tag bnk col rw dSize pst lat final pktCMD atm seg =
     raw\<lparr>commandType := cmdtype, packetTAG := tag, bank := bnk, column := col, row := rw, dataSize := dSize,
       posted := pst, dc_trace := lat, lastCMD := final, packetCMD := pktCMD, atomic := atm, dc_segment := seg,
       addr := 0, dc_tran_tag := 0, srcAddr1 := 0, srcAddr2 := 0, destAddr := 0, dc_src_cube := 0,
       dc_dest_cube := 0, dc_operandBufID := -1, dc_vaultOperandBufID := -1\<rparr>"

text \<open>The copy constructor copies every member.\<close>

definition DRAMCommand_copy :: "dram_command \<Rightarrow> dram_command" where
  "DRAMCommand_copy dc = dc"

primrec show_command_type :: "DRAMCommandType \<Rightarrow> string" where
  "show_command_type ACTIVATE = ''ACT''"
| "show_command_type READ = ''READ''"
| "show_command_type READ_P = ''READ_P''"
| "show_command_type WRITE = ''WRITE''"
| "show_command_type WRITE_P = ''WRITE_P''"
| "show_command_type PRECHARGE = ''PRE''"
| "show_command_type REFRESH = ''REF''"
| "show_command_type READ_DATA = ''R_DATA''"
| "show_command_type WRITE_DATA = ''W_DATA''"
| "show_command_type POWERDOWN_ENTRY = ''PD_ENT''"
| "show_command_type POWERDOWN_EXIT = ''PD_EXT''"

definition show_command :: "dram_command \<Rightarrow> string" where
  "show_command dc = ''[C'' @ show_nat (unat (packetTAG dc)) @ ''-'' @ show_command_type (commandType dc) @ '']''"

section \<open>Banks\<close>

datatype BankStateType = IDLE | ROW_ACTIVE | PRECHARGING | REFRESHING | POWERDOWN | AWAKING

record bank_state =
  bankID :: u32
  currentBankState :: BankStateType
  openRowAddress :: u32
  nextActivate :: u64
  nextRead :: u64
  nextWrite :: u64
  nextPrecharge :: u64
  nextPowerUp :: u64
  lastCommand :: DRAMCommandType
  stateChangeCountdown :: u32

definition BankState :: "u32 \<Rightarrow> bank_state" where
  "BankState ident = \<lparr>bankID = ident, currentBankState = IDLE, openRowAddress = 0, nextActivate = 0, nextRead = 0,
     nextWrite = 0, nextPrecharge = 0, nextPowerUp = 0, lastCommand = PRECHARGE, stateChangeCountdown = 0\<rparr>"

primrec show_bank_state :: "BankStateType \<Rightarrow> string" where
  "show_bank_state IDLE = ''Idle''"
| "show_bank_state ROW_ACTIVE = ''Actv''"
| "show_bank_state PRECHARGING = ''Prch''"
| "show_bank_state REFRESHING = ''Refr''"
| "show_bank_state POWERDOWN = ''Pwdw''"
| "show_bank_state AWAKING = ''Awak''"

section \<open>The DRAM\<close>

record dram =
  bankStates :: "bank_state list"
  readData :: "dram_command option"
  dram_dataCyclesLeft :: u32
  readReturnDATA :: "dram_command list"
  readReturnCountdown :: "u32 list"
  dram_clock :: u64

definition DRAM :: "dram_config \<Rightarrow> dram" where
  "DRAM c = \<lparr>bankStates = map (\<lambda>b. BankState (of_nat b)) [0..<NUM_BANKS c], readData = None,
     dram_dataCyclesLeft = 0, readReturnDATA = [], readReturnCountdown = [], dram_clock = 0\<rparr>"

text \<open>\<open>max(currentClockCycle + delay, old)\<close>.\<close>

definition later :: "u64 \<Rightarrow> u32 \<Rightarrow> u64 \<Rightarrow> u64" where
  "later now delay old = max (now + ucast delay) old"

text \<open>A loop over the banks, and the update of one of them.\<close>

definition map_banks :: "(nat \<Rightarrow> bank_state \<Rightarrow> bank_state) \<Rightarrow> dram \<Rightarrow> dram" where
  "map_banks f d = d\<lparr>bankStates := map (\<lambda>i. f i (bankStates d ! i)) [0..<length (bankStates d)]\<rparr>"

definition activate_bank :: "dram_config \<Rightarrow> u64 \<Rightarrow> u32 \<Rightarrow> bank_state \<Rightarrow> bank_state" where
  "activate_bank c now rw bs = (let t = timing c in
     bs\<lparr>currentBankState := ROW_ACTIVE, lastCommand := ACTIVATE, openRowAddress := rw,
       nextActivate := later now (tRC t) (nextActivate bs), nextPrecharge := later now (tRAS t) (nextPrecharge bs),
       nextRead := later now (tRCD t - AL t) (nextRead bs), nextWrite := later now (tRCD t - AL t) (nextWrite bs)\<rparr>)"

definition read_delays :: "dram_config \<Rightarrow> u64 \<Rightarrow> bank_state \<Rightarrow> bank_state" where
  "read_delays c now bs =
     bs\<lparr>nextRead := later now (max (tCCD (timing c)) (BL c)) (nextRead bs),
       nextWrite := later now (READ_TO_WRITE_DELAY c) (nextWrite bs)\<rparr>"

definition write_delays :: "dram_config \<Rightarrow> u64 \<Rightarrow> bank_state \<Rightarrow> bank_state" where
  "write_delays c now bs =
     bs\<lparr>nextWrite := later now (max (BL c) (tCCD (timing c))) (nextWrite bs),
       nextRead := later now (WRITE_TO_READ_DELAY_B c) (nextRead bs)\<rparr>"

text \<open>With auto-precharge the bank takes no column access before its next activation.\<close>

definition autopre_bank :: "bank_state \<Rightarrow> bank_state" where
  "autopre_bank bs = bs\<lparr>nextRead := nextActivate bs, nextWrite := nextActivate bs\<rparr>"

definition return_read :: "dram_config \<Rightarrow> dram_command \<Rightarrow> dram \<Rightarrow> dram" where
  "return_read c cmd d = d\<lparr>readReturnDATA := readReturnDATA d @ [cmd\<lparr>commandType := READ_DATA\<rparr>],
     readReturnCountdown := readReturnCountdown d @ [RL c]\<rparr>"

definition receiveCMD :: "dram_config \<Rightarrow> dram_command \<Rightarrow> dram \<Rightarrow> dram result" where
  "receiveCMD c cmd d = (let now = dram_clock d; t = timing c; b = unat (bank cmd);
       inRange = checkE (b < length (bankStates d)) (Undefined ''bankStates'')
     in case commandType cmd of
       ACTIVATE \<Rightarrow> inRange (Inr (map_banks (\<lambda>i bs. if i = b then activate_bank c now (row cmd) bs
           else bs\<lparr>nextActivate := later now (tRRD t) (nextActivate bs)\<rparr>) d))
     | READ \<Rightarrow> inRange (Inr (return_read c cmd (map_banks (\<lambda>i bs. read_delays c now
           (if i = b then bs\<lparr>nextPrecharge := later now (READ_TO_PRE_DELAY c) (nextPrecharge bs), lastCommand := READ\<rparr>
            else bs)) d)))
     | READ_P \<Rightarrow> inRange (Inr (return_read c cmd (map_banks (\<lambda>i bs.
           if i = b then autopre_bank (read_delays c now
             (bs\<lparr>nextActivate := later now (READ_AUTOPRE_DELAY c) (nextActivate bs), lastCommand := READ_P,
                stateChangeCountdown := READ_TO_PRE_DELAY c\<rparr>))
           else read_delays c now bs) d)))
     | WRITE \<Rightarrow> inRange (Inr (map_banks (\<lambda>i bs. write_delays c now
           (if i = b then bs\<lparr>nextPrecharge := later now (WRITE_TO_PRE_DELAY c) (nextPrecharge bs), lastCommand := WRITE\<rparr>
            else bs)) d))
     | WRITE_P \<Rightarrow> inRange (Inr (map_banks (\<lambda>i bs.
           if i = b then autopre_bank (write_delays c now
             (bs\<lparr>nextActivate := later now (WRITE_AUTOPRE_DELAY c) (nextActivate bs), lastCommand := WRITE_P,
                stateChangeCountdown := WRITE_TO_PRE_DELAY c\<rparr>))
           else write_delays c now bs) d))
     | WRITE_DATA \<Rightarrow> Inr d
     | PRECHARGE \<Rightarrow> inRange (Inr (map_banks (\<lambda>i bs. if i = b then bs\<lparr>currentBankState := PRECHARGING,
           lastCommand := PRECHARGE, openRowAddress := 0, stateChangeCountdown := tRP t,
           nextActivate := later now (tRP t) (nextActivate bs)\<rparr> else bs) d))
     | REFRESH \<Rightarrow> Inr (map_banks (\<lambda>i bs. bs\<lparr>nextActivate := now + ucast (tRFC t), currentBankState := REFRESHING,
           lastCommand := REFRESH, stateChangeCountdown := tRFC t\<rparr>) d)
     | _ \<Rightarrow> Inl (Exit ''Wrong command type''))"

definition DRAM_powerDown :: "dram_config \<Rightarrow> dram \<Rightarrow> bool \<times> dram" where
  "DRAM_powerDown c d = (if list_all (\<lambda>bs. currentBankState bs = IDLE) (bankStates d)
     then (True, map_banks (\<lambda>i bs. bs\<lparr>currentBankState := POWERDOWN,
             nextPowerUp := dram_clock d + ucast (tCKE (timing c))\<rparr>) d)
     else (False, d))"

definition DRAM_powerUp :: "dram_config \<Rightarrow> dram \<Rightarrow> dram" where
  "DRAM_powerUp c d = map_banks (\<lambda>i bs. bs\<lparr>lastCommand := POWERDOWN_EXIT, currentBankState := AWAKING,
     stateChangeCountdown := tXP (timing c), nextActivate := dram_clock d + ucast (tXP (timing c))\<rparr>) d"

definition update_bank :: "dram_config \<Rightarrow> bank_state \<Rightarrow> bank_state" where
  "update_bank c bs = (if stateChangeCountdown bs > 0
     then let bs = bs\<lparr>stateChangeCountdown := stateChangeCountdown bs - 1\<rparr>
          in if stateChangeCountdown bs = 0
             then (if lastCommand bs = WRITE_P \<or> lastCommand bs = READ_P
                   then bs\<lparr>currentBankState := PRECHARGING, lastCommand := PRECHARGE,
                          stateChangeCountdown := tRP (timing c)\<rparr>
                   else if lastCommand bs = REFRESH \<or> lastCommand bs = PRECHARGE \<or> lastCommand bs = POWERDOWN_EXIT
                   then bs\<lparr>currentBankState := IDLE\<rparr> else bs)
             else bs
     else bs)"

text \<open>
  \<open>UpdateState\<close> hands the read data to the vault controller, \<open>ReturnCommand\<close> on the state \<open>v\<close> of
  the controller.
\<close>

definition return_data ::
  "(dram_command \<Rightarrow> 'v \<Rightarrow> (bool \<times> 'v) result) \<Rightarrow> 'v \<Rightarrow> dram \<Rightarrow> ('v \<times> dram) result" where
  "return_data ReturnCommand v d = (case readData d of None \<Rightarrow> Inr (v, d)
     | Some cmd \<Rightarrow>
         (let d = d\<lparr>dram_dataCyclesLeft := (if dram_dataCyclesLeft d > 0 then dram_dataCyclesLeft d - 1 else dram_dataCyclesLeft d)\<rparr>
          in if dram_dataCyclesLeft d = 0
             then bindE (ReturnCommand cmd v) (\<lambda>(ok, v). Inr (v, if ok then d\<lparr>readData := None\<rparr> else d))
             else Inr (v, d)))"

definition start_read_data :: "dram_config \<Rightarrow> dram \<Rightarrow> dram result" where
  "start_read_data c d = (if readData d = None \<and> readReturnCountdown d \<noteq> [] \<and> hd (readReturnCountdown d) = 0
     then checkE (readReturnDATA d \<noteq> []) (Undefined ''readReturnDATA'')
       (Inr (d\<lparr>readData := Some (hd (readReturnDATA d)), dram_dataCyclesLeft := BL c,
              readReturnDATA := tl (readReturnDATA d), readReturnCountdown := tl (readReturnCountdown d)\<rparr>))
     else Inr d)"

definition DRAM_UpdateState ::
  "(dram_command \<Rightarrow> 'v \<Rightarrow> (bool \<times> 'v) result) \<Rightarrow> dram_config \<Rightarrow> 'v \<Rightarrow> dram \<Rightarrow> ('v \<times> dram) result" where
  "DRAM_UpdateState ReturnCommand c v d =
     bindE (return_data ReturnCommand v d) (\<lambda>(v, d).
     bindE (start_read_data c d) (\<lambda>d.
       Inr (v, d\<lparr>readReturnCountdown := map (\<lambda>n. if n > 0 then n - 1 else n) (readReturnCountdown d)\<rparr>)))"

definition DRAM_Update ::
  "(dram_command \<Rightarrow> 'v \<Rightarrow> (bool \<times> 'v) result) \<Rightarrow> dram_config \<Rightarrow> 'v \<Rightarrow> dram \<Rightarrow> ('v \<times> dram) result" where
  "DRAM_Update ReturnCommand c v d =
     bindE (DRAM_UpdateState ReturnCommand c v (map_banks (\<lambda>i. update_bank c) d)) (\<lambda>(v, d).
       Inr (v, d\<lparr>dram_clock := dram_clock d + 1\<rparr>))"

section \<open>The timing protocol\<close>

text \<open>
  What a command waits for: the cycle of the bank it concerns. A refresh concerns every bank as
  an activation does.
\<close>

datatype wait_kind = KAct | KRead | KWrite | KPre

primrec earliest :: "wait_kind \<Rightarrow> bank_state \<Rightarrow> u64" where
  "earliest KAct = nextActivate"
| "earliest KRead = nextRead"
| "earliest KWrite = nextWrite"
| "earliest KPre = nextPrecharge"

fun waits_for :: "dram_command \<Rightarrow> wait_kind \<Rightarrow> nat \<Rightarrow> bool" where
  "waits_for cmd k b = (case commandType cmd of
     ACTIVATE \<Rightarrow> k = KAct \<and> b = unat (bank cmd)
   | READ \<Rightarrow> k = KRead \<and> b = unat (bank cmd)
   | READ_P \<Rightarrow> k = KRead \<and> b = unat (bank cmd)
   | WRITE \<Rightarrow> k = KWrite \<and> b = unat (bank cmd)
   | WRITE_P \<Rightarrow> k = KWrite \<and> b = unat (bank cmd)
   | PRECHARGE \<Rightarrow> k = KPre \<and> b = unat (bank cmd)
   | REFRESH \<Rightarrow> k = KAct
   | _ \<Rightarrow> False)"

definition dram_ready :: "dram_command \<Rightarrow> dram \<Rightarrow> bool" where
  "dram_ready cmd d \<longleftrightarrow> (\<forall>b < length (bankStates d). \<forall>k \<in> {KAct, KRead, KWrite, KPre}.
     waits_for cmd k b \<longrightarrow> earliest k (bankStates d ! b) \<le> dram_clock d)"

text \<open>The minimal distance, in cycles, from a command to a later one of a kind on a bank.\<close>

definition gap :: "dram_config \<Rightarrow> dram_command \<Rightarrow> wait_kind \<Rightarrow> nat \<Rightarrow> u32" where
  "gap c cmd k b = (let t = timing c; same = (unat (bank cmd) = b) in case commandType cmd of
     ACTIVATE \<Rightarrow> (case k of KAct \<Rightarrow> if same then tRC t else tRRD t
                 | KPre \<Rightarrow> if same then tRAS t else 0
                 | _ \<Rightarrow> if same then tRCD t - AL t else 0)
   | READ \<Rightarrow> (case k of KRead \<Rightarrow> max (tCCD t) (BL c) | KWrite \<Rightarrow> READ_TO_WRITE_DELAY c
                 | KPre \<Rightarrow> if same then READ_TO_PRE_DELAY c else 0 | KAct \<Rightarrow> 0)
   | READ_P \<Rightarrow> (case k of KRead \<Rightarrow> max (tCCD t) (BL c) | KWrite \<Rightarrow> READ_TO_WRITE_DELAY c
                 | KAct \<Rightarrow> if same then READ_AUTOPRE_DELAY c else 0 | KPre \<Rightarrow> 0)
   | WRITE \<Rightarrow> (case k of KWrite \<Rightarrow> max (BL c) (tCCD t) | KRead \<Rightarrow> WRITE_TO_READ_DELAY_B c
                 | KPre \<Rightarrow> if same then WRITE_TO_PRE_DELAY c else 0 | KAct \<Rightarrow> 0)
   | WRITE_P \<Rightarrow> (case k of KWrite \<Rightarrow> max (BL c) (tCCD t) | KRead \<Rightarrow> WRITE_TO_READ_DELAY_B c
                 | KAct \<Rightarrow> if same then WRITE_AUTOPRE_DELAY c else 0 | KPre \<Rightarrow> 0)
   | PRECHARGE \<Rightarrow> if same \<and> k = KAct then tRP t else 0
   | REFRESH \<Rightarrow> if k = KAct then tRFC t else 0
   | _ \<Rightarrow> 0)"

text \<open>
  The delays between column accesses are no longer than an auto-precharge, which resets the
  column cycles of its bank to the activation cycle.
\<close>

definition timing_ok :: "dram_config \<Rightarrow> bool" where
  "timing_ok c \<longleftrightarrow> (let t = timing c in
     list_all (\<lambda>x. x \<le> READ_AUTOPRE_DELAY c \<and> x \<le> WRITE_AUTOPRE_DELAY c)
       [tRCD t - AL t, max (tCCD t) (BL c), READ_TO_WRITE_DELAY c, WRITE_TO_READ_DELAY_B c])"

text \<open>
  Runs of a DRAM that is not powered up: commands are received when they are ready, the DRAM is updated
  once a cycle (whatever the vault controller does with the returned data) and may be powered down. The
  history has the cycle of every received command, the newest first. The clock is followed for
  its first \<open>2 ^ 63\<close> cycles, where \<open>uint64_t\<close> sums do not wrap.
\<close>

inductive dram_run :: "dram_config \<Rightarrow> dram \<Rightarrow> (nat \<times> dram_command) list \<Rightarrow> bool" for c where
  init: "dram_run c (DRAM c) []"
| issue: "dram_run c d h \<Longrightarrow> dram_ready cmd d \<Longrightarrow> receiveCMD c cmd d = Inr d' \<Longrightarrow>
    dram_run c d' ((unat (dram_clock d), cmd) # h)"
| tick: "dram_run c d h \<Longrightarrow> dram_clock d < 2 ^ 63 \<Longrightarrow> DRAM_Update ret c () d = Inr (u, d') \<Longrightarrow> dram_run c d' h"
| sleep: "dram_run c d h \<Longrightarrow> DRAM_powerDown c d = (ok, d') \<Longrightarrow> dram_run c d' h"

section \<open>Timing lemmas\<close>

lemma map_banks_simps [simp]:
  "length (bankStates (map_banks f d)) = length (bankStates d)"
  "dram_clock (map_banks f d) = dram_clock d"
  "i < length (bankStates d) \<Longrightarrow> bankStates (map_banks f d) ! i = f i (bankStates d ! i)"
  by (simp_all add: map_banks_def)

lemma return_read_simps [simp]:
  "bankStates (return_read c cmd d) = bankStates d"
  "dram_clock (return_read c cmd d) = dram_clock d"
  by (simp_all add: return_read_def)

lemma unat_ucast_u64: "unat (ucast (w :: u32) :: u64) = unat w"
proof -
  have "unat w < 2 ^ 64" by (rule less_trans [OF unat_u32_lt]) simp
  then show ?thesis by (simp add: unsigned_ucast_eq take_bit_nat_eq_self)
qed

lemma unat_later: "unat now \<le> 2 ^ 63 \<Longrightarrow> unat (later now delay old) = max (unat now + unat delay) (unat old)"
proof -
  assume n: "unat now \<le> 2 ^ 63"
  have "unat now + unat (ucast delay :: u64) < 2 ^ 64"
    using n unat_u32_lt [of delay] by (simp add: unat_ucast_u64 del: unat_u32_lt)
  then have "unat (now + ucast delay) = unat now + unat delay"
    by (simp add: unat_word_ariths unat_ucast_u64)
  then show ?thesis by (simp add: later_def max_def word_le_nat_alt)
qed

lemma unat_plus_delay: "unat (now :: u64) \<le> 2 ^ 63 \<Longrightarrow> unat (now + ucast (delay :: u32)) = unat now + unat delay"
  using unat_later [of now delay 0] by (simp add: later_def)

lemmas bank_defs = activate_bank_def read_delays_def write_delays_def autopre_bank_def Let_def

text \<open>What one ready command does to the cycles of a bank.\<close>

lemma receive_clock: "receiveCMD c cmd d = Inr d' \<Longrightarrow>
    dram_clock d' = dram_clock d \<and> length (bankStates d') = length (bankStates d)"
  by (auto simp: receiveCMD_def Let_def checkE_def split: DRAMCommandType.splits if_splits)

lemma receive_gap:
  assumes "receiveCMD c cmd d = Inr d'" and "b < length (bankStates d)" and "unat (dram_clock d) \<le> 2 ^ 63"
    and "dram_ready cmd d" and "timing_ok c"
  shows "unat (dram_clock d) + unat (gap c cmd k b) \<le> unat (earliest k (bankStates d' ! b)) \<or> gap c cmd k b = 0"
  using assms
  by (cases k; cases "commandType cmd")
    (auto simp: receiveCMD_def checkE_def gap_def bank_defs unat_later unat_plus_delay timing_ok_def
      word_le_nat_alt max.commute split: if_splits)

lemma receive_keeps:
  assumes "receiveCMD c cmd d = Inr d'" and "b < length (bankStates d)" and "unat (dram_clock d) \<le> 2 ^ 63"
    and "dram_ready cmd d"
  shows "unat (earliest k (bankStates d ! b)) \<le> unat (earliest k (bankStates d' ! b)) \<or>
    k \<in> {KRead, KWrite} \<and> unat (dram_clock d) + min (unat (READ_AUTOPRE_DELAY c)) (unat (WRITE_AUTOPRE_DELAY c))
      \<le> unat (earliest k (bankStates d' ! b))"
  using assms
  by (cases k; cases "commandType cmd")
    (auto simp: receiveCMD_def checkE_def bank_defs unat_later unat_plus_delay dram_ready_def
      word_le_nat_alt min_def split: if_splits)

lemma gap_column: "timing_ok c \<Longrightarrow> k \<in> {KRead, KWrite} \<Longrightarrow>
    unat (gap c cmd k b) \<le> min (unat (READ_AUTOPRE_DELAY c)) (unat (WRITE_AUTOPRE_DELAY c))"
  by (cases "commandType cmd") (auto simp: gap_def timing_ok_def Let_def word_le_nat_alt max.commute)

lemma update_bank_times [simp]: "earliest k (update_bank c bs) = earliest k bs"
  by (cases k) (simp_all add: update_bank_def Let_def)

text \<open>The rest of an update leaves the banks alone and advances the clock.\<close>

lemma DRAM_Update_banks:
  "DRAM_Update ret c v d = Inr (v', d') \<Longrightarrow>
     bankStates d' = bankStates (map_banks (\<lambda>i. update_bank c) d) \<and> dram_clock d' = dram_clock d + 1"
  by (auto simp: DRAM_Update_def DRAM_UpdateState_def return_data_def start_read_data_def Let_def err_simps
      split: option.splits if_splits)

lemma clock_Suc: "dram_clock d < 2 ^ 63 \<Longrightarrow> unat (dram_clock d + 1) = Suc (unat (dram_clock d))"
  using unat_plus_delay [of "dram_clock d" 1] by (simp add: word_less_nat_alt)

text \<open>
  The distance a later command \<open>cmd2\<close> keeps from an earlier one: the gap, for every kind and bank
  the later one waits for.
\<close>

definition spaced :: "dram_config \<Rightarrow> nat \<times> dram_command \<Rightarrow> nat \<times> dram_command \<Rightarrow> bool" where
  "spaced c e2 e1 \<longleftrightarrow> fst e1 \<le> fst e2 \<and> (\<forall>b < NUM_BANKS c. \<forall>k \<in> {KAct, KRead, KWrite, KPre}.
     waits_for (snd e2) k b \<longrightarrow> fst e1 + unat (gap c (snd e1) k b) \<le> fst e2)"

section \<open>The life of a DRAM\<close>

text \<open>
  \<open>dram_run\<close> is for a DRAM that is not powered up, as that of a vault without the low-power mode. The
  whole life of a DRAM has all its operations, in any order. Its history also has the power-ups
  (\<open>None\<close>), which set the activation cycle of every bank to \<open>tXP\<close> cycles from now, whatever it was.
\<close>

type_synonym dram_event = "nat \<times> dram_command option"

inductive dram_life :: "dram_config \<Rightarrow> dram \<Rightarrow> dram_event list \<Rightarrow> bool" for c where
  built: "dram_life c (DRAM c) []"
| command: "dram_life c d h \<Longrightarrow> dram_ready cmd d \<Longrightarrow> receiveCMD c cmd d = Inr d' \<Longrightarrow>
    dram_life c d' ((unat (dram_clock d), Some cmd) # h)"
| update: "dram_life c d h \<Longrightarrow> dram_clock d < 2 ^ 63 \<Longrightarrow> DRAM_Update ret c () d = Inr (u, d') \<Longrightarrow> dram_life c d' h"
| power_down: "dram_life c d h \<Longrightarrow> DRAM_powerDown c d = (ok, d') \<Longrightarrow> dram_life c d' h"
| power_up: "dram_life c d h \<Longrightarrow> dram_life c (DRAM_powerUp c d) ((unat (dram_clock d), None) # h)"

definition event_gap :: "dram_config \<Rightarrow> dram_command option \<Rightarrow> wait_kind \<Rightarrow> nat \<Rightarrow> u32" where
  "event_gap c ev k b = (case ev of Some cmd \<Rightarrow> gap c cmd k b | None \<Rightarrow> if k = KAct then tXP (timing c) else 0)"

definition all_kinds :: "wait_kind set" where
  "all_kinds = {KAct, KRead, KWrite, KPre}"

definition column_kinds :: "wait_kind set" where
  "column_kinds = {KRead, KWrite, KPre}"

text \<open>
  What a command keeps of the distances to the events before it: all of them to those since the last
  power-up and to the power-ups, and those of column accesses and precharges to all others.
\<close>

definition apart :: "dram_config \<Rightarrow> wait_kind set \<Rightarrow> nat \<times> dram_command \<Rightarrow> dram_event \<Rightarrow> bool" where
  "apart c K e2 e1 \<longleftrightarrow> fst e1 \<le> fst e2 \<and> (\<forall>b < NUM_BANKS c. \<forall>k \<in> K.
     waits_for (snd e2) k b \<longrightarrow> fst e1 + unat (event_gap c (snd e1) k b) \<le> fst e2)"

definition since_up :: "dram_event list \<Rightarrow> dram_event list" where
  "since_up h = takeWhile (\<lambda>e. snd e \<noteq> None) h"

definition kinds_kept :: "dram_event \<Rightarrow> wait_kind set" where
  "kinds_kept e = (if snd e = None then all_kinds else column_kinds)"

fun life_spaced :: "dram_config \<Rightarrow> dram_event list \<Rightarrow> bool" where
  "life_spaced c [] = True"
| "life_spaced c ((t, ev) # h) = (life_spaced c h \<and> (case ev of None \<Rightarrow> (\<forall>e \<in> set h. fst e \<le> t)
     | Some cmd \<Rightarrow> (\<forall>e \<in> set (since_up h). apart c all_kinds (t, cmd) e) \<and> (\<forall>e \<in> set h. apart c (kinds_kept e) (t, cmd) e)))"

text \<open>The invariant: every event has raised the cycles of the banks by its gaps.\<close>

definition raised :: "dram_config \<Rightarrow> dram \<Rightarrow> wait_kind set \<Rightarrow> dram_event \<Rightarrow> bool" where
  "raised c d K e \<longleftrightarrow> fst e \<le> unat (dram_clock d) \<and> (\<forall>b < length (bankStates d). \<forall>k \<in> K. event_gap c (snd e) k b \<noteq> 0 \<longrightarrow>
     fst e + unat (event_gap c (snd e) k b) \<le> unat (earliest k (bankStates d ! b)))"

definition life_respected :: "dram_config \<Rightarrow> dram \<Rightarrow> dram_event list \<Rightarrow> bool" where
  "life_respected c d h \<longleftrightarrow> (\<forall>e \<in> set (since_up h). raised c d all_kinds e) \<and> (\<forall>e \<in> set h. raised c d (kinds_kept e) e)"

lemma since_up_simps [simp]:
  "since_up [] = []" "since_up ((t, None) # h) = []" "since_up ((t, Some cmd) # h) = (t, Some cmd) # since_up h"
  by (simp_all add: since_up_def)

lemma in_all_kinds [simp]: "k \<in> all_kinds"
  by (cases k) (simp_all add: all_kinds_def)

lemma raised_mono: "raised c d all_kinds e \<Longrightarrow> raised c d K e"
  by (auto simp: raised_def)

lemma raised_keeps:
  assumes "raised c d K e" and "unat (dram_clock d) \<le> unat (dram_clock d')" and "length (bankStates d') = length (bankStates d)"
    and "\<And>b k. b < length (bankStates d) \<Longrightarrow> k \<in> K \<Longrightarrow> event_gap c (snd e) k b \<noteq> 0 \<Longrightarrow>
      fst e + unat (event_gap c (snd e) k b) \<le> unat (earliest k (bankStates d ! b)) \<Longrightarrow>
      fst e + unat (event_gap c (snd e) k b) \<le> unat (earliest k (bankStates d' ! b))"
  shows "raised c d' K e"
  using assms unfolding raised_def by force

lemma event_gap_column: "timing_ok c \<Longrightarrow> k \<in> {KRead, KWrite} \<Longrightarrow>
    unat (event_gap c ev k b) \<le> min (unat (READ_AUTOPRE_DELAY c)) (unat (WRITE_AUTOPRE_DELAY c))"
  by (cases ev) (auto simp: event_gap_def dest: gap_column)

lemma raised_command:
  assumes "raised c d K e" and "dram_ready cmd d" "receiveCMD c cmd d = Inr d'" and "unat (dram_clock d) \<le> 2 ^ 63" "timing_ok c"
  shows "raised c d' K e"
proof (rule raised_keeps [OF assms(1)])
  fix b k assume b: "b < length (bankStates d)" and g: "fst e + unat (event_gap c (snd e) k b) \<le> unat (earliest k (bankStates d ! b))"
  have "fst e \<le> unat (dram_clock d)" using assms(1) by (simp add: raised_def)
  then show "fst e + unat (event_gap c (snd e) k b) \<le> unat (earliest k (bankStates d' ! b))"
    using receive_keeps [OF assms(3) b assms(4,2), of k] event_gap_column [OF assms(5), of k "snd e" b] g by linarith
qed (use receive_clock [OF assms(3)] in simp_all)

lemma raised_new:
  assumes "dram_ready cmd d" "receiveCMD c cmd d = Inr d'" and "unat (dram_clock d) \<le> 2 ^ 63" "timing_ok c"
  shows "raised c d' K (unat (dram_clock d), Some cmd)"
  using receive_gap [OF assms(2) _ assms(3,1,4)] receive_clock [OF assms(2)]
  by (fastforce simp: raised_def event_gap_def)

lemma powerUp_simps [simp]:
  "length (bankStates (DRAM_powerUp c d)) = length (bankStates d)" "dram_clock (DRAM_powerUp c d) = dram_clock d"
  "readData (DRAM_powerUp c d) = readData d" "readReturnCountdown (DRAM_powerUp c d) = readReturnCountdown d"
  by (simp_all add: DRAM_powerUp_def) (simp_all add: map_banks_def)

lemma life_clock: "dram_life c d h \<Longrightarrow> unat (dram_clock d) \<le> 2 ^ 63 \<and> length (bankStates d) = NUM_BANKS c"
proof (induction rule: dram_life.induct)
  case (command d h cmd d')
  then show ?case using receive_clock by metis
next
  case (update d h ret u d')
  then have "unat (dram_clock d) < 2 ^ 63" by (simp add: word_less_nat_alt)
  then show ?case using DRAM_Update_banks [OF update.hyps(3)] clock_Suc [OF update.hyps(2)] update.IH by simp
next
  case (power_down d h ok d')
  then show ?case by (auto simp: DRAM_powerDown_def split: if_splits)
qed (simp_all add: DRAM_def)

lemma powerDown_earliest:
  assumes "DRAM_powerDown c d = (ok, d')"
  shows "length (bankStates d') = length (bankStates d) \<and> dram_clock d' = dram_clock d \<and>
    (\<forall>b < length (bankStates d). \<forall>k. earliest k (bankStates d' ! b) = earliest k (bankStates d ! b))"
proof -
  have "earliest k (bs\<lparr>currentBankState := s, nextPowerUp := n\<rparr>) = earliest k bs" for k bs s n by (cases k) simp_all
  then show ?thesis using assms by (auto simp: DRAM_powerDown_def split: if_splits)
qed

lemma powerUp_earliest:
  "b < length (bankStates d) \<Longrightarrow> earliest k (bankStates (DRAM_powerUp c d) ! b) =
     (if k = KAct then dram_clock d + ucast (tXP (timing c)) else earliest k (bankStates d ! b))"
  by (cases k) (simp_all add: DRAM_powerUp_def)

lemma raised_powerUp:
  assumes "raised c d (kinds_kept e) e" and "unat (dram_clock d) \<le> 2 ^ 63"
  shows "raised c (DRAM_powerUp c d) (kinds_kept e) e"
proof (rule raised_keeps [OF assms(1)])
  fix b k assume b: "b < length (bankStates d)" and k: "k \<in> kinds_kept e" "event_gap c (snd e) k b \<noteq> 0"
    and g: "fst e + unat (event_gap c (snd e) k b) \<le> unat (earliest k (bankStates d ! b))"
  have "fst e \<le> unat (dram_clock d)" using assms(1) by (simp add: raised_def)
  moreover have "snd e = None" if "k = KAct" using k(1) that by (auto simp: kinds_kept_def column_kinds_def split: if_splits)
  ultimately show "fst e + unat (event_gap c (snd e) k b) \<le> unat (earliest k (bankStates (DRAM_powerUp c d) ! b))"
    using g unat_plus_delay [OF assms(2), of "tXP (timing c)"] by (auto simp: powerUp_earliest [OF b] event_gap_def)
qed simp_all

lemma life_respected_keeps:
  "life_respected c d h \<Longrightarrow> (\<And>K e. raised c d K e \<Longrightarrow> raised c d' K e) \<Longrightarrow> life_respected c d' h"
  by (simp add: life_respected_def)

lemma life_respects: "dram_life c d h \<Longrightarrow> timing_ok c \<Longrightarrow> life_respected c d h"
proof (induction rule: dram_life.induct)
  case (command d h cmd d')
  note s = command.hyps(2,3) conjunct1 [OF life_clock [OF command.hyps(1)]] command.prems
  show ?case using command.IH [OF command.prems] raised_command [OF _ s] raised_new [OF s]
    by (auto simp: life_respected_def)
next
  case (update d h ret u d')
  have t: "bankStates d' = bankStates (map_banks (\<lambda>i. update_bank c) d)" "unat (dram_clock d') = Suc (unat (dram_clock d))"
    using DRAM_Update_banks [OF update.hyps(3)] clock_Suc [OF update.hyps(2)] by simp_all
  show ?case by (rule life_respected_keeps [OF update.IH [OF update.prems]], erule raised_keeps) (simp_all add: t)
next
  case (power_down d h ok d')
  show ?case
    by (rule life_respected_keeps [OF power_down.IH [OF power_down.prems]], erule raised_keeps)
      (simp_all add: powerDown_earliest [OF power_down.hyps(2)])
next
  case (power_up d h)
  note clk = conjunct1 [OF life_clock [OF power_up.hyps(1)]]
  have "raised c (DRAM_powerUp c d) K (unat (dram_clock d), None)" for K
    using unat_plus_delay [OF clk, of "tXP (timing c)"]
    by (auto simp: raised_def event_gap_def powerUp_earliest)
  then show ?case using power_up.IH [OF power_up.prems] raised_powerUp [OF _ clk] by (simp add: life_respected_def)
qed (simp add: life_respected_def)

lemma raised_apart:
  assumes "raised c d K e" and "dram_ready cmd d" and "length (bankStates d) = NUM_BANKS c" and "K \<subseteq> all_kinds"
  shows "apart c K (unat (dram_clock d), cmd) e"
proof -
  have t: "fst e \<le> unat (dram_clock d)" using assms(1) by (simp add: raised_def)
  have "fst e + unat (event_gap c (snd e) k b) \<le> unat (dram_clock d)"
    if "b < NUM_BANKS c" "k \<in> K" "waits_for cmd k b" for k b
  proof (cases "event_gap c (snd e) k b = 0")
    case False
    then have "fst e + unat (event_gap c (snd e) k b) \<le> unat (earliest k (bankStates d ! b))"
      using assms(1,3) that by (auto simp: raised_def)
    moreover have "earliest k (bankStates d ! b) \<le> dram_clock d"
      using assms(2,3) that in_all_kinds [of k] unfolding dram_ready_def all_kinds_def by (auto simp del: waits_for.simps)
    ultimately show ?thesis by (simp add: word_le_nat_alt)
  qed (use t in simp)
  with t show ?thesis by (simp add: apart_def del: waits_for.simps)
qed

lemma life_is_spaced: "dram_life c d h \<Longrightarrow> timing_ok c \<Longrightarrow> life_spaced c h"
proof (induction rule: dram_life.induct)
  case (command d h cmd d')
  have "K \<subseteq> all_kinds" for K by auto
  then show ?case
    using life_respects [OF command.hyps(1)] raised_apart [OF _ command.hyps(2)] life_clock [OF command.hyps(1)] command
    by (simp add: life_respected_def)
next
  case (power_up d h)
  then show ?case using life_respects [OF power_up.hyps(1)] by (auto simp: life_respected_def raised_def)
qed simp_all

text \<open>Without a power-up the life is a run, and all distances are kept.\<close>

definition no_power_up :: "(nat \<times> dram_command) list \<Rightarrow> dram_event list" where
  "no_power_up h = map (\<lambda>(t, cmd). (t, Some cmd)) h"

lemma run_life: "dram_run c d h \<Longrightarrow> dram_life c d (no_power_up h)"
  by (induction rule: dram_run.induct) (auto simp: no_power_up_def intro: dram_life.intros)

lemma since_up_none [simp]: "since_up (no_power_up h) = no_power_up h"
  by (induction h) (auto simp: no_power_up_def)

lemma apart_spaced: "apart c all_kinds e2 (t, Some cmd) = spaced c e2 (t, cmd)"
  by (simp add: apart_def spaced_def event_gap_def all_kinds_def)

lemma life_spaced_none: "life_spaced c (no_power_up h) \<Longrightarrow> sorted_wrt (spaced c) h"
proof (induction h)
  case (Cons e h)
  obtain t cmd where e: "e = (t, cmd)" by (cases e)
  have "no_power_up (e # h) = (t, Some cmd) # no_power_up h" by (simp add: e no_power_up_def)
  then have s: "life_spaced c (no_power_up h)" "\<forall>x \<in> set (no_power_up h). apart c all_kinds (t, cmd) x"
    using Cons.prems by simp_all
  have "spaced c e x" if "x \<in> set h" for x
  proof -
    have "(fst x, Some (snd x)) \<in> set (no_power_up h)" using that by (force simp: no_power_up_def)
    then show ?thesis using s(2) apart_spaced [of c e "fst x" "snd x"] e by auto
  qed
  then show ?case using Cons.IH [OF s(1)] by simp
qed simp

lemma run_spaced: "dram_run c d h \<Longrightarrow> timing_ok c \<Longrightarrow> sorted_wrt (spaced c) h"
  by (rule life_spaced_none [OF life_is_spaced [OF run_life]])

lemma run_banks: "dram_run c d h \<Longrightarrow> length (bankStates d) = NUM_BANKS c"
  using life_clock [OF run_life] by blast

text \<open>Idle cycles, for the examples.\<close>

lemma life_ticks:
  "dram_life c d h \<Longrightarrow> readData d = None \<Longrightarrow> readReturnCountdown d = [] \<Longrightarrow> unat (dram_clock d) + n \<le> 2 ^ 63 \<Longrightarrow>
     \<exists>d'. dram_life c d' h \<and> dram_clock d' = dram_clock d + of_nat n \<and> length (bankStates d') = length (bankStates d) \<and>
       readData d' = None \<and> readReturnCountdown d' = [] \<and>
       (\<forall>b < length (bankStates d). \<forall>k. earliest k (bankStates d' ! b) = earliest k (bankStates d ! b))"
proof (induction n arbitrary: d)
  case 0
  then show ?case by (intro exI [of _ d]) simp
next
  case (Suc n)
  let ?e = "(map_banks (\<lambda>i. update_bank c) d)\<lparr>dram_clock := dram_clock d + 1\<rparr>"
  have "DRAM_Update (\<lambda>cmd v. Inr (True, v)) c () d = Inr ((), ?e)"
    using Suc.prems(2,3) by (simp add: DRAM_Update_def DRAM_UpdateState_def return_data_def start_read_data_def map_banks_def)
  moreover have lt: "dram_clock d < 2 ^ 63" using Suc.prems(4) by (simp add: word_less_nat_alt)
  ultimately have "dram_life c ?e h" using Suc.prems(1) dram_life.update by blast
  moreover have "unat (dram_clock ?e) + n \<le> 2 ^ 63" using Suc.prems(4) clock_Suc [OF lt] by simp
  ultimately obtain d' where "dram_life c d' h" "dram_clock d' = dram_clock ?e + of_nat n"
    "length (bankStates d') = length (bankStates ?e)"
    "readData d' = None" "readReturnCountdown d' = []" "\<forall>b < length (bankStates ?e). \<forall>k. earliest k (bankStates d' ! b) = earliest k (bankStates ?e ! b)"
    using Suc.IH [of ?e] Suc.prems(2,3) by (auto simp: map_banks_def)
  then show ?case by (intro exI [of _ d']) (simp add: algebra_simps)
qed

section \<open>Countdowns\<close>

text \<open>The countdown of a bank, update by update.\<close>

lemma update_bank_down: "1 < unat (stateChangeCountdown bs) \<Longrightarrow>
    update_bank c bs = bs\<lparr>stateChangeCountdown := stateChangeCountdown bs - 1\<rparr>"
proof -
  assume "1 < unat (stateChangeCountdown bs)"
  then have "stateChangeCountdown bs > 0" "stateChangeCountdown bs - 1 \<noteq> 0"
    by (auto simp: word_greater_zero_iff)
  then show ?thesis by (simp add: update_bank_def Let_def)
qed

lemma update_bank_stays: "stateChangeCountdown bs = 0 \<Longrightarrow> update_bank c bs = bs"
  by (simp add: update_bank_def)

lemma update_bank_stays_iter: "stateChangeCountdown bs = 0 \<Longrightarrow> (update_bank c ^^ n) bs = bs"
  by (induction n) (simp_all add: update_bank_stays)

lemma update_bank_iter:
  "n < unat (stateChangeCountdown bs) \<Longrightarrow>
     (update_bank c ^^ n) bs = bs\<lparr>stateChangeCountdown := stateChangeCountdown bs - of_nat n\<rparr>"
proof (induction n)
  case (Suc n)
  let ?s = "bs\<lparr>stateChangeCountdown := stateChangeCountdown bs - of_nat n\<rparr>"
  have "unat (of_nat n :: u32) = n"
    using Suc.prems unat_u32_lt [of "stateChangeCountdown bs"] by (intro unat_of_nat_u32) (simp del: unat_u32_lt)
  then have "unat (stateChangeCountdown bs - of_nat n) = unat (stateChangeCountdown bs) - n"
    using Suc.prems by (subst unat_sub) (simp_all add: word_le_nat_alt)
  then have "1 < unat (stateChangeCountdown ?s)" using Suc.prems by simp
  then have "update_bank c ?s = ?s\<lparr>stateChangeCountdown := stateChangeCountdown ?s - 1\<rparr>"
    by (rule update_bank_down)
  then show ?case using Suc by (simp add: algebra_simps)
qed simp

lemma update_bank_last:
  assumes "0 < unat (stateChangeCountdown bs)"
  shows "(update_bank c ^^ unat (stateChangeCountdown bs)) bs = update_bank c (bs\<lparr>stateChangeCountdown := 1\<rparr>)"
proof -
  obtain m where m: "unat (stateChangeCountdown bs) = Suc m" using assms gr0_implies_Suc by blast
  then have "stateChangeCountdown bs = 1 + of_nat m"
    by (metis of_nat_Suc of_nat_unat ucast_id)
  then have "stateChangeCountdown bs - of_nat m = 1" by simp
  then show ?thesis using update_bank_iter [of m bs c] m by simp
qed

lemma precharge_countdown:
  assumes "lastCommand bs \<in> {REFRESH, PRECHARGE, POWERDOWN_EXIT}" and "0 < unat (stateChangeCountdown bs)"
  shows "currentBankState ((update_bank c ^^ n) bs) =
    (if n < unat (stateChangeCountdown bs) then currentBankState bs else IDLE)"
proof (cases "n < unat (stateChangeCountdown bs)")
  case True
  then show ?thesis by (simp add: update_bank_iter)
next
  case False
  then obtain k where n: "n = k + unat (stateChangeCountdown bs)" by (metis add.commute le_Suc_ex not_less)
  have "update_bank c (bs\<lparr>stateChangeCountdown := 1\<rparr>) = bs\<lparr>stateChangeCountdown := 0, currentBankState := IDLE\<rparr>"
    using assms(1) by (auto simp: update_bank_def Let_def)
  then have "(update_bank c ^^ n) bs = bs\<lparr>stateChangeCountdown := 0, currentBankState := IDLE\<rparr>"
    unfolding n funpow_add by (simp add: update_bank_last [OF assms(2)] update_bank_stays_iter)
  then show ?thesis using False by simp
qed

text \<open>A command for the examples.\<close>

definition zero_command :: dram_command where
  "zero_command = \<lparr>dc_trace = None, commandType = ACTIVATE, packetTAG = 0, bank = 0, column = 0, row = 0, dataSize = 0,
     posted = False, lastCMD = False, packetCMD = NULL_CMD, atomic = False, dc_segment = False, dc_tran_tag = 0,
     addr = 0, destAddr = 0, srcAddr1 = 0, srcAddr2 = 0, dc_operandBufID = 0, dc_vaultOperandBufID = 0,
     dc_computeVault = 0, dc_src_cube = 0, dc_dest_cube = 0\<rparr>"

lemmas default_simps = default_config_def default_timing_def READ_AUTOPRE_DELAY_def WRITE_AUTOPRE_DELAY_def
  READ_TO_WRITE_DELAY_def WRITE_TO_READ_DELAY_B_def READ_TO_PRE_DELAY_def WRITE_TO_PRE_DELAY_def RL_def WL_def BL_def

lemma timing_ok_default: "timing_ok default_config"
  by (simp add: timing_ok_def default_simps)

section \<open>Properties of the DRAM\<close>



text \<open>
  An auto-precharge closes its bank by itself: after a read or write with auto-precharge, the
  bank stays open for the read- or write-to-precharge delay, is then precharging for \<open>tRP\<close> cycles
  and is idle from then on, as long as no further command is received.
\<close>

lemma autoprecharge_closes_bank:
  assumes "lastCommand bs \<in> {READ_P, WRITE_P}" and "0 < unat (stateChangeCountdown bs)" and "0 < unat (tRP (timing c))"
  shows "currentBankState ((update_bank c ^^ n) bs) =
    (let m = unat (stateChangeCountdown bs) in
     if n < m then currentBankState bs else if n < m + unat (tRP (timing c)) then PRECHARGING else IDLE)"
proof (cases "n < unat (stateChangeCountdown bs)")
  case True
  then show ?thesis by (simp add: update_bank_iter)
next
  case False
  then obtain k where n: "n = k + unat (stateChangeCountdown bs)" by (metis add.commute le_Suc_ex not_less)
  let ?p = "bs\<lparr>stateChangeCountdown := tRP (timing c), currentBankState := PRECHARGING, lastCommand := PRECHARGE\<rparr>"
  have "update_bank c (bs\<lparr>stateChangeCountdown := 1\<rparr>) = ?p"
    using assms(1) by (auto simp: update_bank_def Let_def)
  then have "(update_bank c ^^ n) bs = (update_bank c ^^ k) ?p"
    unfolding n funpow_add by (simp add: update_bank_last [OF assms(2)])
  then show ?thesis using precharge_countdown [where bs = ?p and c = c and n = k] assms(3) False n by (auto simp: Let_def)
qed

lemma autoprecharge_closes_bank_example:
  "currentBankState ((update_bank default_config ^^ 14)
     ((BankState 0)\<lparr>lastCommand := READ_P, currentBankState := ROW_ACTIVE, stateChangeCountdown := 4\<rparr>)) = IDLE"
  using autoprecharge_closes_bank [of "(BankState 0)\<lparr>lastCommand := READ_P, currentBankState := ROW_ACTIVE,
    stateChangeCountdown := 4\<rparr>" default_config 14]
  by (simp add: default_simps Let_def)

end
