(* ===== verification/Command_Queue.thy ===== *)
theory Command_Queue
  imports Dram
begin

text \<open>
  The command queue of a vault: \<open>CommandQueue.h\<close> and \<open>CommandQueue.cpp\<close>. Commands wait in one
  queue per bank (or in a single queue) and \<open>CmdPop\<close> picks at most one a cycle whose bank can
  take it, for the open-page and the close-page policy, with the refresh and the atomic
  read-modify-write lock. What the queue reads of its vault controller (the bank states and
  the free space of the upstream buffer) is the record \<open>cq_env\<close>.
\<close>

section \<open>State\<close>

record command_queue =
  issuedBank :: nat
  refreshWaiting :: bool
  atomicLock :: "bool list"
  atomicLockTag :: "u32 list"
  bufPopDelayPerBank :: "int list"
  cq_queue :: "dram_command list list"
  tFAWCountdown :: "u32 list"
  rowAccessCounter :: "u32 list"
  cq_clock :: u64

record cq_env =
  env_banks :: "bank_state list"
  env_pendingDataSize :: u32
  env_upBufferMax :: nat
  env_upBuffers :: nat

definition CommandQueue :: "dram_config \<Rightarrow> command_queue" where
  "CommandQueue c = (let queues = (if QUE_PER_BANK c then NUM_BANKS c else 1) in
     \<lparr>issuedBank = 0, refreshWaiting = False, atomicLock = replicate (NUM_BANKS c) False,
      atomicLockTag = replicate (NUM_BANKS c) 0, bufPopDelayPerBank = replicate queues 0,
      cq_queue = replicate queues [], tFAWCountdown = [], rowAccessCounter = replicate (NUM_BANKS c) 0, cq_clock = 0\<rparr>)"

text \<open>The macros \<open>ACCESSQUE\<close> and \<open>POPCYCLE\<close>.\<close>

definition que_index :: "dram_config \<Rightarrow> nat \<Rightarrow> nat" where
  "que_index c b = (if QUE_PER_BANK c then b else 0)"

definition ACCESSQUE :: "dram_config \<Rightarrow> command_queue \<Rightarrow> nat \<Rightarrow> dram_command list" where
  "ACCESSQUE c q b = cq_queue q ! que_index c b"

definition set_que :: "dram_config \<Rightarrow> nat \<Rightarrow> dram_command list \<Rightarrow> command_queue \<Rightarrow> command_queue" where
  "set_que c b xs q = q\<lparr>cq_queue := (cq_queue q)[que_index c b := xs]\<rparr>"

definition POPCYCLE :: "dram_config \<Rightarrow> command_queue \<Rightarrow> nat \<Rightarrow> int" where
  "POPCYCLE c q b = bufPopDelayPerBank q ! que_index c b"

section \<open>Filling the queue\<close>

definition AvailableSpace :: "dram_config \<Rightarrow> command_queue \<Rightarrow> nat \<Rightarrow> u32 \<Rightarrow> bool" where
  "AvailableSpace c q b cmdN = (let cmdN = (if atomicLock q ! b then cmdN + 1 else cmdN)
     in length (ACCESSQUE c q b) + unat cmdN \<le> MAX_CMD_QUE c)"

definition Enqueue :: "dram_config \<Rightarrow> nat \<Rightarrow> dram_command \<Rightarrow> command_queue \<Rightarrow> command_queue" where
  "Enqueue c b enqCMD q =
     (let q = (if ACCESSQUE c q b = []
               then q\<lparr>bufPopDelayPerBank := (bufPopDelayPerBank q)
                       [que_index c b := (if POPCYCLE c q b > 0 then POPCYCLE c q b else 1)]\<rparr> else q)
      in set_que c b (ACCESSQUE c q b @ [enqCMD]) q)"

section \<open>Issuable commands\<close>

text \<open>
  The free space of the upstream buffer is a difference of unsigned 64-bit values, as in the
  source.
\<close>

definition response_space :: "cq_env \<Rightarrow> dram_command \<Rightarrow> bool" where
  "response_space e cmd \<longleftrightarrow>
     (ucast (env_pendingDataSize e + dataSize cmd div 16 + 1) :: u64) \<le> of_nat (env_upBufferMax e) - of_nat (env_upBuffers e)"

definition isIssuable :: "dram_config \<Rightarrow> cq_env \<Rightarrow> command_queue \<Rightarrow> dram_command \<Rightarrow> bool result" where
  "isIssuable c e q cmd = (let b = unat (bank cmd); bs = env_banks e ! b;
       inRange = checkE (b < length (env_banks e)) (Undefined ''bankStates'')
     in case commandType cmd of
       REFRESH \<Rightarrow> Inr False
     | ACTIVATE \<Rightarrow> inRange (Inr ((currentBankState bs = IDLE \<or> currentBankState bs = REFRESHING)
           \<and> nextActivate bs \<le> cq_clock q \<and> length (tFAWCountdown q) < 4))
     | WRITE \<Rightarrow> inRange (Inr (currentBankState bs = ROW_ACTIVE \<and> nextWrite bs \<le> cq_clock q \<and> openRowAddress bs = row cmd
           \<and> \<not> (\<not> atomic cmd \<and> rowAccessCounter q ! b \<ge> MAX_ROW_ACCESSES c)
           \<and> (atomic cmd \<or> posted cmd \<or> response_space e cmd)))
     | WRITE_P \<Rightarrow> inRange (Inr (currentBankState bs = ROW_ACTIVE \<and> nextWrite bs \<le> cq_clock q \<and> openRowAddress bs = row cmd
           \<and> \<not> (\<not> atomic cmd \<and> rowAccessCounter q ! b \<ge> MAX_ROW_ACCESSES c)
           \<and> (atomic cmd \<or> posted cmd \<or> response_space e cmd)))
     | READ \<Rightarrow> inRange (Inr (currentBankState bs = ROW_ACTIVE \<and> nextRead bs \<le> cq_clock q \<and> openRowAddress bs = row cmd
           \<and> rowAccessCounter q ! b < MAX_ROW_ACCESSES c \<and> response_space e cmd))
     | READ_P \<Rightarrow> inRange (Inr (currentBankState bs = ROW_ACTIVE \<and> nextRead bs \<le> cq_clock q \<and> openRowAddress bs = row cmd
           \<and> rowAccessCounter q ! b < MAX_ROW_ACCESSES c \<and> response_space e cmd))
     | PRECHARGE \<Rightarrow> inRange (Inr (currentBankState bs = ROW_ACTIVE \<and> nextPrecharge bs \<le> cq_clock q))
     | _ \<Rightarrow> Inl (Exit ''unknown bus packet type''))"

section \<open>Picking a command\<close>

text \<open>A pick: the command to send, if any, and the queue after it is taken out.\<close>

type_synonym pick = "dram_command option \<times> command_queue"

text \<open>Taking the write-back of a locked bank from the front of its queue, if it is issuable.\<close>

definition take_locked :: "dram_config \<Rightarrow> cq_env \<Rightarrow> nat \<Rightarrow> command_queue \<Rightarrow> pick result" where
  "take_locked c e b q = (let cmd = hd (ACCESSQUE c q b) in
     bindE (isIssuable c e q cmd) (\<lambda>ok. if ok
       then Inr (Some cmd, set_que c b (tl (ACCESSQUE c q b))
              (if commandType cmd = WRITE \<or> commandType cmd = WRITE_P
               then q\<lparr>atomicLock := (atomicLock q)[b := False], atomicLockTag := (atomicLockTag q)[b := 0]\<rparr> else q))
       else Inr (None, q)))"

text \<open>An issued atomic command locks the bank \<open>b\<close> unless it only compares.\<close>

definition lock_atomic :: "nat \<Rightarrow> dram_command \<Rightarrow> command_queue \<Rightarrow> command_queue" where
  "lock_atomic b cmd q = (if atomic cmd \<and> packetCMD cmd \<noteq> EQ16 \<and> packetCMD cmd \<noteq> EQ8
     then q\<lparr>atomicLock := (atomicLock q)[b := True], atomicLockTag := (atomicLockTag q)[b := packetTAG cmd]\<rparr> else q)"

definition new_command :: "dram_command \<Rightarrow> DRAMCommandType \<Rightarrow> nat \<Rightarrow> dram_command" where
  "new_command raw cmdtype b = DRAMCommand raw cmdtype 0 (of_nat b) 0 0 0 False None True NULL_CMD False False"

text \<open>
  While a refresh waits, an open bank is first served the access to its open row that is
  earliest in the queue; with the open-page policy a row nobody waits for is closed.
\<close>

definition serve_open_bank :: "dram_config \<Rightarrow> dram_command \<Rightarrow> cq_env \<Rightarrow> nat \<Rightarrow> command_queue \<Rightarrow> pick result" where
  "serve_open_bank c raw e b q = (let bs = env_banks e ! b;
       closeRow = (if OPEN_PAGE c \<and> nextPrecharge bs \<le> cq_clock q
         then Inr (Some (new_command raw PRECHARGE b), q\<lparr>rowAccessCounter := (rowAccessCounter q)[b := 0]\<rparr>)
         else Inr (None, q))
     in case first_index (\<lambda>cmd. unat (bank cmd) = b \<and> openRowAddress bs = row cmd) (ACCESSQUE c q b) of
       None \<Rightarrow> closeRow
     | Some i \<Rightarrow> (let cmd = ACCESSQUE c q b ! i in
         if commandType cmd = ACTIVATE then closeRow
         else bindE (isIssuable c e q cmd) (\<lambda>ok. if ok
           then Inr (Some cmd, set_que c b (erase_at i (ACCESSQUE c q b)) (lock_atomic (unat (bank cmd)) cmd q))
           else Inr (None, q))))"

text \<open>The loop over the banks while a refresh waits; the first component is \<open>refreshPossible\<close>.\<close>

fun refresh_scan :: "dram_config \<Rightarrow> dram_command \<Rightarrow> cq_env \<Rightarrow> nat list \<Rightarrow> command_queue \<Rightarrow> (bool \<times> pick) result" where
  "refresh_scan c raw e [] q = Inr (True, None, q)"
| "refresh_scan c raw e (b # bs) q =
     (if atomicLock q ! b
      then (if POPCYCLE c q (issuedBank q) = 0 \<and> ACCESSQUE c q b \<noteq> []
               \<and> packetTAG (hd (ACCESSQUE c q b)) = atomicLockTag q ! b
            then bindE (take_locked c e b q) (\<lambda>p. Inr (False, p))
            else Inr (False, None, q))
      else if currentBankState (env_banks e ! b) = ROW_ACTIVE
      then bindE (serve_open_bank c raw e b q) (\<lambda>p. Inr (False, p))
      else if nextActivate (env_banks e ! b) > cq_clock q then Inr (False, None, q)
      else refresh_scan c raw e bs q)"

definition refresh_pop :: "dram_config \<Rightarrow> dram_command \<Rightarrow> cq_env \<Rightarrow> command_queue \<Rightarrow> pick result" where
  "refresh_pop c raw e q = bindE (refresh_scan c raw e [0..<NUM_BANKS c] q) (\<lambda>(refreshPossible, cmd, q).
     if refreshPossible \<and> currentBankState (env_banks e ! 0) \<noteq> POWERDOWN
     then Inr (Some (new_command raw REFRESH 0), q\<lparr>refreshWaiting := False\<rparr>) else Inr (cmd, q))"

text \<open>
  The search for the first issuable command that depends on none before it: under close page a
  command waits for the activation of its own packet, under open page for earlier accesses to
  its row.
\<close>

definition depends :: "dram_config \<Rightarrow> dram_command \<Rightarrow> dram_command \<Rightarrow> bool" where
  "depends c cmd prev = (if OPEN_PAGE c
     then commandType prev \<noteq> ACTIVATE \<and> bank prev = bank cmd \<and> row prev = row cmd
     else commandType prev = ACTIVATE \<and> packetTAG prev = packetTAG cmd)"

fun find_issuable ::
  "dram_config \<Rightarrow> cq_env \<Rightarrow> command_queue \<Rightarrow> dram_command list \<Rightarrow> dram_command list \<Rightarrow> nat option result" where
  "find_issuable c e q seen [] = Inr None"
| "find_issuable c e q seen (cmd # cmds) = bindE (isIssuable c e q cmd) (\<lambda>ok.
     if ok \<and> \<not> list_ex (depends c cmd) seen then Inr (Some (length seen))
     else find_issuable c e q (seen @ [cmd]) cmds)"

text \<open>
  Under open page the activation just before the command is dropped with it, the row being open
  already, and the access is counted.
\<close>

definition take_at :: "dram_config \<Rightarrow> nat \<Rightarrow> nat \<Rightarrow> command_queue \<Rightarrow> pick" where
  "take_at c b i q = (let xs = ACCESSQUE c q b; cmd = xs ! i in
     (Some cmd,
      if OPEN_PAGE c
      then (let q = lock_atomic b cmd q in
            if i > 0 \<and> commandType (xs ! (i - 1)) = ACTIVATE
            then set_que c b (erase_range (i - 1) (i + 1) xs)
                   (q\<lparr>rowAccessCounter := (rowAccessCounter q)[b := rowAccessCounter q ! b + 1]\<rparr>)
            else set_que c b (erase_at i xs) q)
      else set_que c b (erase_at i xs) (lock_atomic (unat (bank cmd)) cmd q)))"

text \<open>One bank of the round-robin loop.\<close>

definition try_bank :: "dram_config \<Rightarrow> cq_env \<Rightarrow> nat \<Rightarrow> command_queue \<Rightarrow> pick result" where
  "try_bank c e b q = (if POPCYCLE c q b = 0
     then (if atomicLock q ! b
           then (if ACCESSQUE c q b \<noteq> [] \<and> atomic (hd (ACCESSQUE c q b))
                    \<and> packetTAG (hd (ACCESSQUE c q b)) = atomicLockTag q ! b
                 then take_locked c e b q else Inr (None, q))
           else bindE (find_issuable c e q [] (ACCESSQUE c q b)) (\<lambda>r. case r of
                  None \<Rightarrow> Inr (None, q) | Some i \<Rightarrow> Inr (take_at c b i q)))
     else Inr (None, q))"

text \<open>
  The round-robin loop over the banks: \<open>n\<close> is the number of banks still to be looked at
  (\<open>NUM_BANKS - bankQueChk\<close>). Under close page a locked bank that is due ends the loop.
\<close>

fun bank_scan :: "dram_config \<Rightarrow> cq_env \<Rightarrow> nat \<Rightarrow> command_queue \<Rightarrow> pick result" where
  "bank_scan c e 0 q = Inr (None, q)"
| "bank_scan c e (Suc n) q = (let b = issuedBank q in
     bindE (try_bank c e b q) (\<lambda>(cmd, q').
       if \<not> OPEN_PAGE c \<and> POPCYCLE c q b = 0 \<and> atomicLock q ! b then Inr (cmd, q')
       else (let q' = q'\<lparr>issuedBank := (if b < NUM_BANKS c - 1 then b + 1 else 0)\<rparr>
             in if cmd \<noteq> None then Inr (cmd, q') else bank_scan c e n q')))"

text \<open>Under open page, when nothing was issuable, a row nobody waits for is closed.\<close>

definition precharge_scan :: "dram_config \<Rightarrow> dram_command \<Rightarrow> cq_env \<Rightarrow> command_queue \<Rightarrow> pick" where
  "precharge_scan c raw e q = (case first_index (\<lambda>b. let bs = env_banks e ! b in
       currentBankState bs = ROW_ACTIVE \<and> \<not> atomicLock q ! b
       \<and> (\<not> list_ex (\<lambda>cmd. unat (bank cmd) = b \<and> row cmd = openRowAddress bs) (ACCESSQUE c q b)
          \<or> rowAccessCounter q ! b \<ge> MAX_ROW_ACCESSES c)
       \<and> nextPrecharge bs \<le> cq_clock q) [0..<NUM_BANKS c] of
     None \<Rightarrow> (None, q)
   | Some b \<Rightarrow> (Some (new_command raw PRECHARGE b), q\<lparr>rowAccessCounter := (rowAccessCounter q)[b := 0]\<rparr>))"

definition faw_tick :: "u32 list \<Rightarrow> u32 list" where
  "faw_tick xs = (let xs = map (\<lambda>n. n - 1) xs in if xs \<noteq> [] \<and> hd xs = 0 then tl xs else xs)"

text \<open>
  The scheduling policy. Under close page a waiting refresh suspends the normal scheduling; under
  open page the normal scheduling goes on when the refresh has nothing to send.
\<close>

definition schedule :: "dram_config \<Rightarrow> dram_command \<Rightarrow> cq_env \<Rightarrow> command_queue \<Rightarrow> pick result" where
  "schedule c raw e q =
     bindE (if refreshWaiting q then refresh_pop c raw e q else Inr (None, q)) (\<lambda>(cmd, q').
       if cmd \<noteq> None \<or> \<not> OPEN_PAGE c \<and> refreshWaiting q then Inr (cmd, q')
       else bindE (bank_scan c e (NUM_BANKS c) q') (\<lambda>(cmd, q'').
         Inr (if cmd = None \<and> OPEN_PAGE c then precharge_scan c raw e q'' else (cmd, q''))))"

definition CmdPop :: "dram_config \<Rightarrow> dram_command \<Rightarrow> cq_env \<Rightarrow> command_queue \<Rightarrow> pick result" where
  "CmdPop c raw e q =
     bindE (schedule c raw e (q\<lparr>tFAWCountdown := faw_tick (tFAWCountdown q)\<rparr>)) (\<lambda>(cmd, q).
       Inr (cmd, if cmd \<noteq> None \<and> commandType (the cmd) = ACTIVATE
                 then q\<lparr>tFAWCountdown := tFAWCountdown q @ [tFAW (timing c)]\<rparr> else q))"

definition isEmpty :: "dram_config \<Rightarrow> command_queue \<Rightarrow> bool" where
  "isEmpty c q = list_all (\<lambda>b. ACCESSQUE c q b = []) [0..<NUM_BANKS c]"

definition CommandQueue_Update :: "dram_config \<Rightarrow> command_queue \<Rightarrow> command_queue" where
  "CommandQueue_Update c q = q\<lparr>bufPopDelayPerBank := map dec_sat (bufPopDelayPerBank q), cq_clock := cq_clock q + 1\<rparr>"

section \<open>What a pick is\<close>

text \<open>
  Every command \<open>CmdPop\<close> returns is an issuable one taken from a queue (under open page together
  with the activation before it), a precharge made for an open row or the awaited refresh.
\<close>

definition from_queue :: "dram_config \<Rightarrow> cq_env \<Rightarrow> command_queue \<Rightarrow> dram_command \<Rightarrow> dram_command list list \<Rightarrow> bool" where
  "from_queue c e q cmd que' \<longleftrightarrow> (\<exists>b < NUM_BANKS c. \<exists>i < length (ACCESSQUE c q b).
     cmd = ACCESSQUE c q b ! i \<and> isIssuable c e q cmd = Inr True
     \<and> (atomicLock q ! b \<longrightarrow> i = 0 \<and> packetTAG cmd = atomicLockTag q ! b)
     \<and> (que' = (cq_queue q)[que_index c b := erase_at i (ACCESSQUE c q b)]
        \<or> OPEN_PAGE c \<and> 0 < i \<and> commandType (ACCESSQUE c q b ! (i - 1)) = ACTIVATE
          \<and> que' = (cq_queue q)[que_index c b := erase_range (i - 1) (i + 1) (ACCESSQUE c q b)]))"

definition made_precharge :: "dram_config \<Rightarrow> cq_env \<Rightarrow> command_queue \<Rightarrow> dram_command \<Rightarrow> bool" where
  "made_precharge c e q cmd \<longleftrightarrow> OPEN_PAGE c \<and> commandType cmd = PRECHARGE \<and> unat (bank cmd) < NUM_BANKS c
     \<and> \<not> atomicLock q ! unat (bank cmd) \<and> currentBankState (env_banks e ! unat (bank cmd)) = ROW_ACTIVE
     \<and> nextPrecharge (env_banks e ! unat (bank cmd)) \<le> cq_clock q"

definition made_refresh :: "dram_config \<Rightarrow> cq_env \<Rightarrow> command_queue \<Rightarrow> dram_command \<Rightarrow> bool" where
  "made_refresh c e q cmd \<longleftrightarrow> refreshWaiting q \<and> commandType cmd = REFRESH \<and> bank cmd = 0
     \<and> currentBankState (env_banks e ! 0) \<noteq> POWERDOWN
     \<and> (\<forall>b < NUM_BANKS c. \<not> atomicLock q ! b \<and> currentBankState (env_banks e ! b) \<noteq> ROW_ACTIVE
          \<and> nextActivate (env_banks e ! b) \<le> cq_clock q)"

definition picked :: "dram_config \<Rightarrow> cq_env \<Rightarrow> command_queue \<Rightarrow> dram_command \<Rightarrow> dram_command list list \<Rightarrow> bool" where
  "picked c e q cmd que' \<longleftrightarrow> from_queue c e q cmd que'
     \<or> (made_precharge c e q cmd \<or> made_refresh c e q cmd) \<and> que' = cq_queue q"

definition pick_ok :: "dram_config \<Rightarrow> cq_env \<Rightarrow> command_queue \<Rightarrow> pick \<Rightarrow> bool" where
  "pick_ok c e q p \<longleftrightarrow> (case fst p of None \<Rightarrow> cq_queue (snd p) = cq_queue q
     | Some cmd \<Rightarrow> picked c e q cmd (cq_queue (snd p)))"

lemma pick_ok_simps [simp]:
  "pick_ok c e q (None, q') \<longleftrightarrow> cq_queue q' = cq_queue q"
  "pick_ok c e q (Some cmd, q') \<longleftrightarrow> picked c e q cmd (cq_queue q')"
  by (simp_all add: pick_ok_def)

text \<open>Fields the scheduler advances do not matter to what is picked.\<close>

lemma ACCESSQUE_cong [simp]:
  "ACCESSQUE c (q\<lparr>issuedBank := x\<rparr>) b = ACCESSQUE c q b"
  "ACCESSQUE c (q\<lparr>refreshWaiting := r\<rparr>) b = ACCESSQUE c q b"
  "ACCESSQUE c (q\<lparr>tFAWCountdown := f\<rparr>) b = ACCESSQUE c q b"
  by (simp_all add: ACCESSQUE_def)

lemma set_que_queue [simp]: "cq_queue (set_que c b xs q) = (cq_queue q)[que_index c b := xs]"
  by (simp add: set_que_def)

lemma lock_atomic_queue [simp]: "cq_queue (lock_atomic b cmd q) = cq_queue q"
  by (simp add: lock_atomic_def)

lemma isIssuable_issuedBank [simp]: "isIssuable c e (q\<lparr>issuedBank := x\<rparr>) cmd = isIssuable c e q cmd"
  by (cases "commandType cmd") (simp_all add: isIssuable_def Let_def)

lemma find_issuable_issuedBank [simp]:
  "find_issuable c e (q\<lparr>issuedBank := x\<rparr>) seen cmds = find_issuable c e q seen cmds"
  by (induction cmds arbitrary: seen) (simp_all cong: if_cong)

lemma picked_issuedBank [simp]: "picked c e (q\<lparr>issuedBank := x\<rparr>) cmd que' = picked c e q cmd que'"
  by (simp add: picked_def from_queue_def made_precharge_def made_refresh_def)

lemma pick_ok_issuedBank [simp]: "pick_ok c e (q\<lparr>issuedBank := x\<rparr>) p = pick_ok c e q p"
  by (simp add: pick_ok_def split: option.splits)

lemma from_queueI:
  assumes "b < NUM_BANKS c" "i < length (ACCESSQUE c q b)" "isIssuable c e q (ACCESSQUE c q b ! i) = Inr True"
    "atomicLock q ! b \<longrightarrow> i = 0 \<and> packetTAG (ACCESSQUE c q b ! i) = atomicLockTag q ! b"
    "que' = (cq_queue q)[que_index c b := erase_at i (ACCESSQUE c q b)]"
  shows "picked c e q (ACCESSQUE c q b ! i) que'"
  using assms unfolding picked_def from_queue_def by blast

lemma issuedBank_simps [simp]:
  "issuedBank (set_que c b xs q) = issuedBank q"
  "issuedBank (lock_atomic b cmd q) = issuedBank q"
  by (simp_all add: set_que_def lock_atomic_def)

text \<open>A bank that yields nothing leaves the queue as it is.\<close>

definition pick_at :: "dram_config \<Rightarrow> cq_env \<Rightarrow> command_queue \<Rightarrow> pick \<Rightarrow> bool" where
  "pick_at c e q p \<longleftrightarrow> pick_ok c e q p \<and> issuedBank (snd p) = issuedBank q \<and> (fst p = None \<longrightarrow> snd p = q)"

lemma take_locked_ok:
  assumes "take_locked c e b q = Inr p" "b < NUM_BANKS c" "ACCESSQUE c q b \<noteq> []"
    "packetTAG (hd (ACCESSQUE c q b)) = atomicLockTag q ! b"
  shows "pick_ok c e q p"
proof -
  obtain cmd cmds where q: "ACCESSQUE c q b = cmd # cmds" using assms(3) by (cases "ACCESSQUE c q b") auto
  then show ?thesis
    using assms(1,2,4) from_queueI [of b c 0 q e "(cq_queue q)[que_index c b := cmds]"]
    by (auto simp: take_locked_def err_simps split: if_splits)
qed

lemma take_locked_at:
  assumes "take_locked c e b q = Inr p" "b < NUM_BANKS c" "ACCESSQUE c q b \<noteq> []"
    "packetTAG (hd (ACCESSQUE c q b)) = atomicLockTag q ! b"
  shows "pick_at c e q p"
proof -
  have "issuedBank (snd p) = issuedBank q \<and> (fst p = None \<longrightarrow> snd p = q)"
    using assms(1) by (auto simp: take_locked_def Let_def err_simps split: if_splits)
  then show ?thesis using take_locked_ok [OF assms] by (simp add: pick_at_def)
qed

lemma unat_of_nat_bank: "b < n \<Longrightarrow> n \<le> 2 ^ 32 \<Longrightarrow> unat (of_nat b :: u32) = b"
  by (rule unat_of_nat_u32) simp

lemma serve_open_bank_ok:
  assumes "serve_open_bank c raw e b q = Inr p" "b < NUM_BANKS c" "NUM_BANKS c \<le> 2 ^ 32" "\<not> atomicLock q ! b"
    "currentBankState (env_banks e ! b) = ROW_ACTIVE"
  shows "pick_ok c e q p"
proof -
  let ?P = "\<lambda>cmd. unat (bank cmd) = b \<and> openRowAddress (env_banks e ! b) = row cmd"
  have pre: "made_precharge c e q (new_command raw PRECHARGE b)"
    if "OPEN_PAGE c" "nextPrecharge (env_banks e ! b) \<le> cq_clock q"
    using that assms(2,4,5) unat_of_nat_bank [OF assms(2,3)]
    by (simp add: made_precharge_def new_command_def DRAMCommand_def)
  show ?thesis
  proof (cases "first_index ?P (ACCESSQUE c q b)")
    case None
    then show ?thesis using assms(1) pre by (auto simp: serve_open_bank_def picked_def split: if_splits)
  next
    case (Some i)
    note i = first_index_SomeD(1) [OF Some]
    then show ?thesis
      using assms(1,2,4) Some pre from_queueI [of b c i q e "(cq_queue q)[que_index c b := erase_at i (ACCESSQUE c q b)]"]
      by (auto simp: serve_open_bank_def picked_def err_simps Let_def split: if_splits)
  qed
qed

lemma serve_open_bank_at:
  assumes "serve_open_bank c raw e b q = Inr p" "b < NUM_BANKS c" "NUM_BANKS c \<le> 2 ^ 32" "\<not> atomicLock q ! b"
    "currentBankState (env_banks e ! b) = ROW_ACTIVE"
  shows "pick_at c e q p"
proof -
  have "issuedBank (snd p) = issuedBank q \<and> (fst p = None \<longrightarrow> snd p = q)"
    using assms(1) by (auto simp: serve_open_bank_def Let_def err_simps split: if_splits option.splits)
  then show ?thesis using serve_open_bank_ok [OF assms] by (simp add: pick_at_def)
qed

lemma refresh_scan_at:
  "refresh_scan c raw e bs q = Inr (possible, p) \<Longrightarrow> (\<forall>b \<in> set bs. b < NUM_BANKS c) \<Longrightarrow> NUM_BANKS c \<le> 2 ^ 32 \<Longrightarrow>
     pick_at c e q p \<and> (possible \<longrightarrow> p = (None, q) \<and> (\<forall>b \<in> set bs. \<not> atomicLock q ! b
       \<and> currentBankState (env_banks e ! b) \<noteq> ROW_ACTIVE \<and> nextActivate (env_banks e ! b) \<le> cq_clock q))"
proof (induction bs)
  case Nil
  then show ?case by (auto simp: pick_at_def)
next
  case (Cons b bs)
  have "pick_at c e q (None, q)" by (simp add: pick_at_def)
  then show ?case
    using Cons by (auto simp: err_simps not_less split: if_splits dest!: take_locked_at serve_open_bank_at)
qed

lemma refresh_pop_at:
  assumes "refresh_pop c raw e q = Inr p" "NUM_BANKS c \<le> 2 ^ 32" "refreshWaiting q"
  shows "pick_at c e q p"
proof -
  obtain possible cmd q' where r: "refresh_scan c raw e [0..<NUM_BANKS c] q = Inr (possible, cmd, q')"
    using assms(1) by (auto simp: refresh_pop_def err_simps)
  then have "pick_at c e q (cmd, q')" "possible \<longrightarrow> q' = q \<and> (\<forall>b < NUM_BANKS c. \<not> atomicLock q ! b
       \<and> currentBankState (env_banks e ! b) \<noteq> ROW_ACTIVE \<and> nextActivate (env_banks e ! b) \<le> cq_clock q)"
    using refresh_scan_at [OF r _ assms(2)] by auto
  then show ?thesis
    using assms(1,3) r by (auto simp: refresh_pop_def err_simps picked_def pick_at_def made_refresh_def new_command_def
      DRAMCommand_def split: if_splits)
qed

lemma find_issuable_SomeD:
  "find_issuable c e q seen cmds = Inr (Some i) \<Longrightarrow> length seen \<le> i \<and> i < length seen + length cmds \<and>
     isIssuable c e q ((seen @ cmds) ! i) = Inr True \<and> (\<forall>j < i. \<not> depends c ((seen @ cmds) ! i) ((seen @ cmds) ! j))"
proof (induction cmds arbitrary: seen)
  case (Cons cmd cmds)
  then obtain ok where ok: "isIssuable c e q cmd = Inr ok"
    "(if ok \<and> \<not> list_ex (depends c cmd) seen then Inr (Some (length seen))
      else find_issuable c e q (seen @ [cmd]) cmds) = Inr (Some i)"
    by (auto simp: err_simps)
  show ?case
  proof (cases "ok \<and> \<not> list_ex (depends c cmd) seen")
    case True
    then show ?thesis using ok by (auto simp: list_ex_iff nth_append)
  next
    case False
    then have "find_issuable c e q (seen @ [cmd]) cmds = Inr (Some i)" using ok(2) by (auto split: if_splits)
    from Cons.IH [OF this] show ?thesis by simp
  qed
qed simp

lemma take_at_ok:
  assumes "i < length (ACCESSQUE c q b)" "isIssuable c e q (ACCESSQUE c q b ! i) = Inr True" "b < NUM_BANKS c"
    "\<not> atomicLock q ! b"
  shows "pick_ok c e q (take_at c b i q)"
proof -
  let ?xs = "ACCESSQUE c q b"
  have "cq_queue (snd (take_at c b i q)) = (cq_queue q)[que_index c b := erase_at i ?xs] \<or>
      OPEN_PAGE c \<and> 0 < i \<and> commandType (?xs ! (i - 1)) = ACTIVATE \<and>
      cq_queue (snd (take_at c b i q)) = (cq_queue q)[que_index c b := erase_range (i - 1) (i + 1) ?xs]"
    by (simp add: take_at_def Let_def)
  then have "from_queue c e q (?xs ! i) (cq_queue (snd (take_at c b i q)))"
    using assms unfolding from_queue_def by blast
  then show ?thesis by (simp add: pick_ok_def picked_def take_at_def Let_def)
qed

lemma try_bank_at:
  assumes "try_bank c e b q = Inr p" "b < NUM_BANKS c"
  shows "pick_at c e q p"
proof -
  have none: "pick_at c e q (None, q)" by (simp add: pick_at_def)
  have take: "pick_at c e q (take_at c b i q)"
    if "find_issuable c e q [] (ACCESSQUE c q b) = Inr (Some i)" "\<not> atomicLock q ! b" for i
    using find_issuable_SomeD [OF that(1)] take_at_ok [of i c q b e] that(2) assms(2)
    by (simp add: pick_at_def) (simp add: take_at_def Let_def)
  show ?thesis
    using assms none take take_locked_at [of c e b q p]
    by (auto simp: try_bank_def err_simps split: if_splits option.splits)
qed

lemma bank_scan_ok:
  "bank_scan c e n q = Inr p \<Longrightarrow> issuedBank q < NUM_BANKS c \<Longrightarrow> pick_ok c e q p \<and> issuedBank (snd p) < NUM_BANKS c"
proof (induction n arbitrary: q)
  case 0
  then show ?case by auto
next
  case (Suc n)
  let ?nb = "if issuedBank q < NUM_BANKS c - 1 then issuedBank q + 1 else 0"
  obtain cmd q' where t: "try_bank c e (issuedBank q) q = Inr (cmd, q')"
    using Suc.prems(1) by (auto simp: Let_def err_simps)
  have at: "pick_at c e q (cmd, q')" by (rule try_bank_at [OF t Suc.prems(2)])
  have nb: "?nb < NUM_BANKS c" using Suc.prems(2) by auto
  consider "p = (cmd, q')" | "cmd \<noteq> None" "p = (cmd, q'\<lparr>issuedBank := ?nb\<rparr>)"
    | "cmd = None" "bank_scan c e n (q'\<lparr>issuedBank := ?nb\<rparr>) = Inr p"
    using Suc.prems(1) t by (auto simp: Let_def split: if_splits)
  then show ?case
  proof cases
    case 1
    then show ?thesis using at Suc.prems(2) by (simp add: pick_at_def)
  next
    case 2
    then show ?thesis using at nb by (auto simp: pick_at_def)
  next
    case 3
    then show ?thesis using at nb Suc.IH [of "q'\<lparr>issuedBank := ?nb\<rparr>"] by (auto simp: pick_at_def)
  qed
qed

text \<open>A scan that yields nothing has only moved on.\<close>

lemma bank_scan_None: "bank_scan c e n q = Inr (None, q') \<Longrightarrow> q' = q\<lparr>issuedBank := issuedBank q'\<rparr>"
proof (induction n arbitrary: q)
  case (Suc n)
  let ?nb = "if issuedBank q < NUM_BANKS c - 1 then issuedBank q + 1 else 0"
  obtain cmd q1 where t: "try_bank c e (issuedBank q) q = Inr (cmd, q1)"
    using Suc.prems by (auto simp: Let_def err_simps)
  have none: "cmd = None \<Longrightarrow> q1 = q"
    using t by (auto simp: try_bank_def take_locked_def take_at_def Let_def err_simps split: if_splits option.splits)
  consider "cmd = None" "q' = q1" | "cmd = None" "bank_scan c e n (q1\<lparr>issuedBank := ?nb\<rparr>) = Inr (None, q')"
    using Suc.prems t by (auto simp: Let_def split: if_splits)
  then show ?case
  proof cases
    case 1
    then show ?thesis using none by simp
  next
    case 2
    then have "q' = q1\<lparr>issuedBank := issuedBank q'\<rparr>" using Suc.IH [of "q1\<lparr>issuedBank := ?nb\<rparr>"] by simp
    then show ?thesis using none 2 by simp
  qed
qed simp

lemma precharge_scan_ok:
  assumes "NUM_BANKS c \<le> 2 ^ 32" "OPEN_PAGE c"
  shows "pick_ok c e q (precharge_scan c raw e q) \<and> issuedBank (snd (precharge_scan c raw e q)) = issuedBank q"
proof (cases "fst (precharge_scan c raw e q)")
  case None
  then show ?thesis by (auto simp: precharge_scan_def split: option.splits)
next
  case (Some cmd)
  let ?P = "\<lambda>b. let bs = env_banks e ! b in currentBankState bs = ROW_ACTIVE \<and> \<not> atomicLock q ! b
       \<and> (\<not> list_ex (\<lambda>cmd. unat (bank cmd) = b \<and> row cmd = openRowAddress bs) (ACCESSQUE c q b)
          \<or> rowAccessCounter q ! b \<ge> MAX_ROW_ACCESSES c) \<and> nextPrecharge bs \<le> cq_clock q"
  from Some obtain b where b: "first_index ?P [0..<NUM_BANKS c] = Some b"
    by (auto simp: precharge_scan_def split: option.splits)
  then have lt: "b < NUM_BANKS c" and P: "?P b"
    using first_index_SomeD(1,2) [OF b] by simp_all
  have "unat (of_nat b :: u32) = b" by (rule unat_of_nat_bank [OF lt assms(1)])
  moreover have "precharge_scan c raw e q =
      (Some (new_command raw PRECHARGE b), q\<lparr>rowAccessCounter := (rowAccessCounter q)[b := 0]\<rparr>)"
    using b by (simp add: precharge_scan_def)
  ultimately show ?thesis
    using lt P assms(2) by (simp add: picked_def made_precharge_def new_command_def DRAMCommand_def Let_def)
qed

abbreviation faw_ticked :: "command_queue \<Rightarrow> command_queue" where
  "faw_ticked q \<equiv> q\<lparr>tFAWCountdown := faw_tick (tFAWCountdown q)\<rparr>"

lemma schedule_ok:
  assumes "schedule c raw e q = Inr p" "NUM_BANKS c \<le> 2 ^ 32" "issuedBank q < NUM_BANKS c"
  shows "pick_ok c e q p \<and> issuedBank (snd p) < NUM_BANKS c"
proof -
  obtain cmd q' where r: "(if refreshWaiting q then refresh_pop c raw e q else Inr (None, q)) = Inr (cmd, q')"
    using assms(1) by (auto simp: schedule_def err_simps)
  have at: "pick_at c e q (cmd, q')"
    using r refresh_pop_at [of c raw e q "(cmd, q')"] assms(2) by (auto simp: pick_at_def split: if_splits)
  show ?thesis
  proof (cases "cmd \<noteq> None \<or> \<not> OPEN_PAGE c \<and> refreshWaiting q")
    case True
    then have "p = (cmd, q')" using assms(1) by (auto simp: schedule_def r)
    then show ?thesis using at assms(3) by (simp add: pick_at_def)
  next
    case False
    then have q': "q' = q" using at by (simp add: pick_at_def)
    then obtain cmd2 q2 where s: "bank_scan c e (NUM_BANKS c) q = Inr (cmd2, q2)"
      and p: "p = (if cmd2 = None \<and> OPEN_PAGE c then precharge_scan c raw e q2 else (cmd2, q2))"
      using assms(1) False by (auto simp: schedule_def r err_simps)
    have ok: "pick_ok c e q (cmd2, q2)" "issuedBank q2 < NUM_BANKS c"
      using bank_scan_ok [OF s assms(3)] by simp_all
    show ?thesis
    proof (cases "cmd2 = None \<and> OPEN_PAGE c")
      case True
      have "pick_ok c e q2 p \<and> issuedBank (snd p) < NUM_BANKS c"
        using precharge_scan_ok [OF assms(2), of e q2 raw] True p ok(2) by simp
      moreover from s True have "bank_scan c e (NUM_BANKS c) q = Inr (None, q2)" by simp
      then have "q2 = q\<lparr>issuedBank := issuedBank q2\<rparr>" by (rule bank_scan_None)
      ultimately show ?thesis by (metis pick_ok_issuedBank)
    next
      case False
      then show ?thesis using ok p by auto
    qed
  qed
qed

lemma CmdPop_ok:
  assumes "CmdPop c raw e q = Inr p" "NUM_BANKS c \<le> 2 ^ 32" "issuedBank q < NUM_BANKS c"
  shows "pick_ok c e (faw_ticked q) p \<and> issuedBank (snd p) < NUM_BANKS c"
proof -
  obtain cmd q' where s: "schedule c raw e (faw_ticked q) = Inr (cmd, q')"
    and p: "p = (cmd, if cmd \<noteq> None \<and> commandType (the cmd) = ACTIVATE
                 then q'\<lparr>tFAWCountdown := tFAWCountdown q' @ [tFAW (timing c)]\<rparr> else q')"
    using assms(1) unfolding CmdPop_def bindE_eq_Inr by auto
  then show ?thesis
    using schedule_ok [OF s assms(2)] assms(3) by (simp add: pick_ok_def split: option.splits)
qed

section \<open>The activation window\<close>

text \<open>
  \<open>tFAWCountdown\<close> has a counter for each of the last activations, the oldest first, that is
  \<open>tFAW\<close> minus the age of the activation. The lemmas follow it over a sequence of \<open>CmdPop\<close>
  calls, one per cycle.
\<close>

definition cq_frame :: "command_queue \<Rightarrow> u32 list \<times> u64 \<times> int list" where
  "cq_frame q = (tFAWCountdown q, cq_clock q, bufPopDelayPerBank q)"

lemma cq_frame_simps [simp]:
  "cq_frame (set_que c b xs q) = cq_frame q"
  "cq_frame (lock_atomic b cmd q) = cq_frame q"
  "cq_frame (q\<lparr>atomicLock := l\<rparr>) = cq_frame q"
  "cq_frame (q\<lparr>atomicLockTag := t\<rparr>) = cq_frame q"
  "cq_frame (q\<lparr>rowAccessCounter := r\<rparr>) = cq_frame q"
  "cq_frame (q\<lparr>refreshWaiting := w\<rparr>) = cq_frame q"
  "cq_frame (q\<lparr>issuedBank := i\<rparr>) = cq_frame q"
  by (simp_all add: cq_frame_def set_que_def lock_atomic_def)

lemma take_locked_frame: "take_locked c e b q = Inr (cmd, q') \<Longrightarrow> cq_frame q' = cq_frame q"
  by (auto simp: take_locked_def Let_def err_simps split: if_splits)

lemma serve_open_bank_frame: "serve_open_bank c raw e b q = Inr (cmd, q') \<Longrightarrow> cq_frame q' = cq_frame q"
  by (auto simp: serve_open_bank_def Let_def err_simps split: if_splits option.splits)

lemma refresh_scan_frame: "refresh_scan c raw e bs q = Inr (possible, cmd, q') \<Longrightarrow> cq_frame q' = cq_frame q"
  by (induction bs) (auto simp: err_simps split: if_splits dest!: take_locked_frame serve_open_bank_frame)

lemma refresh_pop_frame: "refresh_pop c raw e q = Inr (cmd, q') \<Longrightarrow> cq_frame q' = cq_frame q"
  by (auto simp: refresh_pop_def err_simps split: if_splits dest!: refresh_scan_frame)

lemma take_at_frame: "cq_frame (snd (take_at c b i q)) = cq_frame q"
  by (simp add: take_at_def Let_def)

lemma try_bank_frame: "try_bank c e b q = Inr (cmd, q') \<Longrightarrow> cq_frame q' = cq_frame q"
proof -
  have "take_at c b i q = (cmd, q') \<Longrightarrow> cq_frame q' = cq_frame q" for i
    using take_at_frame [of c b i q] by simp
  then show "try_bank c e b q = Inr (cmd, q') \<Longrightarrow> ?thesis"
    by (auto simp: try_bank_def err_simps split: if_splits option.splits dest!: take_locked_frame)
qed

lemma bank_scan_frame: "bank_scan c e n q = Inr (cmd, q') \<Longrightarrow> cq_frame q' = cq_frame q"
  by (induction n arbitrary: q) (fastforce simp: Let_def err_simps split: if_splits dest!: try_bank_frame)+

lemma precharge_scan_frame: "precharge_scan c raw e q = (cmd, q') \<Longrightarrow> cq_frame q' = cq_frame q"
  by (auto simp: precharge_scan_def split: option.splits)

lemma schedule_frame:
  assumes "schedule c raw e q = Inr (cmd, q')"
  shows "cq_frame q' = cq_frame q"
proof -
  obtain cmd1 q1 where r: "(if refreshWaiting q then refresh_pop c raw e q else Inr (None, q)) = Inr (cmd1, q1)"
    using assms by (auto simp: schedule_def err_simps)
  then have f1: "cq_frame q1 = cq_frame q" by (auto split: if_splits dest: refresh_pop_frame)
  show ?thesis
  proof (cases "cmd1 \<noteq> None \<or> \<not> OPEN_PAGE c \<and> refreshWaiting q")
    case True
    then show ?thesis using assms f1 by (auto simp: schedule_def r)
  next
    case False
    then obtain cmd2 q2 where s: "bank_scan c e (NUM_BANKS c) q1 = Inr (cmd2, q2)"
      and p: "(cmd, q') = (if cmd2 = None \<and> OPEN_PAGE c then precharge_scan c raw e q2 else (cmd2, q2))"
      using assms by (auto simp: schedule_def r err_simps)
    then show ?thesis
      using f1 bank_scan_frame [OF s] precharge_scan_frame [of c raw e q2 cmd q'] by (auto split: if_splits)
  qed
qed

text \<open>The counters of an activation history, the newest cycle first: \<open>True\<close> for an activation.\<close>

definition counters :: "nat \<Rightarrow> bool list \<Rightarrow> nat list" where
  "counters T h = rev (map (\<lambda>i. T - i) (filter (\<lambda>i. h ! i) [0..<min T (length h)]))"

definition aged_counters :: "nat \<Rightarrow> bool list \<Rightarrow> nat list" where
  "aged_counters T h = rev (map (\<lambda>i. T - Suc i) (filter (\<lambda>i. h ! i) [0..<min (T - 1) (length h)]))"

lemma counters_Cons: "0 < T \<Longrightarrow> counters T (a # h) = aged_counters T h @ (if a then [T] else [])"
proof -
  assume T: "0 < T"
  have "min T (length (a # h)) = Suc (min (T - 1) (length h))" using T by auto
  then have "[0..<min T (length (a # h))] = 0 # map Suc [0..<min (T - 1) (length h)]"
    by (simp only: map_Suc_upt upt_conv_Cons zero_less_Suc)
  then show ?thesis
    by (simp add: counters_def aged_counters_def filter_map comp_def)
qed

lemma counters_split: "0 < T \<Longrightarrow> counters T h =
    (if T \<le> length h \<and> h ! (T - 1) then [1] else []) @ map Suc (aged_counters T h)"
proof -
  assume T: "0 < T"
  have s: "map (\<lambda>i. T - i) (filter P [0..<min (T - 1) m]) = map (\<lambda>i. Suc (T - Suc i)) (filter P [0..<min (T - 1) m])" for P m
    by auto
  have m: "rev (map (\<lambda>i. T - i) (filter P [0..<min (T - 1) n])) = map Suc (rev (map (\<lambda>i. T - Suc i) (filter P [0..<min (T - 1) n])))" for P n
    using s [of P n] by (simp add: rev_map comp_def)
  show ?thesis
  proof (cases "T \<le> length h")
    case True
    then have "[0..<min T (length h)] = [0..<min (T - 1) (length h)] @ [T - 1]"
      using T by (simp add: min_def flip: upt_Suc_append)
    then show ?thesis using T True m [of "\<lambda>i. h ! i" "length h"]
      by (simp add: counters_def aged_counters_def)
  next
    case False
    then have "min T (length h) = min (T - 1) (length h)" by auto
    then show ?thesis using False m [of "\<lambda>i. h ! i" "length h"] by (simp add: counters_def aged_counters_def)
  qed
qed

lemma aged_counters_pos: "x \<in> set (aged_counters T h) \<Longrightarrow> 0 < x \<and> x < T"
  by (auto simp: aged_counters_def)

lemma faw_tick_counters:
  assumes "0 < T" "T < 2 ^ 32"
  shows "faw_tick (map of_nat (counters T h)) = map of_nat (aged_counters T h)"
proof -
  have z: "(of_nat x :: u32) \<noteq> 0" if "x \<in> set (aged_counters T h)" for x
  proof -
    have "unat (of_nat x :: u32) = x" using aged_counters_pos [OF that] assms(2) by (intro unat_of_nat_u32) simp
    then show ?thesis using aged_counters_pos [OF that] by auto
  qed
  have "map (\<lambda>n. n - 1) (map of_nat (map Suc (aged_counters T h))) = (map of_nat (aged_counters T h) :: u32 list)"
    by (simp add: comp_def)
  then show ?thesis
    using z unfolding counters_split [OF assms(1)] by (cases "aged_counters T h") (auto simp: faw_tick_def Let_def)
qed

lemma count_positions: "length (filter (\<lambda>i. h ! i) [0..<min m (length h)]) = length (filter id (take m h))"
proof -
  have "map ((!) (take m h)) [0..<length (take m h)] = take m h" by (rule map_nth)
  then have "length (filter id (take m h)) = length (filter id (map ((!) (take m h)) [0..<length (take m h)]))" by simp
  also have "\<dots> = length (filter (\<lambda>i. take m h ! i) [0..<min m (length h)])"
    by (simp add: filter_map comp_def min.commute)
  also have "filter (\<lambda>i. take m h ! i) [0..<min m (length h)] = filter (\<lambda>i. h ! i) [0..<min m (length h)]"
    by (rule filter_cong) simp_all
  finally show ?thesis by (simp add: id_def)
qed

definition window_ok :: "nat \<Rightarrow> bool list \<Rightarrow> bool" where
  "window_ok T h \<longleftrightarrow> (\<forall>i. length (filter id (take T (drop i h))) \<le> 4)"

lemma window_ok_Cons:
  assumes "0 < T" "window_ok T h" "a \<Longrightarrow> length (aged_counters T h) < 4"
  shows "window_ok T (a # h)"
proof -
  have w: "length (filter id (take T (drop i h))) \<le> 4" for i using assms(2) by (simp add: window_ok_def)
  obtain n where n: "T = Suc n" using assms(1) gr0_implies_Suc by blast
  have "length (filter id (take n h)) \<le> length (filter id (take T h))"
  proof -
    have "take T h = take n h @ take 1 (drop n h)" unfolding n by (metis Suc_eq_plus1 take_add)
    then show ?thesis by simp
  qed
  then have "length (filter id (take T (a # h))) \<le> 4"
    using assms(3) w [of 0] n by (auto simp: aged_counters_def count_positions)
  then show ?thesis using w by (auto simp: window_ok_def drop_Cons split: nat.split)
qed

text \<open>
  The life of a command queue, cycle by cycle: \<open>CmdPop\<close> once a cycle (the history has its results,
  the newest first) and between the calls whatever the vault controller does to the queue.
\<close>

inductive cq_run :: "dram_config \<Rightarrow> command_queue \<Rightarrow> dram_command option list \<Rightarrow> bool" for c where
  init: "cq_run c (CommandQueue c) []"
| pop: "cq_run c q h \<Longrightarrow> CmdPop c raw e q = Inr (cmd, q') \<Longrightarrow> cq_run c q' (cmd # h)"
| enqueue: "cq_run c q h \<Longrightarrow> cq_run c (Enqueue c b cmd q) h"
| write_back: "cq_run c q h \<Longrightarrow> cq_run c (set_que c b (cmd # ACCESSQUE c q b) q) h"
| refresh_due: "cq_run c q h \<Longrightarrow> cq_run c (q\<lparr>refreshWaiting := True\<rparr>) h"
| update: "cq_run c q h \<Longrightarrow> cq_run c (CommandQueue_Update c q) h"

definition activations :: "dram_command option list \<Rightarrow> bool list" where
  "activations = map (\<lambda>r. case r of None \<Rightarrow> False | Some cmd \<Rightarrow> commandType cmd = ACTIVATE)"

lemma picked_activate: "picked c e q cmd que' \<Longrightarrow> commandType cmd = ACTIVATE \<Longrightarrow> length (tFAWCountdown q) < 4"
  by (auto simp: picked_def from_queue_def made_precharge_def made_refresh_def isIssuable_def Let_def checkE_def
      split: if_splits)

lemma CmdPop_faw:
  assumes "CmdPop c raw e q = Inr (cmd, q')"
  shows "tFAWCountdown q' = faw_tick (tFAWCountdown q) @
    (if cmd \<noteq> None \<and> commandType (the cmd) = ACTIVATE then [tFAW (timing c)] else [])"
proof -
  obtain q1 where s: "schedule c raw e (faw_ticked q) = Inr (cmd, q1)"
    and q': "q' = (if cmd \<noteq> None \<and> commandType (the cmd) = ACTIVATE
                 then q1\<lparr>tFAWCountdown := tFAWCountdown q1 @ [tFAW (timing c)]\<rparr> else q1)"
    using assms unfolding CmdPop_def bindE_eq_Inr by auto
  then show ?thesis using schedule_frame [OF s] by (simp add: cq_frame_def)
qed

lemma cq_run_issuedBank: "cq_run c q h \<Longrightarrow> NUM_BANKS c \<le> 2 ^ 32 \<Longrightarrow> 0 < NUM_BANKS c \<Longrightarrow> issuedBank q < NUM_BANKS c"
proof (induction rule: cq_run.induct)
  case (pop q h raw e cmd q')
  then show ?case using CmdPop_ok [OF pop.hyps(2)] by simp
qed (simp_all add: CommandQueue_def Let_def Enqueue_def CommandQueue_Update_def)

lemma cq_run_faw:
  assumes "cq_run c q h" "NUM_BANKS c \<le> 2 ^ 32" "0 < NUM_BANKS c" "0 < unat (tFAW (timing c))"
  shows "tFAWCountdown q = map of_nat (counters (unat (tFAW (timing c))) (activations h))
    \<and> window_ok (unat (tFAW (timing c))) (activations h)"
  using assms
proof (induction rule: cq_run.induct)
  case init
  then show ?case by (simp add: CommandQueue_def Let_def counters_def activations_def window_ok_def)
next
  case (pop q h raw e cmd q')
  let ?T = "unat (tFAW (timing c))" and ?a = "cmd \<noteq> None \<and> commandType (the cmd) = ACTIVATE"
  have IH: "tFAWCountdown q = map of_nat (counters ?T (activations h))" "window_ok ?T (activations h)"
    using pop by simp_all
  have tick: "faw_tick (tFAWCountdown q) = map of_nat (aged_counters ?T (activations h))"
    using IH(1) pop.prems(3) faw_tick_counters [of ?T] by simp
  have "pick_ok c e (faw_ticked q) (cmd, q')"
    using CmdPop_ok [OF pop.hyps(2)] pop.prems cq_run_issuedBank [OF pop.hyps(1)] by simp
  then have "?a \<Longrightarrow> length (aged_counters ?T (activations h)) < 4"
    using picked_activate [of c e "faw_ticked q" "the cmd" "cq_queue q'"] tick by auto
  then have "window_ok ?T (?a # activations h)" using window_ok_Cons [OF pop.prems(3) IH(2), of ?a] by blast
  moreover have "activations (cmd # h) = ?a # activations h" by (simp add: activations_def split: option.splits)
  moreover have "tFAWCountdown q' = map of_nat (counters ?T (?a # activations h))"
    unfolding CmdPop_faw [OF pop.hyps(2)] tick counters_Cons [OF pop.prems(3)] by (simp add: of_nat_unat)
  ultimately show ?case by simp
qed (simp_all add: Enqueue_def set_que_def CommandQueue_Update_def Let_def)

section \<open>Picks and the DRAM\<close>

lemma isIssuable_faw: "isIssuable c e (faw_ticked q) cmd = Inr True \<Longrightarrow> commandType cmd \<noteq> ACTIVATE \<Longrightarrow>
    isIssuable c e q cmd = Inr True"
  by (cases "commandType cmd") (auto simp: isIssuable_def Let_def)

text \<open>An issuable command is ready in the sense of the DRAM and is not refused by it.\<close>

lemma issuable_ready:
  assumes "isIssuable c e q cmd = Inr True" "env_banks e = bankStates d" "cq_clock q = dram_clock d"
  shows "dram_ready cmd d \<and> isOK (receiveCMD c cmd d)"
  using assms by (cases "commandType cmd")
    (auto simp: isIssuable_def dram_ready_def receiveCMD_def Let_def checkE_def split: if_splits)

lemma picked_ready:
  assumes "picked c e q cmd que'" "env_banks e = bankStates d" "cq_clock q = dram_clock d"
    "length (bankStates d) = NUM_BANKS c"
  shows "dram_ready cmd d \<and> isOK (receiveCMD c cmd d)"
proof -
  consider (queue) "from_queue c e q cmd que'" | (pre) "made_precharge c e q cmd" | (ref) "made_refresh c e q cmd"
    using assms(1) by (auto simp: picked_def)
  then show ?thesis
  proof cases
    case queue
    then have "isIssuable c e q cmd = Inr True" by (auto simp: from_queue_def)
    then show ?thesis using assms(2,3) by (rule issuable_ready)
  next
    case pre
    then show ?thesis using assms(2-4)
      by (auto simp: made_precharge_def dram_ready_def receiveCMD_def Let_def)
  next
    case ref
    then show ?thesis using assms(2-4) by (auto simp: made_refresh_def dram_ready_def receiveCMD_def Let_def)
  qed
qed

text \<open>
  The interface between a scheduler and the DRAM: what it sends is ready. Any scheduler that
  keeps this drives the DRAM within the timing protocol.
\<close>

locale scheduler =
  fixes next_cmd :: "'s \<Rightarrow> dram \<Rightarrow> (dram_command option \<times> 's) result"
    and synced :: "'s \<Rightarrow> dram \<Rightarrow> bool"
    and c :: dram_config
  assumes sends_ready: "synced s d \<Longrightarrow> length (bankStates d) = NUM_BANKS c \<Longrightarrow> next_cmd s d = Inr (Some cmd, s') \<Longrightarrow>
      dram_ready cmd d \<and> isOK (receiveCMD c cmd d)"
begin

lemma drives_run:
  assumes "dram_run c d h" "synced s d" "next_cmd s d = Inr (Some cmd, s')"
  shows "\<exists>d'. receiveCMD c cmd d = Inr d' \<and> dram_run c d' ((unat (dram_clock d), cmd) # h)"
  using sends_ready [OF assms(2) run_banks [OF assms(1)] assms(3)] dram_run.issue [OF assms(1)]
  by (auto simp: isOK_iff)

end

text \<open>The command queue as a scheduler, with the free upstream space left open.\<close>

definition queue_next ::
  "dram_config \<Rightarrow> dram_command \<Rightarrow> command_queue \<times> u32 \<times> nat \<times> nat \<Rightarrow> dram \<Rightarrow> (dram_command option \<times> command_queue \<times> u32 \<times> nat \<times> nat) result" where
  "queue_next c raw s d = (case s of (q, pending, upMax, upSize) \<Rightarrow>
     bindE (CmdPop c raw \<lparr>env_banks = bankStates d, env_pendingDataSize = pending, env_upBufferMax = upMax,
       env_upBuffers = upSize\<rparr> q) (\<lambda>(cmd, q'). Inr (cmd, q', pending, upMax, upSize)))"

definition queue_synced :: "dram_config \<Rightarrow> command_queue \<times> u32 \<times> nat \<times> nat \<Rightarrow> dram \<Rightarrow> bool" where
  "queue_synced c s d \<longleftrightarrow> cq_clock (fst s) = dram_clock d \<and> issuedBank (fst s) < NUM_BANKS c \<and> NUM_BANKS c \<le> 2 ^ 32"

interpretation cq: scheduler "queue_next c raw" "queue_synced c" c for c raw
proof unfold_locales
  fix s s' :: "command_queue \<times> u32 \<times> nat \<times> nat" and d cmd
  assume a: "queue_synced c s d" "length (bankStates d) = NUM_BANKS c" "queue_next c raw s d = Inr (Some cmd, s')"
  obtain q pending upMax upSize where s: "s = (q, pending, upMax, upSize)" by (cases s)
  let ?e = "\<lparr>env_banks = bankStates d, env_pendingDataSize = pending, env_upBufferMax = upMax, env_upBuffers = upSize\<rparr>"
  obtain q' where p: "CmdPop c raw ?e q = Inr (Some cmd, q')"
    using a(3) by (auto simp: queue_next_def s err_simps)
  have "picked c ?e (faw_ticked q) cmd (cq_queue q')"
    using CmdPop_ok [OF p] a(1) by (simp add: queue_synced_def s)
  then show "dram_ready cmd d \<and> isOK (receiveCMD c cmd d)"
    using picked_ready [of c ?e "faw_ticked q" cmd "cq_queue q'" d] a(1,2) by (simp add: queue_synced_def s)
qed

section \<open>Progress\<close>

text \<open>
  The scheduler fails only on a command whose type it does not know or whose bank does not exist.
\<close>

definition known_command :: "cq_env \<Rightarrow> dram_command \<Rightarrow> bool" where
  "known_command e cmd \<longleftrightarrow> unat (bank cmd) < length (env_banks e)
     \<and> commandType cmd \<in> {ACTIVATE, READ, READ_P, WRITE, WRITE_P, PRECHARGE, REFRESH}"

lemma known_issuable: "known_command e cmd \<Longrightarrow> \<exists>ok. isIssuable c e q cmd = Inr ok"
  by (auto simp: known_command_def isIssuable_def Let_def)

text \<open>
  What the queue of a bank has to offer: the write-back of the lock when the bank is locked,
  otherwise an issuable command that depends on none before it.
\<close>

definition may_send :: "dram_config \<Rightarrow> cq_env \<Rightarrow> command_queue \<Rightarrow> nat \<Rightarrow> bool" where
  "may_send c e q b \<longleftrightarrow> (let xs = ACCESSQUE c q b in
     if atomicLock q ! b
     then xs \<noteq> [] \<and> atomic (hd xs) \<and> packetTAG (hd xs) = atomicLockTag q ! b \<and> isIssuable c e q (hd xs) = Inr True
     else (\<exists>i < length xs. isIssuable c e q (xs ! i) = Inr True \<and> (\<forall>j < i. \<not> depends c (xs ! i) (xs ! j))))"

text \<open>
  The bank number \<open>k\<close> of the round, and whether the round gets to it: under close page it ends at
  a locked bank that is due.
\<close>

definition round_bank :: "dram_config \<Rightarrow> command_queue \<Rightarrow> nat \<Rightarrow> nat" where
  "round_bank c q k = (issuedBank q + k) mod NUM_BANKS c"

definition round_reaches :: "dram_config \<Rightarrow> command_queue \<Rightarrow> nat \<Rightarrow> bool" where
  "round_reaches c q k \<longleftrightarrow> OPEN_PAGE c
     \<or> (\<forall>j < k. \<not> (POPCYCLE c q (round_bank c q j) = 0 \<and> atomicLock q ! round_bank c q j))"

text \<open>What keeps a waiting refresh from being sent.\<close>

definition refresh_blocked :: "dram_config \<Rightarrow> cq_env \<Rightarrow> command_queue \<Rightarrow> bool" where
  "refresh_blocked c e q \<longleftrightarrow> currentBankState (env_banks e ! 0) = POWERDOWN
     \<or> (\<exists>b < NUM_BANKS c. atomicLock q ! b \<or> currentBankState (env_banks e ! b) = ROW_ACTIVE
          \<or> cq_clock q < nextActivate (env_banks e ! b))"

text \<open>
  A queue that has nothing to send: a waiting refresh is blocked, and unless it suspends the round
  every due bank the round gets to has nothing to offer.
\<close>

definition nothing_to_send :: "dram_config \<Rightarrow> cq_env \<Rightarrow> command_queue \<Rightarrow> bool" where
  "nothing_to_send c e q \<longleftrightarrow> (refreshWaiting q \<longrightarrow> refresh_blocked c e q)
     \<and> (OPEN_PAGE c \<or> \<not> refreshWaiting q \<longrightarrow>
        (\<forall>k < NUM_BANKS c. round_reaches c q k \<and> POPCYCLE c q (round_bank c q k) = 0 \<longrightarrow> \<not> may_send c e q (round_bank c q k)))"

lemma find_issuable_total: "\<forall>cmd \<in> set cmds. known_command e cmd \<Longrightarrow> \<exists>r. find_issuable c e q seen cmds = Inr r"
proof (induction cmds arbitrary: seen)
  case (Cons cmd cmds)
  then obtain ok where "isIssuable c e q cmd = Inr ok" using known_issuable by (meson list.set_intros(1))
  then show ?case using Cons by simp
qed simp

lemma find_issuable_None:
  "find_issuable c e q seen cmds = Inr None \<Longrightarrow> i < length cmds \<Longrightarrow> isIssuable c e q (cmds ! i) = Inr True \<Longrightarrow>
     \<exists>j < length seen + i. depends c (cmds ! i) ((seen @ cmds) ! j)"
proof (induction cmds arbitrary: seen i)
  case (Cons cmd cmds)
  then obtain ok where ok: "isIssuable c e q cmd = Inr ok" "\<not> (ok \<and> \<not> list_ex (depends c cmd) seen)"
    "find_issuable c e q (seen @ [cmd]) cmds = Inr None"
    by (auto simp: err_simps split: if_splits)
  show ?case
  proof (cases i)
    case 0
    then have "list_ex (depends c cmd) seen" using ok(1,2) Cons.prems(3) by simp
    then show ?thesis using 0 by (auto simp: list_ex_iff in_set_conv_nth nth_append)
  next
    case (Suc m)
    then have "\<exists>j < length (seen @ [cmd]) + m. depends c (cmds ! m) (((seen @ [cmd]) @ cmds) ! j)"
      using Cons.IH [OF ok(3), of m] Cons.prems by simp
    then show ?thesis using Suc by simp
  qed
qed simp

lemma take_locked_total: "known_command e (hd (ACCESSQUE c q b)) \<Longrightarrow> \<exists>cmd q'. take_locked c e b q = Inr (cmd, q')"
  using known_issuable [of e "hd (ACCESSQUE c q b)" c q] by (auto simp: take_locked_def Let_def)

lemma take_locked_None: "take_locked c e b q = Inr (None, q') \<Longrightarrow> isIssuable c e q (hd (ACCESSQUE c q b)) = Inr False"
  by (auto simp: take_locked_def Let_def err_simps split: if_splits)

lemma try_bank_total: "\<forall>cmd \<in> set (ACCESSQUE c q b). known_command e cmd \<Longrightarrow> \<exists>p. try_bank c e b q = Inr p"
proof -
  assume k: "\<forall>cmd \<in> set (ACCESSQUE c q b). known_command e cmd"
  then have "ACCESSQUE c q b \<noteq> [] \<Longrightarrow> \<exists>cmd q'. take_locked c e b q = Inr (cmd, q')"
    using take_locked_total [of e c q b] by simp
  moreover obtain r where "find_issuable c e q [] (ACCESSQUE c q b) = Inr r" using find_issuable_total [OF k] by blast
  ultimately show ?thesis by (auto simp: try_bank_def split: option.splits)
qed

lemma try_bank_None: "try_bank c e b q = Inr (None, q') \<Longrightarrow> q' = q"
  by (auto simp: try_bank_def take_locked_def take_at_def Let_def err_simps split: if_splits option.splits)

lemma try_bank_nothing: "try_bank c e b q = Inr (None, q') \<Longrightarrow> POPCYCLE c q b = 0 \<Longrightarrow> \<not> may_send c e q b"
  using find_issuable_None [of c e q "[]" "ACCESSQUE c q b"]
  by (fastforce simp: try_bank_def may_send_def take_at_def Let_def err_simps dest!: take_locked_None split: if_splits option.splits)

lemma POPCYCLE_cong [simp]:
  "POPCYCLE c (q\<lparr>issuedBank := x\<rparr>) b = POPCYCLE c q b"
  "POPCYCLE c (q\<lparr>tFAWCountdown := f\<rparr>) b = POPCYCLE c q b"
  by (simp_all add: POPCYCLE_def)

lemma may_send_issuedBank [simp]: "may_send c e (q\<lparr>issuedBank := x\<rparr>) b = may_send c e q b"
  by (simp add: may_send_def)

lemma next_bank_mod: "b < n \<Longrightarrow> (if b < n - 1 then b + 1 else 0) = (b + 1) mod n" for b n :: nat
  by (cases "b = n - 1") auto

lemma bank_scan_step:
  assumes "issuedBank q < NUM_BANKS c"
  shows "bank_scan c e (Suc n) q = (let b = issuedBank q in bindE (try_bank c e b q) (\<lambda>(cmd, q').
    if \<not> OPEN_PAGE c \<and> POPCYCLE c q b = 0 \<and> atomicLock q ! b then Inr (cmd, q')
    else if cmd \<noteq> None then Inr (cmd, q'\<lparr>issuedBank := round_bank c q (Suc 0)\<rparr>)
    else bank_scan c e n (q'\<lparr>issuedBank := round_bank c q (Suc 0)\<rparr>)))"
proof -
  have "(if issuedBank q < NUM_BANKS c - 1 then issuedBank q + 1 else 0) = round_bank c q (Suc 0)"
    using next_bank_mod [OF assms] by (simp add: round_bank_def)
  then show ?thesis by (simp only: bank_scan.simps Let_def)
qed

lemma round_bank_next: "round_bank c (q\<lparr>issuedBank := round_bank c q (Suc 0)\<rparr>) k = round_bank c q (Suc k)"
  by (simp add: round_bank_def mod_add_left_eq)

lemma round_bank_0: "issuedBank q < NUM_BANKS c \<Longrightarrow> round_bank c q 0 = issuedBank q"
  by (simp add: round_bank_def)

lemma round_bank_less: "issuedBank q < NUM_BANKS c \<Longrightarrow> round_bank c q k < NUM_BANKS c"
  by (simp add: round_bank_def)

lemma bank_scan_total:
  assumes "\<forall>b < NUM_BANKS c. \<forall>cmd \<in> set (ACCESSQUE c q b). known_command e cmd" and "issuedBank q < NUM_BANKS c"
  shows "\<exists>p. bank_scan c e n q = Inr p"
  using assms
proof (induction n arbitrary: q)
  case (Suc n)
  obtain cmd q1 where t: "try_bank c e (issuedBank q) q = Inr (cmd, q1)"
    using try_bank_total [of c q "issuedBank q" e] Suc.prems by auto
  have "\<exists>p. bank_scan c e n (q\<lparr>issuedBank := round_bank c q (Suc 0)\<rparr>) = Inr p"
    using Suc.prems round_bank_less by (intro Suc.IH) simp_all
  then show ?case using t try_bank_None [of c e "issuedBank q" q q1]
    by (cases cmd) (auto simp: bank_scan_step [OF Suc.prems(2)] Let_def simp del: bank_scan.simps)
qed simp

lemma bank_scan_nothing:
  assumes "bank_scan c e n q = Inr (None, q')" and "issuedBank q < NUM_BANKS c" and "k < n"
    and "round_reaches c q k" and "POPCYCLE c q (round_bank c q k) = 0"
  shows "\<not> may_send c e q (round_bank c q k)"
  using assms
proof (induction n arbitrary: q k)
  case (Suc n)
  let ?b = "issuedBank q" and ?q = "q\<lparr>issuedBank := round_bank c q (Suc 0)\<rparr>"
  have t: "try_bank c e ?b q = Inr (None, q)"
    using Suc.prems(1) try_bank_None [of c e ?b q] unfolding bank_scan_step [OF Suc.prems(2)]
    by (auto simp: Let_def err_simps split: if_splits)
  show ?case
  proof (cases k)
    case 0
    then show ?thesis using try_bank_nothing [OF t] Suc.prems(2,5) by (simp add: round_bank_0)
  next
    case (Suc m)
    then have "\<not> (\<not> OPEN_PAGE c \<and> POPCYCLE c q ?b = 0 \<and> atomicLock q ! ?b)" and m: "round_reaches c ?q m"
      using Suc.prems(2,4) round_bank_0 [OF Suc.prems(2)] by (auto simp: round_reaches_def round_bank_next)
    then have s: "bank_scan c e n ?q = Inr (None, q')"
      using Suc.prems(1) t unfolding bank_scan_step [OF Suc.prems(2)] by (auto simp: Let_def)
    have "\<not> may_send c e ?q (round_bank c ?q m)"
      using Suc.prems Suc m s round_bank_less [OF Suc.prems(2)] by (intro Suc.IH) (simp_all add: round_bank_next)
    then show ?thesis using Suc by (simp add: round_bank_next)
  qed
qed simp

lemma first_index_set: "first_index P xs = Some i \<Longrightarrow> xs ! i \<in> set xs"
  using first_index_SomeD(1) [of P xs i] by simp

lemma serve_open_bank_total:
  "\<forall>cmd \<in> set (ACCESSQUE c q b). known_command e cmd \<Longrightarrow> \<exists>p. serve_open_bank c raw e b q = Inr p"
proof -
  let ?f = "first_index (\<lambda>cmd. unat (bank cmd) = b \<and> openRowAddress (env_banks e ! b) = row cmd) (ACCESSQUE c q b)"
  assume "\<forall>cmd \<in> set (ACCESSQUE c q b). known_command e cmd"
  then have "\<exists>ok. isIssuable c e q (ACCESSQUE c q b ! i) = Inr ok" if "?f = Some i" for i
    using first_index_set [OF that] known_issuable by blast
  then show ?thesis by (cases ?f) (fastforce simp: serve_open_bank_def Let_def)+
qed

lemma refresh_scan_total:
  "\<forall>b \<in> set bs. \<forall>cmd \<in> set (ACCESSQUE c q b). known_command e cmd \<Longrightarrow> \<exists>r p. refresh_scan c raw e bs q = Inr (r, p)"
proof (induction bs)
  case (Cons b bs)
  have "\<exists>cmd q'. take_locked c e b q = Inr (cmd, q')" if "ACCESSQUE c q b \<noteq> []" using that Cons.prems by (simp add: take_locked_total)
  moreover have "\<exists>cmd q'. serve_open_bank c raw e b q = Inr (cmd, q')"
    using serve_open_bank_total [of c q b e raw] Cons.prems by simp
  moreover have "\<exists>r p. refresh_scan c raw e bs q = Inr (r, p)" using Cons by simp
  ultimately show ?case by (auto simp: ex_bool_eq)
qed (simp add: ex_bool_eq)

lemma refresh_scan_blocked:
  "refresh_scan c raw e bs q = Inr (False, p) \<Longrightarrow> \<exists>b \<in> set bs. atomicLock q ! b \<or> currentBankState (env_banks e ! b) = ROW_ACTIVE
     \<or> cq_clock q < nextActivate (env_banks e ! b)"
  by (induction bs) (auto split: if_splits)

lemma refresh_pop_total:
  assumes "\<forall>b < NUM_BANKS c. \<forall>cmd \<in> set (ACCESSQUE c q b). known_command e cmd"
  shows "\<exists>cmd q'. refresh_pop c raw e q = Inr (cmd, q')"
proof -
  obtain r p where "refresh_scan c raw e [0..<NUM_BANKS c] q = Inr (r, p)"
    using refresh_scan_total [of "[0..<NUM_BANKS c]" c q e raw] assms by auto
  then show ?thesis by (cases p) (simp add: refresh_pop_def)
qed

lemma refresh_pop_None:
  assumes "refresh_pop c raw e q = Inr (None, q')" and "refreshWaiting q" and "NUM_BANKS c \<le> 2 ^ 32"
  shows "q' = q \<and> refresh_blocked c e q"
proof -
  obtain r q1 where s: "refresh_scan c raw e [0..<NUM_BANKS c] q = Inr (r, None, q1)"
    "\<not> r \<or> currentBankState (env_banks e ! 0) = POWERDOWN"
    using assms(1) by (auto simp: refresh_pop_def err_simps split: if_splits)
  have "refresh_blocked c e q"
    using s refresh_scan_blocked [of c raw e "[0..<NUM_BANKS c]" q] by (cases r) (fastforce simp: refresh_blocked_def)+
  then show ?thesis using refresh_pop_at [OF assms(1,3,2)] by (simp add: pick_at_def)
qed

lemma schedule_progress:
  assumes "\<forall>b < NUM_BANKS c. \<forall>cmd \<in> set (ACCESSQUE c q b). known_command e cmd"
    and "issuedBank q < NUM_BANKS c" and "NUM_BANKS c \<le> 2 ^ 32"
  shows "\<exists>r q'. schedule c raw e q = Inr (r, q') \<and> (r = None \<longrightarrow> nothing_to_send c e q)"
proof -
  obtain cmd q1 where r: "(if refreshWaiting q then refresh_pop c raw e q else Inr (None, q)) = Inr (cmd, q1)"
    using refresh_pop_total [OF assms(1), of raw] by (cases "refreshWaiting q") auto
  show ?thesis
  proof (cases cmd)
    case (Some x)
    then show ?thesis using r by (simp add: schedule_def)
  next
    case None
    then have q1: "q1 = q" and b: "refreshWaiting q \<longrightarrow> refresh_blocked c e q"
      using r refresh_pop_None [OF _ _ assms(3)] by (auto split: if_splits)
    obtain cmd2 q2 where s: "bank_scan c e (NUM_BANKS c) q = Inr (cmd2, q2)"
      using bank_scan_total [OF assms(1,2)] by fastforce
    have n: "nothing_to_send c e q" if "cmd2 = None"
      using bank_scan_nothing [OF _ assms(2)] s that b by (auto simp: nothing_to_send_def)
    have "nothing_to_send c e q" if "\<not> OPEN_PAGE c" "refreshWaiting q" using b that by (simp add: nothing_to_send_def)
    then show ?thesis using r None q1 s n by (cases "cmd2 = None \<and> OPEN_PAGE c"; cases "precharge_scan c raw e q2") (auto simp: schedule_def)
  qed
qed

lemma CmdPop_returns:
  assumes "\<forall>b < NUM_BANKS c. \<forall>cmd \<in> set (ACCESSQUE c q b). known_command e cmd"
    and "issuedBank q < NUM_BANKS c" and "NUM_BANKS c \<le> 2 ^ 32"
  shows "\<exists>r q'. CmdPop c raw e q = Inr (r, q') \<and> (r = None \<longrightarrow> nothing_to_send c e (faw_ticked q))"
  using schedule_progress [of c "faw_ticked q" e raw] assms by (auto simp: CmdPop_def)

text \<open>A queue with one command that has waited its cycle, idle banks, and for the examples.\<close>

definition example_queue :: command_queue where
  "example_queue = (Enqueue default_config 0 zero_command (CommandQueue default_config))
     \<lparr>bufPopDelayPerBank := replicate 8 0\<rparr>"

definition example_env :: cq_env where
  "example_env = \<lparr>env_banks = bankStates (DRAM default_config), env_pendingDataSize = 0, env_upBufferMax = 32,
     env_upBuffers = 0\<rparr>"

definition popped_queue :: command_queue where
  "popped_queue = example_queue\<lparr>cq_queue := replicate 8 [], issuedBank := 1, tFAWCountdown := [24]\<rparr>"

lemma example_pop:
  "CmdPop default_config zero_command example_env example_queue = Inr (Some zero_command, popped_queue)"
  by code_simp

text \<open>A bank locked by an atomic operation of tag 7 whose write-back is at the front.\<close>

definition write_back_command :: dram_command where
  "write_back_command = zero_command\<lparr>commandType := WRITE_P, atomic := True, packetTAG := 7\<rparr>"

definition locked_queue :: command_queue where
  "locked_queue = example_queue\<lparr>cq_queue := [write_back_command, zero_command] # replicate 7 [],
     atomicLock := True # replicate 7 False, atomicLockTag := 7 # replicate 7 0\<rparr>"

definition open_env :: cq_env where
  "open_env = example_env\<lparr>env_banks := map (\<lambda>b. b\<lparr>currentBankState := ROW_ACTIVE\<rparr>) (env_banks example_env)\<rparr>"

lemma locked_pop:
  "CmdPop default_config zero_command open_env locked_queue = Inr (Some write_back_command,
     locked_queue\<lparr>cq_queue := [zero_command] # replicate 7 [], atomicLock := replicate 8 False,
       atomicLockTag := replicate 8 0\<rparr>)"
  by code_simp

section \<open>Properties of the command queue\<close>

text \<open>
  C18. The command queue keeps the DRAM timing protocol: with its clock in step with that of the
  DRAM, whatever \<open>CmdPop\<close> returns (under both page policies, refreshes, precharges and atomic
  write-backs included) is accepted by the DRAM and continues a run of the timing protocol.
\<close>

theorem CmdPop_keeps_protocol:
  assumes "dram_run c d h" and "NUM_BANKS c \<le> 2 ^ 32" and "issuedBank q < NUM_BANKS c"
    and "cq_clock q = dram_clock d" and "env_banks e = bankStates d" and "CmdPop c raw e q = Inr (Some cmd, q')"
  shows "\<exists>d'. receiveCMD c cmd d = Inr d' \<and> dram_run c d' ((unat (dram_clock d), cmd) # h)"
proof -
  let ?s = "(q, env_pendingDataSize e, env_upBufferMax e, env_upBuffers e)"
  have "queue_next c raw ?s d = Inr (Some cmd, q', env_pendingDataSize e, env_upBufferMax e, env_upBuffers e)"
    using assms(5,6) by (cases e) (simp add: queue_next_def)
  then show ?thesis using cq.drives_run [OF assms(1), of ?s raw cmd] assms(2-4) by (simp add: queue_synced_def)
qed

theorem CmdPop_keeps_protocol_witness:
  "\<exists>d'. receiveCMD default_config zero_command (DRAM default_config) = Inr d' \<and>
     dram_run default_config d' [(0, zero_command)]"
  using CmdPop_keeps_protocol [OF dram_run.init _ _ _ _ example_pop]
  by (simp add: default_config_def example_queue_def example_env_def Enqueue_def CommandQueue_def DRAM_def Let_def set_que_def)

text \<open>
  C20. Never more than four activations in a window of \<open>tFAW\<close> cycles: over the whole life of a
  command queue, with \<open>CmdPop\<close> called once a cycle, any \<open>tFAW\<close> consecutive calls return at most
  four \<open>ACTIVATE\<close> commands.
\<close>

theorem four_activation_window:
  assumes "cq_run c q h" and "NUM_BANKS c \<le> 2 ^ 32" and "0 < NUM_BANKS c" and "0 < unat (tFAW (timing c))"
  shows "length (filter id (take (unat (tFAW (timing c))) (drop i (activations h)))) \<le> 4"
  using cq_run_faw [OF assms] by (simp add: window_ok_def)

theorem four_activation_window_witness:
  "\<exists>q. cq_run default_config q [None] \<and> length (filter id (take 24 (drop 0 (activations [None])))) \<le> 4"
proof -
  have "CmdPop default_config zero_command example_env (CommandQueue default_config) = Inr (None, CommandQueue default_config)"
    by code_simp
  then have "cq_run default_config (CommandQueue default_config) [None]" by (rule cq_run.pop [OF cq_run.init])
  moreover have "unat (tFAW (timing default_config)) = 24" "0 < NUM_BANKS default_config" "NUM_BANKS default_config \<le> 2 ^ 32"
    by (simp_all add: default_simps)
  ultimately show ?thesis using four_activation_window [of default_config _ "[None]" 0] by auto
qed

text \<open>
  C29. \<open>CmdPop\<close> neither loses nor invents memory accesses under the close-page policy: when it
  returns nothing the queues are unchanged; when it returns a command, this is either the
  refresh that was due, with the queues unchanged, or one of the queued commands, and then
  exactly this one is removed from its queue.
\<close>

theorem CmdPop_takes_one:
  assumes "CmdPop c raw e q = Inr (r, q')" and "\<not> OPEN_PAGE c" and "NUM_BANKS c \<le> 2 ^ 32" and "issuedBank q < NUM_BANKS c"
  shows "case r of None \<Rightarrow> cq_queue q' = cq_queue q
    | Some cmd \<Rightarrow> commandType cmd = REFRESH \<and> refreshWaiting q \<and> cq_queue q' = cq_queue q \<or>
        (\<exists>b < NUM_BANKS c. \<exists>i < length (ACCESSQUE c q b). cmd = ACCESSQUE c q b ! i \<and>
           cq_queue q' = (cq_queue q)[que_index c b := erase_at i (ACCESSQUE c q b)])"
proof -
  have ok: "pick_ok c e (faw_ticked q) (r, q')" using CmdPop_ok [OF assms(1,3,4)] by simp
  show ?thesis
  proof (cases r)
    case None
    then show ?thesis using ok by simp
  next
    case (Some cmd)
    then consider "from_queue c e (faw_ticked q) cmd (cq_queue q')" | "made_refresh c e q cmd" "cq_queue q' = cq_queue q"
      using ok assms(2) by (auto simp: picked_def made_precharge_def made_refresh_def)
    then show ?thesis
    proof cases
      case 1
      then show ?thesis using Some assms(2) unfolding from_queue_def by auto
    next
      case 2
      then show ?thesis using Some by (simp add: made_refresh_def)
    qed
  qed
qed

theorem CmdPop_takes_one_witness:
  "commandType zero_command = REFRESH \<and> refreshWaiting example_queue \<and> cq_queue popped_queue = cq_queue example_queue \<or>
     (\<exists>b < 8. \<exists>i < length (ACCESSQUE default_config example_queue b).
        zero_command = ACCESSQUE default_config example_queue b ! i \<and>
        cq_queue popped_queue = (cq_queue example_queue)
          [que_index default_config b := erase_at i (ACCESSQUE default_config example_queue b)])"
  using CmdPop_takes_one [OF example_pop]
  by (simp add: default_config_def example_queue_def Enqueue_def CommandQueue_def Let_def set_que_def)

text \<open>
  C30. Atomic operations are not interrupted: while a bank is locked by an atomic
  read-modify-write, \<open>CmdPop\<close> sends no refresh, closes not its row, and takes from its queue
  nothing but the command at the front that carries the tag of the operation.
\<close>

theorem atomic_lock_respected:
  assumes "CmdPop c raw e q = Inr (Some cmd, q')" and "NUM_BANKS c \<le> 2 ^ 32" and "issuedBank q < NUM_BANKS c"
    and "b < NUM_BANKS c" and "atomicLock q ! b" and "QUE_PER_BANK c"
    and "\<forall>b < NUM_BANKS c. \<forall>x \<in> set (ACCESSQUE c q b). unat (bank x) = b"
  shows "commandType cmd \<noteq> REFRESH \<and> (unat (bank cmd) = b \<longrightarrow>
    packetTAG cmd = atomicLockTag q ! b \<and> cmd = hd (ACCESSQUE c q b))"
proof -
  have "picked c e (faw_ticked q) cmd (cq_queue q')" using CmdPop_ok [OF assms(1-3)] by simp
  then consider (queue) "from_queue c e (faw_ticked q) cmd (cq_queue q')" | (pre) "made_precharge c e q cmd"
    | (ref) "made_refresh c e q cmd"
    by (auto simp: picked_def made_precharge_def made_refresh_def)
  then show ?thesis
  proof cases
    case queue
    then obtain b' i where q: "b' < NUM_BANKS c" "i < length (ACCESSQUE c q b')" "cmd = ACCESSQUE c q b' ! i"
      "isIssuable c e (faw_ticked q) cmd = Inr True" "atomicLock q ! b' \<longrightarrow> i = 0 \<and> packetTAG cmd = atomicLockTag q ! b'"
      unfolding from_queue_def by auto
    then have "unat (bank cmd) = b'" using assms(7) by simp
    moreover have "commandType cmd \<noteq> REFRESH" using q(4) by (auto simp: isIssuable_def Let_def)
    ultimately show ?thesis using q assms(5) by (auto simp: hd_conv_nth)
  next
    case pre
    then show ?thesis using assms(5) by (auto simp: made_precharge_def)
  next
    case ref
    then show ?thesis using assms(4,5) by (auto simp: made_refresh_def)
  qed
qed

theorem atomic_lock_respected_witness:
  "commandType write_back_command \<noteq> REFRESH \<and> packetTAG write_back_command = atomicLockTag locked_queue ! 0 \<and>
     write_back_command = hd (ACCESSQUE default_config locked_queue 0)"
proof -
  have "\<forall>b < NUM_BANKS default_config. \<forall>x \<in> set (ACCESSQUE default_config locked_queue b). unat (bank x) = b"
    by code_simp
  moreover have "NUM_BANKS default_config \<le> 2 ^ 32" "issuedBank locked_queue < NUM_BANKS default_config" "0 < NUM_BANKS default_config"
    "atomicLock locked_queue ! 0" "QUE_PER_BANK default_config"
    by (simp_all add: default_config_def locked_queue_def example_queue_def Enqueue_def CommandQueue_def Let_def set_que_def)
  moreover have "unat (bank write_back_command) = 0" by code_simp
  ultimately show ?thesis using atomic_lock_respected [OF locked_pop] by blast
qed



end
