(* ===== verification/Vault.thy ===== *)
theory Vault
  imports Command_Queue Buffers Transactions Address_Mapping
begin

unbundle bit_operations_syntax

text \<open>
  The vault controller: \<open>VaultController.h\<close> and \<open>VaultController.cpp\<close>. It turns request packets
  into DRAM commands, drives the command and data buses, performs the atomic operations,
  schedules refreshes and power-down, and returns response packets to the crossbar switch.

  The record extends the dual packet buffer the class derives from. The store of transaction
  traces, the latency statistics and the three static byte counters are shared by all
  vaults; a vault's state carries them. \<open>poppedCMD\<close> is a null pointer outside \<open>Update\<close> and has no
  field. The constants the code takes from elsewhere are the record \<open>vc_par\<close>: the memory new
  objects are built in, the random data of packets, and the processor clock of a vault cycle
  (\<open>ceil(cycle * tCK / gCpuClkPeriod)\<close>, a double).
\<close>

section \<open>State\<close>

record vault = dual_vector +
  refreshCountdown :: u32
  powerDown :: bool
  commandQueue :: command_queue
  atomicCMD :: "dram_command option"
  atomicOperLeft :: u32
  pendingDataSize :: u32
  pendingReadData :: "u32 list"
  pcuPacket :: "packet list"
  cmdBus :: "dram_command option"
  cmdCyclesLeft :: u32
  dataBus :: "dram_command option"
  dataCyclesLeft :: u32
  writeDataToSend :: "dram_command list"
  writeDataCountdown :: "u32 list"
  totalOperandRequests :: u64
  DRAM_rd_data :: u32
  DRAM_wr_data :: u32
  DRAM_act_data :: u32
  v_traces :: "tran_trace list"
  v_statis :: tran_statistic

record vc_par =
  cfg :: dram_config
  CRC_CHECK :: bool
  rnd :: "nat \<Rightarrow> u64"
  raw_packet :: packet
  raw_command :: dram_command
  cpu_clock :: "u64 \<Rightarrow> u32"

text \<open>
  The constructor used by the cubes (the one with \<open>headerPrefix\<close>) leaves \<open>totalOperandRequests\<close> as
  the memory has it, the argument \<open>ops\<close>.
\<close>

definition VaultController :: "dram_config \<Rightarrow> u64 \<Rightarrow> tran_trace list \<Rightarrow> tran_statistic \<Rightarrow> vault" where
  "VaultController c ops traces st =
     dual_vector.extend (DualVectorObject (MAX_VLT_BUF c) (MAX_VLT_BUF c) (MAX_VLT_BUF c))
       (vault.fields 0 False (CommandQueue c) None 0 0 [] [] None 0 None 0 [] [] ops 0 0 0 traces st)"

text \<open>The refresh counters as the cube sets them: staggered over the vaults.\<close>

definition refresh_start :: "dram_config \<Rightarrow> nat \<Rightarrow> u32" where
  "refresh_start c v = of_nat (unat (REFRESH_CYCLES (timing c)) * (v + 1) div NUM_VAULTS)"

section \<open>Response packets\<close>

text \<open>The callback of the upstream buffer ends the program on a command that is no response.\<close>

definition CallbackReceiveUp :: "packet \<Rightarrow> bool \<Rightarrow> unit result" where
  "CallbackReceiveUp p chkReceive = (if chkReceive
     then checkE (CMD p \<in> set [RD_RS, WR_RS, ACT_ADD, ACT_MULT, ACT_DOT, ACT_GET, PEI_DOT, PEI_ATOMIC])
            (Exit ''WRONG response packet command type'') (Inr ())
     else Inr ())"

definition CallbackReceiveArt :: "packet \<Rightarrow> bool \<Rightarrow> unit result" where
  "CallbackReceiveArt p chkReceive = (if chkReceive
     then checkE (CMD p = ACT_MULT) (Exit ''WRONG response packet command type'') (Inr ()) else Inr ())"

definition vault_ReceiveUp :: "packet \<Rightarrow> 'v vault_scheme \<Rightarrow> (bool \<times> 'v vault_scheme) result" where
  "vault_ReceiveUp p v = (case ReceiveUp p v of (ok, v) \<Rightarrow> bindE (CallbackReceiveUp p ok) (\<lambda>_. Inr (ok, v)))"

definition vault_ReceiveArt :: "packet \<Rightarrow> 'v vault_scheme \<Rightarrow> (bool \<times> 'v vault_scheme) result" where
  "vault_ReceiveArt p v = (case ReceiveArt p v of (ok, v) \<Rightarrow> bindE (CallbackReceiveArt p ok) (\<lambda>_. Inr (ok, v)))"

text \<open>The atomics that answer with a write response.\<close>

definition write_response_atomic :: "PacketCommandType \<Rightarrow> bool" where
  "write_response_atomic cmd \<longleftrightarrow> cmd \<in> set [TWOADD8, ADD16, INC8, EQ8, EQ16, BWR]"

definition response :: "vc_par \<Rightarrow> dram_command \<Rightarrow> PacketCommandType \<Rightarrow> u32 \<Rightarrow> packet" where
  "response par cmd rs lng = Packet_response (CRC_CHECK par) (rnd par) (raw_packet par) RESPONSE rs (packetTAG cmd) lng
     (dc_trace cmd) (sint (dc_dest_cube cmd)) (sint (dc_src_cube cmd))"

text \<open>The response to a read, with the fields of the active operations.\<close>

definition read_response :: "vc_par \<Rightarrow> dram_command \<Rightarrow> packet result" where
  "read_response par cmd =
     (let p = (response par cmd RD_RS (dataSize cmd div 16 + 1))\<lparr>ADRS := addr cmd\<rparr>
      in if packetCMD cmd = ACT_ADD \<or> packetCMD cmd = ACT_DOT
         then Inr (p\<lparr>CMD := packetCMD cmd, active := True, DESTADRS := destAddr cmd, SRCADRS1 := srcAddr1 cmd,
                operandBufID := dc_operandBufID cmd\<rparr>)
         else if packetCMD cmd = PEI_DOT then Inr (p\<lparr>LNG := 2, CMD := PEI_DOT\<rparr>)
         else if packetCMD cmd = ACT_MULT
         then checkE (srcAddr1 cmd \<noteq> 0 \<and> srcAddr2 cmd = 0 \<or> srcAddr1 cmd = 0 \<and> srcAddr2 cmd \<noteq> 0)
                (Assertion ''srcAddr1, srcAddr2'')
                (Inr (p\<lparr>CMD := ACT_MULT, active := True, DESTADRS := destAddr cmd, SRCADRS1 := srcAddr1 cmd,
                   SRCADRS2 := srcAddr2 cmd, operandBufID := dc_operandBufID cmd, LNG := 2\<rparr>))
         else Inr p)"

text \<open>The new packet and the reservation of upstream space it gives back.\<close>

definition respond_packet :: "vc_par \<Rightarrow> dram_command \<Rightarrow> (packet \<times> u32) result" where
  "respond_packet par cmd =
     (if atomic cmd
      then (if write_response_atomic (packetCMD cmd) then Inr (response par cmd WR_RS 1, 1)
            else if packetCMD cmd = PEI_ATOMIC then Inr (response par cmd PEI_ATOMIC 1, 1)
            else Inr (response par cmd RD_RS 2, 2))
      else if commandType cmd = WRITE_DATA then Inr (response par cmd WR_RS 1, 1)
      else if commandType cmd = READ_DATA
      then bindE (read_response par cmd) (\<lambda>p. Inr (p, dataSize cmd div 16 + 1))
      else Inl (Exit ''Unknown response packet command''))"

definition upd_trace :: "nat option \<Rightarrow> (tran_trace \<Rightarrow> tran_trace) \<Rightarrow> 'v vault_scheme \<Rightarrow> 'v vault_scheme" where
  "upd_trace t f v = (case t of None \<Rightarrow> v
     | Some i \<Rightarrow> v\<lparr>v_traces := (v_traces v)[i := f (v_traces v ! i)]\<rparr>)"

definition set_vaultFullLat :: "u64 \<Rightarrow> tran_trace \<Rightarrow> tran_trace" where
  "set_vaultFullLat now t = t\<lparr>vaultFullLat := ucast (now - ucast (vaultIssueTime t))\<rparr>"

definition push_pcu :: "packet \<Rightarrow> 'v vault_scheme \<Rightarrow> 'v vault_scheme" where
  "push_pcu p v = v\<lparr>pcuPacket := pcuPacket v @ [p\<lparr>bufPopDelay := (if pcuPacket v = [] then PCU_DELAY
     else max PCU_DELAY (bufPopDelay (last (pcuPacket v)) + 1))\<rparr>]\<rparr>"

definition MakeRespondPacket :: "vc_par \<Rightarrow> dram_command \<Rightarrow> vault \<Rightarrow> (bool \<times> vault) result" where
  "MakeRespondPacket par cmd v =
     bindE (respond_packet par cmd) (\<lambda>(p, size).
       (let newPendingDataSize = pendingDataSize v - size;
            p = p\<lparr>ADRS := drop_bit 30 (push_bit 30 (addr cmd)), orig_addr := addr cmd, tran_tag := dc_tran_tag cmd,
                  segment := dc_segment cmd\<rparr>
        in bindE (if CMD p \<noteq> PEI_DOT then vault_ReceiveUp p v else Inr (True, push_pcu p v)) (\<lambda>(consumeRetCMD, v).
             Inr (consumeRetCMD, if consumeRetCMD
               then (upd_trace (dc_trace cmd) (set_vaultFullLat (currentClockCycle v)) v)\<lparr>pendingDataSize := newPendingDataSize\<rparr>
               else v))))"

section \<open>Data returned by the DRAM\<close>

text \<open>
  \<open>MakeRespondPacket\<close> is a virtual method, which the vaults of the vault-level parallel cubes override
  (\<open>VLP_Vault\<close>): the operations that call it take it as an argument, and they work on any extension
  of the record.
\<close>

type_synonym 'v respond = "dram_command \<Rightarrow> 'v vault_scheme \<Rightarrow> (bool \<times> 'v vault_scheme) result"

definition ReturnCommand :: "'v respond \<Rightarrow> dram_command \<Rightarrow> 'v vault_scheme \<Rightarrow> (bool \<times> 'v vault_scheme) result" where
  "ReturnCommand respond retCMD v =
     checkE (dataBus v = None) (Exit ''Data Bus Collision'')
      (case first_index (\<lambda>t. packetTAG retCMD = t) (pendingReadData v) of
         None \<Rightarrow> Inl (Exit ''Can't find a matching transaction'')
       | Some i \<Rightarrow>
           bindE (if lastCMD retCMD
                  then (if atomic retCMD then Inr (True, v\<lparr>atomicCMD := Some retCMD, atomicOperLeft := 1\<rparr>)
                        else respond retCMD v)
                  else Inr (True, v)) (\<lambda>(consumeRetCMD, v).
             Inr (consumeRetCMD, if consumeRetCMD then v\<lparr>pendingReadData := erase_at i (pendingReadData v)\<rparr> else v)))"

section \<open>Request packets into commands\<close>

text \<open>The command, whether it is posted and whether it is atomic, for a request; none for others.\<close>

definition conv_command :: "dram_config \<Rightarrow> PacketCommandType \<Rightarrow> (DRAMCommandType \<times> bool \<times> bool) option" where
  "conv_command c cmd =
     (let wr = (if OPEN_PAGE c then WRITE else WRITE_P); rd = (if OPEN_PAGE c then READ else READ_P)
      in if cmd \<in> set [WR16, WR32, WR48, WR64, WR80, WR96, WR112, WR128, WR256, MD_WR] then Some (wr, False, False)
         else if cmd \<in> set [P_WR16, P_WR32, P_WR48, P_WR64, P_WR80, P_WR96, P_WR112, P_WR128, P_WR256]
         then Some (wr, True, False)
         else if cmd \<in> set [RD16, RD32, RD48, RD64, RD80, RD96, RD112, RD128, RD256, MD_RD, ACT_ADD, ACT_MULT, ACT_DOT, PEI_DOT]
         then Some (rd, False, False)
         else if cmd \<in> set [P_2ADD8, P_ADD16, P_INC8, P_BWR] then Some (READ, True, True)
         else if cmd \<in> set [TWOADD8, ADD16, TWOADDS8R, ADDS16R, INC8, XOR16, OR16, NOR16, AND16, NAND16, CASGT8, CASLT8,
                           CASGT16, CASLT16, CASEQ8, CASZERO16, EQ16, EQ8, BWR, BWR8R, SWAP16, PEI_ATOMIC]
         then Some (READ, False, True)
         else None)"

text \<open>\<open>ceil((double)packet->reqDataSize/32)\<close>.\<close>

definition data_beats :: "packet \<Rightarrow> nat" where
  "data_beats p = (unat (reqDataSize p) + 31) div 32"

definition active_operand :: "packet \<Rightarrow> dram_command \<Rightarrow> dram_command result" where
  "active_operand p rw =
     (if CMD p = ACT_ADD \<or> CMD p = ACT_DOT
      then checkE (SRCADRS1 p \<noteq> 0 \<and> SRCADRS2 p = 0) (Assertion ''SRCADRS1, SRCADRS2'')
             (Inr (rw\<lparr>srcAddr1 := SRCADRS1 p, destAddr := DESTADRS p, dc_operandBufID := operandBufID p\<rparr>))
      else if CMD p = ACT_MULT
      then checkE (SRCADRS1 p = 0 \<and> SRCADRS2 p \<noteq> 0 \<or> SRCADRS1 p \<noteq> 0 \<and> SRCADRS2 p = 0) (Assertion ''SRCADRS1, SRCADRS2'')
             (Inr ((if SRCADRS1 p \<noteq> 0 then rw\<lparr>srcAddr1 := SRCADRS1 p\<rparr> else rw\<lparr>srcAddr2 := SRCADRS2 p\<rparr>)
                     \<lparr>destAddr := DESTADRS p, dc_operandBufID := operandBufID p\<rparr>))
      else Inr rw)"

text \<open>
  The column command number \<open>i\<close> of \<open>n\<close>: all but the last keep the row open. The source enqueues
  the pointer before it sets the last members; here the finished command is enqueued.
\<close>

definition column_command ::
  "vc_par \<Rightarrow> packet \<Rightarrow> u32 \<times> u32 \<times> u32 \<Rightarrow> DRAMCommandType \<times> bool \<times> bool \<Rightarrow> nat \<Rightarrow> nat \<Rightarrow> dram_command" where
  "column_command par p adr op n i = (case (adr, op) of ((bankAdd, colAdd, rowAdd), (tempCMD, tempPosted, atm)) \<Rightarrow>
     (let final = \<not> i + 1 < n;
          ty = (if final then tempCMD else if tempCMD = WRITE_P then WRITE else if tempCMD = READ_P then READ else tempCMD)
      in (DRAMCommand (raw_command par) ty (TAG p) bankAdd colAdd rowAdd (reqDataSize p) tempPosted (trace p) final
            (CMD p) atm (segment p))\<lparr>dc_src_cube := word_of_int (SRCCUB p), dc_dest_cube := word_of_int (DESTCUB p)\<rparr>))"

definition conv_column ::
  "(packet \<Rightarrow> dram_command \<Rightarrow> dram_command result) \<Rightarrow> vc_par \<Rightarrow> packet \<Rightarrow> u32 \<times> u32 \<times> u32 \<Rightarrow> DRAMCommandType \<times> bool \<times> bool \<Rightarrow> nat \<Rightarrow> nat \<Rightarrow> 'v vault_scheme \<Rightarrow> 'v vault_scheme result" where
  "conv_column operand par p adr op n i v =
     (let rw = column_command par p adr op n i; isRead = (fst op = READ \<or> fst op = READ_P)
      in bindE (if isRead then operand p rw else Inr rw) (\<lambda>rw.
         (let rw = rw\<lparr>addr := orig_addr p, dc_tran_tag := tran_tag p\<rparr>;
              v = v\<lparr>commandQueue := Enqueue (cfg par) (unat (fst adr)) rw (commandQueue v)\<rparr>
          in Inr (if isRead
             then v\<lparr>pendingReadData := pendingReadData v @ [TAG p],
                    totalOperandRequests := totalOperandRequests v +
                      (if CMD p \<in> set [ACT_ADD, ACT_DOT, ACT_MULT] then 1 else 0)\<rparr>
             else v))))"

definition ConvPacketIntoCMDs ::
  "(packet \<Rightarrow> dram_command \<Rightarrow> dram_command result) \<Rightarrow> vc_par \<Rightarrow> packet \<Rightarrow> 'v vault_scheme \<Rightarrow> (bool \<times> 'v vault_scheme) result" where
  "ConvPacketIntoCMDs operand par p v =
     (let (bankAdd, colAdd, rowAdd) = AddressMapping (cfg par) (ADRS p); n = data_beats p
      in case conv_command (cfg par) (CMD p) of
           None \<Rightarrow> Inl (Exit ''WRONG packet command type'')
         | Some (tempCMD, tempPosted, atm) \<Rightarrow>
             if AvailableSpace (cfg par) (commandQueue v) (unat bankAdd) (of_nat (n + 1))
             then (let actCMD = (DRAMCommand (raw_command par) ACTIVATE (TAG p) bankAdd colAdd rowAdd 0 False (trace p) True
                          (CMD p) atm (segment p))\<lparr>dc_src_cube := word_of_int (SRCCUB p), dc_dest_cube := word_of_int (DESTCUB p)\<rparr>;
                       v = v\<lparr>commandQueue := Enqueue (cfg par) (unat bankAdd) actCMD (commandQueue v)\<rparr>
                   in bindE (foldE (conv_column operand par p (bankAdd, colAdd, rowAdd) (tempCMD, tempPosted, atm) n) [0..<n] v)
                        (\<lambda>v. Inr (True, v)))
             else Inr (False, v))"

text \<open>
  The loop over the downstream buffer. After a conversion the packet is erased and the index
  still advances, so the packet that moves up waits for the next cycle. \<open>k\<close> counts the
  iterations left; the buffer never grows, so its length at the start is enough.
\<close>

fun conv_loop :: "vc_par \<Rightarrow> nat \<Rightarrow> nat \<Rightarrow> vault \<Rightarrow> vault result" where
  "conv_loop par 0 i v = Inr v"
| "conv_loop par (Suc k) i v =
     (if i < length (downBuffers v)
      then (case downBuffers v ! i of
              None \<Rightarrow> conv_loop par k (i + 1) v
            | Some p \<Rightarrow> bindE (ConvPacketIntoCMDs active_operand par p v) (\<lambda>(ok, v).
                if ok then checkE (CMD p = ACT_ADD \<or> CMD p = ACT_DOT \<longrightarrow> SRCADRS1 p \<noteq> 0) (Assertion ''SRCADRS1'')
                             (bindE (erase_packet i (downBuffers v)) (\<lambda>buf. conv_loop par k (i + 1) (v\<lparr>downBuffers := buf\<rparr>)))
                else conv_loop par k (i + 1) v))
      else Inr v)"

section \<open>Buses, refresh and power-down\<close>

definition issue_cmdBus :: "vc_par \<Rightarrow> 'v vault_scheme \<times> dram \<Rightarrow> ('v vault_scheme \<times> dram) result" where
  "issue_cmdBus par s = (case s of (v, d) \<Rightarrow> (case cmdBus v of None \<Rightarrow> Inr (v, d)
     | Some cmd \<Rightarrow> (let v = v\<lparr>cmdCyclesLeft := cmdCyclesLeft v - 1\<rparr>
         in if cmdCyclesLeft v = 0
            then (let v = upd_trace (dc_trace cmd) (\<lambda>t. if vaultIssueTime t = 0
                        then t\<lparr>vaultIssueTime := ucast (currentClockCycle v)\<rparr> else t) v
                  in bindE (receiveCMD (cfg par) cmd d) (\<lambda>d. Inr (v\<lparr>cmdBus := None\<rparr>, d)))
            else Inr (v, d))))"

text \<open>
  The end of a posted write closes its trace: the latencies are set and the trace, deleted,
  enters the statistics.
\<close>

definition close_trace :: "vc_par \<Rightarrow> nat \<Rightarrow> 'v vault_scheme \<Rightarrow> 'v vault_scheme" where
  "close_trace par i v =
     (let now = currentClockCycle v;
          v = upd_trace (Some i) (\<lambda>t. set_vaultFullLat now (t\<lparr>tranFullLat := cpu_clock par now - tranTransmitTime t,
                linkFullLat := cpu_clock par now - linkTransmitTime t\<rparr>)) v
      in v\<lparr>v_statis := delete_TranTrace (v_traces v ! i) (v_statis v)\<rparr>)"

definition finish_write :: "'v respond \<Rightarrow> vc_par \<Rightarrow> dram_command \<Rightarrow> 'v vault_scheme \<Rightarrow> 'v vault_scheme result" where
  "finish_write respond par cmd v =
     (if lastCMD cmd
      then (if \<not> atomic cmd \<and> \<not> posted cmd
            then bindE (respond cmd v) (\<lambda>(ok, v). checkE (packetCMD cmd \<noteq> PEI_DOT) (Assertion ''PEI_DOT'') (Inr v))
            else (case dc_trace cmd of None \<Rightarrow> Inr v
                  | Some i \<Rightarrow> Inr (if posted cmd then close_trace par i v else v)))
      else Inr v)"

definition issue_dataBus :: "'v respond \<Rightarrow> vc_par \<Rightarrow> 'v vault_scheme \<times> dram \<Rightarrow> ('v vault_scheme \<times> dram) result" where
  "issue_dataBus respond par s = (case s of (v, d) \<Rightarrow> (case dataBus v of None \<Rightarrow> Inr (v, d)
     | Some cmd \<Rightarrow> (let v = v\<lparr>dataCyclesLeft := dataCyclesLeft v - 1\<rparr>
         in if dataCyclesLeft v = 0
            then bindE (finish_write respond par cmd v) (\<lambda>v.
                 bindE (receiveCMD (cfg par) cmd d) (\<lambda>d. Inr (v\<lparr>dataBus := None\<rparr>, d)))
            else Inr (v, d))))"

definition start_write_data :: "vc_par \<Rightarrow> 'v vault_scheme \<Rightarrow> 'v vault_scheme result" where
  "start_write_data par v = (if writeDataCountdown v = [] then Inr v
     else bindE (if hd (writeDataCountdown v) = 0
            then checkE (dataBus v = None) (Exit ''Data Bus Collision'')
                 (checkE (writeDataToSend v \<noteq> []) (Undefined ''writeDataToSend'')
                   (Inr (v\<lparr>dataBus := Some (hd (writeDataToSend v)), dataCyclesLeft := BL (cfg par),
                      writeDataCountdown := tl (writeDataCountdown v), writeDataToSend := tl (writeDataToSend v)\<rparr>)))
            else Inr v) (\<lambda>v. Inr (v\<lparr>writeDataCountdown := map (\<lambda>n. n - 1) (writeDataCountdown v)\<rparr>)))"

definition refresh_count :: "dram_config \<Rightarrow> 'v vault_scheme \<Rightarrow> 'v vault_scheme" where
  "refresh_count c v = (let v = v\<lparr>refreshCountdown := refreshCountdown v - 1\<rparr>
     in if refreshCountdown v = 0
        then v\<lparr>commandQueue := (commandQueue v)\<lparr>refreshWaiting := True\<rparr>, refreshCountdown := REFRESH_CYCLES (timing c)\<rparr>
        else v)"

definition UpdateCountdown :: "'v respond \<Rightarrow> vc_par \<Rightarrow> 'v vault_scheme \<times> dram \<Rightarrow> ('v vault_scheme \<times> dram) result" where
  "UpdateCountdown respond par s =
     bindE (issue_cmdBus par s) (\<lambda>s.
     bindE (issue_dataBus respond par s) (\<lambda>(v, d).
     bindE (start_write_data par v) (\<lambda>v. Inr (refresh_count (cfg par) v, d))))"

definition EnablePowerdown :: "dram_config \<Rightarrow> 'v vault_scheme \<times> dram \<Rightarrow> 'v vault_scheme \<times> dram" where
  "EnablePowerdown c s = (case s of (v, d) \<Rightarrow>
     (if USE_LOW_POWER c
      then (if isEmpty c (commandQueue v) \<and> \<not> refreshWaiting (commandQueue v)
            then (case DRAM_powerDown c d of (ok, d) \<Rightarrow> (if ok then v\<lparr>powerDown := True\<rparr> else v, d))
            else if powerDown v \<and> nextPowerUp (bankStates d ! 0) \<le> currentClockCycle v
            then (v\<lparr>powerDown := False\<rparr>, DRAM_powerUp c d)
            else (v, d))
      else (v, d)))"

section \<open>The update of a cycle\<close>

definition send_pcu :: "'v vault_scheme \<Rightarrow> 'v vault_scheme result" where
  "send_pcu v = (case pcuPacket v of [] \<Rightarrow> Inr v
     | p # ps \<Rightarrow> if bufPopDelay p = 0
         then bindE (vault_ReceiveUp p v) (\<lambda>(ok, v). Inr (if ok then v\<lparr>pcuPacket := ps\<rparr> else v)) else Inr v)"

text \<open>Sending the first response to the input buffer of the crossbar switch.\<close>

definition send_response :: "'v vault_scheme \<times> dual_vector \<Rightarrow> ('v vault_scheme \<times> dual_vector) result" where
  "send_response s = (case s of (v, ib) \<Rightarrow> (case upBuffers v of [] \<Rightarrow> Inr (v, ib)
     | None # buf \<Rightarrow> Inl (Exit ''Vault controller up buffer[0] is NULL'')
     | Some p # buf \<Rightarrow> (case ReceiveUp p ib of (ok, ib) \<Rightarrow>
         if ok then bindE (erase_packet 0 (upBuffers v)) (\<lambda>buf. Inr (v\<lparr>upBuffers := buf\<rparr>, ib)) else Inr (v, ib))))"

text \<open>The bookkeeping of a popped command: write data to follow, reserved upstream space, counters.\<close>

definition reservation :: "dram_command \<Rightarrow> u32" where
  "reservation cmd = (if lastCMD cmd \<and> \<not> posted cmd
     then (if commandType cmd = WRITE \<or> commandType cmd = WRITE_P then (if atomic cmd then 0 else 1)
           else if commandType cmd = READ \<or> commandType cmd = READ_P
           then (if \<not> atomic cmd then dataSize cmd div 16 + 1
                 else if write_response_atomic (packetCMD cmd) \<or> packetCMD cmd = PEI_ATOMIC then 1 else 2)
           else 0)
     else 0)"

definition note_popped :: "dram_config \<Rightarrow> dram_command \<Rightarrow> 'v vault_scheme \<Rightarrow> 'v vault_scheme" where
  "note_popped c cmd v =
     (let isWrite = (commandType cmd = WRITE \<or> commandType cmd = WRITE_P);
          isRead = (commandType cmd = READ \<or> commandType cmd = READ_P);
          counts = (lastCMD cmd \<and> \<not> posted cmd);
          v = (if isWrite then v\<lparr>writeDataToSend := writeDataToSend v @ [(DRAMCommand_copy cmd)\<lparr>commandType := WRITE_DATA\<rparr>],
                 writeDataCountdown := writeDataCountdown v @ [WL c]\<rparr> else v);
          v = (if counts \<and> isWrite then v\<lparr>DRAM_wr_data := DRAM_wr_data v + dataSize cmd\<rparr> else v);
          v = (if counts \<and> isRead then v\<lparr>DRAM_rd_data := DRAM_rd_data v + dataSize cmd,
                 DRAM_act_data := DRAM_act_data v + (if packetCMD cmd \<in> set [ACT_MULT, ACT_ADD, ACT_DOT] then dataSize cmd else 0)\<rparr>
               else v)
      in v\<lparr>pendingDataSize := pendingDataSize v + reservation cmd\<rparr>)"

definition vault_env :: "'v vault_scheme \<Rightarrow> dram \<Rightarrow> cq_env" where
  "vault_env v d = \<lparr>env_banks = bankStates d, env_pendingDataSize = pendingDataSize v, env_upBufferMax = upBufferMax v,
     env_upBuffers = length (upBuffers v)\<rparr>"

definition pop_command :: "vc_par \<Rightarrow> 'v vault_scheme \<Rightarrow> dram \<Rightarrow> 'v vault_scheme result" where
  "pop_command par v d = bindE (CmdPop (cfg par) (raw_command par) (vault_env v d) (commandQueue v)) (\<lambda>(r, q).
     (let v = v\<lparr>commandQueue := q\<rparr> in case r of None \<Rightarrow> Inr v
      | Some cmd \<Rightarrow> checkE (cmdBus v = None) (Exit ''Command bus collision'')
          (Inr ((note_popped (cfg par) cmd v)\<lparr>cmdBus := Some cmd, cmdCyclesLeft := tCMD (timing (cfg par))\<rparr>))))"

text \<open>The atomic operation: one cycle, then the write-back to the front of the queue and the response.\<close>

definition write_back :: "dram_config \<Rightarrow> dram_command \<Rightarrow> 'v vault_scheme \<Rightarrow> 'v vault_scheme" where
  "write_back c cmd v = (if packetCMD cmd \<noteq> EQ16 \<and> packetCMD cmd \<noteq> EQ8
     then (let rst = (DRAMCommand_copy cmd)\<lparr>commandType := (if OPEN_PAGE c then WRITE else WRITE_P), dataSize := 16,
                 lastCMD := True, dc_trace := (if \<not> posted cmd then None else dc_trace cmd)\<rparr>;
               q = commandQueue v
           in v\<lparr>commandQueue := set_que c (unat (bank cmd)) (rst # ACCESSQUE c q (unat (bank cmd))) q\<rparr>)
     else v)"

definition atomic_operation :: "'v respond \<Rightarrow> vc_par \<Rightarrow> 'v vault_scheme \<Rightarrow> 'v vault_scheme result" where
  "atomic_operation respond par v = (case atomicCMD v of None \<Rightarrow> Inr v
     | Some cmd \<Rightarrow> if atomicOperLeft v = 0
         then (let v = write_back (cfg par) cmd v
               in bindE (if \<not> posted cmd
                         then bindE (respond cmd v) (\<lambda>(ok, v).
                                checkE (packetCMD cmd \<noteq> PEI_DOT) (Assertion ''PEI_DOT'') (Inr v))
                         else Inr v) (\<lambda>v. Inr (v\<lparr>atomicCMD := None\<rparr>)))
         else Inr (v\<lparr>atomicOperLeft := atomicOperLeft v - 1\<rparr>))"

definition VaultController_Update ::
  "vc_par \<Rightarrow> vault \<times> dram \<times> dual_vector \<Rightarrow> (vault \<times> dram \<times> dual_vector) result" where
  "VaultController_Update par s = (case s of (v, d, ib) \<Rightarrow>
     bindE (send_pcu v) (\<lambda>v.
     bindE (UpdateCountdown (MakeRespondPacket par) par (v, d)) (\<lambda>(v, d).
     bindE (if dv_bufPopDelay v = 0 then conv_loop par (length (downBuffers v)) 0 v else Inr v) (\<lambda>v.
     bindE (send_response (v, ib)) (\<lambda>(v, ib).
     bindE (pop_command par v d) (\<lambda>v.
     bindE (atomic_operation (MakeRespondPacket par) par v) (\<lambda>v.
       (case EnablePowerdown (cfg par) (v, d) of (v, d) \<Rightarrow>
          (let v = v\<lparr>commandQueue := CommandQueue_Update (cfg par) (commandQueue v),
                     pcuPacket := map (\<lambda>p. if bufPopDelay p > 0 then p\<lparr>bufPopDelay := bufPopDelay p - 1\<rparr> else p) (pcuPacket v)\<rparr>
           in Inr (dual_Step v, d, ib))))))))))"

text \<open>A cycle of a vault in its cube: the controller and then its DRAM.\<close>

definition vault_cycle :: "vc_par \<Rightarrow> vault \<times> dram \<times> dual_vector \<Rightarrow> (vault \<times> dram \<times> dual_vector) result" where
  "vault_cycle par s = bindE (VaultController_Update par s) (\<lambda>(v, d, ib).
     bindE (DRAM_Update (ReturnCommand (MakeRespondPacket par)) (cfg par) v d) (\<lambda>(v, d). Inr (v, d, ib)))"

section \<open>What the operations leave alone\<close>

text \<open>The bus and clock fields, and the part of the command queue that scheduling depends on.\<close>

definition vframe :: "'v vault_scheme \<Rightarrow> dram_command option \<times> u32 \<times> dram_command option \<times> dram_command list \<times> u64 \<times> bool \<times> u64 \<times> nat" where
  "vframe v = (cmdBus v, cmdCyclesLeft v, dataBus v, writeDataToSend v, currentClockCycle v, is_link v,
     cq_clock (commandQueue v), issuedBank (commandQueue v))"

named_theorems vframe_simps \<open>operations that keep the bus and clock fields\<close>

lemma ReceiveUp_vframe [vframe_simps]: "ReceiveUp p v = (ok, v') \<Longrightarrow> vframe v' = vframe v"
  by (auto simp: ReceiveUp_def vframe_def split: prod.splits)

lemma vault_ReceiveUp_vframe [vframe_simps]: "vault_ReceiveUp p v = Inr (ok, v') \<Longrightarrow> vframe v' = vframe v"
  by (auto simp: vault_ReceiveUp_def err_simps ReceiveUp_vframe split: prod.splits)

lemma upd_trace_vframe [simp]: "vframe (upd_trace t f v) = vframe v"
  by (simp add: upd_trace_def vframe_def split: option.splits)

lemma vframe_update [simp]:
  "vframe (v\<lparr>pendingDataSize := n\<rparr>) = vframe v"
  "vframe (v\<lparr>pcuPacket := ps\<rparr>) = vframe v"
  "vframe (v\<lparr>v_statis := st\<rparr>) = vframe v"
  "vframe (v\<lparr>atomicCMD := a\<rparr>) = vframe v"
  "vframe (v\<lparr>atomicOperLeft := n\<rparr>) = vframe v"
  "vframe (v\<lparr>pendingReadData := ts\<rparr>) = vframe v"
  "vframe (v\<lparr>downBuffers := buf\<rparr>) = vframe v"
  "vframe (v\<lparr>upBuffers := buf\<rparr>) = vframe v"
  "vframe (v\<lparr>totalOperandRequests := k\<rparr>) = vframe v"
  "vframe (v\<lparr>powerDown := b\<rparr>) = vframe v"
  "vframe (v\<lparr>DRAM_rd_data := x\<rparr>) = vframe v"
  "vframe (v\<lparr>DRAM_wr_data := x\<rparr>) = vframe v"
  "vframe (v\<lparr>DRAM_act_data := x\<rparr>) = vframe v"
  "vframe (v\<lparr>refreshCountdown := x\<rparr>) = vframe v"
  "vframe (v\<lparr>writeDataCountdown := xs\<rparr>) = vframe v"
  by (simp_all add: vframe_def)

lemma MakeRespondPacket_vframe [vframe_simps]: "MakeRespondPacket par cmd v = Inr (ok, v') \<Longrightarrow> vframe v' = vframe v"
  by (auto simp: MakeRespondPacket_def push_pcu_def Let_def err_simps vault_ReceiveUp_vframe split: if_splits)

lemma send_pcu_vframe [vframe_simps]: "send_pcu v = Inr v' \<Longrightarrow> vframe v' = vframe v"
  by (auto simp: send_pcu_def err_simps vault_ReceiveUp_vframe split: list.splits if_splits)

lemma Enqueue_frame [simp]:
  "cq_clock (Enqueue c b cmd q) = cq_clock q" "issuedBank (Enqueue c b cmd q) = issuedBank q"
  by (simp_all add: Enqueue_def set_que_def Let_def)

lemma set_que_clock [simp]: "cq_clock (set_que c b xs q) = cq_clock q"
  by (simp add: set_que_def)

lemma conv_column_vframe: "conv_column operand par p adr op n i v = Inr v' \<Longrightarrow> vframe v' = vframe v"
  by (auto simp: conv_column_def Let_def err_simps vframe_def split: if_splits)

lemma foldE_vframe: "(\<And>x v v'. f x v = Inr v' \<Longrightarrow> vframe v' = vframe v) \<Longrightarrow> foldE f xs v = Inr v' \<Longrightarrow> vframe v' = vframe v"
  using foldE_inv [of xs "\<lambda>u. vframe u = vframe v" f v v'] by metis

lemma ConvPacketIntoCMDs_vframe: "ConvPacketIntoCMDs operand par p v = Inr (ok, v') \<Longrightarrow> vframe v' = vframe v"
proof -
  have f: "vframe v' = vframe v" if "foldE (conv_column operand par p adr op n) xs (v\<lparr>commandQueue := Enqueue c b cmd (commandQueue v)\<rparr>) = Inr v'"
    for adr op n xs c b cmd v'
    using foldE_vframe [OF conv_column_vframe that] by (simp add: vframe_def)
  show "ConvPacketIntoCMDs operand par p v = Inr (ok, v') \<Longrightarrow> ?thesis"
    by (auto simp: ConvPacketIntoCMDs_def Let_def err_simps split: prod.splits option.splits if_splits dest!: f)
qed

lemma conv_loop_vframe [vframe_simps]: "conv_loop par k i v = Inr v' \<Longrightarrow> vframe v' = vframe v"
proof (induction k arbitrary: i v)
  case (Suc k)
  show ?case
  proof (cases "i < length (downBuffers v)")
    case False
    then show ?thesis using Suc.prems by simp
  next
    case True
    show ?thesis
    proof (cases "downBuffers v ! i")
      case None
      then show ?thesis using Suc True by simp
    next
      case (Some p)
      then obtain ok u where c: "ConvPacketIntoCMDs active_operand par p v = Inr (ok, u)"
        using Suc.prems True by (auto simp: err_simps)
      then show ?thesis
        using Suc.prems Suc.IH [of _ "u\<lparr>downBuffers := _\<rparr>"] Suc.IH [of _ u] True Some ConvPacketIntoCMDs_vframe [OF c]
        by (auto simp: err_simps split: if_splits)
    qed
  qed
qed simp

lemma send_response_vframe [vframe_simps]: "send_response (v, ib) = Inr (v', ib') \<Longrightarrow> vframe v' = vframe v"
  by (auto simp: send_response_def err_simps split: list.splits option.splits prod.splits if_splits)

lemma write_back_vframe [simp]: "vframe (write_back c cmd v) = vframe v"
  by (simp add: write_back_def vframe_def Let_def)

lemma refresh_count_vframe [simp]: "vframe (refresh_count c v) = vframe v"
  by (simp add: refresh_count_def vframe_def Let_def)

section \<open>The vault and the timing protocol\<close>

lemma CmdPop_clock: "CmdPop c raw e q = Inr (r, q') \<Longrightarrow> cq_clock q' = cq_clock q"
proof -
  assume "CmdPop c raw e q = Inr (r, q')"
  then obtain q1 where s: "schedule c raw e (faw_ticked q) = Inr (r, q1)" and q': "cq_clock q' = cq_clock q1"
    by (auto simp: CmdPop_def err_simps)
  then show ?thesis using schedule_frame [OF s] by (simp add: cq_frame_def)
qed

text \<open>
  The invariant of a vault that drives its DRAM: the three clocks agree, what waits on the
  command bus is ready, and what waits on the data bus is write data.
\<close>

definition vault_inv :: "dram_config \<Rightarrow> 'v vault_scheme \<Rightarrow> dram \<Rightarrow> bool" where
  "vault_inv c v d \<longleftrightarrow> currentClockCycle v = dram_clock d \<and> cq_clock (commandQueue v) = dram_clock d \<and> \<not> is_link v
     \<and> issuedBank (commandQueue v) < NUM_BANKS c
     \<and> (\<forall>cmd. cmdBus v = Some cmd \<longrightarrow> dram_ready cmd d)
     \<and> (\<forall>cmd. dataBus v = Some cmd \<longrightarrow> commandType cmd = WRITE_DATA)
     \<and> (\<forall>cmd \<in> set (writeDataToSend v). commandType cmd = WRITE_DATA)"

lemma vault_inv_vframe: "vframe v' = vframe v \<Longrightarrow> vault_inv c v' d = vault_inv c v d"
  by (auto simp: vframe_def vault_inv_def)

text \<open>The commands a cycle puts into the DRAM, with their cycle.\<close>

definition sent :: "'v vault_scheme \<Rightarrow> dram \<Rightarrow> (nat \<times> dram_command) list" where
  "sent v d = (case cmdBus v of Some cmd \<Rightarrow> if cmdCyclesLeft v - 1 = 0 then [(unat (dram_clock d), cmd)] else []
     | None \<Rightarrow> [])"

lemma issue_cmdBus_run:
  assumes "issue_cmdBus par (v, d) = Inr (v', d')" "dram_run (cfg par) d h" "vault_inv (cfg par) v d"
  shows "dram_run (cfg par) d' (sent v d @ h) \<and> vault_inv (cfg par) v' d' \<and> dram_clock d' = dram_clock d"
proof (cases "cmdBus v")
  case None
  then show ?thesis using assms by (simp add: issue_cmdBus_def sent_def)
next
  case (Some cmd)
  let ?v = "v\<lparr>cmdCyclesLeft := cmdCyclesLeft v - 1\<rparr>"
  show ?thesis
  proof (cases "cmdCyclesLeft v - 1 = 0")
    case False
    then show ?thesis using assms Some by (auto simp: issue_cmdBus_def sent_def vault_inv_def Let_def)
  next
    case True
    then obtain f where r: "receiveCMD (cfg par) cmd d = Inr d'" and v': "v' = (upd_trace (dc_trace cmd) f ?v)\<lparr>cmdBus := None\<rparr>"
      using assms(1) Some by (auto simp: issue_cmdBus_def Let_def err_simps)
    have "vframe (upd_trace (dc_trace cmd) f ?v) = vframe ?v" by simp
    then have "vault_inv (cfg par) v' d'"
      using assms(3) receive_clock [OF r] v' by (simp add: vault_inv_def vframe_def)
    moreover have "dram_run (cfg par) d' ((unat (dram_clock d), cmd) # h)"
      using dram_run.issue [OF assms(2) _ r] assms(3) Some by (simp add: vault_inv_def)
    ultimately show ?thesis using True Some receive_clock [OF r] by (simp add: sent_def)
  qed
qed

lemma receive_write_data: "commandType cmd = WRITE_DATA \<Longrightarrow> receiveCMD c cmd d = Inr d"
  by (simp add: receiveCMD_def Let_def)

lemma start_write_data_inv:
  assumes "start_write_data par v = Inr v'" "vault_inv c v d"
  shows "vault_inv c v' d"
proof -
  have "hd (writeDataToSend v) \<in> set (writeDataToSend v)" if "writeDataToSend v \<noteq> []" using that by simp
  then show ?thesis using assms
    by (auto simp: start_write_data_def vault_inv_def err_simps split: if_splits dest: list.set_sel(2))
qed

section \<open>The virtual method\<close>

text \<open>
  What the rest of a vault controller relies on of its \<open>MakeRespondPacket\<close>, that of this class or of one
  derived from it: it leaves the buses and the clocks alone.
\<close>

locale responder =
  fixes respond :: "'v respond"
  assumes respond_vframe: "respond cmd v = Inr (ok, v') \<Longrightarrow> vframe v' = vframe v"
begin

lemma ReturnCommand_vframe: "ReturnCommand respond cmd v = Inr (ok, v') \<Longrightarrow> vframe v' = vframe v"
  by (auto simp: ReturnCommand_def err_simps respond_vframe split: option.splits if_splits)

lemma atomic_operation_vframe: "atomic_operation respond par v = Inr v' \<Longrightarrow> vframe v' = vframe v"
  by (auto simp: atomic_operation_def Let_def err_simps split: option.splits if_splits dest!: respond_vframe)

lemma finish_write_vframe: "finish_write respond par cmd v = Inr v' \<Longrightarrow> vframe v' = vframe v"
  by (auto simp: finish_write_def close_trace_def Let_def err_simps split: option.splits if_splits dest!: respond_vframe)

lemma issue_dataBus_inv:
  assumes "issue_dataBus respond par (v, d) = Inr (v', d')" "vault_inv (cfg par) v d"
  shows "d' = d \<and> vault_inv (cfg par) v' d"
proof (cases "dataBus v")
  case None
  then show ?thesis using assms by (simp add: issue_dataBus_def)
next
  case (Some cmd)
  let ?v = "v\<lparr>dataCyclesLeft := dataCyclesLeft v - 1\<rparr>"
  have w: "receiveCMD (cfg par) cmd d = Inr d"
    using assms(2) Some by (intro receive_write_data) (simp add: vault_inv_def)
  have f: "vault_inv (cfg par) ?v d" using assms(2) by (simp add: vault_inv_def)
  show ?thesis
  proof (cases "dataCyclesLeft v - 1 = 0")
    case False
    then show ?thesis using assms(1) Some f by (auto simp: issue_dataBus_def Let_def)
  next
    case True
    then obtain u where u: "finish_write respond par cmd ?v = Inr u" "v' = u\<lparr>dataBus := None\<rparr>" "d' = d"
      using assms(1) Some w by (auto simp: issue_dataBus_def Let_def err_simps)
    then have "vault_inv (cfg par) u d" using f finish_write_vframe vault_inv_vframe by blast
    then show ?thesis using u by (simp add: vault_inv_def)
  qed
qed

lemma UpdateCountdown_run:
  assumes "UpdateCountdown respond par (v, d) = Inr (v', d')" "dram_run (cfg par) d h" "vault_inv (cfg par) v d"
  shows "dram_run (cfg par) d' (sent v d @ h) \<and> vault_inv (cfg par) v' d' \<and> dram_clock d' = dram_clock d"
proof -
  obtain v1 d1 v2 d2 v3 where s: "issue_cmdBus par (v, d) = Inr (v1, d1)" "issue_dataBus respond par (v1, d1) = Inr (v2, d2)"
    "start_write_data par v2 = Inr v3" "v' = refresh_count (cfg par) v3" "d' = d2"
    using assms(1) by (auto simp: UpdateCountdown_def err_simps)
  note r = issue_cmdBus_run [OF s(1) assms(2,3)]
  then have i: "d2 = d1" "vault_inv (cfg par) v2 d1" using issue_dataBus_inv [OF s(2)] by auto
  have "vault_inv (cfg par) v3 d1" by (rule start_write_data_inv [OF s(3) i(2)])
  then have "vault_inv (cfg par) v' d1" unfolding s(4) using vault_inv_vframe [OF refresh_count_vframe] by blast
  then show ?thesis using r i(1) s(5) by simp
qed

lemma DRAM_Update_vframe:
  "DRAM_Update (ReturnCommand respond) c v d = Inr (v', d') \<Longrightarrow> vframe v' = vframe v"
  by (auto simp: DRAM_Update_def DRAM_UpdateState_def return_data_def Let_def err_simps ReturnCommand_vframe
      split: option.splits if_splits)

end

interpretation vc: responder "MakeRespondPacket par" for par
  by unfold_locales (rule MakeRespondPacket_vframe)

lemma pop_command_inv:
  assumes "pop_command par v d = Inr v'" "vault_inv (cfg par) v d" "NUM_BANKS (cfg par) \<le> 2 ^ 32"
    "length (bankStates d) = NUM_BANKS (cfg par)"
  shows "vault_inv (cfg par) v' d"
proof -
  let ?c = "cfg par" and ?q = "commandQueue v"
  obtain r q where p: "CmdPop ?c (raw_command par) (vault_env v d) ?q = Inr (r, q)"
    using assms(1) by (auto simp: pop_command_def err_simps)
  have ok: "pick_ok ?c (vault_env v d) (faw_ticked ?q) (r, q)" "issuedBank q < NUM_BANKS ?c"
    using CmdPop_ok [OF p assms(3)] assms(2) by (simp_all add: vault_inv_def)
  have clk: "cq_clock q = cq_clock ?q" using CmdPop_clock [OF p] .
  show ?thesis
  proof (cases r)
    case None
    then show ?thesis using assms(1,2) p ok(2) clk by (auto simp: pop_command_def vault_inv_def)
  next
    case (Some cmd)
    then have v': "v' = (note_popped ?c cmd (v\<lparr>commandQueue := q\<rparr>))\<lparr>cmdBus := Some cmd, cmdCyclesLeft := tCMD (timing ?c)\<rparr>"
      using assms(1) p by (simp add: pop_command_def err_simps)
    have "dram_ready cmd d"
      using picked_ready [of ?c "vault_env v d" "faw_ticked ?q" cmd "cq_queue q" d] ok(1) Some assms(2,4)
      by (simp add: vault_env_def vault_inv_def)
    then show ?thesis using assms(2) ok(2) clk unfolding v'
      by (auto simp: vault_inv_def note_popped_def DRAMCommand_copy_def Let_def)
  qed
qed

text \<open>Whatever the controller does with the returned data, the DRAM takes a step of its own.\<close>

lemma return_data_unit:
  "return_data ret v d = Inr (v', d') \<Longrightarrow> \<exists>ret'. return_data ret' () d = Inr ((), d')"
proof (cases "readData d")
  case None
  then show "return_data ret v d = Inr (v', d') \<Longrightarrow> ?thesis" by (simp add: return_data_def)
next
  case (Some cmd)
  assume r: "return_data ret v d = Inr (v', d')"
  obtain ok where "return_data (\<lambda>_ _. Inr (ok, ())) () d = Inr ((), d')"
    using r Some by (auto simp: return_data_def Let_def err_simps split: if_splits)
  then show ?thesis by blast
qed

lemma DRAM_Update_unit:
  assumes "DRAM_Update ret c v d = Inr (v', d')"
  shows "\<exists>ret'. DRAM_Update ret' c () d = Inr ((), d')"
proof -
  obtain d1 d2 where s: "return_data ret v (map_banks (\<lambda>i. update_bank c) d) = Inr (v', d1)" "start_read_data c d1 = Inr d2"
    "d' = (d2\<lparr>readReturnCountdown := map (\<lambda>n. if n > 0 then n - 1 else n) (readReturnCountdown d2)\<rparr>)\<lparr>dram_clock := dram_clock d2 + 1\<rparr>"
    using assms by (auto simp: DRAM_Update_def DRAM_UpdateState_def err_simps)
  obtain ret' where "return_data ret' () (map_banks (\<lambda>i. update_bank c) d) = Inr ((), d1)"
    using return_data_unit [OF s(1)] by blast
  then have "DRAM_Update ret' c () d = Inr ((), d')" using s(2,3) by (simp add: DRAM_Update_def DRAM_UpdateState_def)
  then show ?thesis by blast
qed

lemma dram_ready_tick:
  assumes "dram_ready cmd d" "DRAM_Update ret c v d = Inr (v', d')" "dram_clock d < 2 ^ 63"
  shows "dram_ready cmd d'"
proof -
  note b = DRAM_Update_banks [OF assms(2)]
  have "dram_clock d \<le> dram_clock d'"
    using b clock_Suc [OF assms(3)] by (simp add: word_le_nat_alt)
  moreover have "\<forall>i < length (bankStates d). \<forall>k. earliest k (bankStates d' ! i) = earliest k (bankStates d ! i)"
    "length (bankStates d') = length (bankStates d)"
    using b by simp_all
  ultimately show ?thesis using assms(1) unfolding dram_ready_def by (metis order_trans)
qed

text \<open>One cycle of the vault, with the low-power mode off, is a step of the timing protocol.\<close>

lemma vault_cycle_run:
  assumes "vault_cycle par (v, d, ib) = Inr (v', d', ib')" "dram_run (cfg par) d h" "vault_inv (cfg par) v d"
    "\<not> USE_LOW_POWER (cfg par)" "NUM_BANKS (cfg par) \<le> 2 ^ 32" "dram_clock d < 2 ^ 63"
  shows "dram_run (cfg par) d' (sent v d @ h) \<and> vault_inv (cfg par) v' d'"
proof -
  obtain v1 v2 d2 v3 v4 v5 v6 v7 where s: "send_pcu v = Inr v1" "UpdateCountdown (MakeRespondPacket par) par (v1, d) = Inr (v2, d2)"
    "(if dv_bufPopDelay v2 = 0 then conv_loop par (length (downBuffers v2)) 0 v2 else Inr v2) = Inr v3"
    "send_response (v3, ib) = Inr (v4, ib')" "pop_command par v4 d2 = Inr v5" "atomic_operation (MakeRespondPacket par) par v5 = Inr v6"
    and v7: "v7 = dual_Step (v6\<lparr>commandQueue := CommandQueue_Update (cfg par) (commandQueue v6),
       pcuPacket := map (\<lambda>p. if bufPopDelay p > 0 then p\<lparr>bufPopDelay := bufPopDelay p - 1\<rparr> else p) (pcuPacket v6)\<rparr>)"
    and u: "DRAM_Update (ReturnCommand (MakeRespondPacket par)) (cfg par) v7 d2 = Inr (v', d')"
    using assms(1,4) by (auto simp: vault_cycle_def VaultController_Update_def EnablePowerdown_def err_simps Let_def)
  have f1: "vframe v1 = vframe v" by (rule send_pcu_vframe [OF s(1)])
  then have "sent v1 d = sent v d" by (simp add: sent_def vframe_def cong: option.case_cong)
  moreover have "vault_inv (cfg par) v1 d" using assms(3) vault_inv_vframe [OF f1] by blast
  ultimately have r2: "dram_run (cfg par) d2 (sent v d @ h)" and i2: "vault_inv (cfg par) v2 d2" and c2: "dram_clock d2 = dram_clock d"
    using vc.UpdateCountdown_run [OF s(2) assms(2)] by auto
  have "vframe v3 = vframe v2" using s(3) by (auto split: if_splits dest: conv_loop_vframe)
  then have "vframe v4 = vframe v2" using send_response_vframe [OF s(4)] by simp
  then have "vault_inv (cfg par) v4 d2" using i2 vault_inv_vframe by blast
  then have "vault_inv (cfg par) v5 d2"
    using pop_command_inv [OF s(5) _ assms(5)] run_banks [OF r2] by simp
  then have i6: "vault_inv (cfg par) v6 d2" using vc.atomic_operation_vframe [OF s(6)] vault_inv_vframe by blast
  obtain ret' where t: "DRAM_Update ret' (cfg par) () d2 = Inr ((), d')" using DRAM_Update_unit [OF u] by blast
  have "dram_run (cfg par) d' (sent v d @ h)" using dram_run.tick [OF r2 _ t] assms(6) c2 by simp
  moreover have "vault_inv (cfg par) v7 d'"
    using i6 DRAM_Update_banks [OF u] dram_ready_tick [OF _ u] assms(6) c2 unfolding v7
    by (auto simp: vault_inv_def dual_Step_def CommandQueue_Update_def Let_def)
  ultimately show ?thesis using vault_inv_vframe [OF vc.DRAM_Update_vframe [OF u]] by simp
qed

text \<open>
  The life of a vault: at every cycle the crossbar switch may have changed the buffers on its side
  (request packets received) and the traces it shares, before the controller and its DRAM are
  updated.
\<close>

inductive vault_run :: "vc_par \<Rightarrow> vault \<Rightarrow> dram \<Rightarrow> (nat \<times> dram_command) list \<Rightarrow> bool" for par where
  init: "vault_run par ((VaultController (cfg par) ops tr st)\<lparr>refreshCountdown := r\<rparr>) (DRAM (cfg par)) []"
| outside: "vault_run par v d h \<Longrightarrow> vault_run par (v\<lparr>downBuffers := down, dv_bufPopDelay := n, artBuffers := art,
    v_traces := tr, v_statis := st\<rparr>) d h"
| cycle: "vault_run par v d h \<Longrightarrow> dram_clock d < 2 ^ 63 \<Longrightarrow> vault_cycle par (v, d, ib) = Inr (v', d', ib') \<Longrightarrow>
    vault_run par v' d' (sent v d @ h)"

lemma vault_run_drives:
  "vault_run par v d h \<Longrightarrow> \<not> USE_LOW_POWER (cfg par) \<Longrightarrow> NUM_BANKS (cfg par) \<le> 2 ^ 32 \<Longrightarrow> 0 < NUM_BANKS (cfg par) \<Longrightarrow>
     dram_run (cfg par) d h \<and> vault_inv (cfg par) v d"
proof (induction rule: vault_run.induct)
  case (init ops tr st r)
  then show ?case
    by (simp add: dram_run.init)
      (simp add: vault_inv_def VaultController_def DualVectorObject_def CommandQueue_def DRAM_def Let_def dual_vector.defs vault.defs)
next
  case (outside v d h down n art tr st)
  then show ?case by (simp add: vault_inv_def)
next
  case (cycle v d h ib v' d' ib')
  then show ?case using vault_cycle_run [OF cycle.hyps(3)] by blast
qed

section \<open>Requests and their commands\<close>

lemma foldE_upt_inv:
  assumes "P 0 v" and "\<And>i u u'. i < n \<Longrightarrow> P i u \<Longrightarrow> f i u = Inr u' \<Longrightarrow> P (Suc i) u'" and "foldE f [0..<n] v = Inr v'"
  shows "P n v'"
proof -
  have "P n v'" if "P k u" "n = k + m" "foldE f [k..<n] u = Inr v'" for m k u
    using that
  proof (induction m arbitrary: k u)
    case (Suc m)
    then have k: "[k..<n] = k # [Suc k..<n]" by (simp add: upt_conv_Cons del: upt_Suc)
    obtain u1 where u1: "f k u = Inr u1" "foldE f [Suc k..<n] u1 = Inr v'"
      using Suc.prems(3) unfolding k by (auto simp: err_simps)
    have "P (Suc k) u1" using assms(2) [OF _ Suc.prems(1) u1(1)] Suc.prems(2) by simp
    then show ?case using Suc.IH u1(2) Suc.prems(2) by simp
  qed simp
  from this [of 0 v n] show ?thesis using assms(1,3) by simp
qed

text \<open>The commands of a request, as they have to appear in the queue of its bank.\<close>

definition serves :: "dram_config \<Rightarrow> packet \<Rightarrow> dram_command \<Rightarrow> bool" where
  "serves c p cmd \<longleftrightarrow> (bank cmd, column cmd, row cmd) = AddressMapping c (ADRS p) \<and> packetTAG cmd = TAG p \<and> packetCMD cmd = CMD p
     \<and> dc_segment cmd = segment p \<and> dc_trace cmd = trace p"

definition column_access :: "DRAMCommandType \<Rightarrow> nat \<Rightarrow> packet \<Rightarrow> nat \<Rightarrow> dram_command \<Rightarrow> bool" where
  "column_access ty n p i cmd \<longleftrightarrow> lastCMD cmd = (i + 1 = n) \<and> dataSize cmd = reqDataSize p \<and> addr cmd = orig_addr p
     \<and> dc_tran_tag cmd = tran_tag p \<and> commandType cmd = (if i + 1 = n then ty else if ty = WRITE_P then WRITE
          else if ty = READ_P then READ else ty)"

lemma active_operand_keeps:
  "active_operand p rw = Inr rw' \<Longrightarrow> serves c p rw' = serves c p rw \<and> commandType rw' = commandType rw \<and> lastCMD rw' = lastCMD rw
     \<and> dataSize rw' = dataSize rw"
  by (auto simp: active_operand_def err_simps serves_def split: if_splits)

lemma ACCESSQUE_Enqueue:
  "que_index c b < length (cq_queue q) \<Longrightarrow> ACCESSQUE c (Enqueue c b cmd q) b = ACCESSQUE c q b @ [cmd]"
  "length (cq_queue (Enqueue c b cmd q)) = length (cq_queue q)"
  by (simp_all add: Enqueue_def ACCESSQUE_def set_que_def Let_def)

lemma conv_column_queue:
  assumes "conv_column active_operand par p adr op n i v = Inr v'" and "AddressMapping (cfg par) (ADRS p) = adr" and "i < n"
    and "que_index (cfg par) (unat (fst adr)) < length (cq_queue (commandQueue v))"
  shows "\<exists>rw. serves (cfg par) p rw \<and> column_access (fst op) n p i rw
    \<and> ACCESSQUE (cfg par) (commandQueue v') (unat (fst adr)) = ACCESSQUE (cfg par) (commandQueue v) (unat (fst adr)) @ [rw]
    \<and> length (cq_queue (commandQueue v')) = length (cq_queue (commandQueue v))"
proof -
  let ?rw = "column_command par p adr op n i"
  obtain ty po at b cl r where op: "op = (ty, po, at)" and adr: "adr = (b, cl, r)" by (metis prod_cases3)
  obtain rw where rw: "(if ty = READ \<or> ty = READ_P then active_operand p ?rw else Inr ?rw) = Inr rw"
    and q: "commandQueue v' = Enqueue (cfg par) (unat b) (rw\<lparr>addr := orig_addr p, dc_tran_tag := tran_tag p\<rparr>) (commandQueue v)"
    using assms(1) by (auto simp: conv_column_def Let_def err_simps op adr split: if_splits)
  have "serves (cfg par) p ?rw" using assms(2) by (simp add: serves_def column_command_def Let_def op adr DRAMCommand_def)
  then have "serves (cfg par) p rw" "commandType rw = commandType ?rw" "lastCMD rw = lastCMD ?rw" "dataSize rw = dataSize ?rw"
    using rw active_operand_keeps by (auto split: if_splits)
  moreover from this(2-) have "column_access ty n p i (rw\<lparr>addr := orig_addr p, dc_tran_tag := tran_tag p\<rparr>)"
    using assms(3) by (auto simp: column_access_def column_command_def Let_def op adr DRAMCommand_def)
  ultimately show ?thesis
    using q assms(4) op adr
    by (intro exI [of _ "rw\<lparr>addr := orig_addr p, dc_tran_tag := tran_tag p\<rparr>"]) (simp add: ACCESSQUE_Enqueue serves_def)
qed

lemma nth_snoc_all: "(\<forall>j < length xs. P j (xs ! j)) \<Longrightarrow> P (length xs) x \<Longrightarrow> j < Suc (length xs) \<Longrightarrow> P j ((xs @ [x]) ! j)"
  by (auto simp: nth_append less_Suc_eq)

lemma conv_fold_queue:
  assumes "foldE (conv_column active_operand par p adr op n) [0..<n] (v :: 'v vault_scheme) = Inr v'" and "AddressMapping (cfg par) (ADRS p) = adr"
    and "que_index (cfg par) (unat (fst adr)) < length (cq_queue (commandQueue v))"
  shows "\<exists>cols. length cols = n \<and> (\<forall>i < n. serves (cfg par) p (cols ! i) \<and> column_access (fst op) n p i (cols ! i))
    \<and> ACCESSQUE (cfg par) (commandQueue v') (unat (fst adr)) = ACCESSQUE (cfg par) (commandQueue v) (unat (fst adr)) @ cols"
proof -
  let ?Q = "\<lambda>u :: 'v vault_scheme. ACCESSQUE (cfg par) (commandQueue u) (unat (fst adr))" and ?l = "\<lambda>u :: 'v vault_scheme. length (cq_queue (commandQueue u))"
  let ?ok = "\<lambda>i cmd. serves (cfg par) p cmd \<and> column_access (fst op) n p i cmd"
  define P where "P i u \<longleftrightarrow> ?l u = ?l v \<and> (\<exists>cols. length cols = i \<and> (\<forall>j < i. ?ok j (cols ! j)) \<and> ?Q u = ?Q v @ cols)" for i and u :: "'v vault_scheme"
  have "P (Suc i) u'" if i: "i < n" and u: "P i u" and s: "conv_column active_operand par p adr op n i u = Inr u'" for i u u'
  proof -
    obtain cols where c: "length cols = i" "\<forall>j < i. ?ok j (cols ! j)" "?Q u = ?Q v @ cols" and l: "?l u = ?l v"
      using u by (auto simp: P_def)
    obtain rw where r: "?ok i rw" "?Q u' = ?Q u @ [rw]" "?l u' = ?l u"
      using conv_column_queue [OF s assms(2) i] assms(3) l by auto
    have "?ok j ((cols @ [rw]) ! j)" if "j < Suc i" for j
      using nth_snoc_all [where P = ?ok and xs = cols and x = rw and j = j] c r(1) that by simp
    moreover have "length (cols @ [rw]) = Suc i" "?Q u' = ?Q v @ cols @ [rw]" "?l u' = ?l v" using c r l by simp_all
    ultimately show ?thesis unfolding P_def by blast
  qed
  moreover have "P 0 v" by (simp add: P_def)
  ultimately have "P n v'" using foldE_upt_inv [of P v n "conv_column active_operand par p adr op n" v'] assms(1) by blast
  then show ?thesis by (auto simp: P_def)
qed

lemma ConvPacketIntoCMDs_queue:
  assumes "ConvPacketIntoCMDs active_operand par p v = Inr (True, v')" and "AddressMapping (cfg par) (ADRS p) = (b, cl, r)"
    and "que_index (cfg par) (unat b) < length (cq_queue (commandQueue v))"
  shows "\<exists>act cols ty po at. conv_command (cfg par) (CMD p) = Some (ty, po, at) \<and> commandType act = ACTIVATE \<and> serves (cfg par) p act
    \<and> length cols = data_beats p \<and> (\<forall>i < data_beats p. serves (cfg par) p (cols ! i) \<and> column_access ty (data_beats p) p i (cols ! i))
    \<and> ACCESSQUE (cfg par) (commandQueue v') (unat b) = ACCESSQUE (cfg par) (commandQueue v) (unat b) @ act # cols"
proof -
  obtain ty po at where op: "conv_command (cfg par) (CMD p) = Some (ty, po, at)"
    using assms(1,2) by (cases "conv_command (cfg par) (CMD p)") (auto simp: ConvPacketIntoCMDs_def)
  let ?act = "(DRAMCommand (raw_command par) ACTIVATE (TAG p) b cl r 0 False (trace p) True
     (CMD p) at (segment p))\<lparr>dc_src_cube := word_of_int (SRCCUB p), dc_dest_cube := word_of_int (DESTCUB p)\<rparr>"
  let ?v = "v\<lparr>commandQueue := Enqueue (cfg par) (unat b) ?act (commandQueue v)\<rparr>"
  have f: "foldE (conv_column active_operand par p (b, cl, r) (ty, po, at) (data_beats p)) [0..<data_beats p] ?v = Inr v'"
    using assms(1,2) op by (auto simp: ConvPacketIntoCMDs_def Let_def err_simps split: if_splits)
  have "commandType ?act = ACTIVATE" "serves (cfg par) p ?act" using assms(2) by (simp_all add: serves_def DRAMCommand_def)
  moreover obtain cols where "length cols = data_beats p"
    "\<forall>i < data_beats p. serves (cfg par) p (cols ! i) \<and> column_access ty (data_beats p) p i (cols ! i)"
    "ACCESSQUE (cfg par) (commandQueue v') (unat b) = ACCESSQUE (cfg par) (commandQueue ?v) (unat b) @ cols"
    using conv_fold_queue [OF f assms(2)] assms(3) by (auto simp: ACCESSQUE_Enqueue)
  ultimately show ?thesis using op assms(3) by (intro exI [of _ ?act] exI [of _ cols]) (simp add: ACCESSQUE_Enqueue)
qed

section \<open>Space for the responses\<close>

definition room :: "'v vault_scheme \<Rightarrow> bool" where
  "room v \<longleftrightarrow> unat (pendingDataSize v) + length (upBuffers v) \<le> upBufferMax v"

lemma unat_flits: "unat ((n :: u32) div 16 + 1) = unat n div 16 + 1 \<and> unat n div 16 + 1 \<le> 2 ^ 28"
proof -
  have "unat n div 16 < 2 ^ 28" using unat_u32_lt [of n] by (simp add: div_less_iff_less_mult del: unat_u32_lt)
  then show ?thesis by (simp add: unat_word_ariths unat_div)
qed

lemma response_space_room:
  assumes "response_space e cmd" and "unat (env_pendingDataSize e) + env_upBuffers e \<le> env_upBufferMax e" and "env_upBufferMax e < 2 ^ 31"
  shows "unat (env_pendingDataSize e) + unat (dataSize cmd div 16 + 1) + env_upBuffers e \<le> env_upBufferMax e"
proof -
  let ?p = "env_pendingDataSize e" and ?s = "dataSize cmd div 16 + 1" and ?m = "env_upBufferMax e" and ?u = "env_upBuffers e"
  note s = unat_flits [of "dataSize cmd"]
  have p: "unat (?p + ?s) = unat ?p + unat ?s" using s assms(2,3) by (simp add: unat_word_ariths)
  have "unat (of_nat ?m - of_nat ?u :: u64) = ?m - ?u"
    using assms(2,3) by (subst unat_sub) (simp_all add: word_le_nat_alt unat_of_nat)
  then have "unat (?p + ?s) \<le> ?m - ?u"
    using assms(1) by (simp add: response_space_def word_le_nat_alt unat_ucast_u64 add.assoc)
  then show ?thesis using p assms(2) by simp
qed

lemma issuable_space:
  assumes "isIssuable c e q cmd = Inr True" and "reservation cmd \<noteq> 0"
  shows "response_space e cmd"
  using assms by (auto simp: isIssuable_def reservation_def Let_def err_simps split: DRAMCommandType.splits if_splits)

lemma reservation_le: "(atomic cmd \<longrightarrow> 16 \<le> dataSize cmd) \<Longrightarrow> unat (reservation cmd) \<le> unat (dataSize cmd div 16 + 1)"
proof -
  assume a: "atomic cmd \<longrightarrow> 16 \<le> dataSize cmd"
  have "unat (dataSize cmd div 16 + 1) = unat (dataSize cmd) div 16 + 1" using unat_flits by blast
  then show ?thesis using a by (auto simp: reservation_def word_le_nat_alt)
qed

lemma note_popped_room [simp]:
  "pendingDataSize (note_popped c cmd v) = pendingDataSize v + reservation cmd" "upBuffers (note_popped c cmd v) = upBuffers v"
  "upBufferMax (note_popped c cmd v) = upBufferMax v"
  by (simp_all add: note_popped_def Let_def)

lemma pop_command_room:
  assumes "pop_command par v d = Inr v'" and "room v" and "upBufferMax v < 2 ^ 31"
    and "NUM_BANKS (cfg par) \<le> 2 ^ 32" and "issuedBank (commandQueue v) < NUM_BANKS (cfg par)"
    and "\<forall>b < NUM_BANKS (cfg par). \<forall>cmd \<in> set (ACCESSQUE (cfg par) (commandQueue v) b). atomic cmd \<longrightarrow> 16 \<le> dataSize cmd"
  shows "room v'"
proof -
  let ?c = "cfg par" and ?q = "commandQueue v" and ?e = "vault_env v d"
  obtain r q where p: "CmdPop ?c (raw_command par) ?e ?q = Inr (r, q)" using assms(1) by (auto simp: pop_command_def err_simps)
  have ok: "pick_ok ?c ?e (faw_ticked ?q) (r, q)" using CmdPop_ok [OF p assms(4,5)] by simp
  show ?thesis
  proof (cases r)
    case None
    then show ?thesis using assms(1,2) p by (auto simp: pop_command_def room_def)
  next
    case (Some cmd)
    then have v': "pendingDataSize v' = pendingDataSize v + reservation cmd" "upBuffers v' = upBuffers v" "upBufferMax v' = upBufferMax v"
      using assms(1) p by (auto simp: pop_command_def err_simps)
    have "picked ?c ?e (faw_ticked ?q) cmd (cq_queue q)" using ok Some by simp
    then have "reservation cmd = 0 \<or> isIssuable ?c ?e (faw_ticked ?q) cmd = Inr True \<and> (atomic cmd \<longrightarrow> 16 \<le> dataSize cmd)"
      using assms(6) by (auto simp: picked_def from_queue_def made_precharge_def made_refresh_def reservation_def)
    then consider "reservation cmd = 0" | "response_space ?e cmd" "unat (reservation cmd) \<le> unat (dataSize cmd div 16 + 1)"
      using issuable_space [of ?c ?e "faw_ticked ?q" cmd] reservation_le [of cmd] by blast
    then show ?thesis
    proof cases
      case 2
      have "unat (pendingDataSize v) + unat (dataSize cmd div 16 + 1) + length (upBuffers v) \<le> upBufferMax v"
        using response_space_room [OF 2(1)] assms(2,3) by (simp add: vault_env_def room_def)
      moreover have "unat (pendingDataSize v + reservation cmd) \<le> unat (pendingDataSize v) + unat (reservation cmd)"
        by (simp add: unat_word_ariths)
      ultimately show ?thesis using v' 2(2) by (simp add: room_def)
    qed (use v' assms(2) in \<open>simp add: room_def\<close>)
  qed
qed

lemma CMD_response [simp]: "CMD (response par cmd rs lng) = rs"
  by (simp add: response_def Packet_response_def packet_payload_def Let_def)

lemma respond_packet_cmd: "respond_packet par cmd = Inr (p, sz) \<Longrightarrow>
    CMD p \<in> set [RD_RS, WR_RS, ACT_ADD, ACT_MULT, ACT_DOT, PEI_DOT, PEI_ATOMIC]"
  by (auto simp: respond_packet_def read_response_def Let_def err_simps split: if_splits)

lemma MakeRespondPacket_fits:
  assumes "respond_packet par cmd = Inr (p, sz)" and "CMD p \<noteq> PEI_DOT" and "1 \<le> LNG p" and "LNG p \<le> sz" and "sz \<le> pendingDataSize v"
    and "room v"
  shows "\<exists>v'. MakeRespondPacket par cmd v = Inr (True, v') \<and> room v' \<and> length (upBuffers v') = length (upBuffers v) + unat (LNG p)
    \<and> pendingDataSize v' = pendingDataSize v - sz"
proof -
  let ?p = "p\<lparr>ADRS := drop_bit 30 (push_bit 30 (addr cmd)), orig_addr := addr cmd, tran_tag := dc_tran_tag cmd, segment := dc_segment cmd\<rparr>"
  let ?u = "v\<lparr>upBuffers := upBuffers v @ packet_slots ?p\<rparr>"
  have l: "length (packet_slots ?p) = unat (LNG p)" using length_packet_slots [of ?p] assms(3) by simp
  have u: "unat (LNG p) \<le> unat sz" "unat sz \<le> unat (pendingDataSize v)" using assms(4,5) by (simp_all add: word_le_nat_alt)
  have "receive (upBufferMax v) ?p (upBuffers v) = (True, upBuffers v @ packet_slots ?p)"
    using u assms(6) by (simp add: receive_def room_def)
  then have "vault_ReceiveUp ?p v = Inr (True, ?u)"
    using respond_packet_cmd [OF assms(1)] by (auto simp: vault_ReceiveUp_def ReceiveUp_def CallbackReceiveUp_def)
  then have m: "MakeRespondPacket par cmd v = Inr (True, (upd_trace (dc_trace cmd) (set_vaultFullLat (currentClockCycle v)) ?u)
      \<lparr>pendingDataSize := pendingDataSize v - sz\<rparr>)"
    using assms(1,2) by (simp add: MakeRespondPacket_def Let_def)
  have "upBuffers (upd_trace t f ?u) = upBuffers ?u" "upBufferMax (upd_trace t f ?u) = upBufferMax v" for t f
    by (simp_all add: upd_trace_def split: option.splits)
  moreover have "unat (pendingDataSize v - sz) = unat (pendingDataSize v) - unat sz" using assms(5) by (simp add: unat_sub)
  ultimately show ?thesis using m l u assms(6) by (simp add: room_def)
qed

section \<open>Examples\<close>

text \<open>Running a vault for some cycles, with the history.\<close>

fun vault_trace :: "vc_par \<Rightarrow> nat \<Rightarrow> vault \<times> dram \<times> dual_vector \<Rightarrow> (nat \<times> dram_command) list \<Rightarrow>
    ((vault \<times> dram \<times> dual_vector) \<times> (nat \<times> dram_command) list) result" where
  "vault_trace par 0 s h = Inr (s, h)"
| "vault_trace par (Suc n) (v, d, ib) h = checkE (dram_clock d < 2 ^ 63) (Undefined ''clock'')
     (bindE (vault_cycle par (v, d, ib)) (\<lambda>s. vault_trace par n s (sent v d @ h)))"

lemma vault_trace_run:
  "vault_run par v d h \<Longrightarrow> vault_trace par n (v, d, ib) h = Inr ((v', d', ib'), h') \<Longrightarrow> vault_run par v' d' h'"
proof (induction n arbitrary: v d ib h)
  case (Suc n)
  then obtain v1 d1 ib1 where "dram_clock d < 2 ^ 63" "vault_cycle par (v, d, ib) = Inr (v1, d1, ib1)"
    "vault_trace par n (v1, d1, ib1) (sent v d @ h) = Inr ((v', d', ib'), h')"
    by (auto simp: err_simps)
  then show ?case using Suc.IH vault_run.cycle [OF Suc.prems(1)] by blast
qed simp

text \<open>A vault that receives a read of 64 bytes, in the first cycle or after a refresh.\<close>

definition example_par :: vc_par where
  "example_par = \<lparr>cfg = default_config, CRC_CHECK = False, rnd = (\<lambda>i. 0), raw_packet = zero_packet,
     raw_command = zero_command, cpu_clock = (\<lambda>n. 0)\<rparr>"

definition read_packet :: packet where
  "read_packet = (fst (Packet_request False (\<lambda>i. 0) zero_packet 5 REQUEST RD64 0x1000 0 1 None 0 0))\<lparr>reqDataSize := 64\<rparr>"

definition full_power :: vc_par where
  "full_power = example_par\<lparr>cfg := default_config\<lparr>USE_LOW_POWER := False\<rparr>\<rparr>"

definition fresh_vault :: "u32 \<Rightarrow> vault" where
  "fresh_vault r = (VaultController default_config 0 [] TranStatistic)\<lparr>refreshCountdown := r\<rparr>"

definition with_reads :: "packet list \<Rightarrow> vault \<Rightarrow> vault" where
  "with_reads ps v = v\<lparr>downBuffers := map Some ps, dv_bufPopDelay := 0\<rparr>"

definition kinds :: "(nat \<times> dram_command) list \<Rightarrow> (nat \<times> DRAMCommandType \<times> nat) list" where
  "kinds h = map (\<lambda>(t, cmd). (t, commandType cmd, unat (bank cmd))) h"

definition read_trace where
  "read_trace = vault_trace full_power 8 (with_reads [read_packet, read_packet\<lparr>TAG := 6, ADRS := 0x1800\<rparr>] (fresh_vault 9750), DRAM default_config, InputBuffer) []"

definition refresh_trace where
  "refresh_trace = bindE (vault_trace example_par 2 (fresh_vault 1, DRAM default_config, InputBuffer) [])
     (\<lambda>((v, d, ib), h). vault_trace example_par 12 (with_reads [read_packet] v, d, ib) h)"

lemma unat_Suc_u32: "unat (w :: u32) + 1 < 2 ^ 32 \<Longrightarrow> unat (w + 1) = unat w + 1"
  by (simp add: unat_word_ariths)

lemma unat_of_nat_beats: "unat (of_nat (data_beats p + 1) :: u32) = data_beats p + 1 \<and> data_beats p + 2 < 2 ^ 32"
proof -
  have "(unat (reqDataSize p) + 31) div 32 \<le> (2 ^ 32 + 31) div 32"
    using unat_u32_lt [of "reqDataSize p"] by (intro div_le_mono) (simp del: unat_u32_lt)
  then have "data_beats p \<le> 2 ^ 28" by (simp add: data_beats_def)
  then show ?thesis using unat_of_nat_u32 [of "data_beats p + 1"] by (simp del: of_nat_add of_nat_Suc)
qed

lemma AvailableSpace_fits:
  "AvailableSpace c q b (of_nat (data_beats p + 1)) \<Longrightarrow> length (ACCESSQUE c q b) + (data_beats p + 1) \<le> MAX_CMD_QUE c"
proof -
  let ?w = "of_nat (data_beats p + 1) :: u32"
  assume a: "AvailableSpace c q b ?w"
  have "unat (?w + 1) = unat ?w + 1"
    using unat_of_nat_beats [of p] by (intro unat_Suc_u32) simp
  then have "unat ?w \<le> unat (if atomicLock q ! b then ?w + 1 else ?w)" by simp
  then show ?thesis using a unat_of_nat_beats [of p] unfolding AvailableSpace_def Let_def by linarith
qed

lemma read_packet_converts: "\<exists>v'. ConvPacketIntoCMDs active_operand example_par read_packet (fresh_vault 9750) = Inr (True, v')"
proof -
  have "case ConvPacketIntoCMDs active_operand example_par read_packet (fresh_vault 9750) of Inr (ok, v) \<Rightarrow> ok | Inl _ \<Rightarrow> False" by code_simp
  then show ?thesis by (auto split: sum.splits prod.splits)
qed

lemma fresh_pops: "\<exists>v'. pop_command example_par (fresh_vault 9750) (DRAM default_config) = Inr v'"
proof -
  have "isOK (pop_command example_par (fresh_vault 9750) (DRAM default_config))" by code_simp
  then show ?thesis by (simp add: isOK_iff)
qed

lemma refresh_trace_kinds: "\<exists>v d ib h. refresh_trace = Inr ((v, d, ib), h) \<and> kinds h = [(10, ACTIVATE, 2), (1, REFRESH, 0)]"
proof -
  have "case refresh_trace of Inr ((v, d, ib), h) \<Rightarrow> kinds h = [(10, ACTIVATE, 2), (1, REFRESH, 0)] | Inl _ \<Rightarrow> False" by code_simp
  then show ?thesis by (auto split: sum.splits prod.splits)
qed

lemma read_trace_kinds: "\<exists>v d ib h. read_trace = Inr ((v, d, ib), h) \<and> kinds h = [(7, ACTIVATE, 3), (2, ACTIVATE, 2)]"
proof -
  have "case read_trace of Inr ((v, d, ib), h) \<Rightarrow> kinds h = [(7, ACTIVATE, 3), (2, ACTIVATE, 2)] | Inl _ \<Rightarrow> False" by code_simp
  then show ?thesis by (auto split: sum.splits prod.splits)
qed

lemma fresh_vault_run: "cfg par = default_config\<lparr>USE_LOW_POWER := lp\<rparr> \<Longrightarrow> vault_run par (fresh_vault r) (DRAM default_config) []"
  using vault_run.init [where par = par and ops = 0 and tr = "[]" and st = TranStatistic and r = r]
  by (simp add: fresh_vault_def VaultController_def CommandQueue_def DRAM_def Let_def cong: if_cong)

lemma with_reads_run: "vault_run par v d h \<Longrightarrow> vault_run par (with_reads ps v) d h"
  using vault_run.outside [where v = v and down = "map Some ps" and n = 0 and art = "artBuffers v" and tr = "v_traces v"
    and st = "v_statis v"]
  by (simp add: with_reads_def)

section \<open>Properties of the vault\<close>

text \<open>
  C3. The vault as a whole keeps the DRAM timing protocol: over the whole life of a vault without
  the low-power mode, whatever request packets arrive, the commands its controller puts on the
  command bus reach the DRAM only when it is ready for them, and any two of them keep the distance
  the timing parameters require (row cycle, column access, precharge, refresh and turnaround).
\<close>

theorem vault_timing_respected:
  assumes "vault_run par v d h" and "\<not> USE_LOW_POWER (cfg par)" and "timing_ok (cfg par)"
    and "NUM_BANKS (cfg par) \<le> 2 ^ 32" and "0 < NUM_BANKS (cfg par)"
  shows "sorted_wrt (spaced (cfg par)) h"
  using run_spaced [OF _ assms(3)] vault_run_drives [OF assms(1,2,4,5)] by blast

theorem vault_timing_respected_witness:
  "\<exists>v d h. vault_run full_power v d h \<and> kinds h = [(7, ACTIVATE, 3), (2, ACTIVATE, 2)]
     \<and> sorted_wrt (spaced (cfg full_power)) h"
proof -
  obtain v d ib h where t: "read_trace = Inr ((v, d, ib), h)" "kinds h = [(7, ACTIVATE, 3), (2, ACTIVATE, 2)]"
    using read_trace_kinds by blast
  have c: "cfg full_power = default_config\<lparr>USE_LOW_POWER := False\<rparr>" by (simp add: full_power_def)
  have "vault_run full_power v d h"
    using vault_trace_run [OF with_reads_run [OF fresh_vault_run [OF c]]] t(1) unfolding read_trace_def by blast
  moreover have "timing_ok (cfg full_power)" unfolding c by (simp add: timing_ok_def default_simps)
  ultimately show ?thesis using vault_timing_respected [of full_power v d h] t(2) c by (auto simp: default_config_def)
qed

text \<open>
  C36. With the low-power mode of the default configuration the protocol is broken: a refresh leaves
  the queues empty, so the DRAM is powered down while its banks are still refreshing, and the power-up
  for the next request sets the activation cycle of every bank to \<open>tXP\<close> cycles from now instead of
  keeping the end of the refresh. Some vault activates a row 9 cycles after a refresh that takes \<open>tRFC\<close>.
\<close>

theorem power_up_cuts_refresh:
  "\<exists>v d h. vault_run example_par v d h \<and> kinds h = [(10, ACTIVATE, 2), (1, REFRESH, 0)]
     \<and> \<not> sorted_wrt (spaced (cfg example_par)) h"
proof -
  obtain v d ib h where t: "refresh_trace = Inr ((v, d, ib), h)" "kinds h = [(10, ACTIVATE, 2), (1, REFRESH, 0)]"
    using refresh_trace_kinds by blast
  then obtain v1 d1 ib1 h1 where s: "vault_trace example_par 2 (fresh_vault 1, DRAM default_config, InputBuffer) [] = Inr ((v1, d1, ib1), h1)"
    "vault_trace example_par 12 (with_reads [read_packet] v1, d1, ib1) h1 = Inr ((v, d, ib), h)"
    by (auto simp: refresh_trace_def err_simps)
  have c: "cfg example_par = default_config\<lparr>USE_LOW_POWER := True\<rparr>" by (simp add: example_par_def default_config_def)
  have "vault_run example_par v d h"
    using vault_trace_run [OF with_reads_run [OF vault_trace_run [OF fresh_vault_run [OF c] s(1)]] s(2)] .
  moreover have "\<not> sorted_wrt (spaced (cfg example_par)) h"
  proof -
    obtain a r where h: "h = [(10, a), (1, r)]" "commandType a = ACTIVATE" "unat (bank a) = 2" "commandType r = REFRESH"
      using t(2) by (auto simp: kinds_def)
    have "unat (gap (cfg example_par) r KAct 2) = 74" using h(4) by (simp add: gap_def c default_simps)
    then have "\<not> spaced (cfg example_par) (10, a) (1, r)"
      using h(2,3) by (auto simp: spaced_def c default_config_def intro!: exI [of _ 2] bexI [of _ KAct])
    then show ?thesis using h(1) by simp
  qed
  ultimately show ?thesis using t(2) by blast
qed

text \<open>
  C28. A request becomes the commands that serve it, or waits: when \<open>ConvPacketIntoCMDs\<close> accepts a
  packet, the queue of its bank gets one \<open>ACTIVATE\<close> followed by a column access for every 32 bytes,
  all on the bank, row and column of its address and with its tag; only the last access ends the
  request (and closes the row under the close-page policy), and the queue stays within its
  capacity. When it does not, nothing changes.
\<close>

theorem request_becomes_commands:
  assumes "ConvPacketIntoCMDs active_operand par p v = Inr (ok, v')" and "geometry (cfg par) k m r"
    and "length (cq_queue (commandQueue v)) = (if QUE_PER_BANK (cfg par) then NUM_BANKS (cfg par) else 1)"
  shows "if ok then (\<exists>b act cols ty po at. b < NUM_BANKS (cfg par) \<and> conv_command (cfg par) (CMD p) = Some (ty, po, at)
        \<and> ACCESSQUE (cfg par) (commandQueue v') b = ACCESSQUE (cfg par) (commandQueue v) b @ act # cols
        \<and> commandType act = ACTIVATE \<and> serves (cfg par) p act \<and> length cols = data_beats p
        \<and> (\<forall>i < data_beats p. serves (cfg par) p (cols ! i) \<and> column_access ty (data_beats p) p i (cols ! i))
        \<and> length (ACCESSQUE (cfg par) (commandQueue v') b) \<le> MAX_CMD_QUE (cfg par))
      else v' = v"
proof (cases ok)
  case True
  obtain b cl rw where A: "AddressMapping (cfg par) (ADRS p) = (b, cl, rw)" using prod_cases3 by metis
  have b: "unat b < NUM_BANKS (cfg par)" using AddressMapping_range [OF assms(2), of "ADRS p"] A by simp
  then have "que_index (cfg par) (unat b) < length (cq_queue (commandQueue v))" using assms(3) by (simp add: que_index_def)
  then obtain act cols ty po at where q: "conv_command (cfg par) (CMD p) = Some (ty, po, at)" "commandType act = ACTIVATE"
    "serves (cfg par) p act" "length cols = data_beats p"
    "\<forall>i < data_beats p. serves (cfg par) p (cols ! i) \<and> column_access ty (data_beats p) p i (cols ! i)"
    "ACCESSQUE (cfg par) (commandQueue v') (unat b) = ACCESSQUE (cfg par) (commandQueue v) (unat b) @ act # cols"
    using ConvPacketIntoCMDs_queue [of par p v v' b cl rw] assms(1) True A by metis
  have "AvailableSpace (cfg par) (commandQueue v) (unat b) (of_nat (data_beats p + 1))"
    using assms(1) True A q(1) by (auto simp: ConvPacketIntoCMDs_def Let_def split: if_splits)
  then have "length (ACCESSQUE (cfg par) (commandQueue v) (unat b)) + (data_beats p + 1) \<le> MAX_CMD_QUE (cfg par)"
    using AvailableSpace_fits [of "cfg par" "commandQueue v" "unat b" p] by simp
  then have "length (ACCESSQUE (cfg par) (commandQueue v') (unat b)) \<le> MAX_CMD_QUE (cfg par)" using q(4,6) by simp
  then have "unat b < NUM_BANKS (cfg par) \<and> conv_command (cfg par) (CMD p) = Some (ty, po, at)
      \<and> ACCESSQUE (cfg par) (commandQueue v') (unat b) = ACCESSQUE (cfg par) (commandQueue v) (unat b) @ act # cols
      \<and> commandType act = ACTIVATE \<and> serves (cfg par) p act \<and> length cols = data_beats p
      \<and> (\<forall>i < data_beats p. serves (cfg par) p (cols ! i) \<and> column_access ty (data_beats p) p i (cols ! i))
      \<and> length (ACCESSQUE (cfg par) (commandQueue v') (unat b)) \<le> MAX_CMD_QUE (cfg par)"
    using b q by (intro conjI)
  then show ?thesis unfolding if_P [OF True] by (intro exI)
next
  case False
  then show ?thesis
    using assms(1) by (auto simp: ConvPacketIntoCMDs_def Let_def err_simps split: prod.splits option.splits if_splits)
qed

theorem request_becomes_commands_witness:
  "\<exists>v' b act cols ty po at. ConvPacketIntoCMDs active_operand example_par read_packet (fresh_vault 9750) = Inr (True, v') \<and> b < 8
     \<and> ACCESSQUE default_config (commandQueue v') b = ACCESSQUE default_config (commandQueue (fresh_vault 9750)) b @ act # cols
     \<and> commandType act = ACTIVATE \<and> length cols = 2 \<and> column_access ty 2 read_packet 1 (cols ! 1)"
proof -
  obtain v' where c: "ConvPacketIntoCMDs active_operand example_par read_packet (fresh_vault 9750) = Inr (True, v')"
    using read_packet_converts by blast
  have g: "geometry (cfg example_par) 3 10 14" "cfg example_par = default_config" "data_beats read_packet = 2"
    by (simp_all add: example_par_def example_mapping(1) data_beats_def read_packet_def)
  have l: "length (cq_queue (commandQueue (fresh_vault 9750))) = (if QUE_PER_BANK (cfg example_par) then NUM_BANKS (cfg example_par) else 1)"
    by (simp add: fresh_vault_def example_par_def VaultController_def CommandQueue_def Let_def dual_vector.defs vault.defs)
  have "NUM_BANKS default_config = 8" by (simp add: default_config_def)
  then obtain b act cols ty po at where "b < 8" "commandType act = ACTIVATE" "length cols = 2"
    "ACCESSQUE default_config (commandQueue v') b = ACCESSQUE default_config (commandQueue (fresh_vault 9750)) b @ act # cols"
    "\<forall>i < 2. serves default_config read_packet (cols ! i) \<and> column_access ty 2 read_packet i (cols ! i)"
    using request_becomes_commands [OF c g(1) l] g(2,3) by auto
  then show ?thesis using c by (intro exI [of _ v'] exI [of _ b] exI [of _ act] exI [of _ cols] exI [of _ ty]) auto
qed







end
