(* ===== verification/Cube.thy ===== *)
theory Cube
  imports Vault Crossbar Links
begin

text \<open>
  A cube: \<open>HMC.cpp\<close>. Its link slaves, its crossbar switch, its vaults with their DRAMs and its link
  masters, and a cycle of all of them. Traces, statistics and the tag of packets are shared by all
  components of the program: a component gets them for its update and gives them back. The wiring is
  that of the dragonfly and the mesh, where the slave of a link fills the input buffer of that link.
  The three counters that \<open>Update\<close> sets to 0 and nothing reads are left out.
\<close>

section \<open>State\<close>

record cube_par =
  cp_net :: net_par
  cp_vault :: vc_par
  cp_link :: link_par

record shared =
  sh_traces :: "tran_trace list"
  sh_statis :: tran_statistic
  sh_links :: link_statis
  sh_gtag :: u32

record hmc =
  hm_clock :: u64
  clockTuner :: u64
  downLinkSlaves :: "link_slave list"
  upLinkMasters :: "link_master list"
  crossbarSwitch :: xbar
  vaultControllers :: "vault list"
  drams :: "dram list"

text \<open>Whether a master of a cube leads to another cube, as the constructor decides it.\<close>

definition master_down :: "topology \<Rightarrow> nat \<Rightarrow> nat \<Rightarrow> nat \<Rightarrow> bool result" where
  "master_down topo dim cube l = (case topo of
     DFLY \<Rightarrow> if dim = 4 then Inr (\<not> (cube mod 5 = 0 \<and> cube div 5 = l))
             else if dim = 8 then Inr (\<not> (cube mod 21 = 0 \<and> cube div 21 = l)) else Inl (Assertion ''0'')
   | MESH \<Rightarrow> Inr (\<not> (cube mod 4 = 0 \<or> cube mod 4 = 3 \<or> cube div 4 = 0 \<or> cube div 4 = 3))
   | _ \<Rightarrow> Inr False)"

definition HMC_masters :: "topology \<Rightarrow> nat \<Rightarrow> nat \<Rightarrow> link_master list result" where
  "HMC_masters topo dim cube = foldE (\<lambda>l ms. bindE (master_down topo dim cube l) (\<lambda>d. Inr (ms @ [LinkMaster d]))) [0..<NUM_LINKS] []"

definition HMC :: "cube_par \<Rightarrow> nat \<Rightarrow> nat \<Rightarrow> (nat \<Rightarrow> u64) \<Rightarrow> hmc result" where
  "HMC par dim cube ops = (let c = cfg (cp_vault par) in
     bindE (HMC_masters (np_topology (cp_net par)) dim cube) (\<lambda>ms.
       Inr \<lparr>hm_clock = 0, clockTuner = 1, downLinkSlaves = map (\<lambda>l. LinkSlave True (cube * 4 + l)) [0..<NUM_LINKS],
            upLinkMasters = ms, crossbarSwitch = CrossbarSwitch (of_nat cube) 0 [] TranStatistic,
            vaultControllers = map (\<lambda>v. (VaultController c (ops v) [] TranStatistic)\<lparr>refreshCountdown := refresh_start c v\<rparr>) [0..<NUM_VAULTS],
            drams = map (\<lambda>v. DRAM c) [0..<NUM_VAULTS]\<rparr>))"

section \<open>The update of a cycle\<close>

text \<open>A slave passes packets on to the input buffer of its link and returns tokens through the master of its link.\<close>

definition slave_cycle :: "cube_par \<Rightarrow> nat \<Rightarrow> hmc \<times> shared \<Rightarrow> (hmc \<times> shared) result" where
  "slave_cycle par l s = (case s of (h, sh) \<Rightarrow> (let x = crossbarSwitch h in
     checkE (l < length (downLinkSlaves h) \<and> l < length (upLinkMasters h) \<and> l < length (inputBuffers x)) (Undefined ''downLinkSlaves'')
     (bindE (LinkSlave_Update (cp_link par) (downLinkSlaves h ! l, upLinkMasters h ! l, sh_links sh, inputBuffers x ! l)) (\<lambda>(ls, m, st, ib).
       Inr (h\<lparr>downLinkSlaves := (downLinkSlaves h)[l := ls], upLinkMasters := (upLinkMasters h)[l := m],
              crossbarSwitch := x\<lparr>inputBuffers := (inputBuffers x)[l := ib]\<rparr>\<rparr>, sh\<lparr>sh_links := st\<rparr>)))))"

definition crossbar_cycle :: "cube_par \<Rightarrow> hmc \<times> shared \<Rightarrow> (hmc \<times> shared) result" where
  "crossbar_cycle par s = (case s of (h, sh) \<Rightarrow>
     bindE (CrossbarSwitch_Update (cp_net par)
       ((crossbarSwitch h)\<lparr>x_gtag := sh_gtag sh, x_traces := sh_traces sh, x_statis := sh_statis sh\<rparr>, vaultControllers h, upLinkMasters h)) (\<lambda>(x, vs, ms).
       Inr (h\<lparr>crossbarSwitch := x, vaultControllers := vs, upLinkMasters := ms\<rparr>,
            sh\<lparr>sh_gtag := x_gtag x, sh_traces := x_traces x, sh_statis := x_statis x\<rparr>)))"

definition lend_vault :: "shared \<Rightarrow> vault \<Rightarrow> vault" where
  "lend_vault sh v = v\<lparr>v_traces := sh_traces sh, v_statis := sh_statis sh\<rparr>"

definition return_vault :: "vault \<Rightarrow> shared \<Rightarrow> shared" where
  "return_vault v sh = sh\<lparr>sh_traces := v_traces v, sh_statis := v_statis v\<rparr>"

definition controller_cycle :: "cube_par \<Rightarrow> nat \<Rightarrow> hmc \<times> shared \<Rightarrow> (hmc \<times> shared) result" where
  "controller_cycle par i s = (case s of (h, sh) \<Rightarrow> (let x = crossbarSwitch h in
     checkE (i < length (vaultControllers h) \<and> i < length (drams h) \<and> NUM_LINKS < length (inputBuffers x)) (Undefined ''vaultControllers'')
     (bindE (VaultController_Update (cp_vault par) (lend_vault sh (vaultControllers h ! i), drams h ! i, inputBuffers x ! NUM_LINKS)) (\<lambda>(v, d, ib).
       Inr (h\<lparr>vaultControllers := (vaultControllers h)[i := v], drams := (drams h)[i := d],
              crossbarSwitch := x\<lparr>inputBuffers := (inputBuffers x)[NUM_LINKS := ib]\<rparr>\<rparr>, return_vault v sh)))))"

definition dram_cycle :: "cube_par \<Rightarrow> nat \<Rightarrow> hmc \<times> shared \<Rightarrow> (hmc \<times> shared) result" where
  "dram_cycle par i s = (case s of (h, sh) \<Rightarrow>
     checkE (i < length (vaultControllers h) \<and> i < length (drams h)) (Undefined ''drams'')
     (bindE (DRAM_Update (ReturnCommand (MakeRespondPacket (cp_vault par))) (cfg (cp_vault par)) (lend_vault sh (vaultControllers h ! i)) (drams h ! i)) (\<lambda>(v, d).
       Inr (h\<lparr>vaultControllers := (vaultControllers h)[i := v], drams := (drams h)[i := d]\<rparr>, return_vault v sh))))"

definition master_cycle :: "cube_par \<Rightarrow> nat \<Rightarrow> hmc \<times> shared \<Rightarrow> (hmc \<times> shared) result" where
  "master_cycle par l s = (case s of (h, sh) \<Rightarrow>
     checkE (l < length (upLinkMasters h)) (Undefined ''upLinkMasters'')
     (bindE (LinkMaster_Update (cp_link par) (upLinkMasters h ! l, sh_links sh)) (\<lambda>(m, st).
       Inr (h\<lparr>upLinkMasters := (upLinkMasters h)[l := m]\<rparr>, sh\<lparr>sh_links := st\<rparr>))))"

definition HMC_Update :: "cube_par \<Rightarrow> hmc \<times> shared \<Rightarrow> (hmc \<times> shared) result" where
  "HMC_Update par s =
     (bindE (foldE (slave_cycle par) [0..<NUM_LINKS] s) (\<lambda>s.
      bindE (crossbar_cycle par s) (\<lambda>s.
      bindE (foldE (controller_cycle par) [0..<NUM_VAULTS] s) (\<lambda>s.
      bindE (foldE (dram_cycle par) [0..<NUM_VAULTS] s) (\<lambda>s.
      bindE (foldE (master_cycle par) [0..<NUM_LINKS] s) (\<lambda>(h, sh).
        Inr (h\<lparr>clockTuner := clockTuner h + 1, hm_clock := hm_clock h + 1\<rparr>, sh)))))))"


section \<open>Operands in a vault\<close>

text \<open>
  The read commands of additions have the address of their operand, wherever they are; so have the
  responses made of them.
\<close>

definition good_cmd :: "dram_command \<Rightarrow> bool" where
  "good_cmd cmd \<longleftrightarrow> commandType cmd \<in> {READ, READ_P, READ_DATA} \<and> (packetCMD cmd = ACT_ADD \<or> packetCMD cmd = ACT_DOT) \<longrightarrow> srcAddr1 cmd \<noteq> 0"

definition good_queue :: "dram_config \<Rightarrow> command_queue \<Rightarrow> bool" where
  "good_queue c q \<longleftrightarrow> (\<forall>xs \<in> set (cq_queue q). \<forall>cmd \<in> set xs. good_cmd cmd) \<and> issuedBank q < NUM_BANKS c
     \<and> length (cq_queue q) = (if QUE_PER_BANK c then NUM_BANKS c else 1)"

definition good_vault :: "dram_config \<Rightarrow> vault \<Rightarrow> bool" where
  "good_vault c v \<longleftrightarrow> good_queue c (commandQueue v) \<and> pred_option good_cmd (cmdBus v) \<and> pred_option good_cmd (dataBus v)
     \<and> list_all good_cmd (writeDataToSend v) \<and> pred_option good_cmd (atomicCMD v) \<and> list_all good_slot (upBuffers v) \<and> list_all good_response (pcuPacket v)"

definition good_dram :: "dram \<Rightarrow> bool" where
  "good_dram d \<longleftrightarrow> pred_option good_cmd (readData d) \<and> list_all good_cmd (readReturnDATA d)"

lemma good_cmd_update [simp]: "good_cmd (cmd\<lparr>commandType := WRITE_DATA\<rparr>)" "good_cmd (cmd\<lparr>commandType := WRITE\<rparr>)" "good_cmd (cmd\<lparr>commandType := WRITE_P\<rparr>)"
  "good_cmd (cmd\<lparr>dataSize := n\<rparr>) = good_cmd cmd" "good_cmd (cmd\<lparr>lastCMD := b\<rparr>) = good_cmd cmd" "good_cmd (cmd\<lparr>dc_trace := t\<rparr>) = good_cmd cmd"
  "good_cmd (cmd\<lparr>addr := a\<rparr>) = good_cmd cmd" "good_cmd (cmd\<lparr>dc_tran_tag := g\<rparr>) = good_cmd cmd"
  by (simp_all add: good_cmd_def)

lemma good_cmd_read_data: "good_cmd cmd \<Longrightarrow> commandType cmd = READ \<or> commandType cmd = READ_P \<Longrightarrow> good_cmd (cmd\<lparr>commandType := READ_DATA\<rparr>)"
  by (auto simp: good_cmd_def)

lemma good_vault_update [simp]:
  "good_vault c (v\<lparr>pendingDataSize := n\<rparr>) = good_vault c v" "good_vault c (v\<lparr>v_traces := ts\<rparr>) = good_vault c v" "good_vault c (v\<lparr>v_statis := st\<rparr>) = good_vault c v"
  "good_vault c (v\<lparr>pendingReadData := tags\<rparr>) = good_vault c v" "good_vault c (v\<lparr>totalOperandRequests := k\<rparr>) = good_vault c v"
  "good_vault c (v\<lparr>downBuffers := buf\<rparr>) = good_vault c v" "good_vault c (v\<lparr>dv_bufPopDelay := i\<rparr>) = good_vault c v" "good_vault c (v\<lparr>atomicOperLeft := n\<rparr>) = good_vault c v"
  "good_vault c (v\<lparr>cmdCyclesLeft := n\<rparr>) = good_vault c v" "good_vault c (v\<lparr>dataCyclesLeft := n\<rparr>) = good_vault c v" "good_vault c (v\<lparr>writeDataCountdown := ns\<rparr>) = good_vault c v"
  "good_vault c (v\<lparr>refreshCountdown := n\<rparr>) = good_vault c v" "good_vault c (v\<lparr>powerDown := b\<rparr>) = good_vault c v" "good_vault c (v\<lparr>currentClockCycle := t\<rparr>) = good_vault c v"
  "good_vault c (v\<lparr>DRAM_rd_data := n\<rparr>) = good_vault c v" "good_vault c (v\<lparr>DRAM_wr_data := n\<rparr>) = good_vault c v" "good_vault c (v\<lparr>DRAM_act_data := n\<rparr>) = good_vault c v"
  by (simp_all add: good_vault_def)

lemma good_queue_update [simp]: "good_queue c (q\<lparr>refreshWaiting := b\<rparr>) = good_queue c q" "good_queue c (CommandQueue_Update c' q) = good_queue c q"
  by (simp_all add: good_queue_def CommandQueue_Update_def)

lemma good_queue_set:
  assumes "good_queue c q" "\<And>cmd. que_index c' b < length (cq_queue q) \<Longrightarrow> cmd \<in> set xs \<Longrightarrow> good_cmd cmd"
  shows "good_queue c (set_que c' b xs q)"
proof (cases "que_index c' b < length (cq_queue q)")
  case True
  then show ?thesis using assms by (auto simp: good_queue_def set_que_def dest!: set_update_subset_insert [THEN subsetD])
next
  case False
  then have "set_que c' b xs q = q" by (simp add: set_que_def list_update_beyond)
  then show ?thesis using assms(1) by simp
qed

lemma good_queue_access: "good_queue c q \<Longrightarrow> que_index c' b < length (cq_queue q) \<Longrightarrow> cmd \<in> set (ACCESSQUE c' q b) \<Longrightarrow> good_cmd cmd"
  by (auto simp: good_queue_def ACCESSQUE_def)

lemma Enqueue_good: "good_queue c q \<Longrightarrow> good_cmd cmd \<Longrightarrow> good_queue c (Enqueue c' b cmd q)"
  unfolding Enqueue_def Let_def
  by (rule good_queue_set) (auto simp: good_queue_def ACCESSQUE_def split: if_splits)

section \<open>Responses\<close>

lemma read_response_good: "good_cmd cmd \<Longrightarrow> commandType cmd = READ_DATA \<Longrightarrow> okE (read_response par cmd) (\<lambda>p. good_response p)"
  by (auto simp: read_response_def wp Let_def good_response_def good_cmd_def response_def Packet_response_def packet_payload_def packet_reset_def)

lemma response_good: "rs \<noteq> ACT_ADD \<Longrightarrow> rs \<noteq> ACT_DOT \<Longrightarrow> good_response (response par cmd rs n)"
  by (simp add: good_response_def response_def Packet_response_def packet_payload_def packet_reset_def Let_def)

lemma respond_packet_good: "good_cmd cmd \<Longrightarrow> okE (respond_packet par cmd) (\<lambda>(p, n). good_response p)"
  using read_response_good [of cmd par] by (auto simp: respond_packet_def wp response_good)

lemma good_response_update [simp]: "good_response (p\<lparr>ADRS := a\<rparr>) = good_response p" "good_response (p\<lparr>orig_addr := a\<rparr>) = good_response p"
  "good_response (p\<lparr>tran_tag := t\<rparr>) = good_response p" "good_response (p\<lparr>segment := b\<rparr>) = good_response p" "good_response (p\<lparr>bufPopDelay := n\<rparr>) = good_response p"
  by (simp_all add: good_response_def)

lemma vault_ReceiveUp_good: "good_vault c v \<Longrightarrow> good_response p \<Longrightarrow> okE (vault_ReceiveUp p v) (\<lambda>(ok, v'). good_vault c v')"
  using good_slots [of p] by (auto simp: vault_ReceiveUp_def ReceiveUp_def receive_def wp good_vault_def split: prod.split)

lemma push_pcu_good: "good_vault c v \<Longrightarrow> good_response p \<Longrightarrow> good_vault c (push_pcu p v)"
  by (simp add: push_pcu_def good_vault_def)

lemma upd_trace_good [simp]: "good_vault c (upd_trace t f v) = good_vault c v"
  by (simp add: upd_trace_def split: option.split)

lemma MakeRespondPacket_good:
  assumes "MakeRespondPacket par cmd v = Inr (ok, v')" "good_vault c v" "good_cmd cmd"
  shows "good_vault c v'"
proof -
  obtain p n where p: "respond_packet par cmd = Inr (p, n)" using assms(1) by (auto simp: MakeRespondPacket_def err_simps)
  let ?q = "p\<lparr>ADRS := drop_bit 30 (push_bit 30 (addr cmd)), orig_addr := addr cmd, tran_tag := dc_tran_tag cmd, segment := dc_segment cmd\<rparr>"
  obtain v1 where v1: "(if CMD ?q \<noteq> PEI_DOT then vault_ReceiveUp ?q v else Inr (True, push_pcu ?q v)) = Inr (ok, v1)"
    and e: "v' = (if ok then (upd_trace (dc_trace cmd) (set_vaultFullLat (currentClockCycle v1)) v1)\<lparr>pendingDataSize := pendingDataSize v - n\<rparr> else v1)"
    using assms(1) p by (auto simp: MakeRespondPacket_def err_simps Let_def)
  have g: "good_response ?q" using okED [OF respond_packet_good [OF assms(3)] p] by simp
  have "good_vault c v1" using v1 okED [OF vault_ReceiveUp_good [OF assms(2) g], of "(ok, v1)"] push_pcu_good [OF assms(2) g] by (auto split: if_splits)
  then show ?thesis by (simp add: e)
qed

lemma ReturnCommand_good: "ReturnCommand (MakeRespondPacket par) cmd v = Inr (ok, v') \<Longrightarrow> good_vault c v \<Longrightarrow> good_cmd cmd \<Longrightarrow> good_vault c v'"
proof -
  assume a: "ReturnCommand (MakeRespondPacket par) cmd v = Inr (ok, v')" "good_vault c v" "good_cmd cmd"
  have "good_vault c (v\<lparr>atomicCMD := Some cmd, atomicOperLeft := 1\<rparr>)" using a(2,3) by (simp add: good_vault_def)
  then show ?thesis using a MakeRespondPacket_good by (auto simp: ReturnCommand_def err_simps split: option.splits if_splits)
qed

section \<open>A cycle of a vault\<close>

lemma DRAM_Update_good:
  assumes "DRAM_Update (ReturnCommand (MakeRespondPacket par)) c v d = Inr (v', d')" "good_vault b v" "good_dram d"
  shows "good_vault b v' \<and> good_dram d'"
proof -
  obtain d1 d2 where r: "return_data (ReturnCommand (MakeRespondPacket par)) v (map_banks (\<lambda>i. update_bank c) d) = Inr (v', d1)" "start_read_data c d1 = Inr d2"
    "d' = d2\<lparr>readReturnCountdown := map (\<lambda>n. if n > 0 then n - 1 else n) (readReturnCountdown d2), dram_clock := dram_clock d2 + 1\<rparr>"
    using assms(1) by (auto simp: DRAM_Update_def DRAM_UpdateState_def err_simps)
  have "good_dram (map_banks (\<lambda>i. update_bank c) d)" using assms(3) by (simp add: good_dram_def map_banks_def)
  then have 1: "good_vault b v' \<and> good_dram d1" using r(1) assms(2) ReturnCommand_good
    by (auto simp: return_data_def good_dram_def err_simps Let_def split: option.splits if_splits)
  then have "good_dram d2" using r(2)
    by (cases "readReturnDATA d1") (auto simp: start_read_data_def good_dram_def err_simps split: if_splits)
  then show ?thesis using 1 by (simp add: r(3) good_dram_def)
qed

lemma receiveCMD_good: "receiveCMD c cmd d = Inr d' \<Longrightarrow> good_cmd cmd \<Longrightarrow> good_dram d \<Longrightarrow> good_dram d'"
  by (cases "commandType cmd") (auto simp: receiveCMD_def Let_def err_simps good_dram_def map_banks_def return_read_def good_cmd_read_data)

lemma finish_write_good: "finish_write (MakeRespondPacket par) par cmd v = Inr v' \<Longrightarrow> good_vault c v \<Longrightarrow> good_cmd cmd \<Longrightarrow> good_vault c v'"
  using MakeRespondPacket_good by (auto simp: finish_write_def close_trace_def Let_def err_simps split: option.splits if_splits)

lemma UpdateCountdown_good:
  assumes "UpdateCountdown (MakeRespondPacket par) par (v, d) = Inr (v', d')" "good_vault c v" "good_dram d"
  shows "good_vault c v' \<and> good_dram d'"
proof -
  obtain v1 d1 v2 v3 where r: "issue_cmdBus par (v, d) = Inr (v1, d1)" "issue_dataBus (MakeRespondPacket par) par (v1, d1) = Inr (v2, d')" "start_write_data par v2 = Inr v3"
    "v' = refresh_count (cfg par) v3" using assms(1) by (auto simp: UpdateCountdown_def err_simps)
  have 1: "good_vault c v1 \<and> good_dram d1"
  proof (cases "cmdBus v")
    case None
    then show ?thesis using r(1) assms by (simp add: issue_cmdBus_def)
  next
    case (Some cmd)
    then have "good_cmd cmd" using assms(2) by (simp add: good_vault_def)
    moreover have "good_vault c (w\<lparr>cmdBus := None\<rparr>)" if "good_vault c w" for w using that by (simp add: good_vault_def)
    ultimately show ?thesis using r(1) Some assms(2,3) receiveCMD_good by (auto simp: issue_cmdBus_def err_simps Let_def split: if_splits)
  qed
  have 2: "good_vault c v2 \<and> good_dram d'"
  proof (cases "dataBus v1")
    case None
    then show ?thesis using r(2) 1 by (simp add: issue_dataBus_def)
  next
    case (Some cmd)
    then have g: "good_cmd cmd" using 1 by (simp add: good_vault_def)
    have n: "good_vault c (w\<lparr>dataBus := None\<rparr>)" if "good_vault c w" for w using that by (simp add: good_vault_def)
    let ?v = "v1\<lparr>dataCyclesLeft := dataCyclesLeft v1 - 1\<rparr>"
    have "good_vault c ?v" using 1 by simp
    then show ?thesis using r(2) Some 1 g n receiveCMD_good finish_write_good [of par cmd ?v] by (auto simp: issue_dataBus_def err_simps Let_def split: if_splits)
  qed
  have "good_vault c v3" using r(3) 2
    by (cases "writeDataToSend v2") (auto simp: start_write_data_def err_simps good_vault_def split: if_splits)
  then show ?thesis using 2 r(4) by (auto simp: refresh_count_def Let_def good_vault_def)
qed

text \<open>Requests become commands: an operand without an address is an assertion.\<close>

lemma active_operand_good:
  assumes "active_operand p rw = Inr rw'" "packetCMD rw = CMD p"
  shows "good_cmd rw'"
proof (cases "CMD p = ACT_ADD \<or> CMD p = ACT_DOT")
  case True
  then have "rw' = rw\<lparr>srcAddr1 := SRCADRS1 p, destAddr := DESTADRS p, dc_operandBufID := operandBufID p\<rparr>" "SRCADRS1 p \<noteq> 0"
    using assms(1) by (simp_all add: active_operand_def checkE_def split: if_splits)
  then show ?thesis by (simp add: good_cmd_def)
next
  case False
  then have "packetCMD rw' = CMD p \<and> commandType rw' = commandType rw" using assms(1,2)
    by (cases "CMD p = ACT_MULT") (auto simp: active_operand_def checkE_def split: if_splits)
  then show ?thesis using False by (simp add: good_cmd_def)
qed

lemma column_command_fields: "packetCMD (column_command par p adr op n i) = CMD p"
  "fst op \<noteq> READ \<Longrightarrow> fst op \<noteq> READ_P \<Longrightarrow> fst op \<noteq> READ_DATA \<Longrightarrow> good_cmd (column_command par p adr op n i)"
  by (cases adr; cases op; simp add: column_command_def DRAMCommand_def Let_def good_cmd_def)+

lemma chosen_type:
  assumes "(if A then Some (w, x) else if B then Some (w, y) else if C then Some (r, z) else if D then Some (READ, u) else if E then Some (READ, t) else None) = Some (ty, rest)"
    "w \<noteq> READ_DATA" "r \<noteq> READ_DATA"
  shows "ty \<noteq> READ_DATA"
  using assms by (auto split: if_splits)

lemma conv_command_types:
  assumes "conv_command c cmd = Some (ty, rest)"
  shows "ty \<noteq> READ_DATA"
  by (rule chosen_type [OF assms [unfolded conv_command_def Let_def]]) simp_all

lemma good_vault_queue: "good_vault c v \<Longrightarrow> good_queue c q \<Longrightarrow> good_vault c (v\<lparr>commandQueue := q\<rparr>)"
  by (simp add: good_vault_def)

lemma good_vault_D: "good_vault c v \<Longrightarrow> good_queue c (commandQueue v)"
  by (simp add: good_vault_def)

lemma conv_column_good:
  assumes "conv_column active_operand par p adr op n i v = Inr v'" "good_vault c v" "fst op \<noteq> READ_DATA"
  shows "good_vault c v'"
proof -
  let ?rw = "column_command par p adr op n i"
  obtain rw where rw: "(if fst op = READ \<or> fst op = READ_P then active_operand p ?rw else Inr ?rw) = Inr rw" using assms(1) by (auto simp: conv_column_def err_simps Let_def)
  note f = column_command_fields(1) [of par p adr op n i] column_command_fields(2) [of op par p adr n i]
  have "good_cmd rw" using rw active_operand_good [OF _ f(1)] f(2) assms(3) by (cases "fst op = READ \<or> fst op = READ_P") auto
  then have "good_queue c (Enqueue (cfg par) b (rw\<lparr>addr := orig_addr p, dc_tran_tag := tran_tag p\<rparr>) (commandQueue v))" for b
    using Enqueue_good [OF good_vault_D [OF assms(2)]] by simp
  then show ?thesis using assms(1,2) rw good_vault_queue by (auto simp: conv_column_def err_simps Let_def split: if_splits)
qed

lemma ConvPacketIntoCMDs_good:
  assumes "ConvPacketIntoCMDs active_operand par p v = Inr (ok, v')" "good_vault c v"
  shows "good_vault c v'"
proof -
  obtain bk cl rw where a: "AddressMapping (cfg par) (ADRS p) = (bk, cl, rw)" by (metis prod_cases3)
  obtain ty ps atm where t: "conv_command (cfg par) (CMD p) = Some (ty, ps, atm)" using assms(1) a by (auto simp: ConvPacketIntoCMDs_def Let_def split: option.splits)
  let ?act = "(DRAMCommand (raw_command par) ACTIVATE (TAG p) bk cl rw 0 False (trace p) True (CMD p) atm (segment p))\<lparr>dc_src_cube := word_of_int (SRCCUB p), dc_dest_cube := word_of_int (DESTCUB p)\<rparr>"
  have "good_cmd ?act" by (simp add: good_cmd_def DRAMCommand_def)
  then have g: "good_vault c (v\<lparr>commandQueue := Enqueue (cfg par) (unat bk) ?act (commandQueue v)\<rparr>)"
    using good_vault_queue [OF assms(2)] Enqueue_good [OF good_vault_D [OF assms(2)]] by blast
  have "good_vault c v2" if "foldE (conv_column active_operand par p (bk, cl, rw) (ty, ps, atm) n) [0..<n] v1 = Inr v2" "good_vault c v1" for n v1 v2
    by (rule foldE_inv [where P = "good_vault c", OF _ that(2,1)]) (use conv_column_good conv_command_types [OF t] in auto)
  then show ?thesis using assms a t g by (auto simp: ConvPacketIntoCMDs_def Let_def err_simps split: if_splits)
qed

lemma conv_loop_good: "conv_loop par k i v = Inr v' \<Longrightarrow> good_vault c v \<Longrightarrow> good_vault c v'"
proof (induction par k i v arbitrary: v' rule: conv_loop.induct)
  case (2 par k i v)
  show ?case
  proof (cases "i < length (downBuffers v)")
    case True
    show ?thesis
    proof (cases "downBuffers v ! i")
      case None
      then show ?thesis using 2 True by simp
    next
      case (Some p)
      then obtain ok v1 where r: "ConvPacketIntoCMDs active_operand par p v = Inr (ok, v1)" using 2 True by (auto simp: err_simps)
      then have g: "good_vault c v1" using ConvPacketIntoCMDs_good 2(5) by blast
      have g': "good_vault c (v1\<lparr>downBuffers := buf\<rparr>)" for buf using g by simp
      show ?thesis using 2(2) [OF True Some _ _ g'] 2(3) [OF True Some _ _ g] 2(4) True Some r by (auto simp: err_simps split: if_splits)
    qed
  qed (use 2 in simp)
qed simp

text \<open>The scheduler gives out commands of the queue, or precharges and refreshes.\<close>

lemma picked_good:
  assumes "picked c e q cmd que'" "good_queue c q"
  shows "good_cmd cmd \<and> (\<forall>xs \<in> set que'. \<forall>x \<in> set xs. good_cmd x)"
proof -
  consider (made) "commandType cmd = PRECHARGE \<or> commandType cmd = REFRESH" "que' = cq_queue q" | (queue) "from_queue c e q cmd que'"
    using assms(1) by (auto simp: picked_def made_precharge_def made_refresh_def)
  then show ?thesis
  proof cases
    case made
    then show ?thesis using assms(2) by (auto simp: good_cmd_def good_queue_def)
  next
    case queue
    then obtain b i where i: "b < NUM_BANKS c" "i < length (ACCESSQUE c q b)" "cmd = ACCESSQUE c q b ! i"
      "que' = (cq_queue q)[que_index c b := erase_at i (ACCESSQUE c q b)] \<or> que' = (cq_queue q)[que_index c b := erase_range (i - 1) (i + 1) (ACCESSQUE c q b)]"
      by (auto simp: from_queue_def)
    have x: "que_index c b < length (cq_queue q)" using i(1) assms(2) by (auto simp: que_index_def good_queue_def)
    have g: "good_cmd y" if "y \<in> set (ACCESSQUE c q b)" for y using good_queue_access [OF assms(2) x that] .
    have "good_cmd y" if "y \<in> set (erase_at i (ACCESSQUE c q b)) \<or> y \<in> set (erase_range (i - 1) (i + 1) (ACCESSQUE c q b))" for y
      using that g by (auto simp: erase_at_def erase_range_def dest: in_set_takeD in_set_dropD)
    moreover have "good_cmd cmd" using g i(2,3) by simp
    ultimately show ?thesis using i(4) assms(2) by (auto simp: good_queue_def dest!: set_update_subset_insert [THEN subsetD])
  qed
qed

lemma CmdPop_good:
  assumes "CmdPop c raw e q = Inr (r, q')" "NUM_BANKS c \<le> 2 ^ 32" "good_queue c q"
  shows "pred_option good_cmd r \<and> good_queue c q'"
proof -
  have b: "issuedBank q < NUM_BANKS c" and g: "good_queue c (faw_ticked q)" using assms(3) by (auto simp: good_queue_def)
  have p: "pick_ok c e (faw_ticked q) (r, q')" "issuedBank q' < NUM_BANKS c" using CmdPop_ok [OF assms(1,2) b] by simp_all
  show ?thesis
  proof (cases r)
    case None
    then show ?thesis using p g by (simp add: good_queue_def)
  next
    case (Some cmd)
    then have k: "picked c e (faw_ticked q) cmd (cq_queue q')" using p(1) by simp
    have "length (cq_queue q') = length (cq_queue q)" using k by (auto simp: picked_def from_queue_def)
    then show ?thesis using picked_good [OF k g] p(2) assms(3) Some by (simp add: good_queue_def)
  qed
qed

lemma note_popped_good: "good_vault c v \<Longrightarrow> good_vault c (note_popped c' cmd v)"
proof -
  assume g: "good_vault c v"
  have "good_vault c (v\<lparr>writeDataToSend := writeDataToSend v @ [(DRAMCommand_copy cmd)\<lparr>commandType := WRITE_DATA\<rparr>], writeDataCountdown := ns\<rparr>)" for ns
    using g by (simp add: good_vault_def)
  then show ?thesis using g by (simp add: note_popped_def Let_def)
qed

lemma pop_command_good:
  assumes "pop_command par v d = Inr v'" "NUM_BANKS (cfg par) \<le> 2 ^ 32" "good_vault (cfg par) v"
  shows "good_vault (cfg par) v'"
proof -
  obtain r q where r: "CmdPop (cfg par) (raw_command par) (vault_env v d) (commandQueue v) = Inr (r, q)" using assms(1) by (auto simp: pop_command_def err_simps)
  then have g: "pred_option good_cmd r" "good_queue (cfg par) q" using CmdPop_good [OF r assms(2)] assms(3) good_vault_D by blast+
  show ?thesis
  proof (cases r)
    case None
    then show ?thesis using assms(1,3) r good_vault_queue [OF _ g(2)] by (auto simp: pop_command_def err_simps)
  next
    case (Some cmd)
    let ?v = "note_popped (cfg par) cmd (v\<lparr>commandQueue := q\<rparr>)"
    have "good_vault (cfg par) ?v" by (intro note_popped_good good_vault_queue assms(3) g(2))
    then have "good_vault (cfg par) (?v\<lparr>cmdBus := Some cmd, cmdCyclesLeft := n\<rparr>)" for n using g(1) Some by (simp add: good_vault_def)
    then show ?thesis using assms(1) r Some by (auto simp: pop_command_def err_simps Let_def)
  qed
qed

lemma write_back_good: "good_vault c v \<Longrightarrow> good_vault c (write_back c' cmd v)"
proof -
  assume g: "good_vault c v"
  let ?rst = "(DRAMCommand_copy cmd)\<lparr>commandType := (if OPEN_PAGE c' then WRITE else WRITE_P), dataSize := 16, lastCMD := True, dc_trace := (if \<not> posted cmd then None else dc_trace cmd)\<rparr>"
  have "good_cmd ?rst" by simp
  then have "good_queue c (set_que c' b (?rst # ACCESSQUE c' (commandQueue v) b) (commandQueue v))" for b
    using good_queue_access [OF good_vault_D [OF g]] by (intro good_queue_set good_vault_D [OF g]) (auto simp del: good_cmd_update)
  then show ?thesis using g good_vault_queue [OF g] by (simp add: write_back_def Let_def)
qed

lemma atomic_operation_good:
  assumes "atomic_operation (MakeRespondPacket par) par v = Inr v'" "good_vault c v"
  shows "good_vault c v'"
proof (cases "atomicCMD v")
  case None
  then show ?thesis using assms by (simp add: atomic_operation_def)
next
  case (Some cmd)
  then have g: "good_cmd cmd" "good_vault c (write_back (cfg par) cmd v)" using assms(2) write_back_good by (auto simp: good_vault_def)
  have n: "good_vault c (w\<lparr>atomicCMD := None\<rparr>)" if "good_vault c w" for w using that by (simp add: good_vault_def)
  show ?thesis
  proof (cases "atomicOperLeft v = 0")
    case True
    then obtain w where "(if \<not> posted cmd then bindE (MakeRespondPacket par cmd (write_back (cfg par) cmd v)) (\<lambda>(ok, v). checkE (packetCMD cmd \<noteq> PEI_DOT) (Assertion ''PEI_DOT'') (Inr v))
        else Inr (write_back (cfg par) cmd v)) = Inr w" "v' = w\<lparr>atomicCMD := None\<rparr>"
      using assms(1) Some by (auto simp: atomic_operation_def err_simps Let_def)
    then show ?thesis using MakeRespondPacket_good g n by (auto simp: err_simps split: if_splits)
  next
    case False
    then show ?thesis using assms Some by (auto simp: atomic_operation_def)
  qed
qed

lemma EnablePowerdown_good: "EnablePowerdown c (v, d) = (v', d') \<Longrightarrow> good_vault b v \<Longrightarrow> good_dram d \<Longrightarrow> good_vault b v' \<and> good_dram d'"
  by (auto simp: EnablePowerdown_def DRAM_powerDown_def DRAM_powerUp_def good_dram_def map_banks_def split: if_splits)

lemma send_pcu_good: "send_pcu v = Inr v' \<Longrightarrow> good_vault c v \<Longrightarrow> good_vault c v'"
proof (cases "pcuPacket v")
  case (Cons p ps)
  assume a: "send_pcu v = Inr v'" "good_vault c v"
  then have p: "good_response p" "list_all good_response ps" using Cons by (simp_all add: good_vault_def)
  have "good_vault c (w\<lparr>pcuPacket := ps\<rparr>)" if "good_vault c w" for w using that p(2) by (simp add: good_vault_def)
  then show ?thesis using a Cons okED [OF vault_ReceiveUp_good [OF a(2) p(1)]] by (auto simp: send_pcu_def err_simps split: if_splits)
qed (simp add: send_pcu_def)

lemma send_response_good:
  assumes "send_response (v, ib) = Inr (v', ib')" "good_vault c v" "list_all good_slot (upBuffers ib)"
  shows "good_vault c v' \<and> list_all good_slot (upBuffers ib')"
proof (cases "upBuffers v")
  case (Cons q buf)
  then obtain p where p: "q = Some p" using assms(1) by (cases q) (simp_all add: send_response_def)
  then have g: "good_response p" using assms(2) Cons by (simp add: good_vault_def good_slot_def)
  have "list_all good_slot (upBuffers ib1)" if "ReceiveUp p ib = (ok, ib1)" for ok ib1
    using that assms(3) good_slots [OF g] by (auto simp: ReceiveUp_def receive_def split: if_splits)
  moreover have "good_vault c (v\<lparr>upBuffers := buf'\<rparr>)" if "erase_packet 0 (upBuffers v) = Inr buf'" for buf'
    using good_erase [OF that] assms(2) by (simp add: good_vault_def)
  ultimately show ?thesis using assms Cons p by (auto simp: send_response_def err_simps split: prod.splits if_splits)
qed (use assms in \<open>simp add: send_response_def\<close>)

lemma vault_Step_good: "good_vault c v \<Longrightarrow> good_vault c (dual_Step v)"
proof -
  assume g: "good_vault c v"
  have "list_all good_slot (map step_packet buf) = list_all good_slot buf" for buf
    by (induction buf) (auto simp: step_packet_def good_slot_def split: option.splits)
  then show ?thesis using g by (simp add: dual_Step_def Let_def good_vault_def)
qed

lemma last_step_good:
  assumes "good_vault c v" "good_dram d" "EnablePowerdown c' (v, d) = (v7, d7)"
  shows "good_vault c (dual_Step (v7\<lparr>commandQueue := CommandQueue_Update c' (commandQueue v7), pcuPacket := map (\<lambda>p. if bufPopDelay p > 0 then p\<lparr>bufPopDelay := bufPopDelay p - 1\<rparr> else p) (pcuPacket v7)\<rparr>)) \<and> good_dram d7"
proof -
  have 7: "good_vault c v7 \<and> good_dram d7" using EnablePowerdown_good [OF assms(3,1,2)] .
  have "list_all good_response (map (\<lambda>p. if bufPopDelay p > 0 then p\<lparr>bufPopDelay := bufPopDelay p - 1\<rparr> else p) ps) = list_all good_response ps" for ps
    by (induction ps) auto
  then show ?thesis using 7 by (intro conjI vault_Step_good) (simp_all add: good_vault_def)
qed

lemma VaultController_Update_steps:
  assumes "VaultController_Update par (v, d, ib) = Inr (v', d', ib')"
  obtains v1 v2 d2 v3 v4 v5 v6 v7 where "send_pcu v = Inr v1" "UpdateCountdown (MakeRespondPacket par) par (v1, d) = Inr (v2, d2)"
    "(if dv_bufPopDelay v2 = 0 then conv_loop par (length (downBuffers v2)) 0 v2 else Inr v2) = Inr v3"
    "send_response (v3, ib) = Inr (v4, ib')" "pop_command par v4 d2 = Inr v5" "atomic_operation (MakeRespondPacket par) par v5 = Inr v6"
    "EnablePowerdown (cfg par) (v6, d2) = (v7, d')"
    "v' = dual_Step (v7\<lparr>commandQueue := CommandQueue_Update (cfg par) (commandQueue v7), pcuPacket := map (\<lambda>p. if bufPopDelay p > 0 then p\<lparr>bufPopDelay := bufPopDelay p - 1\<rparr> else p) (pcuPacket v7)\<rparr>)"
  using assms unfolding VaultController_Update_def prod.case bindE_eq_Inr split_paired_Ex
  apply (elim exE conjE)
  subgoal for v1 v2 d2 v3 v4 ib1 v5 v6
    by (cases "EnablePowerdown (cfg par) (v6, d2)") (simp add: Let_def)
  done

lemma VaultController_Update_good:
  assumes "VaultController_Update par (v, d, ib) = Inr (v', d', ib')" "NUM_BANKS (cfg par) \<le> 2 ^ 32"
    "good_vault (cfg par) v" "good_dram d" "list_all good_slot (upBuffers ib)"
  shows "good_vault (cfg par) v' \<and> good_dram d' \<and> list_all good_slot (upBuffers ib')"
proof -
  let ?c = "cfg par"
  obtain v1 v2 d2 v3 v4 v5 v6 v7 where r: "send_pcu v = Inr v1" "UpdateCountdown (MakeRespondPacket par) par (v1, d) = Inr (v2, d2)"
    "(if dv_bufPopDelay v2 = 0 then conv_loop par (length (downBuffers v2)) 0 v2 else Inr v2) = Inr v3"
    "send_response (v3, ib) = Inr (v4, ib')" "pop_command par v4 d2 = Inr v5" "atomic_operation (MakeRespondPacket par) par v5 = Inr v6"
    "EnablePowerdown ?c (v6, d2) = (v7, d')"
    "v' = dual_Step (v7\<lparr>commandQueue := CommandQueue_Update ?c (commandQueue v7), pcuPacket := map (\<lambda>p. if bufPopDelay p > 0 then p\<lparr>bufPopDelay := bufPopDelay p - 1\<rparr> else p) (pcuPacket v7)\<rparr>)"
    using assms(1) by (rule VaultController_Update_steps)
  have 2: "good_vault ?c v2 \<and> good_dram d2" using UpdateCountdown_good [OF r(2) send_pcu_good [OF r(1) assms(3)] assms(4)] .
  then have "good_vault ?c v3" using r(3) conv_loop_good [of par _ 0 v2 v3] by (cases "dv_bufPopDelay v2 = 0") simp_all
  then have 4: "good_vault ?c v4 \<and> list_all good_slot (upBuffers ib')" using send_response_good [OF r(4) _ assms(5)] by blast
  then have "good_vault ?c v6" using atomic_operation_good [OF r(6)] pop_command_good [OF r(5) assms(2)] by blast
  then show ?thesis using last_step_good [OF _ _ r(7)] 2 4 by (simp add: r(8))
qed

section \<open>The crossbar and its vaults\<close>

text \<open>A crossbar hands packets to the downstream buffers of the vaults and does nothing else to them.\<close>

definition unfilled :: "'v dual_vector_scheme \<Rightarrow> 'v dual_vector_scheme" where
  "unfilled v = v\<lparr>dv_bufPopDelay := 0, downBuffers := []\<rparr>"

definition filled :: "'v dual_vector_scheme list \<Rightarrow> 'v dual_vector_scheme list \<Rightarrow> bool" where
  "filled vs vs' \<longleftrightarrow> map unfilled vs' = map unfilled vs"

lemma filled_refl [simp]: "filled vs vs"
  by (simp add: filled_def)

lemma to_vault_filled: "to_vault p v vs = Inr (ok, vs') \<Longrightarrow> filled us vs \<Longrightarrow> filled us vs'"
proof -
  assume a: "to_vault p v vs = Inr (ok, vs')" "filled us vs"
  obtain d where d: "unat v < length vs" "ReceiveDown p (vs ! unat v) = (ok, d)" "vs' = vs[unat v := d]"
    using a(1) by (cases "ReceiveDown p (vs ! unat v)") (auto simp: to_vault_def at_int_def err_simps uint_nat simp del: of_nat_unat)
  have "unfilled d = unfilled (vs ! unat v)" using d(2) by (auto simp: ReceiveDown_def receive_def unfilled_def split: if_splits)
  then have "map unfilled vs' = map unfilled vs" using d(1) by (simp add: d(3) map_update list_update_same_conv)
  then show ?thesis using a(2) by (simp add: filled_def)
qed

abbreviation cube_v :: "('v, 'm) cube \<Rightarrow> 'v dual_vector_scheme list" where
  "cube_v s \<equiv> fst (snd (snd s))"

named_theorems vault_steps \<open>steps of the loop over the requests only fill vaults\<close>

lemma local_add_filled [vault_steps]: "filled us (cube_v s) \<Longrightarrow> okE (local_add par ll i p s) (\<lambda>(m, s'). filled us (cube_v s'))"
  by (cases s) (auto simp: local_add_def wp Let_def dest: to_vault_filled split: list.split)

lemma local_mult_filled [vault_steps]: "filled us (cube_v s) \<Longrightarrow> okE (local_mult par ll i p s) (\<lambda>(m, s'). filled us (cube_v s'))"
  by (cases s) (auto simp: local_mult_def wp Let_def dest: to_vault_filled split: list.split)

lemma local_half_filled [vault_steps]: "filled us (cube_v s) \<Longrightarrow> okE (local_half par ll i p s) (\<lambda>(m, s'). filled us (cube_v s'))"
  by (cases s) (auto simp: local_half_def wp Let_def dest: to_vault_filled)

lemma local_get_filled [vault_steps]: "filled us (cube_v s) \<Longrightarrow> okE (local_get par ll i p s) (\<lambda>(m, s'). filled us (cube_v s'))"
  by (cases s) (auto simp: local_get_def wp Let_def split: option.split)

lemma local_other_filled [vault_steps]: "filled us (cube_v s) \<Longrightarrow> okE (local_other par ll i p s) (\<lambda>(m, s'). filled us (cube_v s'))"
  by (cases s) (auto simp: local_other_def wp Let_def dest: to_vault_filled)

lemma split_mult_filled: "filled us (cube_v s) \<Longrightarrow> okE (split_mult par ll i p l1 l2 s) (\<lambda>(m, s'). filled us (cube_v s'))"
  by (cases s) (auto simp: split_mult_def wp Let_def split: list.split)

lemma forward_filled [vault_steps]: "filled us (cube_v s) \<Longrightarrow> okE (forward_packet par ll i p s) (\<lambda>(m, s'). filled us (cube_v s'))"
  using split_mult_filled
  by (cases s) (fastforce simp: forward_packet_def forward_mult_def forward_half_def forward_other_def wp Let_def)

lemma local_packet_filled: "filled us (cube_v s) \<Longrightarrow> okE (local_packet par ll i p s) (\<lambda>(m, s'). filled us (cube_v s'))"
  using vault_steps [of us s] by (cases s) (auto simp: local_packet_def wp)

lemma down_packet_filled: "filled us (cube_v (snd s)) \<Longrightarrow> okE (down_packet par ll s) (\<lambda>s'. filled us (cube_v (snd s')))"
proof -
  obtain i stop vmask x vs ms where s: "s = ((i, stop), vmask, x, vs, ms)" by (cases s) auto
  assume f: "filled us (cube_v (snd s))"
  show ?thesis using f local_packet_filled [of us "(vmask, x, vs, ms)" par ll i] forward_filled [of us "(vmask, x, vs, ms)" par ll i]
    unfolding s down_packet_def by (auto simp: wp case_prod_unfold split: option.split)
qed

lemma down_link_filled: "down_link par l s = Inr s' \<Longrightarrow> filled us (cube_v s) \<Longrightarrow> filled us (cube_v s')"
proof -
  assume d: "down_link par l s = Inr s'" and f: "filled us (cube_v s)"
  let ?ll = "(downLink (cube_x s) + l) mod (length (inputBuffers (cube_x s)) - 1)"
  show ?thesis
  proof (cases "dv_bufPopDelay (inputBuffers (cube_x s) ! ?ll) = 0")
    case True
    then obtain j where w: "whileE (down_active ?ll) (down_packet par ?ll) ((0, False), s) = Inr (j, s')"
      using d by (cases s) (auto simp: down_link_def Let_def err_simps)
    have "filled us (cube_v (snd (j, s'))) \<and> \<not> down_active ?ll (j, s')"
      by (rule whileE_inv [OF w]) (use f in simp, rule okED [OF down_packet_filled])
    then show ?thesis by simp
  next
    case False
    then show ?thesis using d f by (cases s) (simp add: down_link_def Let_def)
  qed
qed

lemma CrossbarSwitch_Update_filled:
  assumes "CrossbarSwitch_Update par (x, vs, ms) = Inr (x', vs', ms')"
  shows "filled vs vs'"
proof -
  obtain x1 ms1 x2 ms2 where "upstream par (x, ms) = Inr (x1, ms1)" and "downstream par (x1, vs, ms1) = Inr (x2, vs', ms2)"
    using assms by (auto simp: CrossbarSwitch_Update_def err_simps)
  from this(2) obtain n vm y where f: "foldE (down_link par) [0..<n] (replicate NUM_VAULTS False, x1, vs, ms1) = Inr (vm, y, vs', ms2)"
    by (auto simp: downstream_def err_simps)
  have "filled vs (cube_v (vm, y, vs', ms2))"
    by (rule foldE_inv [where P = "\<lambda>s. filled vs (cube_v s)", OF _ _ f]) (use down_link_filled in auto)
  then show ?thesis by simp
qed

section \<open>Link slaves\<close>

definition good_rx :: "packet \<Rightarrow> bool" where
  "good_rx p \<longleftrightarrow> packetType p \<noteq> REQUEST \<longrightarrow> good_response p"

definition good_slave :: "link_slave \<Rightarrow> bool" where
  "good_slave s \<longleftrightarrow> list_all good_slot (upBuffers s) \<and> list_all good_rx (s_linkRxTx s)"

lemma good_rx_update [simp]: "good_rx (p\<lparr>chkRRP := b\<rparr>) = good_rx p" "good_rx (p\<lparr>chkCRC := b\<rparr>) = good_rx p" "good_rx (p\<lparr>bufPopDelay := n\<rparr>) = good_rx p"
  by (simp_all add: good_rx_def good_response_def)

lemma good_slave_update [simp]:
  "good_slave (s\<lparr>slaveSEQ := n\<rparr>) = good_slave s" "good_slave (s\<lparr>s_countdownCRC := k\<rparr>) = good_slave s" "good_slave (s\<lparr>s_startCRC := b\<rparr>) = good_slave s"
  "good_slave (s\<lparr>currentState := t\<rparr>) = good_slave s"
  by (simp_all add: good_slave_def)

lemma good_slave_rx: "good_slave s \<Longrightarrow> list_all good_rx ps \<Longrightarrow> good_slave (s\<lparr>s_linkRxTx := ps\<rparr>)"
  by (simp add: good_slave_def)

lemma rx_done_good: "good_slave s \<Longrightarrow> good_slave (rx_done i s)"
  by (auto simp: rx_done_def good_slave_def erase_at_def list_all_iff dest: in_set_takeD in_set_dropD)

lemma rx_update_good: "good_slave s \<Longrightarrow> good_rx q \<Longrightarrow> good_slave (s\<lparr>s_linkRxTx := (s_linkRxTx s)[i := q]\<rparr>)"
  by (auto simp: good_slave_def list_all_iff dest!: set_update_subset_insert [THEN subsetD])

lemma slave_receive_good: "slave_receive p s = Inr s' \<Longrightarrow> good_slave s \<Longrightarrow> good_rx p \<Longrightarrow> good_slave s'"
  using good_slots [of p]
  by (auto simp: slave_receive_def ReceiveDown_def ReceiveUp_def receive_def err_simps good_slave_def good_rx_def split: if_splits)

lemma accept_good: "accept par i p (s, m, st) = Inr (b, s', m', st') \<Longrightarrow> good_slave s \<Longrightarrow> good_rx p \<Longrightarrow> good_slave s'"
  using rx_done_good slave_receive_good by (auto simp: accept_def err_simps split: if_splits)

lemma error_abort_good: "error_abort par p (s, m, st) = Inr (b, s', m', st') \<Longrightarrow> good_slave s \<Longrightarrow> good_slave s'"
  by (auto simp: error_abort_def err_simps Let_def good_slave_def)

lemma CheckNoError_good: "CheckNoError par p s = Inr (ok, s') \<Longrightarrow> good_slave s' = good_slave s"
  by (auto simp: CheckNoError_def err_simps Let_def split: if_splits)

lemma check_packet_good: "check_packet par i p (s, m, st) = Inr (b, s', m', st') \<Longrightarrow> good_slave s \<Longrightarrow> good_rx p \<Longrightarrow> good_slave s'"
proof -
  assume a: "check_packet par i p (s, m, st) = Inr (b, s', m', st')" "good_slave s" "good_rx p"
  define s1 where "s1 = (if lp_CRC_CHECK par \<and> \<not> s_startCRC s then s\<lparr>s_startCRC := True, s_countdownCRC := lp_crc_cycles par (LNG p)\<rparr> else s)"
  have g: "good_slave s1" using a(2) by (simp add: s1_def)
  have q: "good_rx (p\<lparr>chkCRC := True\<rparr>)" using a(3) by simp
  note c = a(1) [unfolded check_packet_def prod.case, folded s1_def, unfolded Let_def]
  show ?thesis
  proof (cases "lp_CRC_CHECK par \<and> s_countdownCRC s1 > 0")
    case True
    then show ?thesis using c rx_update_good [OF g a(3), of i] by auto
  next
    case False
    then obtain ok s2 where k: "CheckNoError par (p\<lparr>chkCRC := True\<rparr>) s1 = Inr (ok, s2)"
      "(if ok then accept par i (p\<lparr>chkCRC := True\<rparr>) (s2, m, st) else error_abort par (p\<lparr>chkCRC := True\<rparr>) (s2, m, st)) = Inr (b, s', m', st')"
      using c by (auto simp: err_simps)
    then show ?thesis using CheckNoError_good [OF k(1)] g accept_good [OF _ _ q] error_abort_good by (auto split: if_splits)
  qed
qed

lemma retry_packet_good: "retry_packet par i p (s, m, st) = Inr (b, s', m', st') \<Longrightarrow> good_slave s \<Longrightarrow> good_slave s'"
  using rx_done_good by (auto simp: retry_packet_def err_simps FinishRetry_def split: if_splits)

lemma rx_packet_good: "rx_packet par i (stop, s, m, st) = Inr (b, s', m', st') \<Longrightarrow> good_slave s \<Longrightarrow> good_slave s'"
proof (cases "stop \<or> i \<ge> length (s_linkRxTx s)")
  case False
  assume a: "rx_packet par i (stop, s, m, st) = Inr (b, s', m', st')" "good_slave s"
  let ?p = "s_linkRxTx s ! i"
  have p: "good_rx ?p" using a(2) False by (simp add: good_slave_def list_all_length)
  show ?thesis using a False retry_packet_good rx_done_good rx_update_good [OF a(2), of "?p\<lparr>chkRRP := True\<rparr>" i] check_packet_good [of par i "?p\<lparr>chkRRP := True\<rparr>"] p
    by (auto simp: rx_packet_def Let_def err_simps split: if_splits)
qed (simp add: rx_packet_def)

lemma slave_receives_good: "slave_receives par (s, m, st) = Inr (s', m', st') \<Longrightarrow> good_slave s \<Longrightarrow> good_slave s'"
proof -
  assume a: "slave_receives par (s, m, st) = Inr (s', m', st')" "good_slave s"
  obtain b where f: "foldE (rx_packet par) [0..<length (s_linkRxTx s)] (False, s, m, st) = Inr (b, s', m', st')"
    using a(1) by (auto simp: slave_receives_def err_simps)
  have "good_slave (fst (snd (b, s', m', st')))"
    by (rule foldE_inv [where P = "\<lambda>r. good_slave (fst (snd r))", OF _ _ f]) (use a(2) rx_packet_good in auto)
  then show ?thesis by simp
qed

lemma drop_good: "list_all good_slot buf \<Longrightarrow> list_all good_slot (drop n buf)"
  by (auto simp: list_all_iff dest: in_set_dropD)

lemma pass_up_good:
  assumes "pass_up par (s, m, d) = Inr (b1, s', m', d')" "good_slave s" "list_all good_slot (upBuffers d)"
  shows "good_slave s' \<and> list_all good_slot (upBuffers d')"
proof (cases "upBuffers s")
  case (Cons q buf)
  then obtain p where p: "q = Some p" using assms(1) by (cases q) (simp_all add: pass_up_def)
  then have g: "good_response p" using assms(2) Cons by (simp add: good_slave_def good_slot_def)
  obtain ok d1 where r: "ReceiveUp p d = (ok, d1)" by fastforce
  have d1: "list_all good_slot (upBuffers d1)" using r assms(3) good_slots [OF g] by (auto simp: ReceiveUp_def receive_def split: if_splits)
  have "good_slave (s\<lparr>upBuffers := drop n (upBuffers s)\<rparr>)" for n using assms(2) drop_good by (simp add: good_slave_def)
  then show ?thesis using assms Cons p r d1 by (auto simp: pass_up_def err_simps split: if_splits)
qed (use assms in \<open>simp add: pass_up_def\<close>)

lemma pass_down_good:
  assumes "pass_down par (s, m, d) = Inr (s', m', d')" "good_slave s" "list_all good_slot (upBuffers d)"
  shows "good_slave s' \<and> list_all good_slot (upBuffers d')"
proof (cases "downBuffers s")
  case (Cons q buf)
  then obtain p where p: "q = Some p" using assms(1) by (cases q) (auto simp: pass_down_def err_simps)
  obtain ok d1 where r: "ReceiveDown p d = (ok, d1)" by fastforce
  then have "upBuffers d1 = upBuffers d" by (auto simp: ReceiveDown_def receive_def split: if_splits)
  moreover have "good_slave (s\<lparr>downBuffers := b\<rparr>)" for b using assms(2) by (simp add: good_slave_def)
  ultimately show ?thesis using assms Cons p r by (auto simp: pass_down_def err_simps split: if_splits)
qed (use assms in \<open>simp add: pass_down_def\<close>)

lemma step_slots: "list_all good_slot (map step_packet buf) = list_all good_slot buf"
  by (induction buf) (auto simp: step_packet_def good_slot_def split: option.splits)

lemma slave_step_good: "good_slave s \<Longrightarrow> good_slave ((dual_Step s)\<lparr>s_linkRxTx := tick_packets (s_linkRxTx s)\<rparr>)"
  by (simp add: good_slave_def dual_Step_def Let_def step_slots) (simp add: tick_packets_def list_all_iff)

lemma LinkSlave_Update_good:
  assumes "LinkSlave_Update par (s, m, st, d) = Inr (s', m', st', d')" "good_slave s" "list_all good_slot (upBuffers d)"
  shows "good_slave s' \<and> list_all good_slot (upBuffers d')"
proof -
  obtain s1 m1 st1 b1 s2 m2 d2 s3 d3 m3 where r: "slave_receives par (s, m, st) = Inr (s1, m1, st1)" "pass_up par (s1, m1, d) = Inr (b1, s2, m2, d2)"
    "(if b1 then Inr (s2, m2, d2) else pass_down par (s2, m2, d2)) = Inr (s3, m3, d3)" "s' = (dual_Step s3)\<lparr>s_linkRxTx := tick_packets (s_linkRxTx s3)\<rparr>" "d' = d3"
    using assms(1) by (auto simp: LinkSlave_Update_def err_simps)
  have "good_slave s2 \<and> list_all good_slot (upBuffers d2)" using pass_up_good [OF r(2) slave_receives_good [OF r(1) assms(2)] assms(3)] .
  then have "good_slave s3 \<and> list_all good_slot (upBuffers d3)" using r(3) pass_down_good [of par s2 m2 d2 s3 m3 d3] by (cases b1) auto
  then show ?thesis using slave_step_good by (simp add: r(4,5))
qed

section \<open>The invariant of a cube\<close>

definition cube_inv :: "cube_par \<Rightarrow> hmc \<Rightarrow> bool" where
  "cube_inv par h \<longleftrightarrow> xbar_inv (crossbarSwitch h) \<and> list_all good_slave (downLinkSlaves h)
     \<and> list_all (good_vault (cfg (cp_vault par))) (vaultControllers h) \<and> list_all good_dram (drams h)"

lemma cube_invD:
  assumes "cube_inv par h"
  shows "xbar_inv (crossbarSwitch h)" "l < length (downLinkSlaves h) \<Longrightarrow> good_slave (downLinkSlaves h ! l)"
    "i < length (vaultControllers h) \<Longrightarrow> good_vault (cfg (cp_vault par)) (vaultControllers h ! i)" "i < length (drams h) \<Longrightarrow> good_dram (drams h ! i)"
  using assms by (auto simp: cube_inv_def list_all_length)

lemma list_all_update: "list_all P xs \<Longrightarrow> P x \<Longrightarrow> list_all P (xs[i := x])"
  by (auto simp: list_all_iff dest!: set_update_subset_insert [THEN subsetD])

text \<open>A new buffer in a crossbar, with good responses.\<close>

lemma input_inv:
  assumes "xbar_inv x" "list_all good_slot (upBuffers buf)"
  shows "xbar_inv (x\<lparr>inputBuffers := (inputBuffers x)[l := buf]\<rparr>)"
proof -
  have "same_part (set_up l (upBuffers buf) x) (x\<lparr>inputBuffers := (inputBuffers x)[l := buf]\<rparr>)"
    by (simp add: same_part_def art_part_def set_up_def up_part_def map_update)
  then show ?thesis by (rule same_partD) (rule set_up_inv [OF assms])
qed

lemma input_good: "xbar_inv x \<Longrightarrow> l < length (inputBuffers x) \<Longrightarrow> list_all good_slot (upBuffers (inputBuffers x ! l))"
  using up_buf_good [of x l] by (simp add: up_buf_def)

lemma slave_cycle_inv:
  assumes "slave_cycle par l (h, sh) = Inr (h', sh')" "cube_inv par h"
  shows "cube_inv par h'"
proof -
  let ?x = "crossbarSwitch h"
  obtain ls m st ib where u: "LinkSlave_Update (cp_link par) (downLinkSlaves h ! l, upLinkMasters h ! l, sh_links sh, inputBuffers ?x ! l) = Inr (ls, m, st, ib)"
    "l < length (downLinkSlaves h)" "l < length (inputBuffers ?x)"
    "h' = h\<lparr>downLinkSlaves := (downLinkSlaves h)[l := ls], upLinkMasters := (upLinkMasters h)[l := m], crossbarSwitch := ?x\<lparr>inputBuffers := (inputBuffers ?x)[l := ib]\<rparr>\<rparr>"
    using assms(1) by (auto simp: slave_cycle_def err_simps Let_def)
  note c = cube_invD [OF assms(2)]
  have g: "good_slave ls \<and> list_all good_slot (upBuffers ib)" by (rule LinkSlave_Update_good [OF u(1) c(2) [OF u(2)] input_good [OF c(1) u(3)]])
  then show ?thesis using assms(2) input_inv [OF c(1)] by (simp add: cube_inv_def u(4) list_all_update)
qed

lemma good_vault_unfilled: "good_vault c (unfilled v) = good_vault c v"
  by (simp add: unfilled_def)

lemma filled_good: "filled vs vs' \<Longrightarrow> list_all (good_vault c) vs \<Longrightarrow> list_all (good_vault c) vs'"
proof -
  assume f: "filled vs vs'" "list_all (good_vault c) vs"
  have "list_all (good_vault c) ws = list_all (good_vault c) (map unfilled ws)" for ws by (simp add: list_all_iff good_vault_unfilled)
  then show ?thesis using f by (metis filled_def)
qed

lemma xbar_inv_shared: "xbar_inv x \<Longrightarrow> xbar_inv (x\<lparr>x_gtag := g, x_traces := ts, x_statis := st\<rparr>)"
  by (rule same_partD [of x]) (simp_all add: same_part_def art_part_def up_part_def)

lemma crossbar_cycle_inv:
  assumes "crossbar_cycle par (h, sh) = Inr (h', sh')" "cube_inv par h"
  shows "cube_inv par h'"
proof -
  let ?x = "(crossbarSwitch h)\<lparr>x_gtag := sh_gtag sh, x_traces := sh_traces sh, x_statis := sh_statis sh\<rparr>"
  obtain x vs ms where u: "CrossbarSwitch_Update (cp_net par) (?x, vaultControllers h, upLinkMasters h) = Inr (x, vs, ms)"
    "h' = h\<lparr>crossbarSwitch := x, vaultControllers := vs, upLinkMasters := ms\<rparr>"
    using assms(1) by (auto simp: crossbar_cycle_def err_simps)
  have "xbar_inv x" using CrossbarSwitch_Update_inv [OF u(1)] xbar_inv_shared cube_invD(1) [OF assms(2)] by blast
  moreover have "list_all (good_vault (cfg (cp_vault par))) vs" using filled_good [OF CrossbarSwitch_Update_filled [OF u(1)]] assms(2) by (simp add: cube_inv_def)
  ultimately show ?thesis using assms(2) by (simp add: cube_inv_def u(2))
qed

lemma lend_vault_good [simp]: "good_vault c (lend_vault sh v) = good_vault c v"
  by (simp add: lend_vault_def)

lemma controller_cycle_inv:
  assumes "controller_cycle par i (h, sh) = Inr (h', sh')" "cube_inv par h" "NUM_BANKS (cfg (cp_vault par)) \<le> 2 ^ 32"
  shows "cube_inv par h'"
proof -
  let ?x = "crossbarSwitch h"
  obtain v d ib where u: "VaultController_Update (cp_vault par) (lend_vault sh (vaultControllers h ! i), drams h ! i, inputBuffers ?x ! NUM_LINKS) = Inr (v, d, ib)"
    "i < length (vaultControllers h)" "i < length (drams h)" "NUM_LINKS < length (inputBuffers ?x)"
    "h' = h\<lparr>vaultControllers := (vaultControllers h)[i := v], drams := (drams h)[i := d], crossbarSwitch := ?x\<lparr>inputBuffers := (inputBuffers ?x)[NUM_LINKS := ib]\<rparr>\<rparr>"
    using assms(1) by (auto simp: controller_cycle_def err_simps Let_def)
  note c = cube_invD [OF assms(2)]
  have "good_vault (cfg (cp_vault par)) v \<and> good_dram d \<and> list_all good_slot (upBuffers ib)"
    using VaultController_Update_good [OF u(1) assms(3) _ c(4) [OF u(3)] input_good [OF c(1) u(4)]] c(3) [OF u(2)] by simp
  then show ?thesis using assms(2) input_inv [OF c(1)] by (simp add: cube_inv_def u(5) list_all_update)
qed

lemma dram_cycle_inv:
  assumes "dram_cycle par i (h, sh) = Inr (h', sh')" "cube_inv par h"
  shows "cube_inv par h'"
proof -
  obtain v d where u: "DRAM_Update (ReturnCommand (MakeRespondPacket (cp_vault par))) (cfg (cp_vault par)) (lend_vault sh (vaultControllers h ! i)) (drams h ! i) = Inr (v, d)"
    "i < length (vaultControllers h)" "i < length (drams h)" "h' = h\<lparr>vaultControllers := (vaultControllers h)[i := v], drams := (drams h)[i := d]\<rparr>"
    using assms(1) by (auto simp: dram_cycle_def err_simps)
  have "good_vault (cfg (cp_vault par)) v \<and> good_dram d" using DRAM_Update_good [OF u(1)] cube_invD(3) [OF assms(2) u(2)] cube_invD(4) [OF assms(2) u(3)] by simp
  then show ?thesis using assms(2) by (simp add: cube_inv_def u(4) list_all_update)
qed

lemma master_cycle_inv: "master_cycle par l (h, sh) = Inr (h', sh') \<Longrightarrow> cube_inv par h \<Longrightarrow> cube_inv par h'"
  by (auto simp: master_cycle_def err_simps cube_inv_def)

lemma loop_inv:
  assumes "foldE f xs (h, sh) = Inr (h', sh')" "cube_inv par h" "\<And>x h sh h' sh'. f x (h, sh) = Inr (h', sh') \<Longrightarrow> cube_inv par h \<Longrightarrow> cube_inv par h'"
  shows "cube_inv par h'"
proof -
  have "cube_inv par (fst (h', sh'))" by (rule foldE_inv [where P = "\<lambda>s. cube_inv par (fst s)", OF _ _ assms(1)]) (use assms(2,3) in auto)
  then show ?thesis by simp
qed

lemma HMC_Update_inv:
  assumes "HMC_Update par (h, sh) = Inr (h', sh')" "cube_inv par h" "NUM_BANKS (cfg (cp_vault par)) \<le> 2 ^ 32"
  shows "cube_inv par h'"
proof -
  obtain h1 s1 h2 s2 h3 s3 h4 s4 h5 where r: "foldE (slave_cycle par) [0..<NUM_LINKS] (h, sh) = Inr (h1, s1)" "crossbar_cycle par (h1, s1) = Inr (h2, s2)"
    "foldE (controller_cycle par) [0..<NUM_VAULTS] (h2, s2) = Inr (h3, s3)" "foldE (dram_cycle par) [0..<NUM_VAULTS] (h3, s3) = Inr (h4, s4)"
    "foldE (master_cycle par) [0..<NUM_LINKS] (h4, s4) = Inr (h5, sh')" "h' = h5\<lparr>clockTuner := clockTuner h5 + 1, hm_clock := hm_clock h5 + 1\<rparr>"
    using assms(1) by (auto simp: HMC_Update_def err_simps)
  have "cube_inv par h1" by (rule loop_inv [OF r(1) assms(2) slave_cycle_inv])
  then have "cube_inv par h2" by (rule crossbar_cycle_inv [OF r(2)])
  then have "cube_inv par h3" using loop_inv [OF r(3)] controller_cycle_inv assms(3) by blast
  then have "cube_inv par h4" by (rule loop_inv [OF r(4) _ dram_cycle_inv])
  then have "cube_inv par h5" by (rule loop_inv [OF r(5) _ master_cycle_inv])
  then show ?thesis by (simp add: r(6) cube_inv_def)
qed

section \<open>Runs of a cube\<close>

text \<open>
  A cube in a run: it is wired, packets arrive at its slaves and leave from its masters, and it is
  updated. A response that arrives from another cube names the address of its operand.
\<close>

inductive cube_run :: "cube_par \<Rightarrow> hmc \<Rightarrow> bool" for par where
  start: "HMC par dim cube ops = Inr h \<Longrightarrow> cube_run par h"
| wire: "cube_run par h \<Longrightarrow> cube_run par (h\<lparr>crossbarSwitch := (crossbarSwitch h)\<lparr>neighborCubeID := ns\<rparr>\<rparr>)"
| arrive: "cube_run par h \<Longrightarrow> l < length (downLinkSlaves h) \<Longrightarrow> good_rx p \<Longrightarrow>
    cube_run par (h\<lparr>downLinkSlaves := (downLinkSlaves h)[l := (downLinkSlaves h ! l)\<lparr>s_linkRxTx := s_linkRxTx (downLinkSlaves h ! l) @ [p]\<rparr>]\<rparr>)"
| depart: "cube_run par h \<Longrightarrow> cube_run par (h\<lparr>upLinkMasters := ms\<rparr>)"
| cycle: "cube_run par h \<Longrightarrow> HMC_Update par (h, sh) = Inr (h', sh') \<Longrightarrow> cube_run par h'"

lemma HMC_inv:
  assumes "HMC par dim cube ops = Inr h" "0 < NUM_BANKS (cfg (cp_vault par))"
  shows "cube_inv par h"
proof -
  let ?c = "cfg (cp_vault par)"
  have v: "good_vault ?c ((VaultController ?c o1 [] TranStatistic)\<lparr>refreshCountdown := n\<rparr>)" for o1 n
    using assms(2) by (simp add: good_vault_def good_queue_def VaultController_def CommandQueue_def Let_def dual_vector.defs vault.defs DualVectorObject_def)
  have d: "good_dram (DRAM ?c)" by (simp add: good_dram_def DRAM_def)
  have s: "good_slave (LinkSlave True n)" for n by (simp add: good_slave_def LinkSlave_def dual_vector.defs link_slave.defs DualVectorObject_def)
  show ?thesis using assms(1) v d s CrossbarSwitch_inv by (auto simp: HMC_def Let_def err_simps cube_inv_def list_all_iff simp del: good_vault_update)
qed

lemma cube_run_inv:
  assumes "0 < NUM_BANKS (cfg (cp_vault par))" "NUM_BANKS (cfg (cp_vault par)) \<le> 2 ^ 32"
  shows "cube_run par h \<Longrightarrow> cube_inv par h"
proof (induction rule: cube_run.induct)
  case (start dim cube ops h)
  then show ?case using HMC_inv assms(1) by blast
next
  case (wire h ns)
  have "xbar_inv ((crossbarSwitch h)\<lparr>neighborCubeID := ns\<rparr>)"
    by (rule same_partD [OF _ cube_invD(1) [OF wire.IH]]) (simp add: same_part_def art_part_def up_part_def)
  then show ?case using wire.IH by (simp add: cube_inv_def)
next
  case (arrive h l p)
  let ?s = "downLinkSlaves h ! l"
  have "good_slave (?s\<lparr>s_linkRxTx := s_linkRxTx ?s @ [p]\<rparr>)" using cube_invD(2) [OF arrive.IH arrive.hyps(2)] arrive.hyps(3) by (simp add: good_slave_def)
  then show ?case using arrive.IH by (simp add: cube_inv_def list_all_update)
next
  case (depart h ms)
  then show ?case by (simp add: cube_inv_def)
next
  case (cycle h sh h' sh')
  then show ?case using HMC_Update_inv assms(2) by blast
qed

text \<open>The refresh counters, computed with integers.\<close>

lemma refresh_start_code [code]: "refresh_start c v = of_int (uint (REFRESH_CYCLES (timing c)) * (int v + 1) div 32)"
proof -
  have e: "int (unat (REFRESH_CYCLES (timing c)) * (v + 1) div NUM_VAULTS) = uint (REFRESH_CYCLES (timing c)) * (int v + 1) div 32"
    by (simp add: NUM_VAULTS_def zdiv_int algebra_simps)
  show ?thesis unfolding refresh_start_def e [symmetric] by (rule of_int_of_nat_eq [symmetric])
qed

section \<open>Properties of a cube\<close>

text \<open>A cube with one bank in every vault, that takes over one addition of flow 8.\<close>

definition small_config :: dram_config where
  "small_config = default_config\<lparr>NUM_BANKS := 1, QUE_PER_BANK := False, USE_LOW_POWER := False\<rparr>"

definition example_cube :: cube_par where
  "example_cube = \<lparr>cp_net = example_net, cp_vault = example_par\<lparr>cfg := small_config\<rparr>,
     cp_link = \<lparr>lp_CRC_CHECK = False, lp_crc_cycles = (\<lambda>_. 0), lp_retry_time = (\<lambda>t. t), lp_LINK_WIDTH = 128, lp_errorProba = 100, lp_raw = zero_packet, lp_rnd = (\<lambda>_. 0), lp_garbage = (\<lambda>_. 0)\<rparr>\<rparr>"

definition example_shared :: shared where
  "example_shared = \<lparr>sh_traces = [], sh_statis = TranStatistic, sh_links = \<lparr>perLink = [], errorRetryLat = []\<rparr>, sh_gtag = 0\<rparr>"

definition loaded_hmc :: "hmc result" where
  "loaded_hmc = bindE (HMC example_cube 4 0 (\<lambda>_. 0)) (\<lambda>h. let s = downLinkSlaves h ! 0 in
     Inr (h\<lparr>crossbarSwitch := (crossbarSwitch h)\<lparr>neighborCubeID := [-1, 1, 2, 3]\<rparr>, downLinkSlaves := (downLinkSlaves h)[0 := s\<lparr>s_linkRxTx := s_linkRxTx s @ [add_packet\<lparr>bufPopDelay := 0\<rparr>]\<rparr>]\<rparr>))"

definition run_hmc :: "(hmc \<times> shared) result" where
  "run_hmc = bindE loaded_hmc (\<lambda>h. bindE (HMC_Update example_cube (h, example_shared)) (HMC_Update example_cube))"

lemma run_hmc_table: "case run_hmc of Inl _ \<Rightarrow> False | Inr (h, sh) \<Rightarrow> map_option (\<lambda>fe. (req_count fe, parent fe)) (map_of (flowTable (crossbarSwitch h)) 8) = Some (1, 1)"
  by code_simp

lemma run_hmc_run:
  assumes "run_hmc = Inr (h, sh)"
  shows "cube_run example_cube h"
proof -
  obtain h0 h1 h2 s2 where r: "HMC example_cube 4 0 (\<lambda>_. 0) = Inr h0" "loaded_hmc = Inr h1" "HMC_Update example_cube (h1, example_shared) = Inr (h2, s2)"
    "HMC_Update example_cube (h2, s2) = Inr (h, sh)"
    using assms by (auto simp: run_hmc_def loaded_hmc_def err_simps Let_def)
  let ?w = "h0\<lparr>crossbarSwitch := (crossbarSwitch h0)\<lparr>neighborCubeID := [-1, 1, 2, 3]\<rparr>\<rparr>"
  have s: "0 < length (downLinkSlaves ?w)" using r(1) by (auto simp: HMC_def Let_def err_simps NUM_LINKS_def)
  have g: "good_rx (add_packet\<lparr>bufPopDelay := 0\<rparr>)" by code_simp
  have "cube_run example_cube ?w" by (rule cube_run.wire [OF cube_run.start [OF r(1)]])
  from cube_run.arrive [OF this s g] have "cube_run example_cube h1" using r(1,2) by (auto simp: loaded_hmc_def Let_def)
  then show ?thesis using cube_run.cycle r(3,4) by blast
qed

text \<open> C9. In every state of a whole cube, with packets that arrive from other cubes, packets that
  leave and the responses of its own vaults, the accounts of every flow balance: what the crossbar
  relies on for the responses it is given, the vaults and the link slaves keep. \<close>

theorem cube_flow_accounts:
  assumes "0 < NUM_BANKS (cfg (cp_vault par))" "NUM_BANKS (cfg (cp_vault par)) \<le> 2 ^ 32"
    and "cube_run par h" "map_of (flowTable (crossbarSwitch h)) k = Some fe"
  shows "req_count fe = rep_count fe + of_nat (card (held (operandBuffers (crossbarSwitch h)) (freeOperandBufIDs (crossbarSwitch h)) k))
    + of_int (sum_list (children_count fe))"
proof -
  have "xbar_inv (crossbarSwitch h)" using cube_run_inv [OF assms(1,2,3)] by (rule cube_invD(1))
  then have "art_ok (flowTable (crossbarSwitch h)) (operandBuffers (crossbarSwitch h)) (freeOperandBufIDs (crossbarSwitch h)) (numMultStages (crossbarSwitch h))"
    by (simp add: xbar_inv_def engine_inv_def art_inv_def)
  from counts_okE [OF this assms(4)] show ?thesis by (simp add: counts_ok_def)
qed

theorem cube_flow_accounts_witness:
  "\<exists>h fe. cube_run example_cube h \<and> map_of (flowTable (crossbarSwitch h)) 8 = Some fe \<and> req_count fe = 1 \<and>
     req_count fe = rep_count fe + of_nat (card (held (operandBuffers (crossbarSwitch h)) (freeOperandBufIDs (crossbarSwitch h)) 8))
       + of_int (sum_list (children_count fe))"
proof -
  obtain h sh where r: "run_hmc = Inr (h, sh)" using run_hmc_table by (auto split: sum.splits)
  have "map_option (\<lambda>fe. (req_count fe, parent fe)) (map_of (flowTable (crossbarSwitch h)) 8) = Some (1, 1)" using run_hmc_table by (simp add: r)
  then obtain fe where fe: "map_of (flowTable (crossbarSwitch h)) 8 = Some fe" "req_count fe = 1" by (auto simp: map_option_eq_Some)
  have "NUM_BANKS (cfg (cp_vault example_cube)) = 1" by (simp add: example_cube_def small_config_def)
  then show ?thesis using cube_flow_accounts [OF _ _ run_hmc_run [OF r] fe(1)] run_hmc_run [OF r] fe by auto
qed

end
