(* ===== verification/Masters.thy ===== *)
theory Masters
  imports Crossbar_Ends Controller Cube
begin

text \<open>
  What a cube relies on of the packets that arrive at it (\<open>good_rx\<close>) holds of all packets in the link
  masters and links: the retry protocol, the tokens and acknowledgements, the crossbar and the
  host controllers put only such packets into them.
\<close>

section \<open>The packets in a link master\<close>

text \<open>What every cube relies on of the packets that arrive holds of all packets in the masters.\<close>

definition good_place :: "packet option \<Rightarrow> bool" where
  "good_place q \<longleftrightarrow> pred_option good_rx q"

definition good_master :: "link_master \<Rightarrow> bool" where
  "good_master m \<longleftrightarrow> list_all good_place (upBuffers m) \<and> list_all good_place (downBuffers m) \<and> list_all good_place (backupBuffers m)
     \<and> list_all good_place (retryBuffers m) \<and> list_all good_rx (m_linkRxTx m)"

lemma good_place_simps [simp]: "good_place None" "good_place (Some p) = good_rx p"
  by (simp_all add: good_place_def)

lemma good_rx_fields [simp]:
  "good_rx (p\<lparr>RRP := n\<rparr>) = good_rx p" "good_rx (p\<lparr>FRP := n\<rparr>) = good_rx p" "good_rx (p\<lparr>SEQ := n\<rparr>) = good_rx p" "good_rx (p\<lparr>CRC := n\<rparr>) = good_rx p"
  "good_rx (p\<lparr>DRTC := n\<rparr>) = good_rx p" "good_rx (p\<lparr>URTC := n\<rparr>) = good_rx p" "good_rx (p\<lparr>TAG := n\<rparr>) = good_rx p"
  by (simp_all add: good_rx_def good_response_def)

lemma good_rx_copy [simp]: "good_rx (Packet_copy c r w p) = good_rx p"
  by (simp add: good_rx_def good_response_def Packet_copy_def Let_def packet_payload_def)

lemma good_rx_embed [simp]: "good_rx (embed d u p) = good_rx p"
  by (simp add: embed_def)

lemma good_flow_packet: "cmd \<noteq> ACT_ADD \<Longrightarrow> cmd \<noteq> ACT_DOT \<Longrightarrow> good_rx (flow_packet par down cmd tag)"
  by (simp add: flow_packet_def good_rx_def good_response_def Packet_request_def packet_payload_def packet_reset_def Let_def)

lemma good_irtry: "list_all good_rx (irtry par m flag p)"
  using good_flow_packet by (simp add: irtry_def list_all_iff)

lemma good_place_map: "good_place (map_option f q) \<longleftrightarrow> good_place q" if "\<And>p. good_rx (f p) = good_rx p"
  by (cases q) (simp_all add: that)

lemma good_master_simps [simp]:
  "good_master (m\<lparr>retBufReadP := r\<rparr>) = good_master m" "good_master (m\<lparr>retBufWriteP := r\<rparr>) = good_master m" "good_master (m\<lparr>lastestRRP := r\<rparr>) = good_master m"
  "good_master (m\<lparr>downTokenCount := r\<rparr>) = good_master m" "good_master (m\<lparr>upTokenCount := r\<rparr>) = good_master m" "good_master (m\<lparr>masterSEQ := i\<rparr>) = good_master m"
  "good_master (m\<lparr>m_startCRC := b\<rparr>) = good_master m" "good_master (m\<lparr>m_countdownCRC := i\<rparr>) = good_master m" "good_master (m\<lparr>currentState := s\<rparr>) = good_master m"
  "good_master (m\<lparr>readyStartRetry := b\<rparr>) = good_master m" "good_master (m\<lparr>startRetryTimer := b\<rparr>) = good_master m" "good_master (m\<lparr>retryTimer := r\<rparr>) = good_master m"
  "good_master (m\<lparr>retryAttempts := r\<rparr>) = good_master m" "good_master (m\<lparr>retryStartPacket := q\<rparr>) = good_master m"
  by (simp_all add: good_master_def)

lemma list_all_cons_drop: "list_all P xs \<Longrightarrow> list_all P (drop n xs)" "list_all P xs \<Longrightarrow> list_all P (take n xs)"
  by (auto simp: list_all_iff dest: in_set_dropD in_set_takeD)

lemma list_all_nth: "list_all P xs \<Longrightarrow> i < length xs \<Longrightarrow> P (xs ! i)"
  by (simp add: list_all_length)

lemma update_place: "list_all P xs \<Longrightarrow> (i < length xs \<Longrightarrow> P x) \<Longrightarrow> list_all P (xs[i := x])"
  by (cases "i < length xs") (simp_all add: list_all_update list_update_beyond)

lemma place_None: "list_all good_place xs \<Longrightarrow> list_all good_place (xs[i := None])"
  by (rule update_place) simp_all

lemmas whileE_keeps = whileE_inv [THEN conjunct1]

lemma UpdateRetryPointer_good: "UpdateRetryPointer p m = Inr m' \<Longrightarrow> good_master m \<Longrightarrow> good_master m'"
  unfolding UpdateRetryPointer_def
  by (erule whileE_keeps [where P = good_master]) (auto simp: err_simps good_master_def place_None)

lemma first_packet_good: "first_packet buf (RRP_update (\<lambda>_. n)) = Inr buf' \<Longrightarrow> list_all good_place buf \<Longrightarrow> list_all good_place buf'"
  by (auto simp: first_packet_def split: list.splits option.splits)

lemma ReturnRetryPointer_good: "ReturnRetryPointer par p m = Inr m' \<Longrightarrow> good_master m \<Longrightarrow> good_master m'"
  using good_flow_packet [of PRET par "m_downstream m" "TAG p"]
  by (auto simp: ReturnRetryPointer_def Let_def err_simps good_master_def elim: first_packet_good split: if_splits)

lemma UpdateToken_good: "UpdateToken p m = Inr m' \<Longrightarrow> good_master m \<Longrightarrow> good_master m'"
  by (auto simp: UpdateToken_def Let_def err_simps good_master_def)

lemma carrier_bound: "carrier n buf = Some i \<Longrightarrow> i < length buf"
  by (auto simp: carrier_def dest: first_index_SomeD split: option.splits if_splits)

lemma carrier_good: "carrier n buf = Some i \<Longrightarrow> list_all good_place buf \<Longrightarrow> list_all good_place (buf[i := map_option (embed d u) (buf ! i)])"
  by (rule update_place) (auto simp: good_place_map list_all_nth)

lemma ReturnToken_good: "ReturnToken par p m = Inr m' \<Longrightarrow> good_master m \<Longrightarrow> good_master m'"
  using good_flow_packet [of TRET par "m_downstream m" "TAG p"]
  by (auto simp: ReturnToken_def Let_def err_simps good_master_def insert_at_def carrier_good list_all_cons_drop split: option.splits if_splits list.splits)

lemma StartRetry_good: "good_master m \<Longrightarrow> good_master (StartRetry par p m)"
  by (simp add: StartRetry_def Let_def good_master_def good_irtry)

lemma retry_slot_good:
  assumes "retry_slot par (i, b, u, d, m) = Inr (i', b', u', d', m')" "good_master m"
  shows "good_master m'"
proof -
  let ?f = "\<lambda>q. (Packet_copy (lp_CRC_CHECK par) (lp_rnd par) (lp_raw par) q)\<lparr>bufPopDelay := (if m_downstream m then 0 else 1)\<rparr>"
  let ?slot = "map_option ?f (retryBuffers m ! unat i)"
  have i: "unat i < length (retryBuffers m)" using assms(1) by (auto simp: retry_slot_def Let_def err_simps)
  have s: "good_place ?slot" using i assms(2) by (simp add: good_place_map good_master_def list_all_nth)
  have "m' = m\<lparr>retryBuffers := (retryBuffers m)[unat i := None], upBuffers := upBuffers m @ [?slot]\<rparr>
      \<or> m' = m\<lparr>retryBuffers := (retryBuffers m)[unat i := None], downBuffers := downBuffers m @ [?slot]\<rparr>"
    using assms(1) by (auto simp: retry_slot_def Let_def err_simps split: if_splits)
  then show ?thesis using assms(2) s by (auto simp: good_master_def place_None)
qed

lemma LinkRetry_good:
  assumes "LinkRetry par p m = Inr m'" "good_master m"
  shows "good_master m'"
proof -
  let ?m = "m\<lparr>m_startCRC := False, m_linkRxTx := m_linkRxTx m @ irtry par m 2 p, masterSEQ := 0,
            backupBuffers := backupBuffers m @ upBuffers m @ downBuffers m, upBuffers := [], downBuffers := []\<rparr>"
  obtain i b u d m1 where w: "whileE (\<lambda>(i, _). i \<noteq> retBufWriteP ?m) (retry_slot par) (retBufReadP ?m, False, 0, 0, ?m) = Inr (i, b, u, d, m1)"
    "m' = m1\<lparr>upTokenCount := upTokenCount m1 + u, downTokenCount := downTokenCount m1 + d, retBufWriteP := retBufReadP ?m, currentState := LINK_RETRY\<rparr>"
    using assms(1) by (auto simp: LinkRetry_def Let_def err_simps)
  have g: "good_master ?m" using assms(2) by (simp add: good_master_def good_irtry)
  have "good_master (snd (snd (snd (snd (i, b, u, d, m1)))))"
    by (rule whileE_keeps [where P = "\<lambda>r. good_master (snd (snd (snd (snd r))))", OF w(1)]) (use g in \<open>simp, use retry_slot_good in force\<close>)
  then show ?thesis by (simp add: w(2))
qed

lemma FinishRetry_good: "FinishRetry par (m, st) = (m', st') \<Longrightarrow> good_master m' = good_master m"
  by (auto simp: FinishRetry_def)

lemma save_retry_good:
  assumes "save_retry par p m = Inr m'" "good_master m" "good_rx p"
  shows "good_master m'"
proof -
  let ?w = "unat (retBufWriteP m)"
  let ?b = "(retryBuffers m)[?w := Some (Packet_copy (lp_CRC_CHECK par) (lp_rnd par) (lp_raw par) p)]"
  obtain buf where f: "foldE (\<lambda>i buf. let j = (if ?w + i < MAX_RETRY_BUF then ?w + i else ?w + i - MAX_RETRY_BUF) in
      checkE (j < length buf) (Undefined ''retryBuffers'') (Inr (buf[j := None]))) [1..<unat (LNG p)] ?b = Inr buf"
    "m' = m\<lparr>retryBuffers := buf, retBufWriteP := FRP p\<rparr>"
    using assms(1) by (auto simp: save_retry_def Let_def err_simps)
  have "list_all good_place ?b" using assms(2,3) by (intro update_place) (simp_all add: good_master_def)
  then have "list_all good_place buf" by (rule foldE_inv [OF _ _ f(1), rotated]) (auto simp: Let_def err_simps intro!: update_place)
  then show ?thesis using assms(2) by (simp add: f(2) good_master_def)
qed

lemma UpdateField_good:
  assumes "UpdateField par n p m = Inr m'" "good_master m" "good_rx p"
  shows "good_master m'"
proof -
  define q where "q = p\<lparr>SEQ := word_of_int (fst (if masterSEQ m < 7 then (masterSEQ m, masterSEQ m + 1) else (0, masterSEQ m))), RRP := lastestRRP m,
                FRP := word_of_int (if n < int MAX_RETRY_BUF then n else n - int MAX_RETRY_BUF)\<rparr>"
  define m1 where "m1 = m\<lparr>masterSEQ := snd (if masterSEQ m < 7 then (masterSEQ m, masterSEQ m + 1) else (0, masterSEQ m)), m_startCRC := False\<rparr>"
  note u = assms(1) [unfolded UpdateField_def Let_def case_prod_beta, folded q_def, folded m1_def]
  obtain q' where q': "(if lp_CRC_CHECK par then bindE (GetCRC (lp_garbage par) q) (\<lambda>c. Inr (q\<lparr>CRC := c\<rparr>)) else Inr q) = Inr q'"
    using u by (auto simp: err_simps)
  have g: "good_rx q'" using q' assms(3) by (auto simp: q_def err_simps split: if_splits)
  define m2 where "m2 = (if packetType q' = REQUEST then m1\<lparr>downTokenCount := downTokenCount m1 - LNG q'\<rparr>
                   else if packetType q' = RESPONSE then m1\<lparr>upTokenCount := upTokenCount m1 - LNG q'\<rparr> else m1)"
  have g2: "good_master m2" using assms(2) by (simp add: m2_def m1_def)
  show ?thesis using u unfolding q' bindE_Inr m2_def [symmetric] bindE_eq_Inr
    apply (elim exE conjE)
    subgoal premises p for m3
    proof -
      have "good_master m3" using p(1) g2 g save_retry_good by (auto split: if_splits)
      then show ?thesis using p(2) g by (auto simp: err_simps good_master_def list_all_cons_drop split: if_splits)
    qed
    done
qed

lemma CRCCountdown_good: "CRCCountdown par n p m = Inr m' \<Longrightarrow> good_master m \<Longrightarrow> good_rx p \<Longrightarrow> good_master m'"
  using UpdateField_good by (auto simp: CRCCountdown_def Let_def err_simps split: if_splits)

lemma send_front_good:
  assumes "send_front par up m = Inr m'" "good_master m"
  shows "good_master m'"
proof -
  have f: "upBuffers m = Some p # r \<Longrightarrow> good_rx p" "downBuffers m = Some p # r \<Longrightarrow> good_rx p" for p r
    using assms(2) by (auto simp: good_master_def)
  show ?thesis using assms by (cases up) (auto simp: send_front_def Let_def dest: f intro: CRCCountdown_good split: list.splits option.splits if_splits)
qed

lemma restore_good: "list_all good_place qs \<Longrightarrow> list_all good_place up \<Longrightarrow> list_all good_place down \<Longrightarrow>
    restore b qs up down = (up', down') \<Longrightarrow> list_all good_place up' \<and> list_all good_place down'"
  by (induction b qs up down rule: restore.induct) (auto simp: Let_def split: if_splits)

lemma finish_link_retry_good:
  assumes "finish_link_retry par m = Inr m'" "good_master m"
  shows "good_master m'"
proof (cases "currentState m = LINK_RETRY \<and> upBuffers m = [] \<and> downBuffers m = [] \<and> m_linkRxTx m = []")
  case True
  show ?thesis using assms(1) unfolding finish_link_retry_def if_P [OF True] bindE_eq_Inr
    apply (elim exE conjE)
    subgoal premises p for m1
    proof -
      have g: "good_master m1" using p(1) assms(2) by (auto simp: good_master_def good_irtry split: if_splits option.splits)
      obtain up down where r: "restore False (backupBuffers m1) [] [] = (up, down)" by fastforce
      have "list_all good_place up \<and> list_all good_place down" by (rule restore_good [OF _ _ _ r]) (use g in \<open>simp_all add: good_master_def\<close>)
      then show ?thesis using p(2) g by (auto simp: r good_master_def)
    qed
    done
next
  case False
  then show ?thesis using assms unfolding finish_link_retry_def if_not_P [OF False] by simp
qed

lemma retry_time_out_good: "retry_time_out par (m, st) = Inr (m', st') \<Longrightarrow> good_master m \<Longrightarrow> good_master m'"
  by (auto simp: retry_time_out_def Let_def FinishRetry_def StartRetry_good split: if_splits option.splits)

lemma step_places: "list_all good_place (map step_packet buf) = list_all good_place buf"
  by (induction buf) (simp_all add: step_packet_def good_place_map)

lemma master_Step_good: "good_master (dual_Step m) = good_master m"
  by (simp add: good_master_def dual_Step_def Let_def step_places)

lemma LinkMaster_Update_good: "LinkMaster_Update par (m, st) = Inr (m', st') \<Longrightarrow> good_master m \<Longrightarrow> good_master m'"
  using send_front_good finish_link_retry_good retry_time_out_good by (auto simp: LinkMaster_Update_def err_simps master_Step_good)

section \<open>Slaves and links\<close>

lemma error_abort_master: "error_abort par p (s, m, st) = Inr (b, s', m', st') \<Longrightarrow> good_master m \<Longrightarrow> good_master m'"
  by (auto simp: error_abort_def err_simps Let_def StartRetry_good)

lemma accept_master: "accept par i p (s, m, st) = Inr (b, s', m', st') \<Longrightarrow> good_master m \<Longrightarrow> good_master m'"
  using ReturnRetryPointer_good UpdateToken_good by (auto simp: accept_def err_simps)

lemma check_packet_master: "check_packet par i p (s, m, st) = Inr (b, s', m', st') \<Longrightarrow> good_master m \<Longrightarrow> good_master m'"
  by (auto simp: check_packet_def Let_def err_simps elim: accept_master error_abort_master split: if_splits)

lemma retry_packet_master: "retry_packet par i p (s, m, st) = Inr (b, s', m', st') \<Longrightarrow> good_master m \<Longrightarrow> good_master m'"
  using UpdateRetryPointer_good [of p m] LinkRetry_good [of par p]
  by (auto simp: retry_packet_def err_simps dest!: FinishRetry_good split: if_splits prod.splits)

lemma rx_packet_master: "rx_packet par i (stop, s, m, st) = Inr (b, s', m', st') \<Longrightarrow> good_master m \<Longrightarrow> good_master m'"
  using UpdateRetryPointer_good [of "s_linkRxTx s ! i" m]
  by (auto simp: rx_packet_def Let_def err_simps elim: retry_packet_master check_packet_master split: if_splits)

lemma slave_receives_master: "slave_receives par (s, m, st) = Inr (s', m', st') \<Longrightarrow> good_master m \<Longrightarrow> good_master m'"
proof -
  assume a: "slave_receives par (s, m, st) = Inr (s', m', st')" "good_master m"
  obtain b where f: "foldE (rx_packet par) [0..<length (s_linkRxTx s)] (False, s, m, st) = Inr (b, s', m', st')"
    using a(1) by (auto simp: slave_receives_def err_simps)
  have "good_master (fst (snd (snd (b, s', m', st'))))"
    by (rule foldE_inv [where P = "\<lambda>r. good_master (fst (snd (snd r)))", OF _ _ f]) (use a(2) rx_packet_master in auto)
  then show ?thesis by simp
qed

lemma pass_up_master: "pass_up par (s, m, d) = Inr (b, s', m', d') \<Longrightarrow> good_master m \<Longrightarrow> good_master m'"
  using ReturnToken_good by (auto simp: pass_up_def err_simps split: list.splits option.splits prod.splits if_splits)

lemma pass_down_master: "pass_down par (s, m, d) = Inr (s', m', d') \<Longrightarrow> good_master m \<Longrightarrow> good_master m'"
  using ReturnToken_good by (auto simp: pass_down_def err_simps split: list.splits option.splits prod.splits if_splits)

lemma LinkSlave_Update_master:
  assumes "LinkSlave_Update par (s, m, st, d) = Inr (s', m', st', d')" "good_master m"
  shows "good_master m'"
proof -
  obtain s1 m1 st1 b1 s2 m2 d2 s3 d3 where r: "slave_receives par (s, m, st) = Inr (s1, m1, st1)" "pass_up par (s1, m1, d) = Inr (b1, s2, m2, d2)"
    "(if b1 then Inr (s2, m2, d2) else pass_down par (s2, m2, d2)) = Inr (s3, m', d3)"
    using assms(1) by (auto simp: LinkSlave_Update_def err_simps)
  have "good_master m2" using pass_up_master [OF r(2) slave_receives_master [OF r(1) assms(2)]] .
  then show ?thesis using r(3) pass_down_master by (auto split: if_splits)
qed

definition good_link :: "link \<Rightarrow> bool" where
  "good_link l \<longleftrightarrow> pred_option good_rx (inFlightPacket l)"

lemma good_link_Some: "inFlightPacket l = Some p \<Longrightarrow> good_link l \<Longrightarrow> good_rx p"
  by (simp add: good_link_def)

lemma NoisePacket_good: "NoisePacket par rd p = Inr q \<Longrightarrow> good_rx q = good_rx p"
  by (auto simp: NoisePacket_def err_simps split: if_splits)

lemma start_transmission_good:
  assumes "start_transmission par (l, m, s, tr, st) = Inr (l', m', s', tr', st')" "good_link l" "good_master m"
  shows "good_link l' \<and> good_master m' \<and> s' = s"
  using assms by (cases "m_linkRxTx m") (auto simp: start_transmission_def err_simps good_link_def good_master_def split: if_splits)

lemma transmit_good:
  assumes "transmit par rd (l, m, s, tr, st) = Inr (l', m', s', tr', st')" "good_link l"
  shows "good_link l' \<and> m' = m \<and> (good_slave s \<longrightarrow> good_slave s')"
proof (cases "inFlightPacket l")
  case None
  then show ?thesis using assms by (auto simp: transmit_def Let_def good_link_def split: if_splits)
next
  case (Some p)
  then have "good_rx p" using assms(2) by (simp add: good_link_def)
  then have "good_rx q" if "NoisePacket par rd p = Inr q" for q using NoisePacket_good [OF that] by simp
  moreover have "good_slave (s\<lparr>s_linkRxTx := s_linkRxTx s @ [q\<lparr>bufPopDelay := 1\<rparr>]\<rparr>)" if "good_rx q" "good_slave s" for q
    using that by (simp add: good_slave_def)
  moreover have "good_link (l\<lparr>inFlightCountdown := n\<rparr>)" for n using assms(2) by (simp add: good_link_def)
  ultimately show ?thesis using assms Some
    by (auto simp: transmit_def Let_def err_simps good_link_def [of "l\<lparr>inFlightCountdown := _, inFlightPacket := None\<rparr>"] split: if_splits option.splits)
qed

lemma Link_Update_good:
  assumes "Link_Update par rd lu (l, m, s, tr, st) = Inr (l', m', s', tr', st')" "good_link l" "good_master m"
  shows "good_link l' \<and> good_master m' \<and> (good_slave s \<longrightarrow> good_slave s')"
proof -
  obtain l1 m1 s1 tr1 st1 l2 m2 where r: "start_transmission par (l, m, s, tr, st) = Inr (l1, m1, s1, tr1, st1)"
    "transmit par rd (l1, m1, s1, tr1, st1) = Inr (l2, m2, s', tr', st')" "l' = l2\<lparr>lk_clock := lk_clock l2 + 1\<rparr>"
    "m' = (if lu then m2\<lparr>m_linkRxTx := tick_packets (m_linkRxTx m2)\<rparr> else m2)"
    using assms(1) by (auto simp: Link_Update_def err_simps)
  note s = start_transmission_good [OF r(1) assms(2,3)]
  have "good_link l2 \<and> m2 = m1 \<and> (good_slave s \<longrightarrow> good_slave s')" using transmit_good [OF r(2)] s by simp
  then show ?thesis using s by (auto simp: r(3,4) good_link_def good_master_def tick_packets_def list_all_iff)
qed

section \<open>The crossbar and the masters\<close>

lemma good_clean [simp]: "good_rx (clean p) = good_rx p"
  by (simp add: clean_def good_rx_def good_response_def)

lemma packet_places_good: "good_rx p \<Longrightarrow> list_all good_place (packet_slots p)"
  by (simp add: packet_slots_def list_all_iff)

lemma ReceiveUp_good: "ReceiveUp p m = (ok, m') \<Longrightarrow> good_rx p \<Longrightarrow> good_master m \<Longrightarrow> good_master m'"
  using packet_places_good [of p] by (auto simp: ReceiveUp_def receive_def good_master_def split: if_splits)

lemma ReceiveDown_good: "ReceiveDown p m = (ok, m') \<Longrightarrow> good_rx p \<Longrightarrow> good_master m \<Longrightarrow> good_master m'"
  using packet_places_good [of p] by (auto simp: ReceiveDown_def receive_def good_master_def split: if_splits)

lemma to_link_good:
  assumes "to_link recv p link ms = Inr (ok, ms')" "list_all good_master ms" "\<And>m ok m'. recv p m = (ok, m') \<Longrightarrow> good_master m \<Longrightarrow> good_master m'"
  shows "list_all good_master ms'"
  using assms by (auto simp: to_link_def at_int_def err_simps list_all_nth split: if_splits prod.splits intro!: update_place)

lemma down_to_link: "to_link ReceiveDown p link ms = Inr (ok, ms') \<Longrightarrow> packetType p = REQUEST \<Longrightarrow> list_all good_master ms \<Longrightarrow> list_all good_master ms'"
  by (erule to_link_good) (auto intro: ReceiveDown_good simp: good_rx_def)

lemma up_to_link: "to_link ReceiveUp p link ms = Inr (ok, ms') \<Longrightarrow> CMD p \<noteq> ACT_ADD \<Longrightarrow> CMD p \<noteq> ACT_DOT \<Longrightarrow> list_all good_master ms \<Longrightarrow> list_all good_master ms'"
  by (erule to_link_good) (auto intro: ReceiveUp_good simp: good_rx_def good_response_def)

abbreviation masters_of :: "bool list \<times> xbar \<times> 'v dual_vector_scheme list \<times> link_master list \<Rightarrow> link_master list" where
  "masters_of s \<equiv> snd (snd (snd s))"

lemma copy_type [simp]: "packetType (copy_packet par p) = packetType p"
  by (simp add: copy_packet_def Packet_copy_def Let_def packet_payload_def)

lemma clean_type [simp]: "packetType (clean p) = packetType p" "CMD (clean p) = CMD p"
  by (simp_all add: clean_def)

lemma half_type: "half_packet p = Inr q \<Longrightarrow> packetType q = packetType p"
  by (auto simp: half_packet_def err_simps split: if_splits)

named_theorems master_steps \<open>steps of the loop over the requests give the masters requests\<close>

lemma local_add_masters [master_steps]: "list_all good_master (masters_of s) \<Longrightarrow> okE (local_add par ll i p s) (\<lambda>(m, s'). list_all good_master (masters_of s'))"
  by (cases s) (auto simp: local_add_def wp Let_def split: list.split)

lemma local_mult_masters [master_steps]: "list_all good_master (masters_of s) \<Longrightarrow> okE (local_mult par ll i p s) (\<lambda>(m, s'). list_all good_master (masters_of s'))"
  by (cases s) (auto simp: local_mult_def wp Let_def split: list.split)

lemma local_half_masters [master_steps]: "list_all good_master (masters_of s) \<Longrightarrow> okE (local_half par ll i p s) (\<lambda>(m, s'). list_all good_master (masters_of s'))"
  by (cases s) (auto simp: local_half_def wp Let_def)

lemma local_get_masters [master_steps]: "list_all good_master (masters_of s) \<Longrightarrow> okE (local_get par ll i p s) (\<lambda>(m, s'). list_all good_master (masters_of s'))"
  by (cases s) (auto simp: local_get_def wp Let_def split: option.split)

lemma local_other_masters [master_steps]: "list_all good_master (masters_of s) \<Longrightarrow> okE (local_other par ll i p s) (\<lambda>(m, s'). list_all good_master (masters_of s'))"
  by (cases s) (auto simp: local_other_def wp Let_def)

lemma split_mult_masters: "list_all good_master (masters_of s) \<Longrightarrow> packetType p = REQUEST \<Longrightarrow> okE (split_mult par ll i p l1 l2 s) (\<lambda>(m, s'). list_all good_master (masters_of s'))"
  by (cases s) (auto simp: split_mult_def wp Let_def dest!: down_to_link split: list.split)

lemma forward_mult_masters: "list_all good_master (masters_of s) \<Longrightarrow> packetType p = REQUEST \<Longrightarrow> okE (forward_mult par ll i p l s) (\<lambda>(m, s'). list_all good_master (masters_of s'))"
  using split_mult_masters by (cases s) (fastforce simp: forward_mult_def wp Let_def dest!: down_to_link)

lemma forward_half_masters: "list_all good_master (masters_of s) \<Longrightarrow> packetType p = REQUEST \<Longrightarrow> okE (forward_half par ll i p l s) (\<lambda>(m, s'). list_all good_master (masters_of s'))"
  by (cases s) (auto simp: forward_half_def wp Let_def dest!: half_type dest: down_to_link)

lemma forward_other_masters: "list_all good_master (masters_of s) \<Longrightarrow> packetType p = REQUEST \<Longrightarrow> okE (forward_other par ll i p l s) (\<lambda>(m, s'). list_all good_master (masters_of s'))"
  by (cases s) (auto simp: forward_other_def wp Let_def dest: down_to_link)

lemma forward_masters: "list_all good_master (masters_of s) \<Longrightarrow> packetType p = REQUEST \<Longrightarrow> okE (forward_packet par ll i p s) (\<lambda>(m, s'). list_all good_master (masters_of s'))"
  using forward_mult_masters forward_half_masters forward_other_masters
  by (cases s) (fastforce simp: forward_packet_def wp)

lemma local_packet_masters: "list_all good_master (masters_of s) \<Longrightarrow> okE (local_packet par ll i p s) (\<lambda>(m, s'). list_all good_master (masters_of s'))"
  using master_steps [of s] by (cases s) (auto simp: local_packet_def wp)

lemma down_packet_masters: "list_all good_master (masters_of (snd s)) \<Longrightarrow> okE (down_packet par ll s) (\<lambda>s'. list_all good_master (masters_of (snd s')))"
proof -
  obtain i stop vmask x vs ms where s: "s = ((i, stop), vmask, x, vs, ms)" by (cases s) auto
  assume f: "list_all good_master (masters_of (snd s))"
  show ?thesis using f local_packet_masters [of "(vmask, x, vs, ms)" par ll i] forward_masters [of "(vmask, x, vs, ms)" _ par ll i]
    unfolding s down_packet_def by (auto simp: wp case_prod_unfold split: option.split)
qed

lemma down_link_masters: "down_link par l s = Inr s' \<Longrightarrow> list_all good_master (masters_of s) \<Longrightarrow> list_all good_master (masters_of s')"
proof -
  assume d: "down_link par l s = Inr s'" and f: "list_all good_master (masters_of s)"
  let ?x = "fst (snd s)"
  let ?ll = "(downLink ?x + l) mod (length (inputBuffers ?x) - 1)"
  show ?thesis
  proof (cases "dv_bufPopDelay (inputBuffers ?x ! ?ll) = 0")
    case True
    then obtain j where w: "whileE (down_active ?ll) (down_packet par ?ll) ((0, False), s) = Inr (j, s')"
      using d by (cases s) (auto simp: down_link_def Let_def err_simps)
    have "list_all good_master (masters_of (snd (j, s')))"
      by (rule whileE_keeps [where P = "\<lambda>s. list_all good_master (masters_of (snd s))", OF w]) (use f in simp, rule okED [OF down_packet_masters])
    then show ?thesis by simp
  next
    case False
    then show ?thesis using d f by (cases s) (simp add: down_link_def Let_def)
  qed
qed

lemma up_packet_masters: "list_all good_master (snd (snd s)) \<Longrightarrow> okE (up_packet par ll s) (\<lambda>s'. list_all good_master (snd (snd s')))"
  by (cases s) (auto simp: up_packet_def taken_up_def wp dest!: up_to_link split: option.split)

lemma up_link_masters: "up_link par l (x, ms) = Inr (x', ms') \<Longrightarrow> list_all good_master ms \<Longrightarrow> list_all good_master ms'"
proof -
  assume u: "up_link par l (x, ms) = Inr (x', ms')" and g: "list_all good_master ms"
  let ?ll = "(upLink x + l) mod length (inputBuffers x)"
  obtain i where w: "whileE (\<lambda>(i, x, ms). i < length (up_buf ?ll x)) (up_packet par ?ll) (0, x, ms) = Inr (i, x', ms')"
    using u by (auto simp: up_link_def Let_def err_simps)
  have "list_all good_master (snd (snd (i, x', ms')))"
    by (rule whileE_keeps [where P = "\<lambda>s. list_all good_master (snd (snd s))", OF w]) (use g in simp, rule okED [OF up_packet_masters])
  then show ?thesis by simp
qed

lemma gather_one_masters: "gather_one par kf (x, ms) = Inr (x', ms') \<Longrightarrow> list_all good_master ms \<Longrightarrow> list_all good_master ms'"
proof -
  assume a: "gather_one par kf (x, ms) = Inr (x', ms')" "list_all good_master ms"
  have good: "good_rx (fst (Packet_active c r w g RESPONSE ACT_GET k s1 n len t sc dc))" for c r w g k s1 n len t sc dc
    by (simp add: Packet_active_def Let_def packet_payload_def good_rx_def good_response_def packet_reset_def)
  obtain k fe where kf: "kf = (k, fe)" by (cases kf)
  show ?thesis
  proof (cases "req_count fe = rep_count fe \<and> g_flag fe")
    case True
    then obtain x1 link where l: "route par (parent fe) False x = Inr (x1, link)" "0 \<le> link" "nat link < length ms"
      using a(1) by (auto simp: gather_one_def kf err_simps at_int_def)
    let ?P = "Packet_active (np_CRC_CHECK par) (np_rnd par) (np_raw par) (x_gtag x1) RESPONSE ACT_GET k 0 0 2 (Some (length (x_traces x1))) (sint (cubeID x1)) (parent fe)"
    obtain ok m where r: "ReceiveUp (fst ?P) (ms ! nat link) = (ok, m)" by fastforce
    have "good_master m" by (rule ReceiveUp_good [OF r good]) (use a(2) l(3) in \<open>simp add: list_all_nth\<close>)
    moreover have "ms' = ms \<or> ms' = ms[nat link := m]"
      using a(1) True l r by (cases ?P) (auto simp: gather_one_def kf at_int_def Let_def err_simps split: if_splits)
    ultimately show ?thesis using a(2) by (auto intro: list_all_update)
  next
    case False
    then show ?thesis using a unfolding gather_one_def kf prod.case if_not_P [OF False] by simp
  qed
qed

lemma CrossbarSwitch_Update_masters:
  assumes "CrossbarSwitch_Update par (x, vs, ms) = Inr (x', vs', ms')" "list_all good_master ms"
  shows "list_all good_master ms'"
proof -
  obtain x1 ms1 x2 ms2 x3 x4 where r: "upstream par (x, ms) = Inr (x1, ms1)" "downstream par (x1, vs, ms1) = Inr (x2, vs', ms2)"
    "gather_replies par (x3, ms2) = Inr (x4, ms')"
    using assms(1) by (auto simp: CrossbarSwitch_Update_def err_simps)
  obtain n xa where f1: "foldE (up_link par) [0..<n] (x, ms) = Inr (xa, ms1)" using r(1) by (auto simp: upstream_def err_simps)
  have "list_all good_master (snd (xa, ms1))"
    by (rule foldE_inv [where P = "\<lambda>s. list_all good_master (snd s)", OF _ _ f1]) (use assms(2) up_link_masters in auto)
  moreover obtain n vm y where f2: "foldE (down_link par) [0..<n] (replicate NUM_VAULTS False, x1, vs, ms1) = Inr (vm, y, vs', ms2)"
    using r(2) by (auto simp: downstream_def err_simps)
  ultimately have "list_all good_master (masters_of (vm, y, vs', ms2))"
    by (intro foldE_inv [where P = "\<lambda>s. list_all good_master (masters_of s)", OF _ _ f2]) (use down_link_masters in auto)
  then have g: "list_all good_master ms2" by simp
  have "list_all good_master (snd (x4, ms'))"
    by (rule foldE_inv [where P = "\<lambda>s. list_all good_master (snd s)", OF _ _ r(3) [unfolded gather_replies_def]]) (use g gather_one_masters in auto)
  then show ?thesis by simp
qed

section \<open>A cube\<close>

text \<open>A cube in the network: its invariant, and that of its masters.\<close>

definition good_cube :: "cube_par \<Rightarrow> hmc \<Rightarrow> bool" where
  "good_cube par h \<longleftrightarrow> cube_inv par h \<and> list_all good_master (upLinkMasters h)"

lemma slave_cycle_good:
  assumes "slave_cycle par l (h, sh) = Inr (h', sh')" "good_cube par h"
  shows "good_cube par h'"
proof -
  obtain ls m st ib where u: "LinkSlave_Update (cp_link par) (downLinkSlaves h ! l, upLinkMasters h ! l, sh_links sh, inputBuffers (crossbarSwitch h) ! l) = Inr (ls, m, st, ib)"
    "l < length (upLinkMasters h)" "upLinkMasters h' = (upLinkMasters h)[l := m]"
    using assms(1) by (auto simp: slave_cycle_def err_simps Let_def)
  have "good_master m" by (rule LinkSlave_Update_master [OF u(1)]) (use assms(2) u(2) in \<open>simp add: good_cube_def list_all_nth\<close>)
  then show ?thesis using slave_cycle_inv [OF assms(1)] assms(2) by (simp add: good_cube_def u(3) list_all_update)
qed

lemma crossbar_cycle_good: "crossbar_cycle par (h, sh) = Inr (h', sh') \<Longrightarrow> good_cube par h \<Longrightarrow> good_cube par h'"
  using crossbar_cycle_inv [of par h sh h' sh'] by (auto simp: crossbar_cycle_def good_cube_def err_simps dest: CrossbarSwitch_Update_masters)

lemma controller_cycle_good:
  assumes "controller_cycle par i (h, sh) = Inr (h', sh')" "good_cube par h" "NUM_BANKS (cfg (cp_vault par)) \<le> 2 ^ 32"
  shows "good_cube par h'"
  using controller_cycle_inv [OF assms(1) _ assms(3)] assms(1,2) by (auto simp: controller_cycle_def good_cube_def err_simps Let_def)

lemma dram_cycle_good: "dram_cycle par i (h, sh) = Inr (h', sh') \<Longrightarrow> good_cube par h \<Longrightarrow> good_cube par h'"
  using dram_cycle_inv [of par i h sh h' sh'] by (auto simp: dram_cycle_def good_cube_def err_simps)

lemma master_cycle_good: "master_cycle par l (h, sh) = Inr (h', sh') \<Longrightarrow> good_cube par h \<Longrightarrow> good_cube par h'"
  using master_cycle_inv [of par l h sh h' sh']
  by (auto simp: master_cycle_def good_cube_def err_simps list_all_nth dest!: LinkMaster_Update_good intro!: list_all_update)

lemma good_loop:
  assumes "foldE f xs (h, sh) = Inr (h', sh')" "good_cube par h" "\<And>x h sh h' sh'. f x (h, sh) = Inr (h', sh') \<Longrightarrow> good_cube par h \<Longrightarrow> good_cube par h'"
  shows "good_cube par h'"
proof -
  have "good_cube par (fst (h', sh'))" by (rule foldE_inv [where P = "\<lambda>s. good_cube par (fst s)", OF _ _ assms(1)]) (use assms(2,3) in auto)
  then show ?thesis by simp
qed

lemma HMC_Update_good:
  assumes "HMC_Update par (h, sh) = Inr (h', sh')" "good_cube par h" "NUM_BANKS (cfg (cp_vault par)) \<le> 2 ^ 32"
  shows "good_cube par h'"
proof -
  obtain h1 s1 h2 s2 h3 s3 h4 s4 h5 where r: "foldE (slave_cycle par) [0..<NUM_LINKS] (h, sh) = Inr (h1, s1)" "crossbar_cycle par (h1, s1) = Inr (h2, s2)"
    "foldE (controller_cycle par) [0..<NUM_VAULTS] (h2, s2) = Inr (h3, s3)" "foldE (dram_cycle par) [0..<NUM_VAULTS] (h3, s3) = Inr (h4, s4)"
    "foldE (master_cycle par) [0..<NUM_LINKS] (h4, s4) = Inr (h5, sh')" "h' = h5\<lparr>clockTuner := clockTuner h5 + 1, hm_clock := hm_clock h5 + 1\<rparr>"
    using assms(1) by (auto simp: HMC_Update_def err_simps)
  have "good_cube par h1" by (rule good_loop [OF r(1) assms(2) slave_cycle_good])
  then have "good_cube par h2" by (rule crossbar_cycle_good [OF r(2)])
  then have "good_cube par h3" using good_loop [OF r(3)] controller_cycle_good assms(3) by blast
  then have "good_cube par h4" by (rule good_loop [OF r(4) _ dram_cycle_good])
  then have "good_cube par h5" by (rule good_loop [OF r(5) _ master_cycle_good])
  then show ?thesis by (simp add: r(6) good_cube_def cube_inv_def)
qed

lemma LinkMaster_good: "good_master (LinkMaster down)"
  by (simp add: good_master_def LinkMaster_def dual_vector.defs link_master.defs DualVectorObject_def list_all_iff)

lemma HMC_good:
  assumes "HMC par dim cube ops = Inr h" "0 < NUM_BANKS (cfg (cp_vault par))"
  shows "good_cube par h"
proof -
  obtain ms where m: "HMC_masters (np_topology (cp_net par)) dim cube = Inr ms" "upLinkMasters h = ms" using assms(1) by (auto simp: HMC_def Let_def err_simps)
  have "list_all good_master ms"
    by (rule foldE_inv [where P = "list_all good_master", OF _ _ m(1) [unfolded HMC_masters_def]]) (auto simp: err_simps LinkMaster_good)
  then show ?thesis using HMC_inv [OF assms] m(2) by (simp add: good_cube_def)
qed

section \<open>A host controller\<close>

definition good_host :: "hmc_controller \<Rightarrow> bool" where
  "good_host c \<longleftrightarrow> list_all good_master (downLinkMasters c)"

lemma good_host_simps [simp]:
  "good_host (c\<lparr>hc_inServiceLink := i\<rparr>) = good_host c" "good_host (c\<lparr>tranBuffers := ts\<rparr>) = good_host c" "good_host (c\<lparr>gatherBarrier := b\<rparr>) = good_host c"
  "good_host (c\<lparr>responseQ := q\<rparr>) = good_host c" "good_host (c\<lparr>serv_trans := q'\<rparr>) = good_host c" "good_host (c\<lparr>upBuffers := buf\<rparr>) = good_host c"
  "good_host (c\<lparr>upLinkSlaves := ss\<rparr>) = good_host c" "good_host (c\<lparr>dv_bufPopDelay := d\<rparr>) = good_host c"
  by (simp_all add: good_host_def)

lemma good_host_Step [simp]: "good_host (dual_Step c) = good_host c"
  by (simp add: good_host_def dual_Step_def Let_def)

lemma controller_ReceiveDown_good: "controller_ReceiveDown t (c, w) = Inr (ok, c', w') \<Longrightarrow> good_host c \<Longrightarrow> good_host c'"
  by (auto simp: controller_ReceiveDown_def controller_CallbackReceiveDown_def Let_def err_simps split: if_splits)

lemma hand_over_good:
  assumes "hand_over l p (c, w) = Inr (ok, c', w')" "good_host c" "packetType p = REQUEST" "l < length (downLinkMasters c)"
  shows "good_host c'"
proof -
  obtain ok1 m where m: "ReceiveDown p (downLinkMasters c ! l) = (ok1, m)" by fastforce
  have "good_master m" by (rule ReceiveDown_good [OF m]) (use assms in \<open>simp_all add: good_rx_def good_host_def list_all_nth\<close>)
  then have "good_host (c\<lparr>downLinkMasters := (downLinkMasters c)[l := m]\<rparr>)" using assms(2) by (simp add: good_host_def list_all_update)
  then show ?thesis using assms(1,2) m by (cases ok1) (auto simp: hand_over_def err_simps free_trace_def Let_def split: if_splits)
qed

lemma meet_good: "meet p t c = Inr (b, c') \<Longrightarrow> good_host c' = good_host c \<and> downLinkMasters c' = downLinkMasters c"
  by (auto simp: meet_def err_simps split: if_splits)

lemma Conv_request: "ConvTranIntoPacket par t g = Inr (p, g') \<Longrightarrow> packetType p = REQUEST"
  by (erule ConvTranIntoPacket_fields) simp

lemma send_free_good:
  assumes "send_free par i (stop, c, w) = Inr (stop', c', w')" "good_host c"
  shows "good_host c'"
  using assms by (auto simp: send_free_def Let_def err_simps dest!: meet_good Conv_request dest: hand_over_good split: if_splits prod.splits list.splits)

lemma send_dependent_good:
  assumes "send_dependent par l t (c, w) = Inr (c', w')" "good_host c" "l < length (downLinkMasters c)"
  shows "good_host c'"
  using assms by (auto simp: send_dependent_def Let_def err_simps dest!: meet_good Conv_request dest: hand_over_good split: if_splits)

lemma controller_down_good:
  assumes "controller_down par (c, w) = Inr (c', w')" "good_host c"
  shows "good_host c'"
proof (cases "tranBuffers c = [] \<or> dv_bufPopDelay c \<noteq> 0")
  case True
  then show ?thesis using assms by (auto simp: controller_down_def split: list.splits)
next
  case False
  then obtain t rest where t: "tranBuffers c = t # rest" "dv_bufPopDelay c = 0" by (cases "tranBuffers c") auto
  let ?link = "dependent_link par c t"
  have n: "CPU_LINKS (hp_topology par) \<le> length (downLinkMasters c)" using assms(1) t by (auto simp: controller_down_def err_simps)
  show ?thesis
  proof (cases "?link = -1")
    case True
    then obtain b where f: "foldE (send_free par) [0..<CPU_LINKS (hp_topology par)] (False, c, w) = Inr (b, c', w')"
      using assms(1) t n by (auto simp: controller_down_def Let_def err_simps)
    have "good_host (fst (snd (b, c', w')))"
      by (rule foldE_inv [where P = "\<lambda>r. good_host (fst (snd r))", OF _ _ f]) (use assms(2) send_free_good in auto)
    then show ?thesis by simp
  next
    case False
    then have "send_dependent par (nat ?link) t (c, w) = Inr (c', w')" using assms(1) t n by (auto simp: controller_down_def Let_def err_simps)
    then show ?thesis by (rule send_dependent_good [OF _ assms(2)]) (use dependent_link_range [OF False] n in auto)
  qed
qed

lemma controller_up_good: "controller_up (c, w) = Inr (c', w') \<Longrightarrow> good_host c \<Longrightarrow> good_host c'"
  by (auto simp: controller_up_def Let_def err_simps split: list.splits option.splits)

lemma HMCController_Update_good: "HMCController_Update par (c, w) = Inr (c', w') \<Longrightarrow> good_host c \<Longrightarrow> good_host c'"
  using controller_down_good controller_up_good by (auto simp: HMCController_Update_def err_simps)

lemma HMCController_good: "good_host (HMCController topo i)"
  by (simp add: good_host_def HMCController_def dual_vector.defs hmc_controller.defs DualVectorObject_def list_all_iff LinkMaster_good)

end
