(* ===== verification/Network.thy ===== *)
theory Network
  imports Topology Masters
begin

text \<open>
  The network: \<open>Network.cpp\<close>. Host controllers and their links, the cubes and their links, and a
  cycle of the processor clock, in which links and cubes run as often as their own clocks ask for.

  The components are lists; where the source follows a pointer from a link to the slave at its end,
  the state has the wiring of \<open>Topology\<close>. The clock periods are double-precision numbers: the
  comparisons of their multiples are parameters. Logs and plots are not modelled.
\<close>

section \<open>State\<close>

record network_par =
  nw_cube :: cube_par
  nw_hmc :: hmc_par
  nw_noise :: "link \<Rightarrow> nat \<Rightarrow> u32"
  cpu_faster :: bool
  link_late :: "u64 \<Rightarrow> u64 \<Rightarrow> bool"
  link_even :: "u64 \<Rightarrow> u64 \<Rightarrow> bool"
  link_ticks :: "u64 \<Rightarrow> u64"
  cpu_dram :: bool
  dram_late :: "u64 \<Rightarrow> u64 \<Rightarrow> bool"
  dram_even :: "u64 \<Rightarrow> u64 \<Rightarrow> bool"
  dram_ticks :: "u64 \<Rightarrow> u64"

text \<open>
  \<open>cpu_faster\<close> is \<open>gCpuClkPeriod < linkPeriod\<close>, \<open>link_late t c\<close> is \<open>gCpuClkPeriod*t > linkPeriod*c\<close>,
  \<open>link_even\<close> the same with \<open>==\<close>, \<open>link_ticks t\<close> is \<open>(int) (gCpuClkPeriod*t/linkPeriod)\<close>; \<open>cpu_dram\<close> is
  \<open>gCpuClkPeriod <= tCK\<close>, and the others are the same with \<open>tCK\<close>.
\<close>

record network =
  hmcConts :: "hmc_controller list"
  hmcCntLinks :: "link list"
  hmcLinks :: "link list list"
  hmcs :: "hmc list"
  slaveOf :: wiring
  hostSlave :: "nat \<rightharpoonup> endpoint"
  nw_shared :: shared
  nw_transmitSize :: u64
  nw_clock :: u64
  dramTuner :: "u64 list"
  downLinkTuner :: u64
  downLinkClock :: u64
  upLinkTuner :: u64
  upLinkClock :: u64
  computeFinishCycle :: u64
  outstandRequests :: "u64 list"

section \<open>Construction\<close>

text \<open>The direction of the link a cube's master feeds.\<close>

definition link_down :: "topology \<Rightarrow> nat \<Rightarrow> nat \<Rightarrow> nat \<Rightarrow> bool result" where
  "link_down topo nodes i l = (case topo of
     DFLY \<Rightarrow> if nodes = 16 then Inr (\<not> (i mod 5 = 0 \<and> i div 5 = l))
             else if nodes = 64 then Inr (\<not> (i mod 21 = 0 \<and> i div 21 = l)) else Inl (Assertion ''0'')
   | DEFAULT \<Rightarrow> Inr False
   | _ \<Rightarrow> Inr (\<not> (i = 0 \<and> l = 0 \<or> i = 3 \<and> l = 1 \<or> i = 12 \<and> l = 2 \<or> i = 15 \<and> l = 3)))"

definition Alloc_links :: "topology \<Rightarrow> nat \<Rightarrow> nat \<Rightarrow> link list result" where
  "Alloc_links topo nodes i = foldE (\<lambda>l ls. bindE (link_down topo nodes i l) (\<lambda>d. Inr (ls @ [Link d (4 * i + l)]))) [0..<NUM_LINKS] []"

definition Alloc_cube :: "network_par \<Rightarrow> nat \<Rightarrow> nat \<Rightarrow> (nat \<Rightarrow> nat \<Rightarrow> u64) \<Rightarrow> nat \<Rightarrow> hmc list \<times> link list list \<Rightarrow> (hmc list \<times> link list list) result" where
  "Alloc_cube par dim nodes ops i s = (case s of (hs, lss) \<Rightarrow>
     bindE (HMC (nw_cube par) dim i (ops i)) (\<lambda>h.
     bindE (Alloc_links (np_topology (cp_net (nw_cube par))) nodes i) (\<lambda>ls. Inr (hs @ [h], lss @ [ls]))))"

text \<open>The network before it is wired: for the dragonfly and the mesh, with one link a controller.\<close>

definition Alloc :: "network_par \<Rightarrow> nat \<Rightarrow> nat \<Rightarrow> nat \<Rightarrow> (nat \<Rightarrow> nat \<Rightarrow> u64) \<Rightarrow> network result" where
  "Alloc par dim ncpus nodes ops = checkE (\<not> cpu_faster par) (Exit ''WRONG CPU clock cycle or link speed'')
     (bindE (foldE (Alloc_cube par dim nodes ops) [0..<nodes] ([], [])) (\<lambda>(hs, lss).
       Inr \<lparr>hmcConts = map (HMCController (hp_topology (nw_hmc par))) [0..<ncpus], hmcCntLinks = map (\<lambda>i. Link True (64 + i)) [0..<ncpus],
            hmcLinks = lss, hmcs = hs, slaveOf = Map.empty, hostSlave = Map.empty,
            nw_shared = \<lparr>sh_traces = [], sh_statis = TranStatistic, sh_links = \<lparr>perLink = replicate (nodes * 4 + ncpus) link_zero, errorRetryLat = []\<rparr>, sh_gtag = 0\<rparr>,
            nw_transmitSize = 0, nw_clock = 0, dramTuner = replicate nodes 1, downLinkTuner = 1, downLinkClock = 1,
            upLinkTuner = 1, upLinkClock = 1, computeFinishCycle = 0, outstandRequests = []\<rparr>))"

definition register_neighbors :: "wiring \<Rightarrow> nat \<Rightarrow> hmc list \<Rightarrow> hmc list result" where
  "register_neighbors W i hs = bindE (foldE (\<lambda>l ns. bindE (RegisterNeighbor W i l) (\<lambda>n. Inr (ns @ [int n]))) [0..<NUM_LINKS] []) (\<lambda>ns.
     checkE (i < length hs) (Undefined ''hmcs'')
       (Inr (hs[i := (hs ! i)\<lparr>crossbarSwitch := (crossbarSwitch (hs ! i))\<lparr>neighborCubeID := ns\<rparr>\<rparr>])))"

definition connect :: "(wiring \<times> (nat \<rightharpoonup> endpoint)) result \<Rightarrow> network \<Rightarrow> network result" where
  "connect wires s = bindE wires (\<lambda>(W, C). bindE (foldE (register_neighbors W) [0..<length (hmcs s)] (hmcs s)) (\<lambda>hs.
     Inr (s\<lparr>hmcs := hs, slaveOf := W, hostSlave := C\<rparr>)))"

definition DFly_Network :: "network_par \<Rightarrow> nat \<Rightarrow> (nat \<Rightarrow> nat \<Rightarrow> u64) \<Rightarrow> network result" where
  "DFly_Network par dim ops = bindE (Alloc par dim 4 (dim * dim) ops) (connect (DFly dim))"

definition Mesh_Network :: "network_par \<Rightarrow> nat \<Rightarrow> (nat \<Rightarrow> nat \<Rightarrow> u64) \<Rightarrow> network result" where
  "Mesh_Network par dim ops = bindE (Alloc par dim 4 (dim * dim) ops) (connect (MeshNet dim))"

section \<open>Access to the parts\<close>

text \<open>The slave at the end of a link.\<close>

definition slave_at :: "endpoint option \<Rightarrow> network \<Rightarrow> link_slave result" where
  "slave_at e s = (case e of None \<Rightarrow> Inl (Undefined ''linkSlaveP'')
   | Some (CubeSlave c p) \<Rightarrow> checkE (c < length (hmcs s) \<and> p < length (downLinkSlaves (hmcs s ! c))) (Undefined ''linkSlaveP'')
       (Inr (downLinkSlaves (hmcs s ! c) ! p))
   | Some (ControllerSlave i) \<Rightarrow> checkE (i < length (hmcConts s) \<and> 0 < length (upLinkSlaves (hmcConts s ! i))) (Undefined ''linkSlaveP'')
       (Inr (upLinkSlaves (hmcConts s ! i) ! 0)))"

definition set_slave :: "endpoint option \<Rightarrow> link_slave \<Rightarrow> network \<Rightarrow> network" where
  "set_slave e ls s = (case e of None \<Rightarrow> s
   | Some (CubeSlave c p) \<Rightarrow> s\<lparr>hmcs := (hmcs s)[c := (hmcs s ! c)\<lparr>downLinkSlaves := (downLinkSlaves (hmcs s ! c))[p := ls]\<rparr>]\<rparr>
   | Some (ControllerSlave i) \<Rightarrow> s\<lparr>hmcConts := (hmcConts s)[i := (hmcConts s ! i)\<lparr>upLinkSlaves := (upLinkSlaves (hmcConts s ! i))[0 := ls]\<rparr>]\<rparr>)"

definition env_of :: "network \<Rightarrow> hmc_env" where
  "env_of s = \<lparr>w_traces = sh_traces (nw_shared s), w_statis = sh_statis (nw_shared s), hmcTransmitSize = nw_transmitSize s, packetGlobalTAG = sh_gtag (nw_shared s)\<rparr>"

definition set_env :: "hmc_env \<Rightarrow> network \<Rightarrow> network" where
  "set_env w s = s\<lparr>nw_shared := (nw_shared s)\<lparr>sh_traces := w_traces w, sh_statis := w_statis w, sh_gtag := packetGlobalTAG w\<rparr>, nw_transmitSize := hmcTransmitSize w\<rparr>"

section \<open>Transactions\<close>

definition get_tran_addr :: "transaction \<Rightarrow> u64" where
  "get_tran_addr t = (if transactionType t \<in> set [ACTIVE_ADD, ACTIVE_MULT, ACTIVE_DOT, ACTIVE_GET] then dest_address t else address t)"

definition ReceiveTran :: "transaction \<Rightarrow> nat \<Rightarrow> network \<Rightarrow> (bool \<times> network) result" where
  "ReceiveTran t cpu s = checkE (cpu < length (hmcConts s)) (Undefined ''hmcConts'')
     (bindE (controller_ReceiveDown t (hmcConts s ! cpu, env_of s)) (\<lambda>(ok, c, w).
       (let s = set_env w (s\<lparr>hmcConts := (hmcConts s)[cpu := c]\<rparr>) in
        Inr (ok, if ok \<and> transactionType t = ACTIVE_GET then s\<lparr>outstandRequests := outstandRequests s @ [dest_address t]\<rparr> else s))))"

section \<open>The update of a cycle\<close>

text \<open>A gather that was answered is taken from the outstanding ones.\<close>

definition take_response :: "nat \<Rightarrow> network \<Rightarrow> network result" where
  "take_response i s = (let c = hmcConts s ! i in case responseQ c of [] \<Rightarrow> Inr s
   | r # rs \<Rightarrow> (let s = s\<lparr>hmcConts := (hmcConts s)[i := c\<lparr>responseQ := rs\<rparr>]\<rparr> in
       case first_index (\<lambda>a. r = a) (outstandRequests s) of None \<Rightarrow> Inl (Exit ''cannot find a matched request'')
       | Some k \<Rightarrow> Inr (s\<lparr>outstandRequests := erase_at k (outstandRequests s), computeFinishCycle := nw_clock s\<rparr>)))"

definition host_cycle :: "network_par \<Rightarrow> nat \<Rightarrow> network \<Rightarrow> network result" where
  "host_cycle par i s = checkE (i < length (hmcConts s)) (Undefined ''hmcConts'')
     (bindE (HMCController_Update (nw_hmc par) (hmcConts s ! i, env_of s)) (\<lambda>(c, w).
       take_response i (set_env w (s\<lparr>hmcConts := (hmcConts s)[i := c]\<rparr>))))"

definition host_master :: "network_par \<Rightarrow> nat \<times> nat \<Rightarrow> network \<Rightarrow> network result" where
  "host_master par il s = (case il of (i, l) \<Rightarrow>
     checkE (i < length (hmcConts s) \<and> l < length (downLinkMasters (hmcConts s ! i))) (Undefined ''downLinkMasters'')
     (let c = hmcConts s ! i in
      bindE (LinkMaster_Update (hp_link (nw_hmc par)) (downLinkMasters c ! l, sh_links (nw_shared s))) (\<lambda>(m, st).
        Inr (s\<lparr>hmcConts := (hmcConts s)[i := c\<lparr>downLinkMasters := (downLinkMasters c)[l := m]\<rparr>], nw_shared := (nw_shared s)\<lparr>sh_links := st\<rparr>\<rparr>))))"

text \<open>A link from a master to the slave it leads to.\<close>

definition run_link :: "network_par \<Rightarrow> link_par \<Rightarrow> bool \<Rightarrow> endpoint option \<Rightarrow> link \<Rightarrow> link_master \<Rightarrow> network \<Rightarrow> (link \<times> link_master \<times> network) result" where
  "run_link par lp lastUpdate e l m s = bindE (slave_at e s) (\<lambda>ls.
     bindE (Link_Update lp (nw_noise par l) lastUpdate (l, m, ls, sh_traces (nw_shared s), sh_links (nw_shared s))) (\<lambda>(l, m, ls, tr, st).
       Inr (l, m, set_slave e ls (s\<lparr>nw_shared := (nw_shared s)\<lparr>sh_traces := tr, sh_links := st\<rparr>\<rparr>))))"

definition down_link_cycle :: "network_par \<Rightarrow> bool \<Rightarrow> nat \<Rightarrow> network \<Rightarrow> network result" where
  "down_link_cycle par lastUpdate i s =
     checkE (i < length (hmcConts s) \<and> i < length (hmcCntLinks s) \<and> 0 < length (downLinkMasters (hmcConts s ! i))) (Undefined ''hmcCntLinks'')
     (bindE (run_link par (hp_link (nw_hmc par)) lastUpdate (hostSlave s i) (hmcCntLinks s ! i) (downLinkMasters (hmcConts s ! i) ! 0) s) (\<lambda>(l, m, s).
       Inr (s\<lparr>hmcCntLinks := (hmcCntLinks s)[i := l], hmcConts := (hmcConts s)[i := (hmcConts s ! i)\<lparr>downLinkMasters := (downLinkMasters (hmcConts s ! i))[0 := m]\<rparr>]\<rparr>)))"

definition up_link_cycle :: "network_par \<Rightarrow> bool \<Rightarrow> nat \<times> nat \<Rightarrow> network \<Rightarrow> network result" where
  "up_link_cycle par lastUpdate il s = (case il of (i, l) \<Rightarrow>
     checkE (i < length (hmcs s) \<and> i < length (hmcLinks s) \<and> l < length (hmcLinks s ! i) \<and> l < length (upLinkMasters (hmcs s ! i))) (Undefined ''hmcLinks'')
     (bindE (run_link par (cp_link (nw_cube par)) lastUpdate (slaveOf s (i, l)) (hmcLinks s ! i ! l) (upLinkMasters (hmcs s ! i) ! l) s) (\<lambda>(k, m, s).
       Inr (s\<lparr>hmcLinks := (hmcLinks s)[i := (hmcLinks s ! i)[l := k]], hmcs := (hmcs s)[i := (hmcs s ! i)\<lparr>upLinkMasters := (upLinkMasters (hmcs s ! i))[l := m]\<rparr>]\<rparr>))))"

definition DownLinkUpdate :: "network_par \<Rightarrow> bool \<Rightarrow> network \<Rightarrow> network result" where
  "DownLinkUpdate par lastUpdate s = bindE (foldE (down_link_cycle par lastUpdate) [0..<length (hmcCntLinks s)] s) (\<lambda>s. Inr (s\<lparr>downLinkClock := downLinkClock s + 1\<rparr>))"

definition UpLinkUpdate :: "network_par \<Rightarrow> bool \<Rightarrow> network \<Rightarrow> network result" where
  "UpLinkUpdate par lastUpdate s = bindE (foldE (up_link_cycle par lastUpdate) (List.product [0..<length (hmcLinks s)] [0..<NUM_LINKS]) s) (\<lambda>s.
     Inr (s\<lparr>upLinkClock := upLinkClock s + 1\<rparr>))"

definition down_links :: "network_par \<Rightarrow> network \<Rightarrow> network result" where
  "down_links par s =
     bindE (whileE (\<lambda>s. link_late par (downLinkTuner s) (downLinkClock s + 1)) (DownLinkUpdate par False) s) (\<lambda>s.
     bindE (if link_even par (downLinkTuner s) (downLinkClock s + 1)
            then bindE (DownLinkUpdate par False s) (\<lambda>s. Inr (s\<lparr>downLinkTuner := 0, downLinkClock := 0\<rparr>)) else Inr s)
       (DownLinkUpdate par True))"

definition up_links :: "network_par \<Rightarrow> network \<Rightarrow> network result" where
  "up_links par s =
     bindE (whileE (\<lambda>s. link_late par (upLinkTuner s) (upLinkClock s + 1)) (UpLinkUpdate par False) s) (\<lambda>s.
     bindE (if link_even par (upLinkTuner s) (upLinkClock s + 1)
            then bindE (UpLinkUpdate par False s) (\<lambda>s. Inr (s\<lparr>upLinkTuner := 0, upLinkClock := 0\<rparr>)) else Inr s)
       (UpLinkUpdate par True))"

text \<open>A cycle of one cube, and the cycles of a cube in one cycle of the processor.\<close>

definition run_cube_cycle :: "network_par \<Rightarrow> nat \<Rightarrow> network \<Rightarrow> network result" where
  "run_cube_cycle par i s = bindE (HMC_Update (nw_cube par) (hmcs s ! i, nw_shared s)) (\<lambda>(h, sh).
     Inr (s\<lparr>hmcs := (hmcs s)[i := h], nw_shared := sh\<rparr>))"

definition restart_cube :: "nat \<Rightarrow> network \<Rightarrow> network" where
  "restart_cube i s = s\<lparr>dramTuner := (dramTuner s)[i := 0], hmcs := (hmcs s)[i := (hmcs s ! i)\<lparr>clockTuner := 0\<rparr>]\<rparr>"

definition cube_cycles :: "network_par \<Rightarrow> nat \<Rightarrow> network \<Rightarrow> network result" where
  "cube_cycles par i s = checkE (i < length (hmcs s) \<and> i < length (dramTuner s)) (Undefined ''hmcs'')
     (if cpu_dram par
      then if dram_late par (dramTuner s ! i) (clockTuner (hmcs s ! i)) then run_cube_cycle par i s
           else if dram_even par (dramTuner s ! i) (clockTuner (hmcs s ! i)) then run_cube_cycle par i (restart_cube i s) else Inr s
      else bindE (whileE (\<lambda>s. dram_late par (dramTuner s ! i) (clockTuner (hmcs s ! i) + 1)) (run_cube_cycle par i) s) (\<lambda>s.
           bindE (if dram_even par (dramTuner s ! i) (clockTuner (hmcs s ! i) + 1)
                  then bindE (run_cube_cycle par i s) (\<lambda>s. Inr (restart_cube i s)) else Inr s)
             (run_cube_cycle par i)))"

text \<open>The slave of a controller fills the buffer of responses of the controller.\<close>

definition host_slave :: "network_par \<Rightarrow> nat \<times> nat \<Rightarrow> network \<Rightarrow> network result" where
  "host_slave par il s = (case il of (i, l) \<Rightarrow>
     checkE (i < length (hmcConts s) \<and> l < length (upLinkSlaves (hmcConts s ! i)) \<and> l < length (downLinkMasters (hmcConts s ! i))) (Undefined ''upLinkSlaves'')
     (let c = hmcConts s ! i in
      bindE (LinkSlave_Update (hp_link (nw_hmc par)) (upLinkSlaves c ! l, downLinkMasters c ! l, sh_links (nw_shared s), c)) (\<lambda>(ls, m, st, c).
        Inr (s\<lparr>hmcConts := (hmcConts s)[i := c\<lparr>upLinkSlaves := (upLinkSlaves c)[l := ls], downLinkMasters := (downLinkMasters c)[l := m]\<rparr>],
               nw_shared := (nw_shared s)\<lparr>sh_links := st\<rparr>\<rparr>))))"

definition host_ports :: "network_par \<Rightarrow> network \<Rightarrow> (nat \<times> nat) list" where
  "host_ports par s = List.product [0..<length (hmcConts s)] [0..<CPU_LINKS (hp_topology (nw_hmc par))]"

definition Network_Update :: "network_par \<Rightarrow> network \<Rightarrow> network result" where
  "Network_Update par s =
     bindE (foldE (host_cycle par) [0..<length (hmcConts s)] s) (\<lambda>s.
     bindE (foldE (host_master par) (host_ports par s) s) (\<lambda>s.
     bindE (down_links par s) (\<lambda>s.
     bindE (foldE (cube_cycles par) [0..<length (hmcs s)] s) (\<lambda>s.
     bindE (up_links par s) (\<lambda>s.
     bindE (foldE (host_slave par) (host_ports par s) s) (\<lambda>s.
       Inr (s\<lparr>nw_clock := nw_clock s + 1, downLinkTuner := downLinkTuner s + 1, upLinkTuner := upLinkTuner s + 1, dramTuner := map (\<lambda>t. t + 1) (dramTuner s)\<rparr>)))))))"

section \<open>Several cycles at once\<close>

text \<open>
  For an event-driven processor: all clocks of idle components move on. The masters of the cubes
  keep their clocks, as in the source.
\<close>

definition tick :: "u64 \<Rightarrow> 'd dual_vector_scheme \<Rightarrow> 'd dual_vector_scheme" where
  "tick n d = d\<lparr>currentClockCycle := currentClockCycle d + n\<rparr>"

definition tick_vault :: "u64 \<Rightarrow> vault \<Rightarrow> vault" where
  "tick_vault n v = (tick n v)\<lparr>commandQueue := (commandQueue v)\<lparr>cq_clock := cq_clock (commandQueue v) + n\<rparr>\<rparr>"

definition MultiStep_cube :: "network_par \<Rightarrow> u64 \<Rightarrow> hmc \<Rightarrow> hmc" where
  "MultiStep_cube par t h =
     (if cpu_dram par \<and> \<not> dram_late par t (clockTuner h) then h
      else (let n = dram_ticks par t - clockTuner h in
        h\<lparr>clockTuner := dram_ticks par t, hm_clock := hm_clock h + n, downLinkSlaves := map (tick n) (downLinkSlaves h),
          crossbarSwitch := tick n (crossbarSwitch h), vaultControllers := map (tick_vault n) (vaultControllers h),
          drams := map (\<lambda>d. d\<lparr>dram_clock := dram_clock d + n\<rparr>) (drams h)\<rparr>))"

definition tick_link :: "u64 \<Rightarrow> link \<Rightarrow> link" where
  "tick_link n l = l\<lparr>lk_clock := lk_clock l + n\<rparr>"

definition tick_host :: "u64 \<Rightarrow> hmc_controller \<Rightarrow> hmc_controller" where
  "tick_host n c = (tick n c)\<lparr>downLinkMasters := map (tick n) (downLinkMasters c), upLinkSlaves := map (tick n) (upLinkSlaves c)\<rparr>"

definition MultiStep :: "network_par \<Rightarrow> u64 \<Rightarrow> network \<Rightarrow> network" where
  "MultiStep par n s =
     (let down = downLinkTuner s + n; up = upLinkTuner s + n; drams = map (\<lambda>t. t + n) (dramTuner s) in
      s\<lparr>hmcConts := map (tick_host n) (hmcConts s), downLinkTuner := down, downLinkClock := link_ticks par down,
        hmcCntLinks := map (tick_link (link_ticks par down - downLinkClock s)) (hmcCntLinks s),
        dramTuner := drams, hmcs := map2 (MultiStep_cube par) drams (hmcs s),
        upLinkTuner := up, upLinkClock := link_ticks par up,
        hmcLinks := map (map (tick_link (link_ticks par up - upLinkClock s))) (hmcLinks s), nw_clock := nw_clock s + n\<rparr>)"

section \<open>Runs of the network\<close>

text \<open>
  A network is built, the processor adds traces and statistics, hands over transactions and collects
  those that were served, and the network is updated.
\<close>

inductive net_run :: "network_par \<Rightarrow> network \<Rightarrow> bool" for par where
  dfly: "DFly_Network par dim ops = Inr s \<Longrightarrow> net_run par s"
| mesh: "Mesh_Network par dim ops = Inr s \<Longrightarrow> net_run par s"
| processor: "net_run par s \<Longrightarrow> net_run par (s\<lparr>nw_shared := sh\<rparr>)"
| served: "net_run par s \<Longrightarrow> i < length (hmcConts s) \<Longrightarrow> net_run par (s\<lparr>hmcConts := (hmcConts s)[i := (hmcConts s ! i)\<lparr>serv_trans := ts\<rparr>]\<rparr>)"
| transaction: "net_run par s \<Longrightarrow> ReceiveTran t cpu s = Inr (ok, s') \<Longrightarrow> net_run par s'"
| update: "net_run par s \<Longrightarrow> Network_Update par s = Inr s' \<Longrightarrow> net_run par s'"
| skip: "net_run par s \<Longrightarrow> net_run par (MultiStep par n s)"


section \<open>The invariant of the network\<close>

definition net_inv :: "network_par \<Rightarrow> network \<Rightarrow> bool" where
  "net_inv par s \<longleftrightarrow> list_all good_host (hmcConts s) \<and> list_all good_link (hmcCntLinks s) \<and> list_all (list_all good_link) (hmcLinks s)
     \<and> list_all (good_cube (nw_cube par)) (hmcs s)"

lemma net_inv_simps [simp]:
  "net_inv par (s\<lparr>nw_shared := sh\<rparr>) = net_inv par s" "net_inv par (s\<lparr>outstandRequests := rs\<rparr>) = net_inv par s" "net_inv par (s\<lparr>computeFinishCycle := t\<rparr>) = net_inv par s"
  "net_inv par (s\<lparr>downLinkTuner := t\<rparr>) = net_inv par s" "net_inv par (s\<lparr>downLinkClock := t\<rparr>) = net_inv par s" "net_inv par (s\<lparr>upLinkTuner := t\<rparr>) = net_inv par s"
  "net_inv par (s\<lparr>upLinkClock := t\<rparr>) = net_inv par s" "net_inv par (s\<lparr>nw_clock := t\<rparr>) = net_inv par s" "net_inv par (s\<lparr>dramTuner := ts\<rparr>) = net_inv par s"
  "net_inv par (set_env w s) = net_inv par s"
  by (simp_all add: net_inv_def set_env_def)

lemma net_invD:
  assumes "net_inv par s"
  shows "i < length (hmcConts s) \<Longrightarrow> good_host (hmcConts s ! i)" "i < length (hmcCntLinks s) \<Longrightarrow> good_link (hmcCntLinks s ! i)"
    "i < length (hmcLinks s) \<Longrightarrow> l < length (hmcLinks s ! i) \<Longrightarrow> good_link (hmcLinks s ! i ! l)" "i < length (hmcs s) \<Longrightarrow> good_cube (nw_cube par) (hmcs s ! i)"
  using assms by (auto simp: net_inv_def list_all_length)

lemma net_inv_host: "net_inv par s \<Longrightarrow> good_host c \<Longrightarrow> net_inv par (s\<lparr>hmcConts := (hmcConts s)[i := c]\<rparr>)"
  by (simp add: net_inv_def list_all_update)

lemma net_inv_cube: "net_inv par s \<Longrightarrow> good_cube (nw_cube par) h \<Longrightarrow> net_inv par (s\<lparr>hmcs := (hmcs s)[i := h]\<rparr>)"
  by (simp add: net_inv_def list_all_update)

lemma ReceiveTran_inv: "ReceiveTran t cpu s = Inr (ok, s') \<Longrightarrow> net_inv par s \<Longrightarrow> net_inv par s'"
  using controller_ReceiveDown_good [of t "hmcConts s ! cpu"] net_invD(1) [of par s cpu]
  by (auto simp: ReceiveTran_def Let_def err_simps intro!: net_inv_host)

lemma take_response_inv: "take_response i s = Inr s' \<Longrightarrow> net_inv par s \<Longrightarrow> i < length (hmcConts s) \<Longrightarrow> net_inv par s'"
  using net_invD(1) [of par s i] by (auto simp: take_response_def Let_def intro!: net_inv_host split: list.splits option.splits)

lemma host_cycle_inv:
  assumes "host_cycle par i s = Inr s'" "net_inv par s"
  shows "net_inv par s'"
proof -
  obtain c w where u: "i < length (hmcConts s)" "HMCController_Update (nw_hmc par) (hmcConts s ! i, env_of s) = Inr (c, w)"
    "take_response i (set_env w (s\<lparr>hmcConts := (hmcConts s)[i := c]\<rparr>)) = Inr s'"
    using assms(1) by (auto simp: host_cycle_def err_simps)
  have "good_host c" using HMCController_Update_good [OF u(2)] net_invD(1) [OF assms(2) u(1)] by simp
  then have "net_inv par (set_env w (s\<lparr>hmcConts := (hmcConts s)[i := c]\<rparr>))" using assms(2) by (simp add: net_inv_host)
  then show ?thesis by (rule take_response_inv [OF u(3)]) (simp add: u(1) set_env_def)
qed

lemma host_master_good: "good_host c \<Longrightarrow> good_master m \<Longrightarrow> good_host (c\<lparr>downLinkMasters := (downLinkMasters c)[l := m]\<rparr>)"
  by (simp add: good_host_def list_all_update)

lemma cube_master_good: "good_cube par h \<Longrightarrow> good_master m \<Longrightarrow> good_cube par (h\<lparr>upLinkMasters := (upLinkMasters h)[l := m]\<rparr>)"
  by (simp add: good_cube_def cube_inv_def list_all_update)

lemma host_master_inv: "host_master par (i, l) s = Inr s' \<Longrightarrow> net_inv par s \<Longrightarrow> net_inv par s'"
  using net_invD(1) [of par s i]
  by (auto simp: host_master_def Let_def err_simps good_host_def list_all_nth dest!: LinkMaster_Update_good intro!: net_inv_host list_all_update)

text \<open>A link changes its master, itself and the slave at its end.\<close>

lemma slave_at_shared [simp]: "slave_at e (s\<lparr>nw_shared := sh\<rparr>) = slave_at e s"
  by (auto simp: slave_at_def split: option.split endpoint.split)

lemma slave_at_good: "slave_at (Some (CubeSlave c p)) s = Inr ls \<Longrightarrow> net_inv par s \<Longrightarrow> good_slave ls"
  using net_invD(4) [of par s c] by (auto simp: slave_at_def err_simps good_cube_def cube_inv_def list_all_nth)

lemma set_slave_inv:
  assumes "slave_at e s = Inr ls0" "net_inv par s" "good_slave ls0 \<longrightarrow> good_slave ls"
  shows "net_inv par (set_slave e ls s)"
proof -
  consider c p where "e = Some (CubeSlave c p)" | i where "e = Some (ControllerSlave i)"
    using assms(1) by (cases e) (auto simp: slave_at_def elim: endpoint.exhaust)
  then show ?thesis
  proof cases
    case 1
    then have g: "good_slave ls" using slave_at_good assms by blast
    have c: "c < length (hmcs s)" using assms(1) by (simp add: 1 slave_at_def err_simps)
    have "good_cube (nw_cube par) ((hmcs s ! c)\<lparr>downLinkSlaves := (downLinkSlaves (hmcs s ! c))[p := ls]\<rparr>)"
      using net_invD(4) [OF assms(2) c] g by (simp add: good_cube_def cube_inv_def list_all_update)
    then show ?thesis using assms(2) by (simp add: 1 set_slave_def net_inv_cube)
  next
    case 2
    have "i < length (hmcConts s)" using assms(1) by (simp add: 2 slave_at_def err_simps)
    then show ?thesis using assms(2) net_invD(1) [OF assms(2)] by (simp add: 2 set_slave_def net_inv_host)
  qed
qed

lemma run_link_inv:
  assumes "run_link par lp lu e l m s = Inr (l', m', s')" "net_inv par s" "good_link l" "good_master m"
  shows "good_link l' \<and> good_master m' \<and> net_inv par s' \<and> length (hmcs s') = length (hmcs s) \<and> length (hmcConts s') = length (hmcConts s)
    \<and> hmcLinks s' = hmcLinks s \<and> hmcCntLinks s' = hmcCntLinks s"
proof -
  obtain ls ls' tr st where r: "slave_at e s = Inr ls" "Link_Update lp (nw_noise par l) lu (l, m, ls, sh_traces (nw_shared s), sh_links (nw_shared s)) = Inr (l', m', ls', tr, st)"
    "s' = set_slave e ls' (s\<lparr>nw_shared := (nw_shared s)\<lparr>sh_traces := tr, sh_links := st\<rparr>\<rparr>)"
    using assms(1) by (auto simp: run_link_def err_simps)
  note g = Link_Update_good [OF r(2) assms(3,4)]
  have a: "slave_at e (s\<lparr>nw_shared := (nw_shared s)\<lparr>sh_traces := tr, sh_links := st\<rparr>\<rparr>) = Inr ls" using r(1) by simp
  have "net_inv par s'" unfolding r(3) by (rule set_slave_inv [OF a]) (use assms(2) g in simp_all)
  moreover have "length (hmcs s') = length (hmcs s) \<and> length (hmcConts s') = length (hmcConts s) \<and> hmcLinks s' = hmcLinks s \<and> hmcCntLinks s' = hmcCntLinks s"
    by (simp add: r(3) set_slave_def split: option.split endpoint.split)
  ultimately show ?thesis using g by simp
qed

lemma down_link_cycle_inv:
  assumes "down_link_cycle par lu i s = Inr s'" "net_inv par s"
  shows "net_inv par s'"
proof -
  obtain l m s1 where u: "i < length (hmcConts s)" "i < length (hmcCntLinks s)" "0 < length (downLinkMasters (hmcConts s ! i))"
    "run_link par (hp_link (nw_hmc par)) lu (hostSlave s i) (hmcCntLinks s ! i) (downLinkMasters (hmcConts s ! i) ! 0) s = Inr (l, m, s1)"
    "s' = s1\<lparr>hmcCntLinks := (hmcCntLinks s1)[i := l], hmcConts := (hmcConts s1)[i := (hmcConts s1 ! i)\<lparr>downLinkMasters := (downLinkMasters (hmcConts s1 ! i))[0 := m]\<rparr>]\<rparr>"
    using assms(1) by (auto simp: down_link_cycle_def err_simps)
  have "good_master (downLinkMasters (hmcConts s ! i) ! 0)" using net_invD(1) [OF assms(2) u(1)] u(3) by (simp add: good_host_def list_all_nth)
  note r = run_link_inv [OF u(4) assms(2) net_invD(2) [OF assms(2) u(2)] this]
  have "good_host (hmcConts s1 ! i)" using r u(1) net_invD(1) [of par s1 i] by simp
  then show ?thesis using r unfolding u(5) net_inv_def by (auto intro!: list_all_update host_master_good)
qed

lemma up_link_cycle_inv:
  assumes "up_link_cycle par lu (i, l) s = Inr s'" "net_inv par s"
  shows "net_inv par s'"
proof -
  obtain k m s1 where u: "i < length (hmcs s)" "i < length (hmcLinks s)" "l < length (hmcLinks s ! i)" "l < length (upLinkMasters (hmcs s ! i))"
    "run_link par (cp_link (nw_cube par)) lu (slaveOf s (i, l)) (hmcLinks s ! i ! l) (upLinkMasters (hmcs s ! i) ! l) s = Inr (k, m, s1)"
    "s' = s1\<lparr>hmcLinks := (hmcLinks s1)[i := (hmcLinks s1 ! i)[l := k]], hmcs := (hmcs s1)[i := (hmcs s1 ! i)\<lparr>upLinkMasters := (upLinkMasters (hmcs s1 ! i))[l := m]\<rparr>]\<rparr>"
    using assms(1) by (auto simp: up_link_cycle_def err_simps)
  have "good_master (upLinkMasters (hmcs s ! i) ! l)" using net_invD(4) [OF assms(2) u(1)] u(4) by (simp add: good_cube_def list_all_nth)
  note r = run_link_inv [OF u(5) assms(2) net_invD(3) [OF assms(2) u(2,3)] this]
  have "good_cube (nw_cube par) (hmcs s1 ! i)" using r u(1) net_invD(4) [of par s1 i] by simp
  moreover have "list_all good_link ((hmcLinks s1 ! i)[l := k])" using r u(2) by (intro list_all_update) (auto simp: net_inv_def list_all_nth)
  ultimately show ?thesis using r unfolding u(6) net_inv_def by (auto intro!: list_all_update cube_master_good)
qed

lemma DownLinkUpdate_inv: "DownLinkUpdate par lu s = Inr s' \<Longrightarrow> net_inv par s \<Longrightarrow> net_inv par s'"
proof -
  assume a: "DownLinkUpdate par lu s = Inr s'" "net_inv par s"
  then obtain s1 where f: "foldE (down_link_cycle par lu) [0..<length (hmcCntLinks s)] s = Inr s1" "s' = s1\<lparr>downLinkClock := downLinkClock s1 + 1\<rparr>"
    by (auto simp: DownLinkUpdate_def err_simps)
  have "net_inv par s1" by (rule foldE_inv [where P = "net_inv par", OF _ _ f(1)]) (use a(2) down_link_cycle_inv in auto)
  then show ?thesis by (simp add: f(2))
qed

lemma UpLinkUpdate_inv: "UpLinkUpdate par lu s = Inr s' \<Longrightarrow> net_inv par s \<Longrightarrow> net_inv par s'"
proof -
  assume a: "UpLinkUpdate par lu s = Inr s'" "net_inv par s"
  then obtain s1 where f: "foldE (up_link_cycle par lu) (List.product [0..<length (hmcLinks s)] [0..<NUM_LINKS]) s = Inr s1" "s' = s1\<lparr>upLinkClock := upLinkClock s1 + 1\<rparr>"
    by (auto simp: UpLinkUpdate_def err_simps)
  have "net_inv par s1" by (rule foldE_inv [where P = "net_inv par", OF _ _ f(1)]) (use a(2) up_link_cycle_inv in auto)
  then show ?thesis by (simp add: f(2))
qed

lemma down_links_inv:
  assumes "down_links par s = Inr s'" "net_inv par s"
  shows "net_inv par s'"
proof -
  obtain s1 s2 where r: "whileE (\<lambda>s. link_late par (downLinkTuner s) (downLinkClock s + 1)) (DownLinkUpdate par False) s = Inr s1"
    "(if link_even par (downLinkTuner s1) (downLinkClock s1 + 1)
      then bindE (DownLinkUpdate par False s1) (\<lambda>s. Inr (s\<lparr>downLinkTuner := 0, downLinkClock := 0\<rparr>)) else Inr s1) = Inr s2"
    "DownLinkUpdate par True s2 = Inr s'"
    using assms(1) unfolding down_links_def bindE_eq_Inr by blast
  have "net_inv par s1" by (rule whileE_keeps [where P = "net_inv par", OF r(1) assms(2)]) (rule DownLinkUpdate_inv)
  then have "net_inv par s2" using r(2) DownLinkUpdate_inv by (auto simp: bindE_eq_Inr split: if_splits)
  then show ?thesis by (rule DownLinkUpdate_inv [OF r(3)])
qed

lemma up_links_inv:
  assumes "up_links par s = Inr s'" "net_inv par s"
  shows "net_inv par s'"
proof -
  obtain s1 s2 where r: "whileE (\<lambda>s. link_late par (upLinkTuner s) (upLinkClock s + 1)) (UpLinkUpdate par False) s = Inr s1"
    "(if link_even par (upLinkTuner s1) (upLinkClock s1 + 1)
      then bindE (UpLinkUpdate par False s1) (\<lambda>s. Inr (s\<lparr>upLinkTuner := 0, upLinkClock := 0\<rparr>)) else Inr s1) = Inr s2"
    "UpLinkUpdate par True s2 = Inr s'"
    using assms(1) unfolding up_links_def bindE_eq_Inr by blast
  have "net_inv par s1" by (rule whileE_keeps [where P = "net_inv par", OF r(1) assms(2)]) (rule UpLinkUpdate_inv)
  then have "net_inv par s2" using r(2) UpLinkUpdate_inv by (auto simp: bindE_eq_Inr split: if_splits)
  then show ?thesis by (rule UpLinkUpdate_inv [OF r(3)])
qed

lemma run_cube_cycle_inv:
  assumes "run_cube_cycle par i s = Inr s'" "net_inv par s" "i < length (hmcs s)" "NUM_BANKS (cfg (cp_vault (nw_cube par))) \<le> 2 ^ 32"
  shows "net_inv par s' \<and> i < length (hmcs s')"
proof -
  obtain h sh where u: "HMC_Update (nw_cube par) (hmcs s ! i, nw_shared s) = Inr (h, sh)" "s' = s\<lparr>hmcs := (hmcs s)[i := h], nw_shared := sh\<rparr>"
    using assms(1) by (auto simp: run_cube_cycle_def err_simps)
  have "good_cube (nw_cube par) h" by (rule HMC_Update_good [OF u(1) net_invD(4) [OF assms(2,3)] assms(4)])
  then show ?thesis using net_inv_cube [OF assms(2)] assms(3) by (simp add: u(2))
qed

lemma restart_cube_inv: "net_inv par s \<Longrightarrow> i < length (hmcs s) \<Longrightarrow> net_inv par (restart_cube i s) \<and> i < length (hmcs (restart_cube i s))"
  using net_invD(4) [of par s i] by (simp add: restart_cube_def net_inv_def list_all_update good_cube_def cube_inv_def)

lemma restart_cube_length [simp]: "length (hmcs (restart_cube i s)) = length (hmcs s)"
  by (simp add: restart_cube_def)

lemma cube_cycles_inv:
  assumes "cube_cycles par i s = Inr s'" "net_inv par s" "NUM_BANKS (cfg (cp_vault (nw_cube par))) \<le> 2 ^ 32"
  shows "net_inv par s'"
proof (cases "cpu_dram par")
  case True
  then show ?thesis using assms restart_cube_inv [OF assms(2)] run_cube_cycle_inv [OF _ _ _ assms(3)]
    by (auto simp: cube_cycles_def err_simps split: if_splits)
next
  case False
  have i: "i < length (hmcs s)" using assms(1) by (auto simp: cube_cycles_def err_simps)
  obtain s1 s2 where r: "whileE (\<lambda>s. dram_late par (dramTuner s ! i) (clockTuner (hmcs s ! i) + 1)) (run_cube_cycle par i) s = Inr s1"
    "(if dram_even par (dramTuner s1 ! i) (clockTuner (hmcs s1 ! i) + 1)
      then bindE (run_cube_cycle par i s1) (\<lambda>s. Inr (restart_cube i s)) else Inr s1) = Inr s2"
    "run_cube_cycle par i s2 = Inr s'"
    using assms(1) False unfolding cube_cycles_def bindE_eq_Inr checkE_eq_Inr by (auto simp: err_simps)
  have 1: "net_inv par s1 \<and> i < length (hmcs s1)"
    by (rule whileE_keeps [where P = "\<lambda>s. net_inv par s \<and> i < length (hmcs s)", OF r(1)]) (use assms(2,3) i run_cube_cycle_inv in auto)
  have 2: "net_inv par s2 \<and> i < length (hmcs s2)"
    using r(2) 1 restart_cube_inv run_cube_cycle_inv [OF _ _ _ assms(3)] by (auto simp: bindE_eq_Inr split: if_splits)
  then show ?thesis using run_cube_cycle_inv [OF r(3) _ _ assms(3)] by simp
qed

lemma pass_dest:
  "pass_up par (s, m, d) = Inr (b, s', m', d') \<Longrightarrow> dual_vector.more d' = dual_vector.more d"
  "pass_down par (s, m, d) = Inr (s', m', d') \<Longrightarrow> dual_vector.more d' = dual_vector.more d"
  by (auto simp: pass_up_def pass_down_def ReceiveUp_def ReceiveDown_def receive_def err_simps split: list.splits option.splits prod.splits if_splits)

lemma slave_dest: "LinkSlave_Update par (s, m, st, d) = Inr (s', m', st', d') \<Longrightarrow> dual_vector.more d' = dual_vector.more d"
  by (auto simp: LinkSlave_Update_def err_simps dest!: pass_dest split: if_splits)

lemma slave_dest_good:
  assumes "LinkSlave_Update par (s, m, st, c :: hmc_controller) = Inr (s', m', st', c')"
  shows "good_host c' = good_host c"
  using slave_dest [OF assms] by (cases c; cases c') (simp add: good_host_def)

lemma host_slave_inv:
  assumes "host_slave par (i, l) s = Inr s'" "net_inv par s"
  shows "net_inv par s'"
proof -
  let ?c = "hmcConts s ! i"
  obtain ls m st c where u: "i < length (hmcConts s)" "l < length (downLinkMasters ?c)"
    "LinkSlave_Update (hp_link (nw_hmc par)) (upLinkSlaves ?c ! l, downLinkMasters ?c ! l, sh_links (nw_shared s), ?c) = Inr (ls, m, st, c)"
    "s' = s\<lparr>hmcConts := (hmcConts s)[i := c\<lparr>upLinkSlaves := (upLinkSlaves c)[l := ls], downLinkMasters := (downLinkMasters c)[l := m]\<rparr>],
               nw_shared := (nw_shared s)\<lparr>sh_links := st\<rparr>\<rparr>"
    using assms(1) by (auto simp: host_slave_def Let_def err_simps)
  have g: "good_host ?c" by (rule net_invD(1) [OF assms(2) u(1)])
  have "good_master m" by (rule LinkSlave_Update_master [OF u(3)]) (use g u(2) in \<open>simp add: good_host_def list_all_nth\<close>)
  moreover have "good_host c" using slave_dest_good [OF u(3)] g by simp
  ultimately have "good_host (c\<lparr>upLinkSlaves := (upLinkSlaves c)[l := ls], downLinkMasters := (downLinkMasters c)[l := m]\<rparr>)"
    by (simp add: good_host_def list_all_update)
  then show ?thesis using assms(2) by (simp add: u(4) net_inv_host)
qed

lemma Network_Update_inv:
  assumes "Network_Update par s = Inr s'" "net_inv par s" "NUM_BANKS (cfg (cp_vault (nw_cube par))) \<le> 2 ^ 32"
  shows "net_inv par s'"
proof -
  obtain s1 s2 s3 s4 s5 s6 where r: "foldE (host_cycle par) [0..<length (hmcConts s)] s = Inr s1" "foldE (host_master par) (host_ports par s1) s1 = Inr s2"
    "down_links par s2 = Inr s3" "foldE (cube_cycles par) [0..<length (hmcs s3)] s3 = Inr s4" "up_links par s4 = Inr s5"
    "foldE (host_slave par) (host_ports par s5) s5 = Inr s6"
    "s' = s6\<lparr>nw_clock := nw_clock s6 + 1, downLinkTuner := downLinkTuner s6 + 1, upLinkTuner := upLinkTuner s6 + 1, dramTuner := map (\<lambda>t. t + 1) (dramTuner s6)\<rparr>"
    using assms(1) by (auto simp: Network_Update_def err_simps)
  have "net_inv par s1" by (rule foldE_inv [where P = "net_inv par", OF _ assms(2) r(1)]) (rule host_cycle_inv)
  then have "net_inv par s2" by (intro foldE_inv [where P = "net_inv par", OF _ _ r(2)]) (use host_master_inv in auto)
  then have "net_inv par s3" by (rule down_links_inv [OF r(3)])
  then have "net_inv par s4" by (intro foldE_inv [where P = "net_inv par", OF _ _ r(4)]) (use cube_cycles_inv assms(3) in auto)
  then have "net_inv par s5" by (rule up_links_inv [OF r(5)])
  then have "net_inv par s6" by (intro foldE_inv [where P = "net_inv par", OF _ _ r(6)]) (use host_slave_inv in auto)
  then show ?thesis by (simp add: r(7))
qed

section \<open>Every state of a run\<close>

lemma connect_inv:
  assumes "connect wires s = Inr s'" "net_inv par s"
  shows "net_inv par s'"
proof -
  obtain W C hs where u: "foldE (register_neighbors W) [0..<length (hmcs s)] (hmcs s) = Inr hs" "s' = s\<lparr>hmcs := hs, slaveOf := W, hostSlave := C\<rparr>"
    using assms(1) by (auto simp: connect_def err_simps)
  have n: "good_cube (nw_cube par) (h\<lparr>crossbarSwitch := (crossbarSwitch h)\<lparr>neighborCubeID := ns\<rparr>\<rparr>)" if "good_cube (nw_cube par) h" for h ns
  proof -
    have "xbar_inv ((crossbarSwitch h)\<lparr>neighborCubeID := ns\<rparr>)"
      by (rule same_partD [of "crossbarSwitch h"]) (use that in \<open>simp_all add: good_cube_def cube_inv_def same_part_def art_part_def up_part_def\<close>)
    then show ?thesis using that by (simp add: good_cube_def cube_inv_def)
  qed
  have "list_all (good_cube (nw_cube par)) hs"
    by (rule foldE_inv [where P = "list_all (good_cube (nw_cube par))", OF _ _ u(1)])
      (use assms(2) in \<open>auto simp: register_neighbors_def err_simps net_inv_def list_all_nth intro!: list_all_update n\<close>)
  then show ?thesis using assms(2) by (simp add: u(2) net_inv_def)
qed

lemma Link_good: "good_link (Link down i)"
  by (simp add: good_link_def Link_def)

lemma Alloc_inv:
  assumes "Alloc par dim ncpus nodes ops = Inr s" "0 < NUM_BANKS (cfg (cp_vault (nw_cube par)))"
  shows "net_inv par s"
proof -
  obtain hs lss where f: "foldE (Alloc_cube par dim nodes ops) [0..<nodes] ([], []) = Inr (hs, lss)" "hmcs s = hs" "hmcLinks s = lss"
    "hmcConts s = map (HMCController (hp_topology (nw_hmc par))) [0..<ncpus]" "hmcCntLinks s = map (\<lambda>i. Link True (64 + i)) [0..<ncpus]"
    using assms(1) by (auto simp: Alloc_def err_simps)
  let ?P = "\<lambda>(hs, lss). list_all (good_cube (nw_cube par)) hs \<and> list_all (list_all good_link) lss"
  have links: "list_all good_link ls" if "Alloc_links topo nodes i = Inr ls" for topo i ls
    by (rule foldE_inv [where P = "list_all good_link", OF _ _ that [unfolded Alloc_links_def]]) (auto simp: err_simps Link_good)
  have "?P (hs, lss)"
    by (rule foldE_inv [where P = ?P, OF _ _ f(1)]) (use HMC_good assms(2) links in \<open>auto simp: Alloc_cube_def err_simps\<close>)
  then show ?thesis by (simp add: net_inv_def f(2-5) list_all_iff HMCController_good Link_good)
qed

lemma tick_master: "good_master (tick n m) = good_master m"
  by (simp add: tick_def good_master_def)

lemma MultiStep_cube_good: "good_cube (nw_cube par) h \<Longrightarrow> good_cube (nw_cube par) (MultiStep_cube par t h)"
proof -
  assume g: "good_cube (nw_cube par) h"
  have x: "xbar_inv (tick n (crossbarSwitch h))" for n
    by (rule same_partD [of "crossbarSwitch h"]) (use g in \<open>simp_all add: tick_def good_cube_def cube_inv_def same_part_def art_part_def up_part_def\<close>)
  have v: "good_vault c (tick_vault n v) = good_vault c v" for c n v
    by (simp add: tick_vault_def tick_def good_vault_def good_queue_def)
  have d: "good_dram (d\<lparr>dram_clock := n\<rparr>) = good_dram d" for d n by (simp add: good_dram_def)
  have s: "good_slave (tick n s) = good_slave s" for n s by (simp add: tick_def good_slave_def)
  show ?thesis using g x by (simp add: MultiStep_cube_def Let_def good_cube_def cube_inv_def list_all_iff v d s)
qed

lemma MultiStep_inv:
  assumes "net_inv par s"
  shows "net_inv par (MultiStep par n s)"
proof -
  have c: "good_host (tick_host n c) = good_host c" for c by (simp add: tick_host_def good_host_def list_all_iff tick_master)
  have l: "good_link (tick_link k l) = good_link l" for k l by (simp add: tick_link_def good_link_def)
  have h: "list_all (good_cube (nw_cube par)) (map2 (MultiStep_cube par) ts (hmcs s))" for ts
    using assms by (auto simp: net_inv_def list_all_iff intro!: MultiStep_cube_good dest: set_zip_rightD)
  have "list_all good_host (map (tick_host n) (hmcConts s))" "list_all good_link (map (tick_link k) (hmcCntLinks s))"
    "list_all (list_all good_link) (map (map (tick_link k)) (hmcLinks s))" for k
    using assms by (simp_all add: net_inv_def list_all_iff c l)
  then show ?thesis using h by (simp add: MultiStep_def Let_def net_inv_def)
qed

lemma net_run_inv:
  assumes "0 < NUM_BANKS (cfg (cp_vault (nw_cube par)))" "NUM_BANKS (cfg (cp_vault (nw_cube par))) \<le> 2 ^ 32"
  shows "net_run par s \<Longrightarrow> net_inv par s"
proof (induction rule: net_run.induct)
  case (dfly dim ops s)
  then show ?case using Alloc_inv [OF _ assms(1)] connect_inv by (auto simp: DFly_Network_def err_simps)
next
  case (mesh dim ops s)
  then show ?case using Alloc_inv [OF _ assms(1)] connect_inv by (auto simp: Mesh_Network_def err_simps)
next
  case (served s i ts)
  then show ?case using net_inv_host net_invD(1) by simp
next
  case (transaction s t cpu ok s')
  then show ?case using ReceiveTran_inv by blast
next
  case (update s s')
  then show ?case using Network_Update_inv assms(2) by blast
qed (simp_all add: MultiStep_inv)

section \<open>Properties of the network\<close>

text \<open> C8. In every state of a whole network, built, given transactions and updated in any order, the
  engine of every cube is in order: the accounts of its flows balance, an operand buffer is free and
  empty or holds an update of a flow in the table, and no flow is in the table twice. Nothing
  is asked of the packets: those that travel between the cubes come from the network itself. \<close>

theorem network_engines_in_order:
  assumes "0 < NUM_BANKS (cfg (cp_vault (nw_cube par)))" "NUM_BANKS (cfg (cp_vault (nw_cube par))) \<le> 2 ^ 32"
    and "net_run par s" "i < length (hmcs s)"
  shows "let x = crossbarSwitch (hmcs s ! i) in art_ok (flowTable x) (operandBuffers x) (freeOperandBufIDs x) (numMultStages x)"
proof -
  have "xbar_inv (crossbarSwitch (hmcs s ! i))"
    using net_invD(4) [OF net_run_inv [OF assms(1,2,3)] assms(4)] by (simp add: good_cube_def cube_inv_def)
  then show ?thesis by (simp add: xbar_inv_def engine_inv_def art_inv_def)
qed

lemma foldE_total:
  assumes "P s" "\<And>x s. x \<in> set xs \<Longrightarrow> P s \<Longrightarrow> \<exists>t. f x s = Inr t \<and> P t"
  shows "\<exists>t. foldE f xs s = Inr t \<and> P t"
  using assms
proof (induction xs arbitrary: s)
  case (Cons x xs)
  obtain t where "f x s = Inr t" "P t" using Cons.prems(1) Cons.prems(2) [of x s] by auto
  then show ?case using Cons.IH [of t] Cons.prems(2) by simp
qed simp

text \<open>A dragonfly of 16 cubes.\<close>

definition example_network :: network_par where
  "example_network = \<lparr>nw_cube = example_cube\<lparr>cp_net := (cp_net example_cube)\<lparr>np_topology := DFLY\<rparr>\<rparr>, nw_hmc = example_hmc, nw_noise = (\<lambda>_ _. 1),
     cpu_faster = False, link_late = (\<lambda>t c. 16 * unat t > unat c), link_even = (\<lambda>t c. 16 * unat t = unat c), link_ticks = (\<lambda>t. 16 * t),
     cpu_dram = True, dram_late = (\<lambda>t c. 5 * unat t > 8 * unat c), dram_even = (\<lambda>t c. 5 * unat t = 8 * unat c), dram_ticks = (\<lambda>t. t * 5 div 8)\<rparr>"

lemma wired_16: "\<forall>i \<in> set [0..<16]. \<forall>l \<in> set [0..<NUM_LINKS]. fst (dfly_wiring 16) (i, l) \<noteq> None"
  by code_simp

lemma example_built: "\<exists>s. DFly_Network example_network 4 ops = Inr s \<and> length (hmcs s) = 16"
proof -
  let ?c = "nw_cube example_network"
  have topo: "np_topology (cp_net ?c) = DFLY" by (simp add: example_network_def)
  have m: "\<exists>ms. HMC_masters DFLY 4 i = Inr ms" for i unfolding HMC_masters_def
    using foldE_total [of "\<lambda>_. True" "[]" "[0..<NUM_LINKS]" "\<lambda>l ms. bindE (master_down DFLY 4 i l) (\<lambda>d. Inr (ms @ [LinkMaster d]))"]
    by (simp add: master_down_def)
  have l: "\<exists>ls. Alloc_links DFLY 16 i = Inr ls" for i unfolding Alloc_links_def
    using foldE_total [of "\<lambda>_. True" "[]" "[0..<NUM_LINKS]" "\<lambda>l ls. bindE (link_down DFLY 16 i l) (\<lambda>d. Inr (ls @ [Link d (4 * i + l)]))"]
    by (simp add: link_down_def)
  have h: "\<exists>h. HMC ?c 4 i o1 = Inr h" for i o1 using m [of i] by (auto simp: HMC_def Let_def topo)
  have a: "\<exists>t. Alloc_cube example_network 4 16 ops i s = Inr t \<and> length (fst t) = length (fst s) + 1" for i s
    using h [of i "ops i"] l [of i] by (cases s) (auto simp: Alloc_cube_def topo)
  have "\<exists>t. foldE (Alloc_cube example_network 4 16 ops) [0..<n] ([], []) = Inr t \<and> length (fst t) = n" for n
  proof (induction n)
    case (Suc n)
    then obtain t where t: "foldE (Alloc_cube example_network 4 16 ops) [0..<n] ([], []) = Inr t" "length (fst t) = n" by auto
    then show ?case using a [of n t] by (auto simp: foldE_append)
  qed simp
  from this [of 16] obtain hs lss where f: "foldE (Alloc_cube example_network 4 16 ops) [0..<16] ([], []) = Inr (hs, lss)" "length hs = 16" by auto
  then obtain s where s: "Alloc example_network 4 4 16 ops = Inr s" "hmcs s = hs" by (simp add: Alloc_def example_network_def)
  have n: "\<exists>ns. foldE (\<lambda>l ns. bindE (RegisterNeighbor (fst (dfly_wiring 16)) i l) (\<lambda>n. Inr (ns @ [int n]))) [0..<NUM_LINKS] [] = Inr ns" if "i < 16" for i
    using foldE_total [of "\<lambda>_. True" "[]" "[0..<NUM_LINKS]" "\<lambda>l ns. bindE (RegisterNeighbor (fst (dfly_wiring 16)) i l) (\<lambda>n. Inr (ns @ [int n]))"] wired_16 that
    by (fastforce simp: RegisterNeighbor_def split: option.split endpoint.split)
  have "\<exists>t. foldE (register_neighbors (fst (dfly_wiring 16))) [0..<16] hs = Inr t \<and> length t = 16"
  proof (rule foldE_total)
    fix i and us :: "hmc list" assume i: "i \<in> set [0..<16]" "length us = 16"
    obtain ns where "foldE (\<lambda>l ns. bindE (RegisterNeighbor (fst (dfly_wiring 16)) i l) (\<lambda>n. Inr (ns @ [int n]))) [0..<NUM_LINKS] [] = Inr ns"
      using n [of i] i(1) by auto
    then show "\<exists>t. register_neighbors (fst (dfly_wiring 16)) i us = Inr t \<and> length t = 16" using i by (simp add: register_neighbors_def)
  qed (rule f(2))
  then show ?thesis using s f(2) by (cases "dfly_wiring 16") (auto simp: DFly_Network_def connect_def DFly_def)
qed

theorem network_engines_in_order_witness:
  "\<exists>s. net_run example_network s \<and> (let x = crossbarSwitch (hmcs s ! 7) in art_ok (flowTable x) (operandBuffers x) (freeOperandBufIDs x) (numMultStages x))"
proof -
  obtain s where s: "DFly_Network example_network 4 (\<lambda>_ _. 0) = Inr s" "length (hmcs s) = 16" using example_built by blast
  have r: "net_run example_network s" by (rule net_run.dfly [OF s(1)])
  have "NUM_BANKS (cfg (cp_vault (nw_cube example_network))) = 1" by (simp add: example_network_def example_cube_def small_config_def)
  then show ?thesis using network_engines_in_order [OF _ _ r, of 7] r s(2) by auto
qed

section \<open>The clocks of the links\<close>

text \<open>
  Links that run several times in a cycle of the processor. What an update and a restart do to the
  counters is all that the pace depends on; the locale is interpreted on the links in both directions.
\<close>

definition paced_links :: "(bool \<Rightarrow> 's \<Rightarrow> 's result) \<Rightarrow> ('s \<Rightarrow> u64) \<Rightarrow> ('s \<Rightarrow> u64) \<Rightarrow> ('s \<Rightarrow> 's) \<Rightarrow> network_par \<Rightarrow> 's \<Rightarrow> 's result" where
  "paced_links upd tuner clock restart par s =
     bindE (whileE (\<lambda>s. link_late par (tuner s) (clock s + 1)) (upd False) s) (\<lambda>s.
     bindE (if link_even par (tuner s) (clock s + 1) then bindE (upd False s) (\<lambda>s. Inr (restart s)) else Inr s) (upd True))"

text \<open>Periods that are multiples of a common unit, computed without rounding.\<close>

definition exact_links :: "network_par \<Rightarrow> nat \<Rightarrow> nat \<Rightarrow> bool" where
  "exact_links par p q \<longleftrightarrow> 0 < q \<and> q \<le> p \<and> link_late par = (\<lambda>t c. q * unat c < p * unat t) \<and> link_even par = (\<lambda>t c. q * unat c = p * unat t)"

text \<open>The links have run all cycles that begin before the cycle \<open>t\<close> of the processor, and no more.\<close>

definition in_step :: "nat \<Rightarrow> nat \<Rightarrow> u64 \<Rightarrow> u64 \<Rightarrow> bool" where
  "in_step p q t c \<longleftrightarrow> 0 < unat t \<and> 0 < unat c \<and> q * (unat c - 1) \<le> p * (unat t - 1) \<and> p * (unat t - 1) < q * unat c"

locale paced =
  fixes upd :: "bool \<Rightarrow> 's \<Rightarrow> 's result" and tuner :: "'s \<Rightarrow> u64" and clock :: "'s \<Rightarrow> u64" and restart :: "'s \<Rightarrow> 's"
  assumes upd_ends: "ends (upd lu s)"
    and upd_counts: "okE (upd lu s) (\<lambda>s'. tuner s' = tuner s \<and> clock s' = clock s + 1)"
    and restart_counts: "tuner (restart s) = 0 \<and> clock (restart s) = 0"
begin

lemma keeps_step:
  assumes "exact_links par p q" "in_step p q (tuner s) (clock s)" "p * unat (tuner s) < q * 2 ^ 62"
  shows "ends (paced_links upd tuner clock restart par s) \<and>
    okE (paced_links upd tuner clock restart par s) (\<lambda>s'. in_step p q (tuner s' + 1) (clock s'))"
proof -
  have e: "0 < q" "q \<le> p" "link_late par = (\<lambda>t c. q * unat c < p * unat t)" "link_even par = (\<lambda>t c. q * unat c = p * unat t)"
    using assms(1) by (simp_all add: exact_links_def)
  let ?t = "tuner s"
  have p0: "0 < p" using e(1,2) by simp
  let ?P = "\<lambda>u. tuner u = ?t \<and> q * unat (clock u) \<le> p * unat ?t"
  have bound: "unat (clock u + 1) = unat (clock u) + 1" if "?P u" for u
  proof -
    have "q * unat (clock u) < q * 2 ^ 62" using that assms(3) by linarith
    then have "unat (clock u) < 2 ^ 62" using e(1) by simp
    then show ?thesis by (simp add: unat_word_ariths)
  qed
  have "q * unat ?t \<le> p * unat ?t" using e(2) by simp
  then have "q * unat ?t < q * 2 ^ 62" using assms(3) by linarith
  then have "unat ?t < 2 ^ 62" using e(1) by simp
  then have t: "unat (?t + 1) = unat ?t + 1" by (simp add: unat_word_ariths)
  have init: "?P s"
  proof -
    have pred: "k * n = k * (n - 1) + k" if "0 < n" for k n :: nat using that by (cases n) simp_all
    have "q * unat (clock s) = q * (unat (clock s) - 1) + q" "p * unat ?t = p * (unat ?t - 1) + p"
      by (rule pred, use assms(2) in \<open>simp add: in_step_def\<close>)+
    then show ?thesis using assms(2) e(2) by (simp add: in_step_def)
  qed
  let ?b = "\<lambda>u. link_late par (tuner u) (clock u + 1)"
  have loop: "ends (whileE ?b (upd False) s) \<and> okE (whileE ?b (upd False) s) ?P"
  proof (rule whileE_ends_okE [where P = ?P and R = "measure (\<lambda>u. p * unat ?t - q * unat (clock u))", OF init])
    fix u assume u: "?b u" "?P u"
    have "q * unat (clock u + 1) < p * unat ?t" using u by (simp add: e(3))
    then have "?P v \<and> p * unat ?t - q * unat (clock v) < p * unat ?t - q * unat (clock u)" if "tuner v = tuner u" "clock v = clock u + 1" for v
      using that u(2) bound [OF u(2)] e(1) by auto
    then show "ends (upd False u) \<and> okE (upd False u) (\<lambda>v. ?P v \<and> (v, u) \<in> measure (\<lambda>u. p * unat ?t - q * unat (clock u)))"
      using upd_ends upd_counts [of False u] by (auto simp: okE_iff)
  qed simp
  have exit: "\<not> ?b u" if "whileE ?b (upd False) s = Inr u" for u
    using whileE_inv [where P = "\<lambda>_. True", OF that] by simp
  have last: "in_step p q (tuner w + 1) (clock w)"
    if u: "?P u" "\<not> ?b u" and v: "(if link_even par (tuner u) (clock u + 1) then bindE (upd False u) (\<lambda>s. Inr (restart s)) else Inr u) = Inr v"
      and w: "upd True v = Inr w" for u v w
  proof (cases "link_even par (tuner u) (clock u + 1)")
    case True
    then have "tuner v = 0 \<and> clock v = 0" using v restart_counts by (auto simp: bindE_eq_Inr)
    then have "tuner w = 0 \<and> clock w = 1" using okED [OF upd_counts w] by simp
    then show ?thesis using e(1) by (simp add: in_step_def)
  next
    case False
    then have "tuner w = ?t \<and> clock w = clock u + 1" using okED [OF upd_counts w] v u(1) by simp
    moreover have "p * unat ?t < q * (unat (clock u) + 1)" using u False bound [OF u(1)] by (simp add: e(3,4))
    ultimately show ?thesis using u(1) t bound [OF u(1)] by (simp add: in_step_def)
  qed
  show ?thesis
  proof
    show "ends (paced_links upd tuner clock restart par s)"
      using loop upd_ends by (simp add: paced_links_def ends_simps okE_True okE_iff)
    show "okE (paced_links upd tuner clock restart par s) (\<lambda>s'. in_step p q (tuner s' + 1) (clock s'))"
      unfolding okE_iff paced_links_def bindE_eq_Inr using loop exit last unfolding okE_iff bindE_eq_Inr by blast
  qed
qed

end

text \<open>What the updates of the links do to the counters.\<close>

lemma UpdateStatistic_ends [ends_simps]: "ends (UpdateStatistic l m p s)"
  by (cases "packetType p"; cases "trace p") (simp_all add: UpdateStatistic_def Let_def ends_simps split: prod.split)

lemma link_step_ends [ends_simps]: "ends (NoisePacket par rd p)" "ends (start_transmission par w)" "ends (transmit par rd w)" "ends (Link_Update par rd lu w)" "ends (slave_at e s)"
proof -
  show n: "ends (NoisePacket par rd p)" for par rd p by (simp add: NoisePacket_def ends_simps)
  show s: "ends (start_transmission par w)" for par w
    by (cases w; cases "m_linkRxTx (fst (snd w))") (simp_all add: start_transmission_def ends_simps okE_iff split: prod.split)
  show t: "ends (transmit par rd w)" for par rd w
    by (auto simp: transmit_def Let_def ends_simps n okE_iff split: prod.split option.split)
  show "ends (Link_Update par rd lu w)" by (simp add: Link_Update_def ends_simps s t okE_iff split: prod.split)
  show "ends (slave_at e s)" for e s by (simp add: slave_at_def ends_simps split: option.split endpoint.split)
qed

lemma link_ends: "ends (run_link par lp lu e l m s)"
  by (simp add: run_link_def ends_simps okE_iff split: prod.split)

lemma set_slave_counts [simp]: "downLinkTuner (set_slave e ls s) = downLinkTuner s" "downLinkClock (set_slave e ls s) = downLinkClock s"
  "upLinkTuner (set_slave e ls s) = upLinkTuner s" "upLinkClock (set_slave e ls s) = upLinkClock s"
  by (simp_all add: set_slave_def split: option.split endpoint.split)

lemma link_counts: "run_link par lp lu e l m s = Inr (l', m', s') \<Longrightarrow> downLinkTuner s' = downLinkTuner s \<and> downLinkClock s' = downLinkClock s
    \<and> upLinkTuner s' = upLinkTuner s \<and> upLinkClock s' = upLinkClock s"
  by (auto simp: run_link_def err_simps)

lemma DownLinkUpdate_counts:
  "ends (DownLinkUpdate par lu s) \<and> okE (DownLinkUpdate par lu s) (\<lambda>s'. downLinkTuner s' = downLinkTuner s \<and> downLinkClock s' = downLinkClock s + 1)"
proof -
  let ?P = "\<lambda>u. downLinkTuner u = downLinkTuner s \<and> downLinkClock u = downLinkClock s"
  have "ends (down_link_cycle par lu i u) \<and> okE (down_link_cycle par lu i u) ?P" if "?P u" for i u
    using that link_ends link_counts by (fastforce simp: down_link_cycle_def ends_simps wp okE_iff err_simps)
  then have "ends (foldE (down_link_cycle par lu) is s) \<and> okE (foldE (down_link_cycle par lu) is s) ?P" for "is" by (intro foldE_ends) auto
  then show ?thesis by (auto simp: DownLinkUpdate_def ends_simps wp okE_iff bindE_eq_Inr)
qed

lemma UpLinkUpdate_counts:
  "ends (UpLinkUpdate par lu s) \<and> okE (UpLinkUpdate par lu s) (\<lambda>s'. upLinkTuner s' = upLinkTuner s \<and> upLinkClock s' = upLinkClock s + 1)"
proof -
  let ?P = "\<lambda>u. upLinkTuner u = upLinkTuner s \<and> upLinkClock u = upLinkClock s"
  have "ends (up_link_cycle par lu i u) \<and> okE (up_link_cycle par lu i u) ?P" if "?P u" for i u
    using that link_ends link_counts by (cases i) (fastforce simp: up_link_cycle_def ends_simps wp okE_iff err_simps)
  then have "ends (foldE (up_link_cycle par lu) is s) \<and> okE (foldE (up_link_cycle par lu) is s) ?P" for "is" by (intro foldE_ends) auto
  then show ?thesis by (auto simp: UpLinkUpdate_def ends_simps wp okE_iff bindE_eq_Inr)
qed

interpretation down: paced "DownLinkUpdate par" downLinkTuner downLinkClock "\<lambda>s. s\<lparr>downLinkTuner := 0, downLinkClock := 0\<rparr>" for par
  using DownLinkUpdate_counts by unfold_locales auto

interpretation up: paced "UpLinkUpdate par" upLinkTuner upLinkClock "\<lambda>s. s\<lparr>upLinkTuner := 0, upLinkClock := 0\<rparr>" for par
  using UpLinkUpdate_counts by unfold_locales auto

lemma links_paced:
  "down_links par s = paced_links (DownLinkUpdate par) downLinkTuner downLinkClock (\<lambda>s. s\<lparr>downLinkTuner := 0, downLinkClock := 0\<rparr>) par s"
  "up_links par s = paced_links (UpLinkUpdate par) upLinkTuner upLinkClock (\<lambda>s. s\<lparr>upLinkTuner := 0, upLinkClock := 0\<rparr>) par s"
  by (simp_all add: down_links_def up_links_def paced_links_def)

text \<open> C15. The loops that run the links in a cycle of the processor end, and the links neither fall
  behind nor get ahead: after every cycle they have run the cycles of their own that begin
  before the next one of the processor. This is for periods that are multiples of a common unit, the
  links not slower than the processor, as the constructor of the network demands. \<close>

theorem link_clocks_in_step:
  assumes "exact_links par p q" "in_step p q (downLinkTuner s) (downLinkClock s)" "in_step p q (upLinkTuner s) (upLinkClock s)"
    and "p * unat (downLinkTuner s) < q * 2 ^ 62" "p * unat (upLinkTuner s) < q * 2 ^ 62"
  shows "ends (down_links par s) \<and> okE (down_links par s) (\<lambda>s'. in_step p q (downLinkTuner s' + 1) (downLinkClock s'))
    \<and> ends (up_links par s) \<and> okE (up_links par s) (\<lambda>s'. in_step p q (upLinkTuner s' + 1) (upLinkClock s'))"
  unfolding links_paced using down.keeps_step [OF assms(1,2,4)] up.keeps_step [OF assms(1,3,5)] by blast

theorem link_clocks_in_step_witness:
  "\<exists>s. net_run example_network s \<and> length (hmcs s) = 16 \<and> ends (down_links example_network s)
    \<and> okE (down_links example_network s) (\<lambda>s'. in_step 16 1 (downLinkTuner s' + 1) (downLinkClock s'))"
proof -
  obtain s where s: "DFly_Network example_network 4 (\<lambda>_ _. 0) = Inr s" "length (hmcs s) = 16" using example_built by blast
  have c: "downLinkTuner s = 1 \<and> downLinkClock s = 1 \<and> upLinkTuner s = 1 \<and> upLinkClock s = 1"
    using s(1) by (auto simp: DFly_Network_def connect_def Alloc_def err_simps)
  have "exact_links example_network 16 1" by (auto simp: exact_links_def example_network_def fun_eq_iff)
  then show ?thesis using link_clocks_in_step [of example_network 16 1 s] c net_run.dfly [OF s(1)] s(2) by (auto simp: in_step_def)
qed

end
