(* ===== verification/VLP_Vault.thy ===== *)
theory VLP_Vault
  imports Vault Active_Routing
begin

text \<open>
  The vault controller of the vault-level parallel cubes: \<open>VLPVaultController.h\<close> and
  \<open>VLPVaultController.cpp\<close>, the class derived from the vault controller of \<open>Vault\<close>. Such a vault has
  a flow table and operand buffers of its own: it takes an addition into an operand buffer when it
  reads the operand, computes when the operand has come back from the DRAM, and answers the gather of
  a flow to the crossbar switch of its cube. The record extends that of the vault controller, and
  the operations of the base class that call the virtual \<open>MakeRespondPacket\<close> get the one of this class.
\<close>

section \<open>State\<close>

definition MAX_VAULT_OPERAND_BUF :: nat where "MAX_VAULT_OPERAND_BUF = 4"

text \<open>
  The members the class adds, with a prefix where the crossbar switch has a member of the same name.
  \<open>vaultContID\<close> is a member of the base class that only this class reads, \<open>v_gtag\<close> the global packet
  tag, which all components share.
\<close>

type_synonym vault_flows = "(u64 \<times> vault_flow_entry) list"

record vlp_vault = vault +
  vaultContID :: u32
  vFlowTable :: vault_flows
  vOperandBuffers :: "vault_operand_entry list"
  vFreeOperandBufIDs :: "nat list"
  vMultPipeOccupancy :: int
  vNumMultStages :: int
  vNumFlows :: int
  vNumOperands :: int
  vCubeID :: int
  vNumAdds :: int
  vNumMults :: int
  numADDUpdates :: u64
  numRemoteReqRecv :: u64
  numLocalRespRecv :: u64
  numLocalReqRecv :: u64
  numFlowRespSent :: u64
  numRemoteRespSent :: u64
  vReadyHist :: "int \<rightharpoonup> int"
  vTotalReady :: int
  vResultsHist :: "int \<rightharpoonup> int"
  vTotalResults :: int
  vUpdatesHist :: "int \<rightharpoonup> int"
  vTotalUpdates :: int
  v_gtag :: u32

definition VLPVaultController :: "dram_config \<Rightarrow> u32 \<Rightarrow> u32 \<Rightarrow> u64 \<Rightarrow> tran_trace list \<Rightarrow> tran_statistic \<Rightarrow> vlp_vault" where
  "VLPVaultController c cont gtag ops traces st =
     vault.extend (VaultController c ops traces st)
       (vlp_vault.fields cont [] (replicate MAX_VAULT_OPERAND_BUF (VaultOperandEntry 5)) [0..<MAX_VAULT_OPERAND_BUF] 0 5
         0 0 (-1) 0 0 0 0 0 0 0 0 Map.empty 0 Map.empty 0 Map.empty 0 gtag)"

section \<open>Response packets\<close>

text \<open>Data the vault reads for itself: its operand becomes ready, no packet is sent.\<close>

definition mark_operand :: "int \<Rightarrow> (vault_operand_entry \<Rightarrow> vault_operand_entry result) \<Rightarrow> vlp_vault \<Rightarrow> vlp_vault result" where
  "mark_operand i f v = bindE (at_int (vOperandBuffers v) i) (\<lambda>e. bindE (f e) (\<lambda>e.
     Inr (v\<lparr>vOperandBuffers := (vOperandBuffers v)[nat i := e]\<rparr>)))"

definition answered :: "dram_command \<Rightarrow> vlp_vault \<Rightarrow> vlp_vault" where
  "answered cmd v = upd_trace (dc_trace cmd) (set_vaultFullLat (currentClockCycle v))
     (v\<lparr>pendingDataSize := pendingDataSize v - (dataSize cmd div 16 + 1)\<rparr>)"

definition operand_read :: "vault_operand_entry \<Rightarrow> vault_operand_entry result" where
  "operand_read e = Inr (e\<lparr>op1_ready := True, oe_ready := True\<rparr>)"

definition factor_read :: "dram_command \<Rightarrow> vault_flows \<Rightarrow> vault_operand_entry \<Rightarrow> vault_operand_entry result" where
  "factor_read cmd t e =
     bindE (if srcAddr1 cmd = 0 then checkE (srcAddr2 cmd \<noteq> 0) (Assertion ''srcAddr2'') (Inr (e\<lparr>op2_ready := True\<rparr>))
            else checkE (srcAddr2 cmd = 0) (Assertion ''srcAddr1, srcAddr2'') (Inr (e\<lparr>op1_ready := True\<rparr>))) (\<lambda>e.
       if op1_ready e \<and> op2_ready e
       then checkE (map_of t (flowID e) \<noteq> None) (Assertion ''flowTable'') (Inr (e\<lparr>oe_ready := True\<rparr>)) else Inr e)"

definition both_ready :: "int \<Rightarrow> vlp_vault \<Rightarrow> bool" where
  "both_ready i v = (let e = vOperandBuffers v ! nat i in op1_ready e \<and> op2_ready e)"

text \<open>The response packet of a read as this class makes it; the other responses are those of the base class.\<close>

definition vlp_read_response :: "vc_par \<Rightarrow> dram_command \<Rightarrow> packet result" where
  "vlp_read_response par cmd =
     (let p = (response par cmd RD_RS (dataSize cmd div 16 + 1))\<lparr>ADRS := addr cmd\<rparr>
      in if packetCMD cmd = ACT_ADD \<or> packetCMD cmd = ACT_DOT
         then Inr (p\<lparr>CMD := packetCMD cmd, active := True, DESTADRS := destAddr cmd, SRCADRS1 := srcAddr1 cmd,
                computeVault := dc_computeVault cmd, operandBufID := dc_operandBufID cmd, vaultOperandBufID := dc_vaultOperandBufID cmd\<rparr>)
         else if packetCMD cmd = PEI_DOT then Inr (p\<lparr>CMD := PEI_DOT\<rparr>)
         else if packetCMD cmd = ACT_MULT
         then checkE (srcAddr1 cmd \<noteq> 0 \<and> srcAddr2 cmd = 0 \<or> srcAddr1 cmd = 0 \<and> srcAddr2 cmd \<noteq> 0)
                (Assertion ''srcAddr1, srcAddr2'')
                (Inr (p\<lparr>CMD := ACT_MULT, active := True, DESTADRS := destAddr cmd, SRCADRS1 := srcAddr1 cmd,
                   SRCADRS2 := srcAddr2 cmd, operandBufID := dc_operandBufID cmd, vaultOperandBufID := dc_vaultOperandBufID cmd,
                   computeVault := dc_computeVault cmd\<rparr>))
         else Inr p)"

definition vlp_respond_packet :: "vc_par \<Rightarrow> dram_command \<Rightarrow> (packet \<times> u32) result" where
  "vlp_respond_packet par cmd =
     (if \<not> atomic cmd \<and> commandType cmd = READ_DATA
      then bindE (vlp_read_response par cmd) (\<lambda>p. Inr (p, dataSize cmd div 16 + 1)) else respond_packet par cmd)"

definition vlp_MakeRespondPacket :: "vc_par \<Rightarrow> dram_command \<Rightarrow> vlp_vault \<Rightarrow> (bool \<times> vlp_vault) result" where
  "vlp_MakeRespondPacket par cmd v =
     (let i = dc_vaultOperandBufID cmd in
      if packetCMD cmd = ACT_ADD \<or> packetCMD cmd = ACT_DOT
      then bindE (mark_operand i operand_read v) (\<lambda>v. Inr (True, answered cmd v))
      else if packetCMD cmd = ACT_MULT \<and> dc_src_cube cmd = word_of_int (vCubeID v) \<and> word_of_int (dc_computeVault cmd) = vaultContID v
      then bindE (mark_operand i (factor_read cmd (vFlowTable v)) (v\<lparr>numLocalReqRecv := numLocalReqRecv v + 1\<rparr>)) (\<lambda>v.
             Inr (True, answered cmd (v\<lparr>vNumMults := vNumMults v + (if both_ready i v then 1 else 0)\<rparr>)))
      else bindE (vlp_respond_packet par cmd) (\<lambda>(p, size).
       (let newPendingDataSize = pendingDataSize v - size;
            p = p\<lparr>ADRS := drop_bit 30 (push_bit 30 (addr cmd)), orig_addr := addr cmd, tran_tag := dc_tran_tag cmd,
                  segment := dc_segment cmd\<rparr>
        in bindE (if CMD p \<noteq> PEI_DOT then vault_ReceiveUp p v else Inr (True, push_pcu p v)) (\<lambda>(consumeRetCMD, v).
           (let v = v\<lparr>numRemoteRespSent := numRemoteRespSent v + (if CMD p = ACT_MULT then 1 else 0)\<rparr>
            in Inr (consumeRetCMD, if consumeRetCMD
               then (upd_trace (dc_trace cmd) (set_vaultFullLat (currentClockCycle v)) v)\<lparr>pendingDataSize := newPendingDataSize\<rparr>
               else v))))))"

section \<open>Reducing operands\<close>

text \<open>As in the crossbar switch: at most one multiplication starts and one addition is done in a cycle.\<close>

definition vault_finish :: "nat \<Rightarrow> vault_flow_entry \<Rightarrow> vlp_vault \<Rightarrow> vlp_vault" where
  "vault_finish i fe v = (let e = vOperandBuffers v ! i in
     v\<lparr>vFlowTable := flow_insert (flowID e) (fe\<lparr>rep_count := rep_count fe + 1\<rparr>) (vFlowTable v),
       vTotalResults := vTotalResults v + 1,
       vOperandBuffers := (vOperandBuffers v)[i := release (vNumMultStages v) e],
       vFreeOperandBufIDs := vFreeOperandBufIDs v @ [i]\<rparr>)"

definition vault_consume :: "nat \<Rightarrow> bool \<times> bool \<times> vlp_vault \<Rightarrow> (bool \<times> bool \<times> vlp_vault) result" where
  "vault_consume i s = (case s of (startedMult, finishedAdd, v) \<Rightarrow>
     (let e0 = vOperandBuffers v ! i in
      if \<not> oe_ready e0 then Inr (startedMult, finishedAdd, v)
      else
        (let e = e0\<lparr>oe_counted := True\<rparr>;
             v = v\<lparr>vTotalReady := vTotalReady v + (if oe_counted e0 then 0 else 1), vOperandBuffers := (vOperandBuffers v)[i := e]\<rparr>;
             stepped = e\<lparr>multStageCounter := multStageCounter e - 1\<rparr>
         in case map_of (vFlowTable v) (flowID e) of None \<Rightarrow> Inl (Assertion ''flowTable'')
            | Some fe \<Rightarrow> (case opcode fe of
                MAC \<Rightarrow> if multStageCounter e = vNumMultStages v
                  then (if \<not> startedMult \<and> vMultPipeOccupancy v < vNumMultStages v
                        then Inr (True, finishedAdd, v\<lparr>vMultPipeOccupancy := vMultPipeOccupancy v + 1,
                               vOperandBuffers := (vOperandBuffers v)[i := stepped]\<rparr>)
                        else Inr (startedMult, finishedAdd, v))
                  else if multStageCounter stepped > 0
                  then Inr (startedMult, finishedAdd, v\<lparr>vOperandBuffers := (vOperandBuffers v)[i := stepped]\<rparr>)
                  else Inr (startedMult, finishedAdd,
                         vault_finish i fe (v\<lparr>vMultPipeOccupancy := vMultPipeOccupancy v - 1,
                           vOperandBuffers := (vOperandBuffers v)[i := stepped]\<rparr>))
              | ADD \<Rightarrow> if finishedAdd then Inr (startedMult, finishedAdd, v)
                  else Inr (startedMult, True, vault_finish i fe v)
              | INVALID \<Rightarrow> Inr (startedMult, finishedAdd, vault_finish i fe v)))))"

definition vault_consume_all :: "vlp_vault \<Rightarrow> vlp_vault result" where
  "vault_consume_all v = bindE (foldE vault_consume [0..<length (vOperandBuffers v)]
     (False, False, v\<lparr>vTotalReady := 0, vTotalResults := 0, vTotalUpdates := 0\<rparr>)) (\<lambda>(_, _, v). Inr v)"

section \<open>Answering gathers\<close>

text \<open>
  The reply goes to the crossbar switch of the cube, source and destination being the parent, which is
  this cube, and carries the number of the vault. The trace of a reply that is refused is deleted.
\<close>

definition vault_gather_one :: "vc_par \<Rightarrow> u64 \<times> vault_flow_entry \<Rightarrow> vlp_vault \<Rightarrow> vlp_vault result" where
  "vault_gather_one par kf v = (case kf of (k, fe) \<Rightarrow>
     (if req_count fe = rep_count fe \<and> g_flag fe
      then (let (gpkt, gtag) = Packet_active (CRC_CHECK par) (rnd par) (raw_packet par) (v_gtag v) RESPONSE ACT_GET k
                  (ucast (vaultContID v)) 0 2 (Some (length (v_traces v))) (parent fe) (parent fe)
            in bindE (vault_ReceiveUp gpkt (v\<lparr>v_gtag := gtag\<rparr>)) (\<lambda>(ok, v).
                 Inr (if ok then v\<lparr>vFlowTable := flow_erase k (vFlowTable v), v_traces := v_traces v @ [TranTrace],
                        numFlowRespSent := numFlowRespSent v + 1\<rparr> else v)))
      else Inr v))"

definition vault_gathers :: "vc_par \<Rightarrow> vlp_vault \<Rightarrow> vlp_vault result" where
  "vault_gathers par v = foldE (vault_gather_one par) (vFlowTable v) v"

section \<open>Taking operands into buffers\<close>

text \<open>The entry of a flow is made by its first update; the parent of a flow in a vault is its own cube.\<close>

definition register_vault_flow :: "Opcode \<Rightarrow> int \<Rightarrow> u64 \<Rightarrow> vlp_vault \<Rightarrow> vlp_vault result" where
  "register_vault_flow op cube k v = (case map_of (vFlowTable v) k of
     None \<Rightarrow> Inr (v\<lparr>vFlowTable := flow_insert k ((VaultFlowEntry op)\<lparr>parent := cube, req_count := 1\<rparr>) (vFlowTable v),
               vNumFlows := vNumFlows v + 1\<rparr>)
   | Some e \<Rightarrow> checkE (parent e = cube) (Assertion ''parent'')
       (Inr (v\<lparr>vFlowTable := flow_insert k (e\<lparr>req_count := req_count e + 1\<rparr>) (vFlowTable v)\<rparr>)))"

definition fill_operand :: "nat \<Rightarrow> u64 \<Rightarrow> u64 \<Rightarrow> u64 \<Rightarrow> vlp_vault \<Rightarrow> vlp_vault result" where
  "fill_operand i k src1 src2 v = bindE (at_int (vOperandBuffers v) (int i)) (\<lambda>e.
     checkE (src_addr1 e = 0 \<and> src_addr2 e = 0) (Assertion ''src_addr'')
    (checkE (\<not> op1_ready e \<and> \<not> op2_ready e \<and> \<not> oe_ready e) (Assertion ''ready'')
      (Inr (v\<lparr>vOperandBuffers := (vOperandBuffers v)[i := e\<lparr>flowID := k, src_addr1 := src1, src_addr2 := src2\<rparr>]\<rparr>))))"

text \<open>
  The crossbar switch reserves a buffer for both operands of a multiplication and gives it back
  when it cannot send the first one. \<open>cube\<close> is the number of the cube, read from the crossbar switch.
\<close>

definition OperandBufferStatus :: "u32 \<Rightarrow> packet \<Rightarrow> vlp_vault \<Rightarrow> (int \<times> packet \<times> vlp_vault) result" where
  "OperandBufferStatus cube p v = (case vFreeOperandBufIDs v of [] \<Rightarrow> Inr (-1, p, v)
     | i # free \<Rightarrow>
         (let p = p\<lparr>vaultOperandBufID := int i, computeVault := sint (vaultContID v)\<rparr>;
              v = v\<lparr>vNumOperands := vNumOperands v + 1, vFreeOperandBufIDs := free,
                    vCubeID := (if map_of (vFlowTable v) (DESTADRS p) = None then sint cube else vCubeID v)\<rparr>
          in bindE (register_vault_flow MAC (sint cube) (DESTADRS p) v) (\<lambda>v.
             bindE (fill_operand i (DESTADRS p) (SRCADRS1 p) (SRCADRS2 p) v) (\<lambda>v. Inr (int i, p, v)))))"

definition FreeOperandBuffer :: "int \<Rightarrow> vlp_vault \<Rightarrow> vlp_vault result" where
  "FreeOperandBuffer i v = bindE (at_int (vOperandBuffers v) i) (\<lambda>e. case map_of (vFlowTable v) (flowID e) of
     None \<Rightarrow> Inl (Assertion ''flowTable'')
   | Some fe \<Rightarrow> Inr (v\<lparr>vFlowTable := flow_insert (flowID e) (fe\<lparr>req_count := req_count fe - 1\<rparr>) (vFlowTable v),
       vOperandBuffers := (vOperandBuffers v)[nat i := (release (vNumMultStages v) e)\<lparr>oe_counted := oe_counted e\<rparr>],
       vFreeOperandBufIDs := vFreeOperandBufIDs v @ [nat i]\<rparr>))"

section \<open>Requests\<close>

text \<open>A read command remembers the operand buffer and the vault that computes.\<close>

definition vlp_operand :: "packet \<Rightarrow> dram_command \<Rightarrow> dram_command result" where
  "vlp_operand p rw = bindE (active_operand p rw) (\<lambda>rw. Inr
     (if CMD p = ACT_ADD \<or> CMD p = ACT_DOT then rw\<lparr>dc_vaultOperandBufID := vaultOperandBufID p\<rparr>
      else if CMD p = ACT_MULT then rw\<lparr>dc_vaultOperandBufID := vaultOperandBufID p, dc_computeVault := computeVault p\<rparr>
      else rw))"

definition erase_down_at :: "nat \<Rightarrow> vlp_vault \<Rightarrow> vlp_vault result" where
  "erase_down_at i v = bindE (erase_packet i (downBuffers v)) (\<lambda>buf. Inr (v\<lparr>downBuffers := buf\<rparr>))"

text \<open>Every update that arrives is counted once.\<close>

definition count_update :: "nat \<Rightarrow> packet \<Rightarrow> vlp_vault \<Rightarrow> vlp_vault" where
  "count_update i p v = (if counted p then v
     else v\<lparr>vTotalUpdates := vTotalUpdates v + 1, downBuffers := (downBuffers v)[i := Some (p\<lparr>counted := True\<rparr>)]\<rparr>)"

definition vault_get :: "nat \<Rightarrow> packet \<Rightarrow> vlp_vault \<Rightarrow> (nat \<times> vlp_vault) result" where
  "vault_get i p v =
     (if list_ex (update_of (DESTADRS p)) (take i (downBuffers v)) then Inr (i + 1, v)
      else (case map_of (vFlowTable v) (DESTADRS p) of None \<Rightarrow> Inl (Assertion ''flowTable'')
        | Some fe \<Rightarrow> bindE (erase_down_at i (v\<lparr>vFlowTable := flow_insert (DESTADRS p) (fe\<lparr>g_flag := True\<rparr>) (vFlowTable v)\<rparr>)) (\<lambda>v.
            Inr (i, v))))"

text \<open>
  An addition takes the first free operand buffer before its commands are made; when they do not fit
  in the command queue the buffer goes to the end of the free list.
\<close>

definition vault_add :: "vc_par \<Rightarrow> nat \<Rightarrow> packet \<Rightarrow> vlp_vault \<Rightarrow> (nat \<times> vlp_vault) result" where
  "vault_add par i p v = (let v = count_update i p v; p = p\<lparr>counted := True\<rparr> in
     case vFreeOperandBufIDs v of [] \<Rightarrow> Inr (i + 1, v)
     | b # free \<Rightarrow>
         (let p = p\<lparr>vaultOperandBufID := int b\<rparr>;
              v = v\<lparr>vFreeOperandBufIDs := free, downBuffers := (downBuffers v)[i := Some p]\<rparr>
          in bindE (ConvPacketIntoCMDs vlp_operand par p v) (\<lambda>(ok, v).
               if ok
               then bindE (register_vault_flow ADD (vCubeID v) (DESTADRS p)
                        (v\<lparr>vNumOperands := vNumOperands v + 1, numADDUpdates := numADDUpdates v + 1, vNumAdds := vNumAdds v + 1\<rparr>)) (\<lambda>v.
                    bindE (fill_operand b (DESTADRS p) (SRCADRS1 p) 0 v) (\<lambda>v.
                    checkE (SRCADRS1 p \<noteq> 0) (Assertion ''SRCADRS1'')
                      (bindE (erase_down_at i v) (\<lambda>v. Inr (i, v)))))
               else Inr (i + 1, v\<lparr>vFreeOperandBufIDs := vFreeOperandBufIDs v @ [b]\<rparr>))))"

definition vault_other :: "vc_par \<Rightarrow> nat \<Rightarrow> packet \<Rightarrow> vlp_vault \<Rightarrow> (nat \<times> vlp_vault) result" where
  "vault_other par i p v = (let v = (if CMD p = ACT_MULT then count_update i p v else v) in
     bindE (ConvPacketIntoCMDs vlp_operand par p v) (\<lambda>(ok, v).
       if ok
       then (let v = (if CMD p = ACT_MULT \<and> (SRCCUB p \<noteq> vCubeID v \<or> word_of_int (computeVault p) \<noteq> vaultContID v)
                      then v\<lparr>numRemoteReqRecv := numRemoteReqRecv v + 1\<rparr> else v)
             in bindE (erase_down_at i v) (\<lambda>v. Inr (i, v)))
       else Inr (i + 1, v)))"

text \<open>Unlike in the base class, the index stays when a packet has been taken out.\<close>

definition vault_request :: "vc_par \<Rightarrow> nat \<times> vlp_vault \<Rightarrow> (nat \<times> vlp_vault) result" where
  "vault_request par s = (case s of (i, v) \<Rightarrow> (case downBuffers v ! i of None \<Rightarrow> Inr (i + 1, v)
     | Some p \<Rightarrow> if CMD p = ACT_GET then vault_get i p v
         else if CMD p = ACT_ADD \<or> CMD p = ACT_DOT then vault_add par i p v
         else vault_other par i p v))"

definition vault_requests :: "vc_par \<Rightarrow> vlp_vault \<Rightarrow> vlp_vault result" where
  "vault_requests par v = bindE (whileE (\<lambda>(i, v). i < length (downBuffers v)) (vault_request par) (0, v)) (\<lambda>(_, v). Inr v)"

section \<open>Operands from other vaults and cubes\<close>

definition factor_returned :: "packet \<Rightarrow> vault_operand_entry \<Rightarrow> vault_operand_entry result" where
  "factor_returned p e =
     checkE (src_addr1 e = SRCADRS1 p \<or> src_addr2 e = SRCADRS2 p) (Assertion ''src_addr'')
      (let e = (if src_addr1 e = SRCADRS1 p then e\<lparr>op1_ready := True\<rparr> else e\<lparr>op2_ready := True\<rparr>)
       in Inr (if op1_ready e \<and> op2_ready e then e\<lparr>oe_ready := True\<rparr> else e))"

definition art_response :: "vlp_vault \<Rightarrow> vlp_vault result" where
  "art_response v = (case artBuffers v of [] \<Rightarrow> Inr v
   | None # _ \<Rightarrow> Inl (Exit ''Vault controller art buffer[0] is NULL'')
   | Some p # _ \<Rightarrow>
       checkE (CMD p = ACT_MULT \<and> packetType p = RESPONSE \<and> DESTCUB p = vCubeID v \<and> word_of_int (computeVault p) = vaultContID v)
         (Assertion ''ACT_MULT'')
        (let i = vaultOperandBufID p in
         bindE (mark_operand i (factor_returned p) (v\<lparr>numLocalRespRecv := numLocalRespRecv v + 1\<rparr>)) (\<lambda>v.
         bindE (erase_packet 0 (artBuffers v)) (\<lambda>buf.
           Inr (v\<lparr>vNumMults := vNumMults v + (if both_ready i v then 1 else 0), artBuffers := buf\<rparr>)))))"

section \<open>The update of a cycle\<close>

definition count_cycle :: "vlp_vault \<Rightarrow> vlp_vault" where
  "count_cycle v = v\<lparr>vReadyHist := count_hist (vTotalReady v) (vReadyHist v), vResultsHist := count_hist (vTotalResults v) (vResultsHist v),
     vUpdatesHist := count_hist (vTotalUpdates v) (vUpdatesHist v)\<rparr>"

definition VLPVaultController_Update ::
  "vc_par \<Rightarrow> u32 \<Rightarrow> vlp_vault \<times> dram \<times> dual_vector \<Rightarrow> (vlp_vault \<times> dram \<times> dual_vector) result" where
  "VLPVaultController_Update par cube s = (case s of (v, d, ib) \<Rightarrow>
     bindE (send_pcu (if vCubeID v = -1 then v\<lparr>vCubeID := sint cube\<rparr> else v)) (\<lambda>v.
     bindE (vault_consume_all v) (\<lambda>v.
     bindE (vault_gathers par v) (\<lambda>v.
     bindE (UpdateCountdown (vlp_MakeRespondPacket par) par (v, d)) (\<lambda>(v, d).
     bindE (if dv_bufPopDelay v = 0 then vault_requests par v else Inr v) (\<lambda>v.
     bindE (send_response (count_cycle v, ib)) (\<lambda>(v, ib).
     bindE (art_response v) (\<lambda>v.
     bindE (pop_command par v d) (\<lambda>v.
     bindE (atomic_operation (vlp_MakeRespondPacket par) par v) (\<lambda>v.
       (case EnablePowerdown (cfg par) (v, d) of (v, d) \<Rightarrow>
          (let v = v\<lparr>commandQueue := CommandQueue_Update (cfg par) (commandQueue v),
                     pcuPacket := map (\<lambda>p. if bufPopDelay p > 0 then p\<lparr>bufPopDelay := bufPopDelay p - 1\<rparr> else p) (pcuPacket v)\<rparr>
           in Inr (dual_Step v, d, ib)))))))))))))"

definition vlp_cycle :: "vc_par \<Rightarrow> u32 \<Rightarrow> vlp_vault \<times> dram \<times> dual_vector \<Rightarrow> (vlp_vault \<times> dram \<times> dual_vector) result" where
  "vlp_cycle par cube s = bindE (VLPVaultController_Update par cube s) (\<lambda>(v, d, ib).
     bindE (DRAM_Update (ReturnCommand (vlp_MakeRespondPacket par)) (cfg par) v d) (\<lambda>(v, d). Inr (v, d, ib)))"

section \<open>What a derived class relies on\<close>

text \<open>
  The operations of the base class leave the members of a derived class and the requests alone, but for
  what the virtual method does: a property of these that the method keeps is kept by all of them.
\<close>

named_theorems derived \<open>operations of the base class that leave the members of derived classes alone\<close>

definition own_part :: "'v vault_scheme \<Rightarrow> 'v \<times> pbuffer" where
  "own_part v = (vault.more v, downBuffers v)"

lemma own_more: "own_part v' = own_part v \<Longrightarrow> vault.more v' = vault.more v"
  by (simp add: own_part_def)

lemma vault_ReceiveUp_more [derived]: "vault_ReceiveUp p v = Inr (ok, v') \<Longrightarrow> own_part v' = own_part v"
  by (auto simp: own_part_def vault_ReceiveUp_def ReceiveUp_def err_simps split: prod.splits)

lemma upd_trace_own [simp]: "vault.more (upd_trace t f v) = vault.more v" "downBuffers (upd_trace t f v) = downBuffers v"
  by (simp_all add: upd_trace_def split: option.splits)

lemma push_pcu_own [simp]: "vault.more (push_pcu p v) = vault.more v" "downBuffers (push_pcu p v) = downBuffers v"
  by (simp_all add: push_pcu_def)

lemma close_trace_own [simp]: "vault.more (close_trace par i v) = vault.more v" "downBuffers (close_trace par i v) = downBuffers v"
  by (simp_all add: close_trace_def Let_def)

lemma write_back_own [simp]: "vault.more (write_back c cmd v) = vault.more v" "downBuffers (write_back c cmd v) = downBuffers v"
  by (simp_all add: write_back_def Let_def)

lemma refresh_count_own [simp]: "vault.more (refresh_count c v) = vault.more v" "downBuffers (refresh_count c v) = downBuffers v"
  by (simp_all add: refresh_count_def Let_def)

lemma note_popped_own [simp]: "vault.more (note_popped c cmd v) = vault.more v" "downBuffers (note_popped c cmd v) = downBuffers v"
  by (simp_all add: note_popped_def Let_def)

lemma issue_cmdBus_more [derived]: "issue_cmdBus par (v, d) = Inr (v', d') \<Longrightarrow> own_part v' = own_part v"
  by (auto simp: own_part_def issue_cmdBus_def Let_def err_simps split: option.splits if_splits)

lemma start_write_data_more [derived]: "start_write_data par v = Inr v' \<Longrightarrow> own_part v' = own_part v"
  by (auto simp: own_part_def start_write_data_def err_simps split: if_splits)

lemma send_pcu_more [derived]: "send_pcu v = Inr v' \<Longrightarrow> own_part v' = own_part v"
  by (auto simp: send_pcu_def err_simps split: list.splits if_splits dest!: vault_ReceiveUp_more) (simp_all add: own_part_def)

lemma send_response_more [derived]: "send_response (v, ib) = Inr (v', ib') \<Longrightarrow> own_part v' = own_part v"
  by (auto simp: own_part_def send_response_def err_simps split: list.splits option.splits prod.splits if_splits)

lemma pop_command_more [derived]: "pop_command par v d = Inr v' \<Longrightarrow> own_part v' = own_part v"
  by (auto simp: own_part_def pop_command_def Let_def err_simps split: option.splits)

lemma EnablePowerdown_more [derived]: "EnablePowerdown c (v, d) = (v', d') \<Longrightarrow> own_part v' = own_part v"
  by (auto simp: own_part_def EnablePowerdown_def split: if_splits prod.splits)

lemma conv_column_more: "conv_column operand par p adr op n i v = Inr v' \<Longrightarrow> own_part v' = own_part v"
  by (auto simp: own_part_def conv_column_def Let_def err_simps)

lemma ConvPacketIntoCMDs_more [derived]: "ConvPacketIntoCMDs operand par p v = Inr (ok, v') \<Longrightarrow> own_part v' = own_part v"
proof -
  assume c: "ConvPacketIntoCMDs operand par p v = Inr (ok, v')"
  have "own_part u' = own_part u" if "foldE (conv_column operand par p adr op n) xs u = Inr u'" for adr op n xs u u'
    using foldE_inv [of xs "\<lambda>w. own_part w = own_part u" "conv_column operand par p adr op n" u u'] that conv_column_more by metis
  then show ?thesis using c
    by (fastforce simp: own_part_def ConvPacketIntoCMDs_def Let_def err_simps split: prod.splits option.splits if_splits)
qed

locale vault_extension = responder +
  fixes Q :: "'v vault_scheme \<Rightarrow> bool"
  assumes Q_more: "own_part v' = own_part v \<Longrightarrow> Q v' = Q v"
    and respond_Q: "respond cmd v = Inr (ok, v') \<Longrightarrow> Q v \<Longrightarrow> Q v'"
begin

lemma Q_update [simp]:
  "Q (v\<lparr>commandQueue := q\<rparr>) = Q v" "Q (v\<lparr>atomicCMD := a\<rparr>) = Q v" "Q (v\<lparr>atomicOperLeft := n\<rparr>) = Q v"
  "Q (v\<lparr>pendingReadData := ts\<rparr>) = Q v" "Q (v\<lparr>dataBus := b\<rparr>) = Q v" "Q (v\<lparr>dataCyclesLeft := n\<rparr>) = Q v"
  "Q (v\<lparr>pcuPacket := ps\<rparr>) = Q v" "Q (write_back c cmd v) = Q v" "Q (close_trace par i v) = Q v"
  "Q (refresh_count c v) = Q v"
  by (rule Q_more, simp add: own_part_def)+

lemma ReturnCommand_Q: "ReturnCommand respond cmd v = Inr (ok, v') \<Longrightarrow> Q v \<Longrightarrow> Q v'"
  by (auto simp: ReturnCommand_def err_simps split: option.splits if_splits dest!: respond_Q)

lemma finish_write_Q: "finish_write respond par cmd v = Inr v' \<Longrightarrow> Q v \<Longrightarrow> Q v'"
  by (auto simp: finish_write_def err_simps split: option.splits if_splits dest!: respond_Q)

lemma issue_dataBus_Q: "issue_dataBus respond par (v, d) = Inr (v', d') \<Longrightarrow> Q v \<Longrightarrow> Q v'"
  by (auto simp: issue_dataBus_def Let_def err_simps split: option.splits if_splits dest!: finish_write_Q)

lemma UpdateCountdown_Q: "UpdateCountdown respond par (v, d) = Inr (v', d') \<Longrightarrow> Q v \<Longrightarrow> Q v'"
  using Q_more [OF issue_cmdBus_more] Q_more [OF start_write_data_more] issue_dataBus_Q
  by (fastforce simp: UpdateCountdown_def err_simps)

lemma atomic_operation_Q: "atomic_operation respond par v = Inr v' \<Longrightarrow> Q v \<Longrightarrow> Q v'"
  by (auto simp: atomic_operation_def Let_def err_simps split: option.splits if_splits dest!: respond_Q)

lemma DRAM_Update_Q: "DRAM_Update (ReturnCommand respond) c v d = Inr (v', d') \<Longrightarrow> Q v \<Longrightarrow> Q v'"
  by (auto simp: DRAM_Update_def DRAM_UpdateState_def return_data_def Let_def err_simps split: option.splits if_splits
      dest!: ReturnCommand_Q)

end

section \<open>The accounts of a vault\<close>

text \<open>
  A buffer on the free list carries the number 0, which no flow has: a destination address is not
  null. So whatever the DRAM or another vault returns to a buffer that is not in use, reducing it
  finds no flow and ends the program, and the accounts stay right.
\<close>

definition vart_ok :: "vault_flows \<Rightarrow> vault_operand_entry list \<Rightarrow> nat list \<Rightarrow> bool" where
  "vart_ok t ops free \<longleftrightarrow> distinct free \<and> (\<forall>i \<in> set free. i < length ops \<and> flowID (ops ! i) = 0) \<and> map_of t 0 = None
     \<and> (\<forall>i < length ops. i \<notin> set free \<longrightarrow> map_of t (flowID (ops ! i)) \<noteq> None)
     \<and> (\<forall>k e. map_of t k = Some e \<longrightarrow> req_count e = rep_count e + of_nat (card (held ops free k)))
     \<and> sorted_wrt (<) (map fst t) \<and> length ops \<le> 2 ^ 32"

definition vlp_inv :: "vlp_vault \<Rightarrow> bool" where
  "vlp_inv v \<longleftrightarrow> vart_ok (vFlowTable v) (vOperandBuffers v) (vFreeOperandBufIDs v)
     \<and> pipe_ok (vFlowTable v) (vOperandBuffers v) (vNumMultStages v) (vMultPipeOccupancy v)"

lemma vart_okD:
  assumes "vart_ok t ops free"
  shows "distinct free" "i \<in> set free \<Longrightarrow> i < length ops \<and> flowID (ops ! i) = 0" "map_of t 0 = None"
    "i < length ops \<Longrightarrow> i \<notin> set free \<Longrightarrow> map_of t (flowID (ops ! i)) \<noteq> None"
    "map_of t k = Some e \<Longrightarrow> req_count e = rep_count e + of_nat (card (held ops free k))"
    "sorted_wrt (<) (map fst t)" "length ops \<le> 2 ^ 32"
  using assms unfolding vart_ok_def by blast+

lemma vart_used: "vart_ok t ops free \<Longrightarrow> map_of t (flowID (ops ! i)) \<noteq> None \<Longrightarrow> i \<notin> set free"
  by (auto simp: vart_ok_def)

lemma vart_flags:
  assumes "vart_ok t ops free" "flowID e = flowID (ops ! i)"
  shows "vart_ok t (ops[i := e]) free"
proof -
  have f: "flowID (ops[i := e] ! j) = flowID (ops ! j)" if "j < length ops" for j
    using that assms(2) by (cases "j = i") auto
  then have "held (ops[i := e]) free k = held ops free k" for k by (auto simp: held_def)
  then show ?thesis using assms(1) f by (auto simp: vart_ok_def)
qed

lemma vart_flow:
  assumes "vart_ok t ops free" "map_of t k = Some e" "req_count e' = req_count e" "rep_count e' = rep_count e"
  shows "vart_ok (flow_insert k e' t) ops free"
  using assms by (auto simp: vart_ok_def sorted_flow_insert)

lemma vart_take:
  assumes ok: "vart_ok t ops (i # free)" and k: "k \<noteq> 0"
    and e: "req_count e = rep_count e + of_nat (Suc (card (held ops (i # free) k)))" and f: "flowID x = k"
  shows "vart_ok (flow_insert k e t) (ops[i := x]) free"
proof -
  let ?ops = "ops[i := x]"
  have i: "i < length ops" "i \<notin> set free" using ok by (auto simp: vart_ok_def)
  have "held ?ops free k = insert i (held ops (i # free) k)" "i \<notin> held ops (i # free) k"
    using i f by (auto simp: held_def nth_list_update)
  then have c: "req_count e = rep_count e + of_nat (card (held ?ops free k))" using e by simp
  have ho: "held ?ops free k' = held ops (i # free) k'" if "k' \<noteq> k" for k'
    using i f that by (auto simp: held_def nth_list_update)
  have "\<forall>j < length ?ops. j \<notin> set free \<longrightarrow> map_of (flow_insert k e t) (flowID (?ops ! j)) \<noteq> None"
    using ok i f by (auto simp: vart_ok_def nth_list_update)
  moreover have "\<forall>j \<in> set free. j < length ?ops \<and> flowID (?ops ! j) = 0" using ok i by (auto simp: vart_ok_def nth_list_update)
  ultimately show ?thesis using ok c ho k by (auto simp: vart_ok_def sorted_flow_insert)
qed

text \<open>A buffer is given back, because its result is counted or its reservation is undone.\<close>

lemma vart_give:
  assumes ok: "vart_ok t ops free" and i: "i < length ops" and e: "map_of t (flowID (ops ! i)) = Some fe"
    and c: "req_count fe' = req_count fe + d - 1" "rep_count fe' = rep_count fe + d" and x: "flowID x = 0"
  shows "vart_ok (flow_insert (flowID (ops ! i)) fe' t) (ops[i := x]) (free @ [i])"
proof -
  let ?k = "flowID (ops ! i)" and ?ops = "ops[i := x]"
  have k: "i \<notin> set free" "?k \<noteq> 0" using vart_okD(3) [OF ok] e vart_used [OF ok, of i] by fastforce+
  have "held ops free ?k = insert i (held ?ops (free @ [i]) ?k)" "i \<notin> held ?ops (free @ [i]) ?k"
    using i k by (auto simp: held_def nth_list_update)
  then have "card (held ops free ?k) = Suc (card (held ?ops (free @ [i]) ?k))" by simp
  then have c': "req_count fe' = rep_count fe' + of_nat (card (held ?ops (free @ [i]) ?k))"
    using vart_okD(5) [OF ok e] c by simp
  have ho: "held ?ops (free @ [i]) k' = held ops free k'" if "k' \<noteq> ?k" for k'
    using i k that by (auto simp: held_def nth_list_update)
  show ?thesis unfolding vart_ok_def
  proof (intro conjI allI impI ballI)
    show "distinct (free @ [i])" using vart_okD(1) [OF ok] k by simp
    show "j < length ?ops" "flowID (?ops ! j) = 0" if "j \<in> set (free @ [i])" for j
      using vart_okD(2) [OF ok, of j] that i x by (auto simp: nth_list_update)
    show "map_of (flow_insert ?k fe' t) 0 = None" using vart_okD(3) [OF ok] k by simp
    show "map_of (flow_insert ?k fe' t) (flowID (?ops ! j)) \<noteq> None" if "j < length ?ops" "j \<notin> set (free @ [i])" for j
      using vart_okD(4) [OF ok, of j] that by auto
    show "req_count e' = rep_count e' + of_nat (card (held ?ops (free @ [i]) k'))" if "map_of (flow_insert ?k fe' t) k' = Some e'" for k' e'
      using that c' ho vart_okD(5) [OF ok, of k' e'] by (cases "k' = ?k") auto
    show "sorted_wrt (<) (map fst (flow_insert ?k fe' t))" using vart_okD(6) [OF ok] by (rule sorted_flow_insert)
    show "length ?ops \<le> 2 ^ 32" using vart_okD(7) [OF ok] by simp
  qed
qed

lemma of_nat_u64_0: "(of_nat n :: u64) = 0 \<Longrightarrow> n \<le> 2 ^ 32 \<Longrightarrow> n = 0"
  using of_int_u64_0 [of "int n"] by simp

lemma vart_erase:
  assumes ok: "vart_ok t ops free" and e: "map_of t k = Some fe" "req_count fe = rep_count fe"
  shows "vart_ok (flow_erase k t) ops free \<and> held ops free k = {}"
proof -
  have "held ops free k \<subseteq> {..<length ops}" by (auto simp: held_def)
  then have "card (held ops free k) \<le> length ops" by (metis card_lessThan card_mono finite_lessThan)
  moreover have "length ops \<le> 2 ^ 32" "(of_nat (card (held ops free k)) :: u64) = 0" using ok e by (auto simp: vart_ok_def)
  ultimately have "card (held ops free k) = 0" by (intro of_nat_u64_0) simp_all
  then have h: "held ops free k = {}" by simp
  then have "\<forall>i < length ops. i \<notin> set free \<longrightarrow> flowID (ops ! i) \<noteq> k" by (auto simp: held_def)
  then show ?thesis using ok h by (auto simp: vart_ok_def sorted_flow_erase)
qed

lemma vart_in_pipe: "vart_ok t ops free \<Longrightarrow> pipe_ok t ops s occ \<Longrightarrow> i < length ops \<Longrightarrow> in_pipe s (ops ! i) \<Longrightarrow> i \<notin> set free"
proof -
  assume a: "vart_ok t ops free" "pipe_ok t ops s occ" "i < length ops" "in_pipe s (ops ! i)"
  then have "mac_flow t (flowID (ops ! i))" using nth_mem [of i ops] by (simp add: pipe_ok_def)
  then show ?thesis using vart_used [OF a(1), of i] by (simp add: mac_flow_def split: option.splits)
qed

lemma vart_pipe_erase:
  assumes "pipe_ok t ops s occ" "vart_ok t ops free" "held ops free k = {}"
  shows "pipe_ok (flow_erase k t) ops s occ"
proof (rule pipe_ok_table [OF assms(1)])
  fix k' assume m: "mac_flow t k'"
  have "flowID e \<noteq> k" if "e \<in> set ops" "in_pipe s e" for e
  proof -
    obtain i where i: "i < length ops" "e = ops ! i" using \<open>e \<in> set ops\<close> by (auto simp: in_set_conv_nth)
    then show ?thesis using vart_in_pipe [OF assms(2,1)] that(2) assms(3) by (auto simp: held_def)
  qed
  then show "mac_flow (flow_erase k t) k' \<or> (\<forall>e \<in> set ops. in_pipe s e \<longrightarrow> flowID e \<noteq> k')"
    using m by (auto simp: mac_flow_def)
qed

lemma pipe_ok_insert: "pipe_ok t ops s occ \<Longrightarrow> map_of t k = None \<or> (\<exists>e. map_of t k = Some e \<and> opcode e' = opcode e) \<Longrightarrow>
    pipe_ok (flow_insert k e' t) ops s occ"
  by (erule pipe_ok_table) (auto simp: mac_flow_def)

section \<open>The operations keep the accounts\<close>

lemma vlp_inv_more: "vault.more v' = vault.more v \<Longrightarrow> vlp_inv v' = vlp_inv v"
  by (cases v; cases v') (simp add: vlp_inv_def)

lemma vlp_inv_update [simp]:
  "vlp_inv (v\<lparr>vNumFlows := a\<rparr>) = vlp_inv v" "vlp_inv (v\<lparr>vNumOperands := a\<rparr>) = vlp_inv v" "vlp_inv (v\<lparr>vCubeID := a\<rparr>) = vlp_inv v"
  "vlp_inv (v\<lparr>vNumAdds := a\<rparr>) = vlp_inv v" "vlp_inv (v\<lparr>vNumMults := a\<rparr>) = vlp_inv v" "vlp_inv (v\<lparr>numADDUpdates := n\<rparr>) = vlp_inv v"
  "vlp_inv (v\<lparr>numRemoteReqRecv := n\<rparr>) = vlp_inv v" "vlp_inv (v\<lparr>numLocalRespRecv := n\<rparr>) = vlp_inv v"
  "vlp_inv (v\<lparr>numLocalReqRecv := n\<rparr>) = vlp_inv v" "vlp_inv (v\<lparr>numFlowRespSent := n\<rparr>) = vlp_inv v"
  "vlp_inv (v\<lparr>numRemoteRespSent := n\<rparr>) = vlp_inv v" "vlp_inv (v\<lparr>vReadyHist := h\<rparr>) = vlp_inv v" "vlp_inv (v\<lparr>vTotalReady := a\<rparr>) = vlp_inv v"
  "vlp_inv (v\<lparr>vResultsHist := h\<rparr>) = vlp_inv v" "vlp_inv (v\<lparr>vTotalResults := a\<rparr>) = vlp_inv v"
  "vlp_inv (v\<lparr>vUpdatesHist := h\<rparr>) = vlp_inv v" "vlp_inv (v\<lparr>vTotalUpdates := a\<rparr>) = vlp_inv v" "vlp_inv (v\<lparr>v_gtag := g\<rparr>) = vlp_inv v"
  by (simp_all add: vlp_inv_def)

lemma vlp_inv_base [simp]:
  "vlp_inv (v\<lparr>pendingDataSize := n\<rparr>) = vlp_inv v" "vlp_inv (v\<lparr>downBuffers := buf\<rparr>) = vlp_inv v" "vlp_inv (v\<lparr>artBuffers := buf\<rparr>) = vlp_inv v"
  "vlp_inv (upd_trace t f v) = vlp_inv v" "vlp_inv (push_pcu p v) = vlp_inv v" "vlp_inv (v\<lparr>v_traces := ts\<rparr>) = vlp_inv v"
  by (rule vlp_inv_more, simp)+

definition marks :: "(vault_operand_entry \<Rightarrow> vault_operand_entry result) \<Rightarrow> bool" where
  "marks f \<longleftrightarrow> (\<forall>e e'. f e = Inr e' \<longrightarrow> flowID e' = flowID e \<and> multStageCounter e' = multStageCounter e \<and> (oe_ready e \<longrightarrow> oe_ready e'))"

lemma marks_simps [simp]: "marks operand_read" "marks (factor_read cmd t)" "marks (factor_returned p)"
  by (auto simp: marks_def operand_read_def factor_read_def factor_returned_def err_simps Let_def split: if_splits)

lemma mark_operand_inv:
  assumes "mark_operand i f v = Inr v'" "marks f" "vlp_inv v"
  shows "vlp_inv v'"
proof -
  let ?ops = "vOperandBuffers v"
  obtain e where i: "0 \<le> i" "i < int (length ?ops)" and f: "f (?ops ! nat i) = Inr e" and v': "v' = v\<lparr>vOperandBuffers := ?ops[nat i := e]\<rparr>"
    using assms(1) by (auto simp: mark_operand_def at_int_def err_simps)
  have e: "flowID e = flowID (?ops ! nat i)" "multStageCounter e = multStageCounter (?ops ! nat i)" "oe_ready (?ops ! nat i) \<longrightarrow> oe_ready e"
    using assms(2) f by (auto simp: marks_def)
  have p: "pipe_ok (vFlowTable v) ?ops (vNumMultStages v) (vMultPipeOccupancy v)" using assms(3) by (simp add: vlp_inv_def)
  have "in_pipe (vNumMultStages v) e \<longrightarrow> oe_ready e \<and> flowID e = flowID (?ops ! nat i)"
    using p nth_mem [of "nat i" ?ops] i e by (auto simp: pipe_ok_def in_pipe_def)
  then show ?thesis unfolding v' using pipe_ok_write [OF p e(2)] vart_flags [OF _ e(1)] assms(3) by (simp add: vlp_inv_def)
qed

lemma mark_operand_vframe: "mark_operand i f v = Inr v' \<Longrightarrow> vframe v' = vframe v"
  by (auto simp: mark_operand_def err_simps vframe_def)

lemma vlp_vframe_update [simp]:
  "vframe (v\<lparr>vNumMults := a\<rparr>) = vframe v" "vframe (v\<lparr>numLocalReqRecv := n\<rparr>) = vframe v" "vframe (v\<lparr>numRemoteRespSent := n\<rparr>) = vframe v"
  "vframe (v\<lparr>numLocalRespRecv := n\<rparr>) = vframe v" "vframe (v\<lparr>artBuffers := buf\<rparr>) = vframe v" "vframe (v\<lparr>vNumOperands := a\<rparr>) = vframe v"
  "vframe (v\<lparr>vCubeID := a\<rparr>) = vframe v" "vframe (v\<lparr>vNumAdds := a\<rparr>) = vframe v" "vframe (v\<lparr>numADDUpdates := n\<rparr>) = vframe v"
  "vframe (v\<lparr>numRemoteReqRecv := n\<rparr>) = vframe v" "vframe (v\<lparr>numFlowRespSent := n\<rparr>) = vframe v" "vframe (v\<lparr>vFlowTable := t\<rparr>) = vframe v"
  "vframe (v\<lparr>vFreeOperandBufIDs := free\<rparr>) = vframe v" "vframe (v\<lparr>vOperandBuffers := ops\<rparr>) = vframe v" "vframe (v\<lparr>v_traces := ts\<rparr>) = vframe v"
  "vframe (v\<lparr>vTotalReady := a\<rparr>) = vframe v" "vframe (v\<lparr>vMultPipeOccupancy := a\<rparr>) = vframe v" "vframe (v\<lparr>vTotalUpdates := a\<rparr>) = vframe v"
  "vframe (v\<lparr>v_gtag := g\<rparr>) = vframe v" "vframe (push_pcu p v) = vframe v"
  by (simp_all add: vframe_def push_pcu_def)

lemma vlp_MakeRespondPacket_vframe: "vlp_MakeRespondPacket par cmd v = Inr (ok, v') \<Longrightarrow> vframe v' = vframe v"
  by (auto simp: vlp_MakeRespondPacket_def answered_def Let_def err_simps split: if_splits
      dest!: mark_operand_vframe vault_ReceiveUp_vframe)

lemma vlp_MakeRespondPacket_inv:
  assumes "vlp_MakeRespondPacket par cmd v = Inr (ok, v')" "vlp_inv v"
  shows "vlp_inv v'"
proof -
  note m = mark_operand_inv [of "dc_vaultOperandBufID cmd"] and r = vlp_inv_more [OF own_more [OF vault_ReceiveUp_more]]
  show ?thesis using assms(1)
    by (auto simp: vlp_MakeRespondPacket_def answered_def Let_def err_simps assms(2) split: if_splits dest!: m r)
qed

text \<open>The additions that wait in the buffer are for flows that have a number.\<close>

definition named_flows :: "pbuffer \<Rightarrow> bool" where
  "named_flows buf \<longleftrightarrow> (\<forall>p. Some p \<in> set buf \<and> (CMD p = ACT_ADD \<or> CMD p = ACT_DOT) \<longrightarrow> DESTADRS p \<noteq> 0)"

abbreviation vlp_ok :: "vlp_vault \<Rightarrow> bool" where
  "vlp_ok v \<equiv> vlp_inv v \<and> named_flows (downBuffers v)"

lemma vlp_MakeRespondPacket_down: "vlp_MakeRespondPacket par cmd v = Inr (ok, v') \<Longrightarrow> downBuffers v' = downBuffers v"
proof -
  have r: "downBuffers u' = downBuffers u" if "vault_ReceiveUp p u = Inr (b, u')" for p b and u u' :: vlp_vault
    using vault_ReceiveUp_more [OF that] by (simp add: own_part_def)
  have u: "downBuffers (upd_trace t f u) = downBuffers u" "downBuffers (push_pcu p u) = downBuffers u" for t f p and u :: vlp_vault
    by (simp_all add: upd_trace_def push_pcu_def split: option.splits)
  have m: "downBuffers u' = downBuffers u" if "mark_operand i f u = Inr u'" for i f u u'
    using that by (auto simp: mark_operand_def err_simps)
  show "vlp_MakeRespondPacket par cmd v = Inr (ok, v') \<Longrightarrow> ?thesis"
    by (auto simp: vlp_MakeRespondPacket_def answered_def Let_def err_simps u split: if_splits dest!: r m)
qed

interpretation vlp: vault_extension "vlp_MakeRespondPacket par" vlp_ok for par
proof
  show "vlp_ok v' = vlp_ok v" if "own_part v' = own_part v" for v v'
    using that vlp_inv_more [OF own_more [OF that]] by (simp add: own_part_def)
qed (use vlp_MakeRespondPacket_vframe vlp_MakeRespondPacket_inv vlp_MakeRespondPacket_down in auto)

text \<open>Reducing an operand: an operand that is ready and whose flow exists is in use.\<close>

lemma vault_give:
  assumes "vlp_inv v" "i < length (vOperandBuffers v)" "map_of (vFlowTable v) (flowID (vOperandBuffers v ! i)) = Some fe"
    and "req_count fe' = req_count fe + d - 1" "rep_count fe' = rep_count fe + d" "opcode fe' = opcode fe"
    and "flowID x = 0" "multStageCounter x = vNumMultStages v" "occ = vMultPipeOccupancy v - (if in_pipe (vNumMultStages v) (vOperandBuffers v ! i) then 1 else 0)"
  shows "vlp_inv (v\<lparr>vFlowTable := flow_insert (flowID (vOperandBuffers v ! i)) fe' (vFlowTable v), vOperandBuffers := (vOperandBuffers v)[i := x],
    vFreeOperandBufIDs := vFreeOperandBufIDs v @ [i], vMultPipeOccupancy := occ\<rparr>)"
proof -
  let ?t = "vFlowTable v" and ?ops = "vOperandBuffers v" and ?s = "vNumMultStages v"
  have p: "pipe_ok ?t ?ops ?s (vMultPipeOccupancy v)" using assms(1) by (simp add: vlp_inv_def)
  then have "pipe_ok ?t (?ops[i := x]) ?s occ"
    using assms(2,8,9) by (intro pipe_ok_update [OF p]) (auto simp: in_pipe_def pipe_ok_def)
  then have "pipe_ok (flow_insert (flowID (?ops ! i)) fe' ?t) (?ops[i := x]) ?s occ"
    using assms(3,6) by (intro pipe_ok_insert) auto
  then show ?thesis using vart_give [OF _ assms(2-5,7)] assms(1) by (simp add: vlp_inv_def)
qed

lemma vault_stage:
  assumes "vlp_inv v" "i < length (vOperandBuffers v)" "flowID x = flowID (vOperandBuffers v ! i)"
    and "1 \<le> multStageCounter x" "multStageCounter x \<le> vNumMultStages v" "in_pipe (vNumMultStages v) x \<longrightarrow> oe_ready x \<and> mac_flow (vFlowTable v) (flowID x)"
    and "occ = vMultPipeOccupancy v - (if in_pipe (vNumMultStages v) (vOperandBuffers v ! i) then 1 else 0) + (if in_pipe (vNumMultStages v) x then 1 else 0)"
    and "occ \<le> vNumMultStages v"
  shows "vlp_inv (v\<lparr>vOperandBuffers := (vOperandBuffers v)[i := x], vMultPipeOccupancy := occ\<rparr>)"
proof -
  have p: "pipe_ok (vFlowTable v) (vOperandBuffers v) (vNumMultStages v) (vMultPipeOccupancy v)" using assms(1) by (simp add: vlp_inv_def)
  show ?thesis using pipe_ok_update [OF p assms(2,4-8)] vart_flags [OF _ assms(3)] assms(1) by (simp add: vlp_inv_def)
qed

definition vlp_part :: "vlp_vault \<Rightarrow> vault_flows \<times> vault_operand_entry list \<times> nat list \<times> int \<times> int" where
  "vlp_part v = (vFlowTable v, vOperandBuffers v, vFreeOperandBufIDs v, vNumMultStages v, vMultPipeOccupancy v)"

lemma vlp_inv_part: "vlp_part v' = vlp_part v \<Longrightarrow> vlp_inv v' = vlp_inv v"
  by (simp add: vlp_part_def vlp_inv_def)

lemma vault_consume_cases:
  assumes "vault_consume i (a, b, v) = Inr (a', b', v')" "oe_ready (vOperandBuffers v ! i)" "i < length (vOperandBuffers v)"
  defines "e \<equiv> (vOperandBuffers v ! i)\<lparr>oe_counted := True\<rparr>" and "s \<equiv> vNumMultStages v" and "n \<equiv> vMultPipeOccupancy v"
  defines "A \<equiv> \<lambda>e n. (vFlowTable v, (vOperandBuffers v)[i := e], vFreeOperandBufIDs v, s, n)"
    and "B \<equiv> \<lambda>fe n. (flow_insert (flowID e) (fe\<lparr>rep_count := rep_count fe + 1\<rparr>) (vFlowTable v),
           (vOperandBuffers v)[i := release s (vOperandBuffers v ! i)], vFreeOperandBufIDs v @ [i], s, n)"
    and "e1 \<equiv> e\<lparr>multStageCounter := multStageCounter e - 1\<rparr>"
  shows "\<exists>fe. map_of (vFlowTable v) (flowID e) = Some fe \<and>
    (vlp_part v' = A e n
     \<or> opcode fe = MAC \<and> multStageCounter e = s \<and> n < s \<and> vlp_part v' = A e1 (n + 1)
     \<or> opcode fe = MAC \<and> multStageCounter e \<noteq> s \<and> multStageCounter e > 1 \<and> vlp_part v' = A e1 n
     \<or> opcode fe = MAC \<and> multStageCounter e \<noteq> s \<and> vlp_part v' = B fe (n - 1)
     \<or> opcode fe \<noteq> MAC \<and> vlp_part v' = B fe n)"
proof -
  obtain fe where fe: "map_of (vFlowTable v) (flowID e) = Some fe"
    using assms(1,2,3) by (cases "map_of (vFlowTable v) (flowID (vOperandBuffers v ! i))") (simp_all add: vault_consume_def Let_def e_def)
  have "case vault_consume i (a, b, v) of Inl _ \<Rightarrow> False | Inr (a', b', y) \<Rightarrow> vlp_part y = A e n
     \<or> opcode fe = MAC \<and> multStageCounter e = s \<and> n < s \<and> vlp_part y = A e1 (n + 1)
     \<or> opcode fe = MAC \<and> multStageCounter e \<noteq> s \<and> multStageCounter e > 1 \<and> vlp_part y = A e1 n
     \<or> opcode fe = MAC \<and> multStageCounter e \<noteq> s \<and> vlp_part y = B fe (n - 1)
     \<or> opcode fe \<noteq> MAC \<and> vlp_part y = B fe n"
    using assms(2,3) fe unfolding A_def B_def e1_def e_def s_def n_def
    by (simp add: vault_consume_def Let_def vlp_part_def vault_finish_def release_def split: Opcode.split)
  then show ?thesis using fe assms(1) by auto
qed

lemma vault_consume_inv:
  assumes "vault_consume i (a, b, v) = Inr (a', b', v')" "vlp_inv v" "i < length (vOperandBuffers v)"
  shows "vlp_inv v' \<and> length (vOperandBuffers v') = length (vOperandBuffers v)"
proof (cases "oe_ready (vOperandBuffers v ! i)")
  case False
  then show ?thesis using assms by (simp add: vault_consume_def)
next
  case True
  define s n e e1 where "s = vNumMultStages v" and "n = vMultPipeOccupancy v" and "e = (vOperandBuffers v ! i)\<lparr>oe_counted := True\<rparr>"
    and "e1 = e\<lparr>multStageCounter := multStageCounter e - 1\<rparr>"
  let ?t = "vFlowTable v" and ?ops = "vOperandBuffers v" and ?free = "vFreeOperandBufIDs v"
  obtain fe where fe: "map_of ?t (flowID e) = Some fe" and c:
    "vlp_part v' = (?t, ?ops[i := e], ?free, s, n)
     \<or> opcode fe = MAC \<and> multStageCounter e = s \<and> n < s \<and> vlp_part v' = (?t, ?ops[i := e1], ?free, s, n + 1)
     \<or> opcode fe = MAC \<and> multStageCounter e \<noteq> s \<and> multStageCounter e > 1 \<and> vlp_part v' = (?t, ?ops[i := e1], ?free, s, n)
     \<or> opcode fe = MAC \<and> multStageCounter e \<noteq> s \<and> vlp_part v' =
        (flow_insert (flowID e) (fe\<lparr>rep_count := rep_count fe + 1\<rparr>) ?t, ?ops[i := release s (?ops ! i)], ?free @ [i], s, n - 1)
     \<or> opcode fe \<noteq> MAC \<and> vlp_part v' =
        (flow_insert (flowID e) (fe\<lparr>rep_count := rep_count fe + 1\<rparr>) ?t, ?ops[i := release s (?ops ! i)], ?free @ [i], s, n)"
    using vault_consume_cases [OF assms(1) True assms(3)] unfolding s_def n_def e_def e1_def by blast
  have p: "pipe_ok ?t ?ops s n" using assms(2) by (simp add: vlp_inv_def s_def n_def)
  have m: "1 \<le> multStageCounter e" "multStageCounter e \<le> s" "oe_ready e" "s > 1" "n \<le> s" "flowID e = flowID (?ops ! i)"
    "in_pipe s e = in_pipe s (?ops ! i)" and mm: "in_pipe s e \<longrightarrow> mac_flow ?t (flowID e)"
    using p True nth_mem [OF assms(3)] unfolding e_def pipe_ok_def in_pipe_def by auto
  have mac: "mac_flow ?t (flowID e) \<longleftrightarrow> opcode fe = MAC" using fe by (simp add: mac_flow_def)
  have P: "vlp_inv v' = vlp_inv (v\<lparr>vFlowTable := t', vOperandBuffers := ops', vFreeOperandBufIDs := f', vMultPipeOccupancy := n'\<rparr>)
      \<and> length (vOperandBuffers v') = length ops'" if "vlp_part v' = (t', ops', f', s, n')" for t' ops' f' n'
    using that by (simp add: vlp_part_def vlp_inv_def s_def)
  have S: "vlp_inv (v\<lparr>vFlowTable := ?t, vOperandBuffers := ?ops[i := x], vFreeOperandBufIDs := ?free, vMultPipeOccupancy := n'\<rparr>)"
    if "vlp_inv (v\<lparr>vOperandBuffers := ?ops[i := x], vMultPipeOccupancy := n'\<rparr>)" for x n' using that by (simp add: vlp_inv_def)
  note stage = S [OF vault_stage [OF assms(2,3)]] and give = vault_give [OF assms(2,3), where d = 1 and fe = fe]
  from c show ?thesis
  proof (elim disjE conjE)
    assume "vlp_part v' = (?t, ?ops[i := e], ?free, s, n)"
    then show ?thesis using stage [of e n] m mm by (simp add: P) (simp add: s_def n_def)
  next
    assume "opcode fe = MAC" "multStageCounter e = s" "n < s" "vlp_part v' = (?t, ?ops[i := e1], ?free, s, n + 1)"
    then show ?thesis using stage [of e1 "n + 1"] m mac by (simp add: P) (simp add: in_pipe_def e1_def s_def n_def)
  next
    assume "opcode fe = MAC" "multStageCounter e \<noteq> s" "multStageCounter e > 1" "vlp_part v' = (?t, ?ops[i := e1], ?free, s, n)"
    then show ?thesis using stage [of e1 n] m mac by (simp add: P) (simp add: in_pipe_def e1_def s_def n_def)
  next
    assume "opcode fe = MAC" "multStageCounter e \<noteq> s" "vlp_part v' =
        (flow_insert (flowID e) (fe\<lparr>rep_count := rep_count fe + 1\<rparr>) ?t, ?ops[i := release s (?ops ! i)], ?free @ [i], s, n - 1)"
    then show ?thesis using give [of "fe\<lparr>rep_count := rep_count fe + 1\<rparr>" "release s (?ops ! i)" "n - 1"] m fe
      by (simp add: P) (simp add: in_pipe_def release_def s_def n_def)
  next
    assume "opcode fe \<noteq> MAC" "vlp_part v' =
        (flow_insert (flowID e) (fe\<lparr>rep_count := rep_count fe + 1\<rparr>) ?t, ?ops[i := release s (?ops ! i)], ?free @ [i], s, n)"
    then show ?thesis using give [of "fe\<lparr>rep_count := rep_count fe + 1\<rparr>" "release s (?ops ! i)" n] m mm mac fe
      by (simp add: P) (simp add: in_pipe_def release_def s_def n_def)
  qed
qed

lemma vault_consume_fold:
  "foldE vault_consume is (a, b, v) = Inr (a', b', v') \<Longrightarrow> vlp_inv v \<Longrightarrow> \<forall>i \<in> set is. i < length (vOperandBuffers v) \<Longrightarrow> vlp_inv v'"
proof (induction "is" arbitrary: a b v)
  case (Cons i "is")
  obtain a1 b1 v1 where s: "vault_consume i (a, b, v) = Inr (a1, b1, v1)" "foldE vault_consume is (a1, b1, v1) = Inr (a', b', v')"
    using Cons.prems(1) by (auto simp: err_simps)
  then show ?case using Cons.IH [OF s(2)] vault_consume_inv [OF s(1) Cons.prems(2)] Cons.prems(3) by simp
qed simp

lemma vault_consume_all_inv: "vault_consume_all v = Inr v' \<Longrightarrow> vlp_inv v \<Longrightarrow> vlp_inv v'"
  by (auto simp: vault_consume_all_def err_simps dest!: vault_consume_fold)

lemma vault_finish_vframe [simp]: "vframe (vault_finish i fe v) = vframe v"
  by (simp add: vault_finish_def vframe_def Let_def)

lemma vault_consume_vframe: "vault_consume i (a, b, v) = Inr (a', b', v') \<Longrightarrow> vframe v' = vframe v"
  by (simp add: vault_consume_def Let_def split: if_split_asm option.split_asm Opcode.split_asm) (elim conjE; hypsubst; simp)+

lemma vault_consume_all_vframe: "vault_consume_all v = Inr v' \<Longrightarrow> vframe v' = vframe v"
proof -
  assume "vault_consume_all v = Inr v'"
  then obtain a b where f: "foldE vault_consume [0..<length (vOperandBuffers v)]
     (False, False, v\<lparr>vTotalReady := 0, vTotalResults := 0, vTotalUpdates := 0\<rparr>) = Inr (a, b, v')"
    by (auto simp: vault_consume_all_def err_simps)
  have "vframe (snd (snd (a, b, v'))) = vframe v"
    by (rule foldE_inv [where P = "\<lambda>s. vframe (snd (snd s)) = vframe v", OF _ _ f])
      (auto dest: vault_consume_vframe simp: vframe_def)
  then show ?thesis by simp
qed

text \<open>Gathers are answered for settled flows only.\<close>

lemma vlp_part_more: "vault.more v' = vault.more v \<Longrightarrow> vlp_part v' = vlp_part v"
  by (cases v; cases v') (simp add: vlp_part_def)

lemma vault_gather_oneE:
  assumes "vault_gather_one par (k, fe) v = Inr v'"
  shows "v' = v \<or> (\<exists>p g ok v1. req_count fe = rep_count fe \<and> g_flag fe \<and> vault_ReceiveUp p (v\<lparr>v_gtag := g\<rparr>) = Inr (ok, v1)
    \<and> v' = (if ok then v1\<lparr>vFlowTable := flow_erase k (vFlowTable v1), v_traces := v_traces v1 @ [TranTrace],
                        numFlowRespSent := numFlowRespSent v1 + 1\<rparr> else v1))"
proof (cases "req_count fe = rep_count fe \<and> g_flag fe")
  case True
  then obtain p g ok v1 where "vault_ReceiveUp p (v\<lparr>v_gtag := g\<rparr>) = Inr (ok, v1)"
    "v' = (if ok then v1\<lparr>vFlowTable := flow_erase k (vFlowTable v1), v_traces := v_traces v1 @ [TranTrace],
                        numFlowRespSent := numFlowRespSent v1 + 1\<rparr> else v1)"
    using assms by (auto simp: vault_gather_one_def err_simps Let_def split: prod.splits)
  then show ?thesis using True by blast
qed (use assms in \<open>auto simp: vault_gather_one_def\<close>)

lemma vault_gather_oneD:
  assumes "vault_gather_one par (k, fe) v = Inr v'"
  shows "vlp_part v' = vlp_part v \<or> vlp_part v' = vlp_part (v\<lparr>vFlowTable := flow_erase k (vFlowTable v)\<rparr>) \<and> req_count fe = rep_count fe \<and> g_flag fe"
  using vault_gather_oneE [OF assms]
proof (elim disjE exE conjE)
  fix p g ok v1
  assume r: "req_count fe = rep_count fe" "g_flag fe" "vault_ReceiveUp p (v\<lparr>v_gtag := g\<rparr>) = Inr (ok, v1)"
    and v': "v' = (if ok then v1\<lparr>vFlowTable := flow_erase k (vFlowTable v1), v_traces := v_traces v1 @ [TranTrace],
                        numFlowRespSent := numFlowRespSent v1 + 1\<rparr> else v1)"
  have "vlp_part v1 = vlp_part v" using vlp_part_more [OF own_more [OF vault_ReceiveUp_more [OF r(3)]]] by (simp add: vlp_part_def)
  then show ?thesis using r(1,2) by (simp add: v' vlp_part_def)
qed simp

lemma vault_gather_one_vframe: "vault_gather_one par (k, fe) v = Inr v' \<Longrightarrow> vframe v' = vframe v"
  by (drule vault_gather_oneE) (elim disjE exE conjE; simp split: if_splits; drule vault_ReceiveUp_vframe; simp)

lemma vault_gathers_vframe: "vault_gathers par v = Inr v' \<Longrightarrow> vframe v' = vframe v"
proof -
  assume g: "vault_gathers par v = Inr v'"
  have "vframe u' = vframe u" if "vault_gather_one par kf u = Inr u'" for kf u u'
    using that vault_gather_one_vframe by (cases kf) blast
  then show ?thesis using foldE_inv [of "vFlowTable v" "\<lambda>u. vframe u = vframe v" "vault_gather_one par" v v'] g
    unfolding vault_gathers_def by simp
qed

lemma vault_gather_one_inv:
  assumes "vault_gather_one par (k, fe) v = Inr v1" "vlp_inv v" "map_of (vFlowTable v) k = Some fe"
  shows "vlp_inv v1 \<and> (vFlowTable v1 = vFlowTable v \<or> vFlowTable v1 = flow_erase k (vFlowTable v) \<and> g_flag fe
      \<and> held (vOperandBuffers v) (vFreeOperandBufIDs v) k = {})"
  using vault_gather_oneD [OF assms(1)]
proof
  assume "vlp_part v1 = vlp_part v"
  then show ?thesis using vlp_inv_part [of v1 v] assms(2) by (simp add: vlp_part_def)
next
  assume e: "vlp_part v1 = vlp_part (v\<lparr>vFlowTable := flow_erase k (vFlowTable v)\<rparr>) \<and> req_count fe = rep_count fe \<and> g_flag fe"
  have i: "vart_ok (vFlowTable v) (vOperandBuffers v) (vFreeOperandBufIDs v)"
    "pipe_ok (vFlowTable v) (vOperandBuffers v) (vNumMultStages v) (vMultPipeOccupancy v)"
    using assms(2) by (simp_all add: vlp_inv_def)
  have "vart_ok (flow_erase k (vFlowTable v)) (vOperandBuffers v) (vFreeOperandBufIDs v)"
    "held (vOperandBuffers v) (vFreeOperandBufIDs v) k = {}" using e vart_erase [OF i(1) assms(3)] by simp_all
  then show ?thesis using e vart_pipe_erase [OF i(2,1)] by (simp add: vlp_part_def vlp_inv_def)
qed

lemma vault_gathers_fold:
  assumes "vault_gathers par v = Inr v'" "vlp_inv v"
  shows "vlp_inv v' \<and> (\<forall>k fe. map_of (vFlowTable v) k = Some fe \<longrightarrow> map_of (vFlowTable v') k = Some fe \<or>
      map_of (vFlowTable v') k = None \<and> g_flag fe \<and> held (vOperandBuffers v) (vFreeOperandBufIDs v) k = {})"
proof -
  define I where "I = (\<lambda>u. vlp_inv u \<and> vOperandBuffers u = vOperandBuffers v \<and> vFreeOperandBufIDs u = vFreeOperandBufIDs v)"
  define R where "R = (\<lambda>k (fe :: vault_flow_entry). g_flag fe \<and> held (vOperandBuffers v) (vFreeOperandBufIDs v) k = {})"
  have k: "sorted_wrt (<) (map fst (vFlowTable v))" using assms(2) by (simp add: vlp_inv_def vart_ok_def)
  have i: "I v" using assms(2) by (simp add: I_def)
  have step: "I t \<and> (vFlowTable t = vFlowTable s \<or> vFlowTable t = flow_erase k (vFlowTable s) \<and> R k fe)"
    if "vault_gather_one par (k, fe) s = Inr t" "I s" "map_of (vFlowTable s) k = Some fe" for k fe s t
  proof -
    have s: "vlp_inv s" "vOperandBuffers s = vOperandBuffers v" "vFreeOperandBufIDs s = vFreeOperandBufIDs v"
      using that(2) by (simp_all add: I_def)
    have "vOperandBuffers t = vOperandBuffers s" "vFreeOperandBufIDs t = vFreeOperandBufIDs s"
      using vault_gather_oneD [OF that(1)] by (auto simp: vlp_part_def)
    then have "I t" using vault_gather_one_inv [OF that(1) s(1) that(3)] s(2,3) by (simp add: I_def)
    then show ?thesis using vault_gather_one_inv [OF that(1) s(1) that(3)] unfolding R_def s(2,3) by blast
  qed
  have "I v' \<and> (\<forall>k fe. map_of (vFlowTable v) k = Some fe \<longrightarrow> map_of (vFlowTable v') k = Some fe \<or> map_of (vFlowTable v') k = None \<and> R k fe)"
    by (rule erase_loop [where f = "vault_gather_one par" and s = v and tab = vFlowTable and I = I and R = R,
          OF assms(1) [unfolded vault_gathers_def] i k step])
  then show ?thesis by (simp add: I_def R_def)
qed

text \<open>An update takes the first free buffer.\<close>

lemma register_vault_flowD:
  assumes "register_vault_flow op cube k v = Inr v'"
  obtains e where "vlp_part v' = vlp_part (v\<lparr>vFlowTable := flow_insert k e (vFlowTable v)\<rparr>)" "vframe v' = vframe v" "downBuffers v' = downBuffers v"
    "case map_of (vFlowTable v) k of None \<Rightarrow> req_count e = 1 \<and> rep_count e = 0
     | Some e0 \<Rightarrow> req_count e = req_count e0 + 1 \<and> rep_count e = rep_count e0 \<and> opcode e = opcode e0"
proof (cases "map_of (vFlowTable v) k")
  case None
  then show thesis using assms that [of "(VaultFlowEntry op)\<lparr>parent := cube, req_count := 1\<rparr>"]
    by (auto simp: register_vault_flow_def vlp_part_def vframe_def VaultFlowEntry_def)
next
  case (Some e0)
  then show thesis using assms that [of "e0\<lparr>req_count := req_count e0 + 1\<rparr>"]
    by (auto simp: register_vault_flow_def vlp_part_def vframe_def err_simps)
qed

lemma vault_take:
  assumes "register_vault_flow op cube k v1 = Inr v2" "fill_operand b k a1 a2 v2 = Inr v3" "vlp_inv v" "vFreeOperandBufIDs v = b # free"
    and "vlp_part v1 = (vFlowTable v, vOperandBuffers v, free, vNumMultStages v, vMultPipeOccupancy v)" "k \<noteq> 0"
  shows "vlp_inv v3 \<and> vframe v3 = vframe v1 \<and> downBuffers v3 = downBuffers v1"
proof -
  let ?t = "vFlowTable v" and ?ops = "vOperandBuffers v" and ?s = "vNumMultStages v" and ?n = "vMultPipeOccupancy v"
  let ?x = "(?ops ! b)\<lparr>flowID := k, src_addr1 := a1, src_addr2 := a2\<rparr>"
  have p1: "vFlowTable v1 = ?t" "vOperandBuffers v1 = ?ops" "vFreeOperandBufIDs v1 = free" "vNumMultStages v1 = ?s" "vMultPipeOccupancy v1 = ?n"
    using assms(5) by (simp_all add: vlp_part_def)
  obtain e where e0: "vlp_part v2 = vlp_part (v1\<lparr>vFlowTable := flow_insert k e (vFlowTable v1)\<rparr>)" "vframe v2 = vframe v1"
    "downBuffers v2 = downBuffers v1" "case map_of (vFlowTable v1) k of None \<Rightarrow> req_count e = 1 \<and> rep_count e = 0
     | Some e0 \<Rightarrow> req_count e = req_count e0 + 1 \<and> rep_count e = rep_count e0 \<and> opcode e = opcode e0"
    by (rule register_vault_flowD [OF assms(1)])
  have e: "vlp_part v2 = (flow_insert k e ?t, ?ops, free, ?s, ?n)" "vframe v2 = vframe v1" "downBuffers v2 = downBuffers v1"
    "case map_of ?t k of None \<Rightarrow> req_count e = 1 \<and> rep_count e = 0
     | Some e0 \<Rightarrow> req_count e = req_count e0 + 1 \<and> rep_count e = rep_count e0 \<and> opcode e = opcode e0"
    using e0 p1 by (simp_all add: vlp_part_def)
  have b: "b < length ?ops" "\<not> oe_ready (?ops ! b)" and v3: "v3 = v2\<lparr>vOperandBuffers := (vOperandBuffers v2)[b := ?x]\<rparr>"
    using assms(2) e(1) by (auto simp: fill_operand_def at_int_def err_simps vlp_part_def)
  have ok: "vart_ok ?t ?ops (b # free)" and p: "pipe_ok ?t ?ops ?s ?n" using assms(3,4) by (simp_all add: vlp_inv_def)
  have "req_count e = rep_count e + of_nat (Suc (card (held ?ops (b # free) k)))"
  proof (cases "map_of ?t k")
    case None
    then have "held ?ops (b # free) k = {}" using vart_okD(4) [OF ok] unfolding held_def by blast
    then show ?thesis using e(4) None by simp
  next
    case (Some e0)
    then show ?thesis using e(4) vart_okD(5) [OF ok Some] by simp
  qed
  then have "vart_ok (flow_insert k e ?t) (?ops[b := ?x]) free" by (intro vart_take [OF ok assms(6)]) simp_all
  moreover have "\<not> in_pipe ?s (?ops ! b)" "\<not> in_pipe ?s ?x"
    using p b nth_mem [OF b(1)] by (auto simp: pipe_ok_def in_pipe_def)
  then have "pipe_ok ?t (?ops[b := ?x]) ?s ?n" by (intro pipe_ok_write [OF p]) simp_all
  then have "pipe_ok (flow_insert k e ?t) (?ops[b := ?x]) ?s ?n" using e(4) by (intro pipe_ok_insert) (auto split: option.splits)
  ultimately show ?thesis using e(1-3) v3 by (simp add: vlp_inv_def vlp_part_def)
qed

text \<open>The crossbar switch reserves a buffer, and may give it back at once.\<close>

lemma OperandBufferStatus_inv:
  assumes "OperandBufferStatus cube p v = Inr (i, p', v')" "vlp_inv v" "DESTADRS p \<noteq> 0"
  shows "vlp_inv v' \<and> vframe v' = vframe v \<and> downBuffers v' = downBuffers v"
proof (cases "vFreeOperandBufIDs v")
  case Nil
  then show ?thesis using assms by (simp add: OperandBufferStatus_def)
next
  case (Cons b free)
  define v1 where "v1 = v\<lparr>vNumOperands := vNumOperands v + 1, vFreeOperandBufIDs := free,
                    vCubeID := (if map_of (vFlowTable v) (DESTADRS p) = None then sint cube else vCubeID v)\<rparr>"
  obtain v2 where s: "register_vault_flow MAC (sint cube) (DESTADRS p) v1 = Inr v2"
    "fill_operand b (DESTADRS p) (SRCADRS1 p) (SRCADRS2 p) v2 = Inr v'"
    using assms(1) Cons by (auto simp: OperandBufferStatus_def err_simps Let_def v1_def)
  have "vframe v1 = vframe v" "downBuffers v1 = downBuffers v" by (simp_all add: v1_def)
  then show ?thesis using vault_take [OF s assms(2) Cons _ assms(3)] by (simp add: v1_def vlp_part_def)
qed

lemma FreeOperandBuffer_inv:
  assumes "FreeOperandBuffer i v = Inr v'" "vlp_inv v" "\<not> oe_ready (vOperandBuffers v ! nat i)"
  shows "vlp_inv v' \<and> vframe v' = vframe v \<and> downBuffers v' = downBuffers v"
proof -
  let ?e = "vOperandBuffers v ! nat i"
  obtain fe where i: "0 \<le> i" "i < int (length (vOperandBuffers v))" and fe: "map_of (vFlowTable v) (flowID ?e) = Some fe"
    and v': "v' = v\<lparr>vFlowTable := flow_insert (flowID ?e) (fe\<lparr>req_count := req_count fe - 1\<rparr>) (vFlowTable v),
       vOperandBuffers := (vOperandBuffers v)[nat i := (release (vNumMultStages v) ?e)\<lparr>oe_counted := oe_counted ?e\<rparr>],
       vFreeOperandBufIDs := vFreeOperandBufIDs v @ [nat i]\<rparr>"
    using assms(1) by (auto simp: FreeOperandBuffer_def at_int_def err_simps split: option.splits)
  have l: "nat i < length (vOperandBuffers v)" using i by simp
  have "\<not> in_pipe (vNumMultStages v) ?e"
    using assms(2,3) nth_mem [OF l] by (auto simp: vlp_inv_def pipe_ok_def)
  then have "vlp_inv (v'\<lparr>vMultPipeOccupancy := vMultPipeOccupancy v\<rparr>)"
    using vault_give [OF assms(2) l fe, of "fe\<lparr>req_count := req_count fe - 1\<rparr>" 0 "(release (vNumMultStages v) ?e)\<lparr>oe_counted := oe_counted ?e\<rparr>"
      "vMultPipeOccupancy v"] unfolding v' by (simp add: release_def)
  then show ?thesis by (simp add: v' vlp_inv_def)
qed

lemma named_erase: "erase_packet i buf = Inr buf' \<Longrightarrow> named_flows buf \<Longrightarrow> named_flows buf'"
  using set_erase_range [of i _ buf] unfolding named_flows_def
  by (auto simp: erase_packet_def err_simps split: option.splits if_splits)

lemma named_set: "named_flows buf \<Longrightarrow> (CMD p = ACT_ADD \<or> CMD p = ACT_DOT \<longrightarrow> DESTADRS p \<noteq> 0) \<Longrightarrow> named_flows (buf[i := Some p])"
  using set_update_subset_insert [of buf i "Some p"] unfolding named_flows_def by blast

lemma named_nth: "named_flows buf \<Longrightarrow> i < length buf \<Longrightarrow> buf ! i = Some p \<Longrightarrow> CMD p = ACT_ADD \<or> CMD p = ACT_DOT \<Longrightarrow> DESTADRS p \<noteq> 0"
  unfolding named_flows_def by (metis nth_mem)

text \<open>What a step of the loop over the requests keeps.\<close>

definition requests_inv :: "vlp_vault \<Rightarrow> vlp_vault \<Rightarrow> bool" where
  "requests_inv v0 v \<longleftrightarrow> vlp_inv v \<and> named_flows (downBuffers v) \<and> vframe v = vframe v0"

lemma erase_down_at_keeps: "erase_down_at i v = Inr v' \<Longrightarrow> requests_inv v0 v \<Longrightarrow> requests_inv v0 v'"
  by (auto simp: erase_down_at_def requests_inv_def err_simps named_erase)

lemma count_update_keeps:
  "requests_inv v0 v \<Longrightarrow> (CMD p = ACT_ADD \<or> CMD p = ACT_DOT \<longrightarrow> DESTADRS p \<noteq> 0) \<Longrightarrow> requests_inv v0 (count_update i p v)"
  by (auto simp: count_update_def requests_inv_def intro: named_set)

lemma Conv_keeps: "ConvPacketIntoCMDs operand par p v = Inr (ok, v') \<Longrightarrow> requests_inv v0 v \<Longrightarrow> requests_inv v0 v'"
  using ConvPacketIntoCMDs_more [of operand par p v ok v'] ConvPacketIntoCMDs_vframe [of operand par p v ok v'] vlp_inv_more [of v' v]
  by (simp add: requests_inv_def own_part_def)

lemma vault_get_keeps:
  assumes "vault_get i p v = Inr (j, v')" "requests_inv v0 v"
  shows "requests_inv v0 v'"
proof (cases "list_ex (update_of (DESTADRS p)) (take i (downBuffers v))")
  case True
  then show ?thesis using assms by (auto simp: vault_get_def)
next
  case False
  then obtain fe where fe: "map_of (vFlowTable v) (DESTADRS p) = Some fe"
    and e: "erase_down_at i (v\<lparr>vFlowTable := flow_insert (DESTADRS p) (fe\<lparr>g_flag := True\<rparr>) (vFlowTable v)\<rparr>) = Inr v'"
    using assms(1) by (auto simp: vault_get_def err_simps split: option.splits)
  have "requests_inv v0 (v\<lparr>vFlowTable := flow_insert (DESTADRS p) (fe\<lparr>g_flag := True\<rparr>) (vFlowTable v)\<rparr>)"
    using assms(2) vart_flow [OF _ fe, of _ _ "fe\<lparr>g_flag := True\<rparr>"] pipe_ok_flow [OF _ fe, where fe' = "fe\<lparr>g_flag := True\<rparr>" and ops = "vOperandBuffers v"]
    by (simp add: requests_inv_def vlp_inv_def)
  then show ?thesis by (rule erase_down_at_keeps [OF e])
qed

lemma vault_add_keeps:
  assumes "vault_add par i p v = Inr (j, v')" "requests_inv v0 v" "DESTADRS p \<noteq> 0"
  shows "requests_inv v0 v'"
proof -
  define w where "w = count_update i p v"
  have w: "requests_inv v0 w" unfolding w_def using count_update_keeps assms(2,3) by blast
  show ?thesis
  proof (cases "vFreeOperandBufIDs w")
    case Nil
    then show ?thesis using assms(1) w by (simp add: vault_add_def Let_def w_def)
  next
    case (Cons b free)
    define q where "q = p\<lparr>counted := True, vaultOperandBufID := int b\<rparr>"
    define u where "u = w\<lparr>vFreeOperandBufIDs := free, downBuffers := (downBuffers w)[i := Some q]\<rparr>"
    obtain ok u1 where c: "ConvPacketIntoCMDs vlp_operand par q u = Inr (ok, u1)" and r:
      "(if ok then bindE (register_vault_flow ADD (vCubeID u1) (DESTADRS q)
                        (u1\<lparr>vNumOperands := vNumOperands u1 + 1, numADDUpdates := numADDUpdates u1 + 1, vNumAdds := vNumAdds u1 + 1\<rparr>)) (\<lambda>v.
                    bindE (fill_operand b (DESTADRS q) (SRCADRS1 q) 0 v) (\<lambda>v.
                    checkE (SRCADRS1 q \<noteq> 0) (Assertion ''SRCADRS1'')
                      (bindE (erase_down_at i v) (\<lambda>v. Inr (i, v)))))
               else Inr (i + 1, u1\<lparr>vFreeOperandBufIDs := vFreeOperandBufIDs u1 @ [b]\<rparr>)) = Inr (j, v')"
      using assms(1) Cons by (auto simp: vault_add_def Let_def w_def [symmetric] q_def u_def bindE_eq_Inr cong: if_cong)
    have n: "named_flows (downBuffers u)" "vframe u = vframe v0" "vlp_inv w"
      using w assms(3) by (auto simp: u_def q_def requests_inv_def intro!: named_set)
    have u1: "vlp_part u1 = (vFlowTable w, vOperandBuffers w, free, vNumMultStages w, vMultPipeOccupancy w)"
      "downBuffers u1 = downBuffers u" "vframe u1 = vframe u"
      using vlp_part_more [of u1 u] ConvPacketIntoCMDs_more [OF c] ConvPacketIntoCMDs_vframe [OF c] by (simp_all add: u_def vlp_part_def own_part_def)
    show ?thesis
    proof (cases ok)
      case True
      define u2 where "u2 = u1\<lparr>vNumOperands := vNumOperands u1 + 1, numADDUpdates := numADDUpdates u1 + 1, vNumAdds := vNumAdds u1 + 1\<rparr>"
      obtain u3 u4 where s: "register_vault_flow ADD (vCubeID u1) (DESTADRS q) u2 = Inr u3" "fill_operand b (DESTADRS q) (SRCADRS1 q) 0 u3 = Inr u4"
        "erase_down_at i u4 = Inr v'"
        using r True by (auto simp: u2_def err_simps)
      have u2: "vlp_part u2 = (vFlowTable w, vOperandBuffers w, free, vNumMultStages w, vMultPipeOccupancy w)"
        "downBuffers u2 = downBuffers u1" "vframe u2 = vframe u1"
        using u1(1) by (simp_all add: u2_def vlp_part_def)
      have "vlp_inv u4 \<and> vframe u4 = vframe u2 \<and> downBuffers u4 = downBuffers u2"
        by (rule vault_take [OF s(1,2) n(3) Cons u2(1)]) (simp add: q_def assms(3))
      then have "requests_inv v0 u4" using u1 u2 n by (simp add: requests_inv_def)
      then show ?thesis by (rule erase_down_at_keeps [OF s(3)])
    next
      case False
      have v': "v' = u1\<lparr>vFreeOperandBufIDs := vFreeOperandBufIDs u1 @ [b]\<rparr>" using r False by simp
      have ok: "vart_ok (vFlowTable w) (vOperandBuffers w) (b # free)" using n(3) Cons by (simp add: vlp_inv_def)
      have "held (vOperandBuffers w) (free @ [b]) k = held (vOperandBuffers w) (b # free) k" for k by (auto simp: held_def)
      then have "vart_ok (vFlowTable w) (vOperandBuffers w) (free @ [b])" using ok by (simp add: vart_ok_def)
      then show ?thesis using u1 n v' by (simp add: requests_inv_def vlp_inv_def vlp_part_def)
    qed
  qed
qed

lemma vault_other_keeps:
  assumes "vault_other par i p v = Inr (j, v')" "requests_inv v0 v" "CMD p \<noteq> ACT_ADD" "CMD p \<noteq> ACT_DOT"
  shows "requests_inv v0 v'"
proof -
  define w where "w = (if CMD p = ACT_MULT then count_update i p v else v)"
  have w: "requests_inv v0 w" unfolding w_def using count_update_keeps [OF assms(2), of p i] assms(2-4) by simp
  obtain ok u where c: "ConvPacketIntoCMDs vlp_operand par p w = Inr (ok, u)" and r:
    "(if ok then bindE (erase_down_at i (if CMD p = ACT_MULT \<and> (SRCCUB p \<noteq> vCubeID u \<or> word_of_int (computeVault p) \<noteq> vaultContID u)
                      then u\<lparr>numRemoteReqRecv := numRemoteReqRecv u + 1\<rparr> else u)) (\<lambda>v. Inr (i, v))
      else Inr (i + 1, u)) = Inr (j, v')"
    using assms(1) by (auto simp: vault_other_def Let_def w_def [symmetric] bindE_eq_Inr cong: if_cong)
  note u = Conv_keeps [OF c w]
  then have "requests_inv v0 (u\<lparr>numRemoteReqRecv := n\<rparr>)" for n by (simp add: requests_inv_def)
  then show ?thesis using r u by (auto simp: err_simps split: if_splits dest: erase_down_at_keeps)
qed

lemma vault_requests_inv:
  assumes "vault_requests par v = Inr v'" "vlp_inv v" "named_flows (downBuffers v)"
  shows "requests_inv v v'"
proof -
  obtain n where w: "whileE (\<lambda>(i, v). i < length (downBuffers v)) (vault_request par) (0, v) = Inr (n, v')"
    using assms(1) by (auto simp: vault_requests_def err_simps)
  have "requests_inv v (snd (n, v'))"
  proof (rule conjunct1 [OF whileE_inv [where P = "\<lambda>s. requests_inv v (snd s)", OF w]])
    show "requests_inv v (snd (0, v))" using assms(2,3) by (simp add: requests_inv_def)
    fix s t :: "nat \<times> vlp_vault"
    assume a: "case s of (i, v) \<Rightarrow> i < length (downBuffers v)" "requests_inv v (snd s)" "vault_request par s = Inr t"
    obtain i u j u' where st: "s = (i, u)" "t = (j, u')" by (metis surj_pair)
    show "requests_inv v (snd t)"
    proof (cases "downBuffers u ! i")
      case None
      then show ?thesis using a st by (auto simp: vault_request_def)
    next
      case (Some p)
      have "DESTADRS p \<noteq> 0" if "CMD p = ACT_ADD \<or> CMD p = ACT_DOT"
        using named_nth [OF _ _ Some that] a(1,2) st by (simp add: requests_inv_def)
      then show ?thesis using a Some st vault_get_keeps [of i p u j u' v] vault_add_keeps [of par i p u j u' v] vault_other_keeps [of par i p u j u' v]
        by (auto simp: vault_request_def split: if_splits)
    qed
  qed
  then show ?thesis by simp
qed

lemma art_response_inv:
  assumes "art_response v = Inr v'" "vlp_inv v"
  shows "vlp_inv v' \<and> vframe v' = vframe v \<and> downBuffers v' = downBuffers v"
proof -
  have "vlp_inv u' \<and> vframe u' = vframe u \<and> downBuffers u' = downBuffers u" if "mark_operand i (factor_returned p) u = Inr u'" "vlp_inv u" for i p u u'
    using mark_operand_inv [OF that(1) _ that(2)] mark_operand_vframe [OF that(1)] that(1)
    by (auto simp: mark_operand_def err_simps)
  then show ?thesis using assms by (fastforce simp: art_response_def Let_def err_simps split: list.splits option.splits)
qed

section \<open>A cycle of the vault\<close>

lemma count_cycle_own [simp]: "vlp_inv (count_cycle v) = vlp_inv v" "vframe (count_cycle v) = vframe v" "downBuffers (count_cycle v) = downBuffers v"
  by (simp_all add: count_cycle_def vframe_def)

lemma vault_engine_down:
  "vault_consume_all v = Inr v' \<Longrightarrow> downBuffers v' = downBuffers v"
  "vault_gathers par v = Inr v' \<Longrightarrow> downBuffers v' = downBuffers v"
proof -
  have c: "downBuffers u' = downBuffers u" if "vault_consume i (a, b, u) = Inr (a', b', u')" for i a b u a' b' u'
    using that by (simp add: vault_consume_def vault_finish_def Let_def split: if_split_asm option.split_asm Opcode.split_asm) (elim conjE; hypsubst; simp)+
  have c': "downBuffers u' = downBuffers u" if "foldE vault_consume is (a, b, u) = Inr (a', b', u')" for "is" a b u a' b' u'
    using that by (induction "is" arbitrary: a b u) (auto simp: err_simps dest!: c)
  show "vault_consume_all v = Inr v' \<Longrightarrow> downBuffers v' = downBuffers v"
    by (auto simp: vault_consume_all_def err_simps dest!: c')
  have g: "downBuffers u' = downBuffers u" if "vault_gather_one par kf u = Inr u'" for kf u u'
  proof -
    obtain k fe where k: "kf = (k, fe)" by (cases kf)
    have "downBuffers w' = downBuffers w" if "vault_ReceiveUp p w = Inr (ok, w')" for p ok and w w' :: vlp_vault
      using vault_ReceiveUp_more [OF that] by (simp add: own_part_def)
    then show ?thesis using vault_gather_oneE [OF that [unfolded k]] by fastforce
  qed
  show "vault_gathers par v = Inr v' \<Longrightarrow> downBuffers v' = downBuffers v"
    unfolding vault_gathers_def using foldE_inv [of "vFlowTable v" "\<lambda>u. downBuffers u = downBuffers v" "vault_gather_one par" v v'] g by simp
qed

text \<open>The stages of an update.\<close>

lemma VLP_UpdateE:
  assumes "VLPVaultController_Update par cube (v, d, ib) = Inr (v', d', ib')"
  obtains v1 v2 v3 v4 d4 v5 v6 v7 v8 v9 v10 where
    "send_pcu (if vCubeID v = -1 then v\<lparr>vCubeID := sint cube\<rparr> else v) = Inr v1" "vault_consume_all v1 = Inr v2" "vault_gathers par v2 = Inr v3"
    "UpdateCountdown (vlp_MakeRespondPacket par) par (v3, d) = Inr (v4, d4)"
    "(if dv_bufPopDelay v4 = 0 then vault_requests par v4 else Inr v4) = Inr v5" "send_response (count_cycle v5, ib) = Inr (v6, ib')"
    "art_response v6 = Inr v7" "pop_command par v7 d4 = Inr v8" "atomic_operation (vlp_MakeRespondPacket par) par v8 = Inr v9"
    "EnablePowerdown (cfg par) (v9, d4) = (v10, d')"
    "v' = dual_Step (v10\<lparr>commandQueue := CommandQueue_Update (cfg par) (commandQueue v10),
        pcuPacket := map (\<lambda>p. if bufPopDelay p > 0 then p\<lparr>bufPopDelay := bufPopDelay p - 1\<rparr> else p) (pcuPacket v10)\<rparr>)"
  using assms unfolding VLPVaultController_Update_def prod.case bindE_eq_Inr split_paired_Ex
  apply (elim exE conjE)
  subgoal for v1 v2 v3 v4 d4 v5 v6 ib1 v7 v8 v9
    by (cases "EnablePowerdown (cfg par) (v9, d4)") (simp add: Let_def)
  done

lemma named_step: "named_flows buf \<Longrightarrow> named_flows (map step_packet buf)"
proof -
  have "\<exists>q. x = Some q \<and> CMD p = CMD q \<and> DESTADRS p = DESTADRS q" if "Some p = step_packet x" for p x
    using that by (cases x) (auto simp: step_packet_def)
  then show "named_flows buf \<Longrightarrow> ?thesis" by (fastforce simp: named_flows_def)
qed

lemma VLP_Update_keeps:
  assumes "VLPVaultController_Update par cube (v, d, ib) = Inr (v', d', ib')" "vlp_ok v"
  shows "vlp_ok v'"
proof -
  obtain v1 v2 v3 v4 d4 v5 v6 v7 v8 v9 v10 where s:
    "send_pcu (if vCubeID v = -1 then v\<lparr>vCubeID := sint cube\<rparr> else v) = Inr v1" "vault_consume_all v1 = Inr v2" "vault_gathers par v2 = Inr v3"
    "UpdateCountdown (vlp_MakeRespondPacket par) par (v3, d) = Inr (v4, d4)"
    "(if dv_bufPopDelay v4 = 0 then vault_requests par v4 else Inr v4) = Inr v5" "send_response (count_cycle v5, ib) = Inr (v6, ib')"
    "art_response v6 = Inr v7" "pop_command par v7 d4 = Inr v8" "atomic_operation (vlp_MakeRespondPacket par) par v8 = Inr v9"
    "EnablePowerdown (cfg par) (v9, d4) = (v10, d')"
    "v' = dual_Step (v10\<lparr>commandQueue := CommandQueue_Update (cfg par) (commandQueue v10),
        pcuPacket := map (\<lambda>p. if bufPopDelay p > 0 then p\<lparr>bufPopDelay := bufPopDelay p - 1\<rparr> else p) (pcuPacket v10)\<rparr>)"
    by (rule VLP_UpdateE [OF assms(1)])
  have 1: "vlp_ok v1" using vlp.Q_more [OF send_pcu_more [OF s(1)]] assms(2) by (simp split: if_splits)
  then have 3: "vlp_ok v3"
    using vault_consume_all_inv [OF s(2)] vault_gathers_fold [OF s(3)] vault_engine_down(1) [OF s(2)] vault_engine_down(2) [OF s(3)] by simp
  have 4: "vlp_ok v4" using vlp.UpdateCountdown_Q [OF s(4) 3] .
  then have "vlp_ok v5" using s(5) vault_requests_inv [of par v4 v5] by (auto simp: requests_inv_def split: if_splits)
  then have "vlp_ok v6" using vlp.Q_more [OF send_response_more [OF s(6)]] by simp
  then have "vlp_ok v7" using art_response_inv [OF s(7)] by simp
  then have "vlp_ok v8" using vlp.Q_more [OF pop_command_more [OF s(8)]] by blast
  then have "vlp_ok v9" by (rule vlp.atomic_operation_Q [OF s(9)])
  then have "vlp_ok v10" using vlp.Q_more [OF EnablePowerdown_more [OF s(10)]] by blast
  moreover have "vault.more v' = vault.more v10" "downBuffers v' = downBuffers v10 \<or> downBuffers v' = map step_packet (downBuffers v10)"
    by (auto simp: s(11) dual_Step_def Let_def)
  ultimately show ?thesis using vlp_inv_more [of v' v10] named_step [of "downBuffers v10"] by auto
qed

lemma vlp_cycle_keeps: "vlp_cycle par cube (v, d, ib) = Inr (v', d', ib') \<Longrightarrow> vlp_ok v \<Longrightarrow> vlp_ok v'"
  by (auto simp: vlp_cycle_def err_simps dest!: VLP_Update_keeps vlp.DRAM_Update_Q)

text \<open>The commands that the cycle sends keep the timing protocol, as in the base class.\<close>

lemma vlp_cycle_run:
  assumes "vlp_cycle par cube (v, d, ib) = Inr (v', d', ib')" "vlp_ok v" "dram_run (cfg par) d h" "vault_inv (cfg par) v d"
    "\<not> USE_LOW_POWER (cfg par)" "NUM_BANKS (cfg par) \<le> 2 ^ 32" "dram_clock d < 2 ^ 63"
  shows "dram_run (cfg par) d' (sent v d @ h) \<and> vault_inv (cfg par) v' d'"
proof -
  obtain u d1 where up: "VLPVaultController_Update par cube (v, d, ib) = Inr (u, d1, ib')"
    and t: "DRAM_Update (ReturnCommand (vlp_MakeRespondPacket par)) (cfg par) u d1 = Inr (v', d')"
    using assms(1) by (auto simp: vlp_cycle_def err_simps)
  obtain v1 v2 v3 v4 d4 v5 v6 v7 v8 v9 v10 where s:
    "send_pcu (if vCubeID v = -1 then v\<lparr>vCubeID := sint cube\<rparr> else v) = Inr v1" "vault_consume_all v1 = Inr v2" "vault_gathers par v2 = Inr v3"
    "UpdateCountdown (vlp_MakeRespondPacket par) par (v3, d) = Inr (v4, d4)"
    "(if dv_bufPopDelay v4 = 0 then vault_requests par v4 else Inr v4) = Inr v5" "send_response (count_cycle v5, ib) = Inr (v6, ib')"
    "art_response v6 = Inr v7" "pop_command par v7 d4 = Inr v8" "atomic_operation (vlp_MakeRespondPacket par) par v8 = Inr v9"
    "EnablePowerdown (cfg par) (v9, d4) = (v10, d1)"
    "u = dual_Step (v10\<lparr>commandQueue := CommandQueue_Update (cfg par) (commandQueue v10),
        pcuPacket := map (\<lambda>p. if bufPopDelay p > 0 then p\<lparr>bufPopDelay := bufPopDelay p - 1\<rparr> else p) (pcuPacket v10)\<rparr>)"
    by (rule VLP_UpdateE [OF up])
  have e: "v10 = v9" "d1 = d4" using s(10) assms(5) by (simp_all add: EnablePowerdown_def)
  have "vframe v1 = vframe v" using send_pcu_vframe [OF s(1)] by (simp split: if_splits)
  then have f3: "vframe v3 = vframe v" using vault_consume_all_vframe [OF s(2)] vault_gathers_vframe [OF s(3)] by simp
  then have "sent v3 d = sent v d" by (simp add: sent_def vframe_def cong: option.case_cong)
  moreover have "vault_inv (cfg par) v3 d" using assms(4) vault_inv_vframe [OF f3] by blast
  ultimately have r4: "dram_run (cfg par) d4 (sent v d @ h)" and i4: "vault_inv (cfg par) v4 d4" and c4: "dram_clock d4 = dram_clock d"
    using vlp.UpdateCountdown_run [OF s(4) assms(3)] by auto
  have "vlp_ok v1" using vlp.Q_more [OF send_pcu_more [OF s(1)]] assms(2) by (simp split: if_splits)
  then have 3: "vlp_ok v3"
    using vault_consume_all_inv [OF s(2)] vault_gathers_fold [OF s(3)] vault_engine_down(1) [OF s(2)] vault_engine_down(2) [OF s(3)] by simp
  have 4: "vlp_ok v4" using vlp.UpdateCountdown_Q [OF s(4) 3] .
  then have 5: "vframe v5 = vframe v4 \<and> vlp_inv v5" using s(5) vault_requests_inv [of par v4 v5] by (auto simp: requests_inv_def split: if_splits)
  then have "vframe v6 = vframe v4" "vlp_inv v6" using send_response_vframe [OF s(6)] vlp_inv_more [OF own_more [OF send_response_more [OF s(6)]]] by simp_all
  then have "vframe v7 = vframe v4" using art_response_inv [OF s(7)] by simp
  then have "vault_inv (cfg par) v7 d4" using i4 vault_inv_vframe by blast
  then have "vault_inv (cfg par) v8 d4" using pop_command_inv [OF s(8) _ assms(6)] run_banks [OF r4] by simp
  then have i9: "vault_inv (cfg par) v9 d4" using vlp.atomic_operation_vframe [OF s(9)] vault_inv_vframe by blast
  obtain ret' where t': "DRAM_Update ret' (cfg par) () d4 = Inr ((), d')" using DRAM_Update_unit [OF t] e by blast
  have "dram_run (cfg par) d' (sent v d @ h)" using dram_run.tick [OF r4 _ t'] assms(7) c4 by simp
  moreover have "vault_inv (cfg par) u d'"
    using i9 DRAM_Update_banks [OF t] dram_ready_tick [OF _ t] assms(7) c4 e unfolding s(11)
    by (auto simp: vault_inv_def dual_Step_def CommandQueue_Update_def Let_def)
  ultimately show ?thesis using vault_inv_vframe [OF vlp.DRAM_Update_vframe [OF t]] by simp
qed

section \<open>The life of a vault\<close>

text \<open>
  At every cycle the crossbar switch may have put requests into the buffer (additions of flows that
  have a number) and operands from elsewhere, and changed what all components share. It reserves buffers
  for multiplications, and gives one back when it cannot go on. What the DRAM and other vaults return
  is not restricted.
\<close>

inductive vlp_run :: "vc_par \<Rightarrow> u32 \<Rightarrow> vlp_vault \<Rightarrow> dram \<Rightarrow> (nat \<times> dram_command) list \<Rightarrow> bool" for par cube where
  init: "vlp_run par cube ((VLPVaultController (cfg par) cont gtag ops tr st)\<lparr>refreshCountdown := r\<rparr>) (DRAM (cfg par)) []"
| outside: "vlp_run par cube v d h \<Longrightarrow> named_flows down \<Longrightarrow> vlp_run par cube (v\<lparr>downBuffers := down, dv_bufPopDelay := n,
    artBuffers := art, v_traces := tr, v_statis := st, v_gtag := gtag\<rparr>) d h"
| reserve: "vlp_run par cube v d h \<Longrightarrow> DESTADRS p \<noteq> 0 \<Longrightarrow> OperandBufferStatus cube p v = Inr (i, p', v') \<Longrightarrow> vlp_run par cube v' d h"
| undo: "vlp_run par cube v d h \<Longrightarrow> DESTADRS p \<noteq> 0 \<Longrightarrow> OperandBufferStatus cube p v = Inr (i, p', v1) \<Longrightarrow> 0 \<le> i \<Longrightarrow>
    FreeOperandBuffer i v1 = Inr v' \<Longrightarrow> vlp_run par cube v' d h"
| cycle: "vlp_run par cube v d h \<Longrightarrow> dram_clock d < 2 ^ 63 \<Longrightarrow> vlp_cycle par cube (v, d, ib) = Inr (v', d', ib') \<Longrightarrow>
    vlp_run par cube v' d' (sent v d @ h)"

lemma fill_not_ready: "fill_operand b k a1 a2 v = Inr v' \<Longrightarrow> \<not> oe_ready (vOperandBuffers v' ! b)"
  by (auto simp: fill_operand_def at_int_def err_simps)

lemma OperandBufferStatus_fresh: "OperandBufferStatus cube p v = Inr (i, p', v') \<Longrightarrow> 0 \<le> i \<Longrightarrow> \<not> oe_ready (vOperandBuffers v' ! nat i)"
  by (auto simp: OperandBufferStatus_def err_simps Let_def fill_not_ready split: list.splits)

lemma fresh_vlp_ok: "vlp_ok ((VLPVaultController c cont gtag ops tr st)\<lparr>refreshCountdown := r\<rparr>)"
proof -
  let ?ops = "replicate MAX_VAULT_OPERAND_BUF (VaultOperandEntry 5)" and ?free = "[0..<MAX_VAULT_OPERAND_BUF]"
  have "flowID (VaultOperandEntry 5) = 0" "multStageCounter (VaultOperandEntry 5) = 5" by (simp_all add: VaultOperandEntry_def)
  then have "vart_ok [] ?ops ?free" "pipe_ok [] ?ops 5 0"
    by (simp_all add: vart_ok_def pipe_ok_def in_pipe_def MAX_VAULT_OPERAND_BUF_def)
  then show ?thesis
    by (simp add: vlp_inv_def named_flows_def VLPVaultController_def VaultController_def DualVectorObject_def vault.defs vlp_vault.defs dual_vector.defs)
qed

lemma vlp_run_ok: "vlp_run par cube v d h \<Longrightarrow> vlp_ok v"
proof (induction rule: vlp_run.induct)
  case init
  then show ?case by (rule fresh_vlp_ok)
next
  case (outside v d h down gtag st tr art n)
  then have "vault.more (v\<lparr>downBuffers := down, dv_bufPopDelay := n, artBuffers := art, v_traces := tr, v_statis := st\<rparr>) = vault.more v" by simp
  then show ?case using outside vlp_inv_more [of "v\<lparr>downBuffers := down, dv_bufPopDelay := n, artBuffers := art, v_traces := tr, v_statis := st\<rparr>" v]
    by simp
next
  case (reserve v d h p i p' v')
  then show ?case using OperandBufferStatus_inv [OF reserve(3)] by simp
next
  case (undo v d h p i p' v1 v')
  have "vlp_inv v1 \<and> downBuffers v1 = downBuffers v" using OperandBufferStatus_inv [OF undo(3)] undo by simp
  then show ?case using FreeOperandBuffer_inv [OF undo(5)] OperandBufferStatus_fresh [OF undo(3,4)] undo by simp
next
  case (cycle v d h ib v' d' ib')
  then show ?case using vlp_cycle_keeps by blast
qed

lemma vlp_run_drives:
  "vlp_run par cube v d h \<Longrightarrow> \<not> USE_LOW_POWER (cfg par) \<Longrightarrow> NUM_BANKS (cfg par) \<le> 2 ^ 32 \<Longrightarrow> 0 < NUM_BANKS (cfg par) \<Longrightarrow>
     dram_run (cfg par) d h \<and> vault_inv (cfg par) v d"
proof (induction rule: vlp_run.induct)
  case (init cont gtag ops tr st r)
  then show ?case
    by (simp add: dram_run.init)
      (simp add: vault_inv_def VLPVaultController_def VaultController_def DualVectorObject_def CommandQueue_def DRAM_def Let_def dual_vector.defs
        vault.defs vlp_vault.defs)
next
  case (outside v d h down gtag st tr art n)
  then show ?case by (simp add: vault_inv_def)
next
  case (reserve v d h p i p' v')
  have "vframe v' = vframe v" using OperandBufferStatus_inv [OF reserve(3)] vlp_run_ok [OF reserve(1)] reserve(2) by simp
  then show ?case using reserve vault_inv_vframe by blast
next
  case (undo v d h p i p' v1 v')
  have 1: "vlp_inv v1 \<and> vframe v1 = vframe v" using OperandBufferStatus_inv [OF undo(3)] vlp_run_ok [OF undo(1)] undo(2) by simp
  then have "vframe v' = vframe v" using FreeOperandBuffer_inv [OF undo(5)] OperandBufferStatus_fresh [OF undo(3,4)] by simp
  then show ?case using undo vault_inv_vframe by blast
next
  case (cycle v d h ib v' d' ib')
  then show ?case using vlp_cycle_run [OF cycle.hyps(3) vlp_run_ok [OF cycle.hyps(1)]] by blast
qed

section \<open>Examples\<close>

text \<open>A vault of cube 3 that receives additions to flow 8, and its cycles.\<close>

definition add_packet :: packet where
  "add_packet = (fst (Packet_active False (\<lambda>i. 0) zero_packet 5 REQUEST ACT_ADD 8 0x1000 0 2 None 0 3))\<lparr>ADRS := 0x1000, reqDataSize := 16, LNG := 1\<rparr>"

definition fresh_vlp :: vlp_vault where
  "fresh_vlp = (VLPVaultController (cfg full_power) 7 0 0 [] TranStatistic)\<lparr>refreshCountdown := 9750\<rparr>"

definition with_requests :: "packet list \<Rightarrow> vlp_vault \<Rightarrow> vlp_vault" where
  "with_requests ps v = v\<lparr>downBuffers := map Some ps, dv_bufPopDelay := 0, artBuffers := artBuffers v, v_traces := v_traces v,
     v_statis := v_statis v, v_gtag := v_gtag v\<rparr>"

fun vlp_trace :: "vc_par \<Rightarrow> u32 \<Rightarrow> nat \<Rightarrow> vlp_vault \<times> dram \<times> dual_vector \<Rightarrow> (nat \<times> dram_command) list \<Rightarrow>
    ((vlp_vault \<times> dram \<times> dual_vector) \<times> (nat \<times> dram_command) list) result" where
  "vlp_trace par cube 0 s h = Inr (s, h)"
| "vlp_trace par cube (Suc n) (v, d, ib) h = checkE (dram_clock d < 2 ^ 63) (Undefined ''clock'')
     (bindE (vlp_cycle par cube (v, d, ib)) (\<lambda>s. vlp_trace par cube n s (sent v d @ h)))"

lemma vlp_trace_run:
  "vlp_run par cube v d h \<Longrightarrow> vlp_trace par cube n (v, d, ib) h = Inr ((v', d', ib'), h') \<Longrightarrow> vlp_run par cube v' d' h'"
proof (induction n arbitrary: v d ib h)
  case (Suc n)
  then obtain v1 d1 ib1 where "dram_clock d < 2 ^ 63" "vlp_cycle par cube (v, d, ib) = Inr (v1, d1, ib1)"
    "vlp_trace par cube n (v1, d1, ib1) (sent v d @ h) = Inr ((v', d', ib'), h')"
    by (auto simp: err_simps)
  then show ?case using Suc.IH vlp_run.cycle [OF Suc.prems(1)] by blast
qed simp

text \<open>Two additions whose operands are in two banks.\<close>

definition two_adds where
  "two_adds = (with_requests [add_packet, add_packet\<lparr>TAG := 6, SRCADRS1 := 0x1800, ADRS := 0x1800\<rparr>] fresh_vlp, DRAM (cfg full_power), InputBuffer)"

lemma two_adds_taken:
  "\<exists>v d ib h. vlp_trace full_power 3 3 two_adds [] = Inr ((v, d, ib), h) \<and> kinds h = [(2, ACTIVATE, 2)]
     \<and> vFreeOperandBufIDs v = [2, 3] \<and> map_option req_count (map_of (vFlowTable v) 8) = Some 2"
proof -
  have "case vlp_trace full_power 3 3 two_adds [] of Inr ((v, d, ib), h) \<Rightarrow> kinds h = [(2, ACTIVATE, 2)]
     \<and> vFreeOperandBufIDs v = [2, 3] \<and> map_option req_count (map_of (vFlowTable v) 8) = Some 2 | Inl _ \<Rightarrow> False" by code_simp
  then show ?thesis by (auto split: sum.splits prod.splits)
qed

lemma two_adds_starts: "two_adds = (v, d, ib) \<Longrightarrow> vlp_run full_power 3 v d []"
proof -
  let ?ps = "[add_packet, add_packet\<lparr>TAG := 6, SRCADRS1 := 0x1800, ADRS := 0x1800\<rparr>]"
  have "named_flows (map Some ?ps)"
    by (auto simp: named_flows_def add_packet_def Packet_active_def packet_payload_def packet_reset_def)
  moreover have "vlp_run full_power 3 fresh_vlp (DRAM (cfg full_power)) []" unfolding fresh_vlp_def by (rule vlp_run.init)
  ultimately have "vlp_run full_power 3 (with_requests ?ps fresh_vlp) (DRAM (cfg full_power)) []"
    unfolding with_requests_def by (intro vlp_run.outside)
  then show "two_adds = (v, d, ib) \<Longrightarrow> ?thesis" by (auto simp: two_adds_def)
qed

section \<open>Properties of the vault\<close>

text \<open> C10. In every state a vault of a vault-level parallel cube can reach, whatever the DRAM and other
  vaults return, the updates of a flow it has taken over are those it has reduced and those that
  wait in its operand buffers; a buffer is on the free list, once, or holds an update of a flow, and the
  multiplier holds between zero and as many operands as it has stages. \<close>

theorem vlp_flow_accounts:
  assumes "vlp_run par cube v d h"
  shows "(\<forall>k e. map_of (vFlowTable v) k = Some e \<longrightarrow>
      req_count e = rep_count e + of_nat (card (held (vOperandBuffers v) (vFreeOperandBufIDs v) k)))
    \<and> distinct (vFreeOperandBufIDs v) \<and> (\<forall>i < length (vOperandBuffers v). if i \<in> set (vFreeOperandBufIDs v)
        then flowID (vOperandBuffers v ! i) = 0 else map_of (vFlowTable v) (flowID (vOperandBuffers v ! i)) \<noteq> None)
    \<and> 0 \<le> vMultPipeOccupancy v \<and> vMultPipeOccupancy v \<le> vNumMultStages v"
proof -
  have "vart_ok (vFlowTable v) (vOperandBuffers v) (vFreeOperandBufIDs v)"
    "pipe_ok (vFlowTable v) (vOperandBuffers v) (vNumMultStages v) (vMultPipeOccupancy v)"
    using vlp_run_ok [OF assms] by (simp_all add: vlp_inv_def)
  then show ?thesis using vart_okD by (auto simp: pipe_ok_def)
qed

theorem vlp_flow_accounts_witness:
  "\<exists>v d h e. vlp_run full_power 3 v d h \<and> map_of (vFlowTable v) 8 = Some e \<and> req_count e = 2
     \<and> req_count e = rep_count e + of_nat (card (held (vOperandBuffers v) [2, 3] 8))"
proof -
  obtain v d ib h where t: "vlp_trace full_power 3 3 two_adds [] = Inr ((v, d, ib), h)" "vFreeOperandBufIDs v = [2, 3]"
    "map_option req_count (map_of (vFlowTable v) 8) = Some 2"
    using two_adds_taken by blast
  obtain v0 d0 ib0 where s: "two_adds = (v0, d0, ib0)" by (cases two_adds)
  have r: "vlp_run full_power 3 v d h" using vlp_trace_run [OF two_adds_starts [OF s]] t(1) unfolding s by blast
  obtain e where e: "map_of (vFlowTable v) 8 = Some e" "req_count e = 2" using t(3) by auto
  show ?thesis using conjunct1 [OF vlp_flow_accounts [OF r]] r e t(2) by metis
qed

text \<open> C11. A vault answers the gather of a flow only when the flow is complete there: the entry disappears
  only when the gather has arrived and no operand buffer of the vault holds an update of the flow. \<close>

theorem vault_gather_only_when_complete:
  assumes "vlp_inv v" "vault_gathers par v = Inr v'" "map_of (vFlowTable v) k = Some fe" "map_of (vFlowTable v') k \<noteq> Some fe"
  shows "map_of (vFlowTable v') k = None \<and> g_flag fe \<and> held (vOperandBuffers v) (vFreeOperandBufIDs v) k = {}"
  using vault_gathers_fold [OF assms(2,1)] assms(3,4) by blast

definition settled_vlp :: vlp_vault where
  "settled_vlp = fresh_vlp\<lparr>vFlowTable := [(8, (VaultFlowEntry ADD)\<lparr>parent := 3, req_count := 1, rep_count := 1, g_flag := True\<rparr>)]\<rparr>"

lemma settled_vlp_answers: "\<exists>v'. vault_gathers full_power settled_vlp = Inr v' \<and> vFlowTable v' = []"
proof -
  have "case vault_gathers full_power settled_vlp of Inr v' \<Rightarrow> vFlowTable v' = [] | Inl _ \<Rightarrow> False" by code_simp
  then show ?thesis by (auto split: sum.splits)
qed

lemma settled_vlp_inv: "vlp_inv settled_vlp"
proof -
  have f: "vFreeOperandBufIDs settled_vlp = [0..<4]" "vOperandBuffers settled_vlp = replicate 4 (VaultOperandEntry 5)"
    "vNumMultStages settled_vlp = 5" "vMultPipeOccupancy settled_vlp = 0"
    "vFlowTable settled_vlp = [(8, (VaultFlowEntry ADD)\<lparr>parent := 3, req_count := 1, rep_count := 1, g_flag := True\<rparr>)]"
    by (simp_all add: settled_vlp_def fresh_vlp_def VLPVaultController_def VaultController_def DualVectorObject_def vault.defs vlp_vault.defs
        dual_vector.defs MAX_VAULT_OPERAND_BUF_def)
  have "held (replicate 4 (VaultOperandEntry 5)) [0..<4] k = {}" for k by (auto simp: held_def)
  then show ?thesis by (simp add: vlp_inv_def f vart_ok_def pipe_ok_def in_pipe_def VaultOperandEntry_def)
qed

theorem vault_gather_only_when_complete_witness:
  "\<exists>v'. vault_gathers full_power settled_vlp = Inr v' \<and> map_of (vFlowTable v') 8 = None
     \<and> held (vOperandBuffers settled_vlp) (vFreeOperandBufIDs settled_vlp) 8 = {}"
proof -
  obtain v' where g: "vault_gathers full_power settled_vlp = Inr v'" "vFlowTable v' = []" using settled_vlp_answers by blast
  obtain fe where "map_of (vFlowTable settled_vlp) 8 = Some fe" by (simp add: settled_vlp_def)
  then show ?thesis using vault_gather_only_when_complete [OF settled_vlp_inv g(1), of 8 fe] g by auto
qed

text \<open> C17. The vault of a vault-level parallel cube keeps the DRAM timing protocol as the other vaults do:
  over its whole life without the low-power mode, the commands that reach the DRAM keep the distances
  the timing parameters require. \<close>

theorem vlp_timing_respected:
  assumes "vlp_run par cube v d h" and "\<not> USE_LOW_POWER (cfg par)" and "timing_ok (cfg par)"
    and "NUM_BANKS (cfg par) \<le> 2 ^ 32" and "0 < NUM_BANKS (cfg par)"
  shows "sorted_wrt (spaced (cfg par)) h"
  using run_spaced [OF _ assms(3)] vlp_run_drives [OF assms(1,2,4,5)] by blast

theorem vlp_timing_respected_witness:
  "\<exists>v d h. vlp_run full_power 3 v d h \<and> kinds h = [(2, ACTIVATE, 2)] \<and> sorted_wrt (spaced (cfg full_power)) h"
proof -
  obtain v d ib h where t: "vlp_trace full_power 3 3 two_adds [] = Inr ((v, d, ib), h)" "kinds h = [(2, ACTIVATE, 2)]"
    using two_adds_taken by blast
  obtain v0 d0 ib0 where s: "two_adds = (v0, d0, ib0)" by (cases two_adds)
  have c: "cfg full_power = default_config\<lparr>USE_LOW_POWER := False\<rparr>" by (simp add: full_power_def)
  have "vlp_run full_power 3 v d h" using vlp_trace_run [OF two_adds_starts [OF s]] t(1) unfolding s by blast
  moreover have "timing_ok (cfg full_power)" unfolding c by (simp add: timing_ok_def default_simps)
  ultimately show ?thesis using vlp_timing_respected [of full_power 3 v d h] t(2) c by (auto simp: default_config_def)
qed

end
