(* ===== verification/VLP_Crossbar.thy ===== *)
theory VLP_Crossbar
  imports VLP_Vault Crossbar
begin

text \<open>
  The crossbar switch of the vault-level parallel cubes: \<open>VLPCrossbarSwitch.h\<close> and
  \<open>VLPCrossbarSwitch.cpp\<close>, the class derived from the crossbar switch of \<open>Crossbar\<close>. It does not reduce
  operands itself: additions go to the vault that has the operand, multiplications to the vaults in turn.
  In the entry of a flow it counts the updates given to each vault (\<open>vault_count\<close>), as it does for the
  children, and a vault answers a gather as a child does.

  The state is that of the base class beside the members the class adds. What the update does as the base
  class does it (segments, answers of children, replication of gathers to children, halves that are
  passed on, replies) is taken from there. The vaults are those of \<open>VLP_Vault\<close>; \<open>vaultControllers\<close> and
  \<open>downBufferDest\<close> are the same objects.
\<close>

section \<open>State\<close>

record vlp_switch =
  numAdds :: int
  numMults :: int
  multVault :: nat
  dispatchPolicy :: int
  xNumFlows :: u64

definition ROUND_ROBIN :: int where "ROUND_ROBIN = 0"

definition VLPCrossbarSwitch :: "u32 \<Rightarrow> u32 \<Rightarrow> tran_trace list \<Rightarrow> tran_statistic \<Rightarrow> vlp_switch \<times> xbar" where
  "VLPCrossbarSwitch cube gtag traces st =
     (\<lparr>numAdds = 0, numMults = 0, multVault = 0, dispatchPolicy = ROUND_ROBIN, xNumFlows = 0\<rparr>, CrossbarSwitch cube gtag traces st)"

text \<open>
  \<open>UpdateDispatch\<close> does not use its argument. (Two of its calls pass the packet before the one just
  handled, which for the first one of a buffer is outside of it.)
\<close>

definition UpdateDispatch :: "vlp_switch \<Rightarrow> vlp_switch" where
  "UpdateDispatch d = (if dispatchPolicy d = ROUND_ROBIN then d\<lparr>multVault := (multVault d + 1) mod 32\<rparr> else d)"

text \<open>The switch with its vaults and links in the loop over the requests.\<close>

type_synonym 'm vlp_cube = "vlp_switch \<times> bool list \<times> xbar \<times> vlp_vault list \<times> 'm dual_vector_scheme list"

definition on_cube :: "vlp_switch \<Rightarrow> (move \<times> bool list \<times> xbar \<times> vlp_vault list \<times> 'm dual_vector_scheme list) result \<Rightarrow> (move \<times> 'm vlp_cube) result" where
  "on_cube d r = bindE r (\<lambda>(m, c). Inr (m, d, c))"

section \<open>Updates given to vaults\<close>

text \<open>\<open>vault_count[v]++\<close>; beyond the range of \<open>int\<close> it is undefined.\<close>

definition bump_vault :: "u64 \<Rightarrow> int \<Rightarrow> flow_table \<Rightarrow> flow_table result" where
  "bump_vault dest_addr v t = (case map_of t dest_addr of None \<Rightarrow> Inl (Undefined ''flow'')
     | Some e \<Rightarrow> bindE (at_int (vault_count e) v) (\<lambda>n. checkE (n + 1 < 2 ^ 31) (Undefined ''overflow'')
         (Inr (flow_insert dest_addr (e\<lparr>vault_count := (vault_count e)[nat v := n + 1]\<rparr>) t))))"

definition count_flow :: "u64 \<Rightarrow> xbar \<Rightarrow> vlp_switch \<Rightarrow> vlp_switch" where
  "count_flow k x d = d\<lparr>xNumFlows := xNumFlows d + (if map_of (flowTable x) k = None then 1 else 0)\<rparr>"

definition give_update :: "net_par \<Rightarrow> Opcode \<Rightarrow> packet \<Rightarrow> int \<Rightarrow> xbar \<Rightarrow> xbar result" where
  "give_update par op p v x =
     bindE (register_update par op p x) (\<lambda>x. bindE (bump_vault (DESTADRS p) v (flowTable x)) (\<lambda>t. Inr (x\<lparr>flowTable := t\<rparr>)))"

text \<open>
  For a multiplication in this cube the count is incremented first. On a flow without an entry that makes
  one by the default constructor, and the entry made for a multiplication is then not inserted.
\<close>

definition default_flow :: "u64 \<Rightarrow> flow_table \<Rightarrow> flow_table" where
  "default_flow k t = (case map_of t k of None \<Rightarrow> flow_insert k (FlowEntry INVALID) t | Some _ \<Rightarrow> t)"

definition give_local_mult :: "net_par \<Rightarrow> packet \<Rightarrow> int \<Rightarrow> xbar \<Rightarrow> xbar result" where
  "give_local_mult par p v x = (let k = DESTADRS p; known = (map_of (flowTable x) k \<noteq> None) in
     bindE (bump_vault k v (default_flow k (flowTable x))) (\<lambda>t.
     bindE (route par (SRCCUB p) True (x\<lparr>flowTable := t\<rparr>)) (\<lambda>(x, parent_link).
     bindE (at_int (neighborCubeID x) parent_link) (\<lambda>parent_cube.
       (case map_of (flowTable x) k of None \<Rightarrow> Inl (Undefined ''flow'')
        | Some e \<Rightarrow>
            if known then checkE (parent e = parent_cube) (Assertion ''parent'')
              (Inr (x\<lparr>flowTable := flow_insert k (e\<lparr>req_count := req_count e + 1\<rparr>) (flowTable x)\<rparr>))
            else Inr (x\<lparr>flowTable := flow_insert k (e\<lparr>parent := parent_cube, req_count := 1\<rparr>) (flowTable x)\<rparr>))))))"

section \<open>Responses\<close>

text \<open>A vault answers a gather: its reply carries the number of the vault.\<close>

definition vault_answers :: "packet \<Rightarrow> xbar \<Rightarrow> xbar result" where
  "vault_answers p x = (case map_of (flowTable x) (DESTADRS p) of None \<Rightarrow> Inl (Assertion ''flowTable'')
     | Some fe \<Rightarrow> (let v = uint (ucast (SRCADRS1 p) :: u32) in
         bindE (at_int (vault_count fe) v) (\<lambda>n. checkE (n > 0) (Assertion ''vault_count'')
           (Inr (delete_trace (trace p) (x\<lparr>flowTable := flow_insert (DESTADRS p)
              (fe\<lparr>rep_count := rep_count fe + of_int n, vault_count := (vault_count fe)[nat v := 0]\<rparr>) (flowTable x)\<rparr>))))))"

text \<open>A factor goes to the vault that computes, by its own buffer.\<close>

definition factor_to_vault :: "packet \<Rightarrow> vlp_vault list \<Rightarrow> (bool \<times> vlp_vault list) result" where
  "factor_to_vault p vs = bindE (at_int vs (computeVault p)) (\<lambda>v. bindE (vault_ReceiveArt p v) (\<lambda>(ok, v).
     Inr (ok, vs[nat (computeVault p) := v])))"

type_synonym 'm vlp_up = "nat \<times> xbar \<times> vlp_vault list \<times> 'm dual_vector_scheme list"

definition taken_up_vs :: "nat \<Rightarrow> nat \<Rightarrow> vlp_vault list \<Rightarrow> 'm dual_vector_scheme list \<Rightarrow> xbar result \<Rightarrow> 'm vlp_up result" where
  "taken_up_vs ll i vs ms r = bindE (taken_up ll i ms r) (\<lambda>(i, x, ms). Inr (i, x, vs, ms))"

definition vlp_up_packet :: "net_par \<Rightarrow> nat \<Rightarrow> 'm vlp_up \<Rightarrow> 'm vlp_up result" where
  "vlp_up_packet par ll s = (case s of (i, x, vs, ms) \<Rightarrow> (case up_buf ll x ! i of None \<Rightarrow> Inr (i + 1, x, vs, ms)
   | Some p \<Rightarrow> checkE (packetType p = RESPONSE) (Assertion ''RESPONSE'')
       (if segment p then bindE (up_segment par ll i p x) (\<lambda>(i, x). Inr (i, x, vs, ms))
        else if CMD p = ACT_MULT \<and> here x (DESTCUB p)
        then bindE (factor_to_vault p vs) (\<lambda>(ok, vs). if ok then taken_up_vs ll i vs ms (Inr x) else Inr (i + 1, x, vs, ms))
        else if CMD p = ACT_GET \<and> here x (DESTCUB p) \<and> \<not> here x (SRCCUB p) then taken_up_vs ll i vs ms (child_answers par p x)
        else if CMD p = ACT_GET \<and> here x (DESTCUB p) \<and> here x (SRCCUB p) then taken_up_vs ll i vs ms (vault_answers p x)
        else bindE (route par (DESTCUB p) False x) (\<lambda>(x, link). checkE (link \<noteq> -1) (Assertion ''link'')
              (bindE (to_link ReceiveUp (clean p) link ms) (\<lambda>(ok, ms).
                 if ok then taken_up_vs ll i vs ms (Inr x) else Inr (i + 1, x, vs, ms)))))))"

definition vlp_up_link :: "net_par \<Rightarrow> nat \<Rightarrow> xbar \<times> vlp_vault list \<times> 'm dual_vector_scheme list \<Rightarrow>
    (xbar \<times> vlp_vault list \<times> 'm dual_vector_scheme list) result" where
  "vlp_up_link par l s = (case s of (x, vs, ms) \<Rightarrow> (let ll = (upLink x + l) mod length (inputBuffers x) in
     bindE (whileE (\<lambda>(i, x, vs, ms). i < length (up_buf ll x)) (vlp_up_packet par ll) (0, x, vs, ms)) (\<lambda>(i, s). Inr s)))"

definition vlp_upstream :: "net_par \<Rightarrow> xbar \<times> vlp_vault list \<times> 'm dual_vector_scheme list \<Rightarrow>
    (xbar \<times> vlp_vault list \<times> 'm dual_vector_scheme list) result" where
  "vlp_upstream par s = bindE (foldE (vlp_up_link par) [0..<length (inputBuffers (fst s))] s) (\<lambda>(x, vs, ms).
     Inr (x\<lparr>upLink := (upLink x + 1) mod length (inputBuffers x)\<rparr>, vs, ms))"

section \<open>Requests for this cube\<close>

text \<open>An addition goes to the vault of its operand.\<close>

definition vlp_local_add :: "net_par \<Rightarrow> nat \<Rightarrow> nat \<Rightarrow> packet \<Rightarrow> 'm vlp_cube \<Rightarrow> (move \<times> 'm vlp_cube) result" where
  "vlp_local_add par ll i p s = (case s of (d, vmask, x, vs, ms) \<Rightarrow>
     (let v = vaultMap (np_cfg par) (ADRS p);
          p = p\<lparr>computeVault := int (unat v)\<rparr>;
          x = set_down ll ((down_buf ll x)[i := Some p]) x
      in if vmask ! unat v then Inr (Next, d, vmask, x, vs, ms)
      else bindE (to_vault (p\<lparr>SRCCUB := sint (cubeID x), DESTCUB := sint (cubeID x)\<rparr>) v vs) (\<lambda>(ok, vs').
        if \<not> ok then Inr (Next, d, vmask, x, vs, ms)
        else bindE (give_update par ADD p (int (unat v)) (x\<lparr>numOperands := numOperands x + 1, numUpdates := numUpdates x + 1\<rparr>)) (\<lambda>x'.
             bindE (next_line par ll i p x') (\<lambda>x'.
               Inr (Again, count_flow (DESTADRS p) x (d\<lparr>numAdds := numAdds d + (if CMD p = ACT_ADD then 1 else 0)\<rparr>),
                 vmask, x', vs', ms))))))"

text \<open>
  A multiplication needs an operand buffer of the vault whose turn it is. When the vault of the operand
  does not take the half for this cube, the buffer is given back.
\<close>

definition local_halves :: "net_par \<Rightarrow> bool \<Rightarrow> packet \<Rightarrow> int \<Rightarrow> packet \<times> packet" where
  "local_halves par first p cube =
     (let pkt = (copy_packet par p)\<lparr>SRCCUB := cube, DESTCUB := cube\<rparr>;
          rest = p\<lparr>SRCCUB := (if LINES p = 1 then cube else SRCCUB p)\<rparr>
      in if first
         then (pkt\<lparr>SRCADRS2 := 0, ADRS := low_addr (SRCADRS1 p), halfPkt1 := True\<rparr>,
               rest\<lparr>ADRS := low_addr (SRCADRS2 p), DESTCUB := DESTCUB2 p, halfPkt2 := True\<rparr>)
         else (pkt\<lparr>SRCADRS1 := 0, ADRS := low_addr (SRCADRS2 p), halfPkt2 := True\<rparr>,
               rest\<lparr>ADRS := low_addr (SRCADRS1 p), DESTCUB := DESTCUB1 p, halfPkt1 := True\<rparr>))"

definition free_operand :: "nat \<Rightarrow> int \<Rightarrow> vlp_vault list \<Rightarrow> vlp_vault list result" where
  "free_operand m b vs = bindE (at_int vs (int m)) (\<lambda>v. bindE (FreeOperandBuffer b v) (\<lambda>v. Inr (vs[m := v])))"

definition vlp_local_mult :: "net_par \<Rightarrow> nat \<Rightarrow> nat \<Rightarrow> packet \<Rightarrow> 'm vlp_cube \<Rightarrow> (move \<times> 'm vlp_cube) result" where
  "vlp_local_mult par ll i p s = (case s of (d, vmask, x, vs, ms) \<Rightarrow> (let m = multVault d in
     bindE (at_int vs (int m)) (\<lambda>v.
     bindE (OperandBufferStatus (cubeID x) p v) (\<lambda>(b, p, v).
       if b < 0 then Inr (Next, UpdateDispatch d, vmask, x, vs, ms)
       else
         (let vs = vs[m := v];
              p = p\<lparr>computeVault := int m\<rparr>;
              x = set_down ll ((down_buf ll x)[i := Some p]) x;
              first = (SRCADRS1 p \<noteq> 0 \<and> here x (DESTCUB1 p));
              (pkt, rest) = local_halves par first p (sint (cubeID x))
          in checkE (first \<or> SRCADRS2 p \<noteq> 0 \<and> here x (DESTCUB2 p)) (Assertion ''DESTCUB2'')
            (bindE (to_vault pkt (vaultMap (np_cfg par) (if first then SRCADRS1 p else SRCADRS2 p)) vs) (\<lambda>(ok, vs').
               if ok
               then bindE (give_local_mult par p (int m) (x\<lparr>numOperands := numOperands x + 1, numUpdates := numUpdates x + 1\<rparr>)) (\<lambda>x'.
                    Inr (Again, count_flow (DESTADRS p) x (UpdateDispatch (d\<lparr>numMults := numMults d + 1\<rparr>)), vmask,
                      set_down ll ((down_buf ll x')[i := Some rest]) x', vs', ms))
               else bindE (free_operand m b vs) (\<lambda>vs. Inr (Next, d, vmask, x, vs, ms)))))))))"

text \<open>The second half of a multiplication.\<close>

definition vault_whole_again :: "nat \<Rightarrow> nat \<Rightarrow> packet \<Rightarrow> xbar \<Rightarrow> xbar result" where
  "vault_whole_again ll i p x = bindE (copy_trace (trace p) x) (\<lambda>(t, x).
     Inr (set_down ll ((down_buf ll x)[i := Some (p\<lparr>halfPkt1 := False, halfPkt2 := False, SRCADRS1 := SRCADRS1 p + 64,
       SRCADRS2 := SRCADRS2 p + 64, ADRS := low_addr (SRCADRS1 p + 64), LINES := LINES p - 1, vaultOperandBufID := -1, trace := t\<rparr>)]) x))"

definition vlp_local_half :: "net_par \<Rightarrow> nat \<Rightarrow> nat \<Rightarrow> packet \<Rightarrow> 'm vlp_cube \<Rightarrow> (move \<times> 'm vlp_cube) result" where
  "vlp_local_half par ll i p s = (case s of (d, vmask, x, vs, ms) \<Rightarrow>
     (let many = LINES p > 1; cube = sint (cubeID x) in
      bindE (to_vault p (vaultMap (np_cfg par) (ADRS p)) vs) (\<lambda>(room, _).
        if \<not> room then Inr (Next, s)
        else bindE (half_packet (if many then copy_packet par p else p)) (\<lambda>pkt.
             (let pkt = (if many then pkt\<lparr>SRCCUB := cube, DESTCUB := cube\<rparr> else pkt)
              in checkE (many \<longrightarrow> DESTCUB1 p = DESTCUB2 p) (Assertion ''DESTCUB'')
                (bindE (to_vault pkt (vaultMap (np_cfg par) (ADRS p)) vs) (\<lambda>(_, vs).
                 bindE (if many then vault_whole_again ll i p x else erase_down ll i x) (\<lambda>x.
                   Inr (Again, d, vmask, x\<lparr>numOperands := numOperands x + 1\<rparr>, vs, ms)))))))))"

text \<open>
  A gather is replicated to the children and then to the vaults that have got updates of the flow, one
  a cycle; when all have it, it leaves.
\<close>

definition vault_links :: "flow_entry \<Rightarrow> nat list" where
  "vault_links fe = filter (\<lambda>j. \<not> vault_gflag fe ! j \<and> vault_count fe ! j > 0) [0..<NUM_VAULTS]"

fun gather_vaults :: "net_par \<Rightarrow> packet \<Rightarrow> nat list \<Rightarrow> flow_entry \<Rightarrow> vlp_vault list \<Rightarrow> (flow_entry \<times> vlp_vault list) result" where
  "gather_vaults par p [] fe vs = Inr (fe, vs)"
| "gather_vaults par p (j # js) fe vs = bindE (to_vault (copy_packet par p) (of_nat j) vs) (\<lambda>(ok, vs').
     if ok then Inr (fe\<lparr>vault_gflag := (vault_gflag fe)[j := True]\<rparr>, vs') else gather_vaults par p js fe vs)"

definition vlp_local_get :: "net_par \<Rightarrow> nat \<Rightarrow> nat \<Rightarrow> packet \<Rightarrow> 'm vlp_cube \<Rightarrow> (move \<times> 'm vlp_cube) result" where
  "vlp_local_get par ll i p s = (case s of (d, vmask, x, vs, ms) \<Rightarrow>
     if list_ex (update_of (DESTADRS p)) (take i (down_buf ll x)) then Inr (Next, s)
     else (case map_of (flowTable x) (DESTADRS p) of None \<Rightarrow> Inl (Assertion ''flowTable'')
       | Some fe \<Rightarrow>
           if child_links fe \<noteq> []
           then checkE (req_count fe - rep_count fe > 0) (Assertion ''req_count'')
                 (bindE (gather_children par ll p (child_links fe) x) (\<lambda>(sent, x).
                    Inr (if sent then Again else Next, d, vmask, x, vs, ms)))
           else bindE (gather_vaults par p (vault_links fe) (fe\<lparr>g_flag := True\<rparr>) vs) (\<lambda>(fe', vs).
                (let x = x\<lparr>flowTable := flow_insert (DESTADRS p) fe' (flowTable x)\<rparr>
                 in if vault_links fe = [] then bindE (erase_down ll i x) (\<lambda>x. Inr (Again, d, vmask, x, vs, ms))
                    else Inr (Next, d, vmask, x, vs, ms)))))"

section \<open>Requests for other cubes\<close>

definition vlp_split_mult :: "net_par \<Rightarrow> nat \<Rightarrow> nat \<Rightarrow> packet \<Rightarrow> int \<Rightarrow> int \<Rightarrow> 'm vlp_cube \<Rightarrow> (move \<times> 'm vlp_cube) result" where
  "vlp_split_mult par ll i p link1 link2 s = (case s of (d, vmask, x, vs, ms) \<Rightarrow> (let m = multVault d in
     bindE (at_int vs (int m)) (\<lambda>v.
     bindE (OperandBufferStatus (cubeID x) p v) (\<lambda>(b, p, v).
       if b < 0 then Inr (Next, s)
       else
         (let vs = vs[m := v];
              p = p\<lparr>computeVault := int m\<rparr>;
              x = set_down ll ((down_buf ll x)[i := Some p]) x;
              cube = sint (cubeID x);
              pkt = clean ((copy_packet par p)\<lparr>SRCCUB := cube, LINES := 1\<rparr>);
              pkt1 = pkt\<lparr>SRCADRS2 := 0, ADRS := low_addr (SRCADRS1 p), halfPkt1 := True\<rparr>;
              pkt2 = pkt\<lparr>SRCADRS1 := 0, ADRS := low_addr (SRCADRS2 p), halfPkt2 := True, DESTCUB := DESTCUB2 p\<rparr>;
              rest = p\<lparr>SRCCUB := (if LINES p = 1 then cube else SRCCUB p)\<rparr>;
              rest1 = rest\<lparr>halfPkt2 := True, ADRS := low_addr (SRCADRS2 p), DESTCUB := DESTCUB2 p\<rparr>;
              rest2 = rest\<lparr>halfPkt1 := True, ADRS := low_addr (SRCADRS1 p), DESTCUB := DESTCUB1 p\<rparr>;
              sent = (\<lambda>rest ms. bindE (give_update par MAC p (int m) (x\<lparr>numUpdates := numUpdates x + 1\<rparr>)) (\<lambda>x'.
                 Inr (Again, count_flow (DESTADRS p) x (UpdateDispatch (d\<lparr>numMults := numMults d + 1\<rparr>)), vmask,
                   set_down ll ((down_buf ll x')[i := Some rest]) x', vs, ms)))
          in bindE (to_link ReceiveDown pkt1 link1 ms) (\<lambda>(ok, ms1).
             if ok then sent rest1 ms1
             else bindE (to_link ReceiveDown pkt2 link2 ms) (\<lambda>(ok, ms2).
               if ok then sent rest2 ms2
               else bindE (free_operand m b vs) (\<lambda>vs. Inr (Next, d, vmask, x, vs, ms)))))))))"

definition vlp_forward_mult :: "net_par \<Rightarrow> nat \<Rightarrow> nat \<Rightarrow> packet \<Rightarrow> int \<Rightarrow> 'm vlp_cube \<Rightarrow> (move \<times> 'm vlp_cube) result" where
  "vlp_forward_mult par ll i p link s = (case s of (d, vmask, x, vs, ms) \<Rightarrow>
     checkE (SRCADRS1 p \<noteq> 0 \<and> SRCADRS2 p \<noteq> 0) (Assertion ''SRCADRS'')
      (bindE (route par (DESTCUB1 p) False x) (\<lambda>(x, link1).
       bindE (route par (DESTCUB2 p) False x) (\<lambda>(x, link2).
         if link1 \<noteq> link2 then vlp_split_mult par ll i p link1 link2 (d, vmask, x, vs, ms)
         else bindE (to_link ReceiveDown (clean p) link ms) (\<lambda>(ok, ms).
           if ok then bindE (pass_on par MAC ll i p link x) (\<lambda>x'. Inr (Again, count_flow (DESTADRS p) x d, vmask, x', vs, ms))
           else Inr (Next, d, vmask, x, vs, ms))))))"

definition vlp_forward_other :: "net_par \<Rightarrow> nat \<Rightarrow> nat \<Rightarrow> packet \<Rightarrow> int \<Rightarrow> 'm vlp_cube \<Rightarrow> (move \<times> 'm vlp_cube) result" where
  "vlp_forward_other par ll i p link s = (case s of (d, c) \<Rightarrow>
     bindE (forward_other par ll i p link c) (\<lambda>(m, c').
       Inr (m, if m = Again \<and> (CMD p = ACT_ADD \<or> CMD p = ACT_DOT) then count_flow (DESTADRS p) (fst (snd c)) d else d, c')))"

section \<open>The update of a cycle\<close>

definition vlp_local_packet :: "net_par \<Rightarrow> nat \<Rightarrow> nat \<Rightarrow> packet \<Rightarrow> 'm vlp_cube \<Rightarrow> (move \<times> 'm vlp_cube) result" where
  "vlp_local_packet par ll i p s = (case s of (d, vmask, x, vs, ms) \<Rightarrow>
     (if reqDataSize p > block_bytes (ADDRESS_MAPPING (np_cfg par))
      then bindE (divide par ll i p x) (\<lambda>(m, x). Inr (m, d, vmask, x, vs, ms))
      else if CMD p = ACT_ADD \<or> CMD p = ACT_DOT then vlp_local_add par ll i p s
      else if CMD p = ACT_MULT
      then (if \<not> halfPkt1 p \<and> \<not> halfPkt2 p then vlp_local_mult par ll i p s else vlp_local_half par ll i p s)
      else if CMD p = ACT_GET then vlp_local_get par ll i p s
      else on_cube d (local_other par ll i p (vmask, x, vs, ms))))"

definition vlp_forward_packet :: "net_par \<Rightarrow> nat \<Rightarrow> nat \<Rightarrow> packet \<Rightarrow> 'm vlp_cube \<Rightarrow> (move \<times> 'm vlp_cube) result" where
  "vlp_forward_packet par ll i p s = (case s of (d, vmask, x, vs, ms) \<Rightarrow>
     bindE (route par (DESTCUB p) False x) (\<lambda>(x, link). checkE (link \<noteq> -1) (Assertion ''link'')
      (if CMD p = ACT_MULT
       then (if \<not> halfPkt1 p \<and> \<not> halfPkt2 p then vlp_forward_mult par ll i p link (d, vmask, x, vs, ms)
             else on_cube d (forward_half par ll i p link (vmask, x, vs, ms)))
       else vlp_forward_other par ll i p link (d, vmask, x, vs, ms))))"

definition vlp_down_packet :: "net_par \<Rightarrow> nat \<Rightarrow> (nat \<times> bool) \<times> 'm vlp_cube \<Rightarrow> ((nat \<times> bool) \<times> 'm vlp_cube) result" where
  "vlp_down_packet par ll s = (case s of ((i, _), d, vmask, x, vs, ms) \<Rightarrow> (case down_buf ll x ! i of
     None \<Rightarrow> Inr ((i + 1, False), d, vmask, x, vs, ms)
   | Some p \<Rightarrow> checkE (packetType p = REQUEST) (Assertion ''REQUEST'')
       (bindE (if for_this_cube p x then vlp_local_packet par ll i p (d, vmask, x, vs, ms)
               else vlp_forward_packet par ll i p (d, vmask, x, vs, ms))
         (\<lambda>(m, c). Inr (moved i m, c)))))"

definition vlp_down_active :: "nat \<Rightarrow> (nat \<times> bool) \<times> 'm vlp_cube \<Rightarrow> bool" where
  "vlp_down_active ll s = (case s of ((i, stop), d, vmask, x, vs, ms) \<Rightarrow> \<not> stop \<and> i < length (down_buf ll x))"

definition vlp_down_link :: "net_par \<Rightarrow> nat \<Rightarrow> 'm vlp_cube \<Rightarrow> 'm vlp_cube result" where
  "vlp_down_link par l s = (case s of (d, vmask, x, vs, ms) \<Rightarrow> (let ll = (downLink x + l) mod (length (inputBuffers x) - 1) in
     if dv_bufPopDelay (inputBuffers x ! ll) = 0
     then bindE (whileE (vlp_down_active ll) (vlp_down_packet par ll) ((0, False), s)) (\<lambda>(_, s). Inr s)
     else Inr s))"

type_synonym 'm vlp_state = "vlp_switch \<times> xbar \<times> vlp_vault list \<times> 'm dual_vector_scheme list"

definition vlp_downstream :: "net_par \<Rightarrow> 'm vlp_state \<Rightarrow> 'm vlp_state result" where
  "vlp_downstream par s = (case s of (d, x, vs, ms) \<Rightarrow>
     bindE (foldE (vlp_down_link par) [0..<length (inputBuffers x) - 1] (d, replicate NUM_VAULTS False, x, vs, ms)) (\<lambda>(d, _, x, vs, ms).
       Inr (d, x\<lparr>downLink := (downLink x + 1) mod (length (inputBuffers x) - 1)\<rparr>, vs, ms)))"

text \<open>
  The switch has operand buffers still, and reduces what is ready in them, without a limit on the
  additions of a cycle and without counting. Nothing ever reserves one.
\<close>

definition switch_finish :: "nat \<Rightarrow> flow_entry \<Rightarrow> xbar \<Rightarrow> xbar" where
  "switch_finish i fe x = (let e = operandBuffers x ! i in
     x\<lparr>flowTable := flow_insert (flowID e) (fe\<lparr>rep_count := rep_count fe + 1\<rparr>) (flowTable x),
       operandBuffers := (operandBuffers x)[i := (release (numMultStages x) e)\<lparr>oe_counted := oe_counted e\<rparr>],
       freeOperandBufIDs := freeOperandBufIDs x @ [i]\<rparr>)"

definition switch_consume :: "nat \<Rightarrow> bool \<times> xbar \<Rightarrow> (bool \<times> xbar) result" where
  "switch_consume i s = (case s of (startedMult, x) \<Rightarrow>
     (let e = operandBuffers x ! i; stepped = e\<lparr>multStageCounter := multStageCounter e - 1\<rparr> in
      if \<not> oe_ready e then Inr (startedMult, x)
      else (case map_of (flowTable x) (flowID e) of None \<Rightarrow> Inl (Assertion ''flowTable'')
        | Some fe \<Rightarrow>
            if opcode fe \<noteq> MAC then Inr (startedMult, switch_finish i fe x)
            else if multStageCounter e = numMultStages x
            then (if \<not> startedMult \<and> multPipeOccupancy x < numMultStages x
                  then Inr (True, x\<lparr>multPipeOccupancy := multPipeOccupancy x + 1, operandBuffers := (operandBuffers x)[i := stepped]\<rparr>)
                  else Inr (startedMult, x))
            else if multStageCounter stepped > 0 then Inr (startedMult, x\<lparr>operandBuffers := (operandBuffers x)[i := stepped]\<rparr>)
            else Inr (startedMult, switch_finish i fe (x\<lparr>multPipeOccupancy := multPipeOccupancy x - 1\<rparr>)))))"

definition VLPCrossbarSwitch_Update :: "net_par \<Rightarrow> 'm vlp_state \<Rightarrow> 'm vlp_state result" where
  "VLPCrossbarSwitch_Update par s = (case s of (d, x, vs, ms) \<Rightarrow>
     bindE (vlp_upstream par (x, vs, ms)) (\<lambda>(x, vs, ms).
     bindE (vlp_downstream par (d, x, vs, ms)) (\<lambda>(d, x, vs, ms).
     bindE (foldE switch_consume [0..<length (operandBuffers x)] (False, x)) (\<lambda>(_, x).
     bindE (gather_replies par (x, ms)) (\<lambda>(x, ms).
       Inr (d, dual_Step (x\<lparr>inputBuffers := map dual_Step (inputBuffers x)\<rparr>), vs, ms))))))"

section \<open>The accounts of a flow with its vaults\<close>

text \<open>
  The updates a vault has got and not answered for count like operands the switch holds: \<open>n\<close> more may
  have been taken over and not yet been given to anyone.
\<close>

definition vcounts_ok :: "flow_entry \<Rightarrow> nat \<Rightarrow> bool" where
  "vcounts_ok e n \<longleftrightarrow> counts_ok e (n + nat (sum_list (vault_count e))) \<and> length (vault_count e) = NUM_VAULTS
     \<and> (\<forall>c \<in> set (vault_count e). 0 \<le> c \<and> c < 2 ^ 31)"

definition vtable_ok :: "flow_table \<Rightarrow> bool" where
  "vtable_ok t \<longleftrightarrow> sorted_wrt (<) (map fst t) \<and> (\<forall>k e. map_of t k = Some e \<longrightarrow> vcounts_ok e 0)"

definition switch_inv :: "xbar \<Rightarrow> bool" where
  "switch_inv x \<longleftrightarrow> vtable_ok (flowTable x) \<and> (\<forall>e \<in> set (operandBuffers x). \<not> oe_ready e)"

lemma sum_list_bounds: "\<forall>c \<in> set cs. 0 \<le> c \<and> c < (b :: int) \<Longrightarrow> 0 \<le> sum_list cs \<and> sum_list cs \<le> int (length cs) * b"
  by (induction cs) (auto simp: distrib_right)

lemma counts_ok_vaults [simp]: "counts_ok (e\<lparr>vault_count := xs\<rparr>) n = counts_ok e n" "counts_ok (e\<lparr>vault_gflag := fs\<rparr>) n = counts_ok e n"
  "counts_ok (e\<lparr>opcode := op\<rparr>) n = counts_ok e n" "counts_ok (e\<lparr>parent := pc\<rparr>) n = counts_ok e n"
  by (simp_all add: counts_ok_def)

lemma vcounts_flags [simp]: "vcounts_ok (e\<lparr>g_flag := b\<rparr>) n = vcounts_ok e n" "vcounts_ok (e\<lparr>vault_gflag := fs\<rparr>) n = vcounts_ok e n"
  "vcounts_ok (e\<lparr>children_gflag := (children_gflag e)[c := b]\<rparr>) n = vcounts_ok e n"
  by (simp_all add: vcounts_ok_def)

lemma vcounts_req: "vcounts_ok e n \<Longrightarrow> vcounts_ok (e\<lparr>req_count := req_count e + 1\<rparr>) (Suc n)"
  using counts_req by (simp add: vcounts_ok_def)

lemma vcounts_new: "vcounts_ok ((FlowEntry op)\<lparr>parent := pc, req_count := 1\<rparr>) (Suc 0)"
  using counts_new [where op = op and pc = pc] by (simp add: vcounts_ok_def FlowEntry_def sum_list_replicate)

lemma vcounts_default: "vcounts_ok (FlowEntry op) 0"
  by (simp add: vcounts_ok_def counts_ok_def FlowEntry_def sum_list_replicate)

lemma vcounts_child:
  "vcounts_ok e (Suc n) \<Longrightarrow> 0 \<le> link \<Longrightarrow> link < int NUM_LINKS \<Longrightarrow> children_count e ! nat link + 1 < 2 ^ 31 \<Longrightarrow>
    vcounts_ok (e\<lparr>children_count := (children_count e)[nat link := children_count e ! nat link + 1]\<rparr>) n"
  using counts_child by (simp add: vcounts_ok_def)

lemma vcounts_answer:
  "vcounts_ok e n \<Longrightarrow> 0 \<le> link \<Longrightarrow> link < int (length (children_count e)) \<Longrightarrow>
    vcounts_ok (e\<lparr>rep_count := rep_count e + of_int (children_count e ! nat link), children_count := (children_count e)[nat link := 0]\<rparr>) n"
  using counts_answer by (simp add: vcounts_ok_def)

lemma vault_count_update:
  assumes "vcounts_ok e n" "0 \<le> v" "v < int NUM_VAULTS"
  shows "0 \<le> c \<Longrightarrow> c < 2 ^ 31 \<Longrightarrow> d \<in> set ((vault_count e)[nat v := c]) \<Longrightarrow> 0 \<le> d \<and> d < 2 ^ 31"
    and "sum_list ((vault_count e)[nat v := c]) = sum_list (vault_count e) - vault_count e ! nat v + c"
    and "0 \<le> vault_count e ! nat v" "vault_count e ! nat v \<le> sum_list (vault_count e)"
proof -
  let ?cs = "vault_count e" and ?i = "nat v"
  have i: "?i < length ?cs" and b: "\<forall>d \<in> set ?cs. 0 \<le> d \<and> d < 2 ^ 31" using assms by (auto simp: vcounts_ok_def)
  show u: "0 \<le> d \<and> d < 2 ^ 31" if "0 \<le> c" "c < 2 ^ 31" "d \<in> set (?cs[?i := c])" for c d
    using b that set_update_subset_insert [of ?cs ?i c] by auto
  show s: "sum_list (?cs[?i := c]) = sum_list ?cs - ?cs ! ?i + c" for c by (rule sum_list_update_int [OF i])
  show "0 \<le> ?cs ! ?i" using i b by simp
  show "?cs ! ?i \<le> sum_list ?cs" using sum_list_bounds [of "?cs[?i := 0]" "2 ^ 31"] u [of 0] s [of 0] by force
qed

lemma vcounts_vault:
  assumes "vcounts_ok e (Suc n)" "0 \<le> v" "v < int NUM_VAULTS" "vault_count e ! nat v + 1 < 2 ^ 31"
  shows "vcounts_ok (e\<lparr>vault_count := (vault_count e)[nat v := vault_count e ! nat v + 1]\<rparr>) n"
proof -
  let ?c = "vault_count e ! nat v"
  note u = vault_count_update [OF assms(1-3)]
  have "Suc n + nat (sum_list (vault_count e)) = n + nat (sum_list (vault_count e) + 1)" using u(3,4) by simp
  then have "counts_ok e (n + nat (sum_list (vault_count e) + 1))" using assms(1) by (simp only: vcounts_ok_def)
  then show ?thesis using u(1) [of "?c + 1"] u(2) [of "?c + 1"] u(3) assms(1,4) by (simp add: vcounts_ok_def)
qed

lemma vcounts_reply:
  assumes "vcounts_ok e n" "0 \<le> v" "v < int NUM_VAULTS"
  shows "vcounts_ok (e\<lparr>rep_count := rep_count e + of_int (vault_count e ! nat v), vault_count := (vault_count e)[nat v := 0]\<rparr>) n"
proof -
  let ?c = "vault_count e ! nat v" and ?s = "sum_list (vault_count e)"
  note u = vault_count_update [OF assms]
  have "counts_ok e (n + nat ?s)" using assms(1) by (simp add: vcounts_ok_def)
  then have "counts_ok (e\<lparr>rep_count := rep_count e + of_int ?c\<rparr>) (n + nat (?s - ?c))"
    using u(3,4) by (simp add: counts_ok_def of_nat_nat)
  then show ?thesis using u(1) [of 0] u(2) [of 0] assms(1) by (simp add: vcounts_ok_def)
qed

lemma vcounts_settled:
  assumes "vcounts_ok e 0" "req_count e = rep_count e"
  shows "(\<forall>c \<in> set (children_count e). c = 0) \<and> (\<forall>c \<in> set (vault_count e). c = 0)"
proof -
  let ?s = "sum_list (vault_count e)"
  have s: "0 \<le> ?s" "?s \<le> int NUM_VAULTS * 2 ^ 31" using sum_list_bounds [of "vault_count e" "2 ^ 31"] assms(1) by (auto simp: vcounts_ok_def)
  then have "nat ?s \<le> 2 ^ 63" by (simp add: NUM_VAULTS_def)
  then have "nat ?s = 0 \<and> (\<forall>c \<in> set (children_count e). c = 0)" using counts_settled [of e "nat ?s"] assms by (simp add: vcounts_ok_def)
  then show ?thesis using s(1) sum_list_nonneg_eq_0_iff [of "vault_count e"] assms(1) by (auto simp: vcounts_ok_def)
qed

section \<open>Steps on the flow table\<close>

lemma vtable_insert: "vtable_ok t \<Longrightarrow> vcounts_ok e 0 \<Longrightarrow> vtable_ok (flow_insert k e t)"
  by (simp add: vtable_ok_def sorted_flow_insert)

lemma vtable_lookup: "vtable_ok t \<Longrightarrow> map_of t k = Some e \<Longrightarrow> vcounts_ok e 0"
  by (simp add: vtable_ok_def)

text \<open>After an update is taken over, the entry of its flow is one ahead until the update is given away.\<close>

lemma register_flow_ahead:
  assumes "register_flow op pc k t = Inr t1" "vtable_ok t"
  obtains e where "map_of t1 k = Some e" "vcounts_ok e 1" "\<And>e'. vcounts_ok e' 0 \<Longrightarrow> vtable_ok (flow_insert k e' t1)"
proof -
  have "\<exists>e. t1 = flow_insert k e t \<and> vcounts_ok e 1"
  proof (cases "map_of t k")
    case None
    then show ?thesis using assms(1) vcounts_new [of pc op] by (auto simp: register_flow_def)
  next
    case (Some e)
    then show ?thesis using assms(1) vcounts_req [OF vtable_lookup [OF assms(2) Some]] by (auto simp: register_flow_def err_simps)
  qed
  then obtain e where e: "t1 = flow_insert k e t" "vcounts_ok e 1" by blast
  have "vtable_ok (flow_insert k e' t1)" if "vcounts_ok e' 0" for e'
    using assms(2) that unfolding e(1) by (auto simp: vtable_ok_def intro!: sorted_flow_insert)
  then show thesis using that [of e] e by simp
qed

lemma vtable_give:
  assumes "register_flow op pc k t = Inr t1" "bump_vault k v t1 = Inr t2" "vtable_ok t"
  shows "vtable_ok t2"
proof -
  obtain e where e: "map_of t1 k = Some e" "vcounts_ok e (Suc 0)" "\<And>e'. vcounts_ok e' 0 \<Longrightarrow> vtable_ok (flow_insert k e' t1)"
    using register_flow_ahead [OF assms(1,3)] by (metis One_nat_def)
  have "0 \<le> v" "v < int NUM_VAULTS" "vault_count e ! nat v + 1 < 2 ^ 31"
    and t2: "t2 = flow_insert k (e\<lparr>vault_count := (vault_count e)[nat v := vault_count e ! nat v + 1]\<rparr>) t1"
    using assms(2) e(1,2) by (auto simp: bump_vault_def at_int_def vcounts_ok_def err_simps)
  then show ?thesis unfolding t2 by (intro e(3) vcounts_vault [OF e(2)])
qed

lemma vtable_pass:
  assumes "register_flow op pc k t = Inr t1" "bump_child k l t1 = Inr t2" "vtable_ok t"
  shows "vtable_ok t2"
proof -
  obtain e where e: "map_of t1 k = Some e" "vcounts_ok e (Suc 0)" "\<And>e'. vcounts_ok e' 0 \<Longrightarrow> vtable_ok (flow_insert k e' t1)"
    using register_flow_ahead [OF assms(1,3)] by (metis One_nat_def)
  have "0 \<le> l" "l < int NUM_LINKS" "children_count e ! nat l + 1 < 2 ^ 31"
    and t2: "t2 = flow_insert k (e\<lparr>children_count := (children_count e)[nat l := children_count e ! nat l + 1]\<rparr>) t1"
    using assms(2) e(1,2) by (auto simp: bump_child_def at_int_def vcounts_ok_def counts_ok_def err_simps)
  then show ?thesis unfolding t2 by (intro e(3) vcounts_child [OF e(2)])
qed

section \<open>The invariant of the switch\<close>

lemma switch_inv_part: "art_part x' = art_part x \<Longrightarrow> switch_inv x' = switch_inv x"
  by (simp add: art_part_def switch_inv_def)

lemma switch_inv_same: "same_part x x' \<Longrightarrow> switch_inv x' = switch_inv x"
  by (rule switch_inv_part) (simp add: same_part_def)

lemma same_switchD: "same_part x x' \<Longrightarrow> switch_inv x \<Longrightarrow> switch_inv x'"
  by (simp add: switch_inv_same)

lemmas frame_switch = frame [THEN same_switchD]

lemma switch_inv_update [simp]:
  "switch_inv (x\<lparr>opbufStalls := n\<rparr>) = switch_inv x" "switch_inv (x\<lparr>numUpdates := n\<rparr>) = switch_inv x" "switch_inv (x\<lparr>numOperands := n\<rparr>) = switch_inv x"
  "switch_inv (set_down ll buf x) = switch_inv x" "switch_inv (set_up ll buf x) = switch_inv x" "switch_inv (x\<lparr>upLink := m\<rparr>) = switch_inv x"
  "switch_inv (x\<lparr>downLink := m\<rparr>) = switch_inv x" "switch_inv (x\<lparr>pendingSegTag := tags\<rparr>) = switch_inv x"
  "switch_inv (x\<lparr>pendingSegPacket := ps\<rparr>) = switch_inv x" "switch_inv (x\<lparr>inServiceLink := l\<rparr>) = switch_inv x"
  "switch_inv (x\<lparr>inputBuffers := bs\<rparr>) = switch_inv x" "switch_inv (x\<lparr>x_traces := ts\<rparr>) = switch_inv x"
  "switch_inv (delete_trace t x) = switch_inv x" "switch_inv (dual_Step x) = switch_inv x"
  by (rule switch_inv_part, simp add: set_up_def set_down_def)+

lemma switch_inv_table: "switch_inv x \<Longrightarrow> vtable_ok t \<Longrightarrow> switch_inv (x\<lparr>flowTable := t\<rparr>)"
  by (simp add: switch_inv_def)

lemma switch_inv_flow: "switch_inv x \<Longrightarrow> vcounts_ok e 0 \<Longrightarrow> switch_inv (x\<lparr>flowTable := flow_insert k e (flowTable x)\<rparr>)"
  by (simp add: switch_inv_def vtable_insert)

lemma switch_lookup: "switch_inv x \<Longrightarrow> map_of (flowTable x) k = Some e \<Longrightarrow> vcounts_ok e 0"
  unfolding switch_inv_def using vtable_lookup by blast

lemma register_bump:
  assumes "register_update par op p x = Inr x1" "switch_inv x"
    and "\<And>pc t1. register_flow op pc (DESTADRS p) (flowTable x) = Inr t1 \<Longrightarrow> flowTable x1 = t1 \<Longrightarrow> vtable_ok t"
  shows "switch_inv (x1\<lparr>flowTable := t\<rparr>)"
proof -
  obtain x0 pc t1 where r: "register_flow op pc (DESTADRS p) (flowTable x) = Inr t1" "x1 = x0\<lparr>flowTable := t1\<rparr>" "art_part x0 = art_part x"
    using assms(1) by (rule register_updateD) (rule that)
  then have "switch_inv x0" using switch_inv_part assms(2) by blast
  then show ?thesis using assms(3) [OF r(1)] switch_inv_table [of x0 t] r(2) by simp
qed

lemma give_update_switch: "give_update par op p v x = Inr x' \<Longrightarrow> switch_inv x \<Longrightarrow> switch_inv x'"
proof -
  assume g: "give_update par op p v x = Inr x'" and i: "switch_inv x"
  obtain x1 t where s: "register_update par op p x = Inr x1" "bump_vault (DESTADRS p) v (flowTable x1) = Inr t" "x' = x1\<lparr>flowTable := t\<rparr>"
    using g by (auto simp: give_update_def err_simps)
  show ?thesis unfolding s(3) 
    by (rule register_bump [OF s(1) i], rule vtable_give) (use s(2) i in \<open>auto simp: switch_inv_def\<close>)
qed

lemma pass_on_switch: "pass_on par op ll i p link x = Inr x' \<Longrightarrow> switch_inv x \<Longrightarrow> switch_inv x'"
proof -
  assume g: "pass_on par op ll i p link x = Inr x'" and i: "switch_inv x"
  obtain x1 t where s: "register_update par op p x = Inr x1" "bump_child (DESTADRS p) link (flowTable x1) = Inr t"
    "erase_down ll i (x1\<lparr>flowTable := t\<rparr>) = Inr x'"
    using g by (auto simp: pass_on_def err_simps)
  have "switch_inv (x1\<lparr>flowTable := t\<rparr>)" 
    by (rule register_bump [OF s(1) i], rule vtable_pass) (use s(2) i in \<open>auto simp: switch_inv_def\<close>)
  then show ?thesis using frame_switch(1) [OF s(3)] by blast
qed

lemma give_local_mult_switch:
  assumes "give_local_mult par p v x = Inr x'" "switch_inv x"
  shows "switch_inv x'"
proof -
  define k where "k = DESTADRS p"
  define e where "e = (case map_of (flowTable x) k of None \<Rightarrow> FlowEntry INVALID | Some e \<Rightarrow> e)"
  let ?c = "vault_count e ! nat v"
  define e1 where "e1 = e\<lparr>vault_count := (vault_count e)[nat v := ?c + 1]\<rparr>"
  have e: "vcounts_ok e 0"
    using switch_lookup [OF assms(2), of k] vcounts_default by (cases "map_of (flowTable x) k") (simp_all add: e_def)
  have l: "map_of (default_flow k (flowTable x)) k = Some e" by (simp add: default_flow_def e_def split: option.split)
  have v: "vtable_ok (default_flow k (flowTable x))"
    using assms(2) vtable_insert [OF _ vcounts_default, of "flowTable x" k INVALID]
    by (cases "map_of (flowTable x) k") (simp_all add: default_flow_def switch_inv_def)
  let ?t0 = "default_flow k (flowTable x)"
  obtain t x1 link pc where s: "bump_vault k v ?t0 = Inr t" "route par (SRCCUB p) True (x\<lparr>flowTable := t\<rparr>) = Inr (x1, link)"
    "at_int (neighborCubeID x1) link = Inr pc"
    and x': "(case map_of (flowTable x1) k of None \<Rightarrow> Inl (Undefined ''flow'')
        | Some e \<Rightarrow>
            if map_of (flowTable x) k \<noteq> None then checkE (parent e = pc) (Assertion ''parent'')
              (Inr (x1\<lparr>flowTable := flow_insert k (e\<lparr>req_count := req_count e + 1\<rparr>) (flowTable x1)\<rparr>))
            else Inr (x1\<lparr>flowTable := flow_insert k (e\<lparr>parent := pc, req_count := 1\<rparr>) (flowTable x1)\<rparr>)) = Inr x'"
    using assms(1) unfolding give_local_mult_def Let_def k_def by (auto simp only: bindE_eq_Inr prod.case)
  have b: "0 \<le> v" "v < int NUM_VAULTS" "?c + 1 < 2 ^ 31" "t = flow_insert k e1 ?t0"
    using s(1) e by (simp_all add: bump_vault_def l at_int_def err_simps vcounts_ok_def e1_def)
  have x1: "flowTable x1 = t" "operandBuffers x1 = operandBuffers x" using route_art [OF s(2)] by (simp_all add: art_part_def)
  have k1: "map_of (flowTable x1) k = Some e1" by (simp add: x1(1) b(4))
  obtain e2 where e2: "vcounts_ok e2 0" "x' = x1\<lparr>flowTable := flow_insert k e2 t\<rparr>"
  proof (cases "map_of (flowTable x) k")
    case None
    have "vcounts_ok (e1\<lparr>parent := pc, req_count := 1\<rparr>) 0"
      using vcounts_vault [OF vcounts_new [of pc INVALID] b(1,2)] b(3) None by (simp add: e1_def e_def FlowEntry_def)
    then show thesis using that x' None k1 x1(1) by simp
  next
    case (Some e')
    have "vcounts_ok (e1\<lparr>req_count := req_count e1 + 1\<rparr>) 0"
      using vcounts_vault [OF vcounts_req [OF e] b(1,2)] b(3) unfolding e1_def by (cases e) simp
    then show thesis using that x' Some k1 x1(1) by (simp add: err_simps)
  qed
  have "vtable_ok (flow_insert k e2 t)" unfolding b(4) using v e2(1) by (auto simp: vtable_ok_def intro!: sorted_flow_insert)
  then show ?thesis using assms(2) x1(2) by (simp add: e2(2) switch_inv_def)
qed

section \<open>Requests keep the accounts\<close>

named_theorems switch_steps \<open>steps of the loop over the requests that keep the accounts\<close>

abbreviation sw_x :: "'m vlp_cube \<Rightarrow> xbar" where
  "sw_x s \<equiv> fst (snd (snd s))"

lemmas okE_switch [wp] =
  okE_iff [where r = "give_update par op p v x" for par op p v x] okE_iff [where r = "give_local_mult par p v x" for par p v x]
  okE_iff [where r = "OperandBufferStatus c p v" for c p v] okE_iff [where r = "free_operand m b vs" for m b vs]
  okE_iff [where r = "vault_whole_again ll i p x" for ll i p x] okE_iff [where r = "gather_vaults par p js fe vs" for par p js fe vs]
  okE_iff [where r = "factor_to_vault p vs" for p vs] okE_iff [where r = "vault_answers p x" for p x]

lemma vault_whole_again_same [frame]: "vault_whole_again ll i p x = Inr x' \<Longrightarrow> same_part x x'"
  by (auto simp: vault_whole_again_def err_simps dest: frame)

lemmas frame_switch' = frame_switch vault_whole_again_same [THEN same_switchD]

lemma vlp_local_add_inv [switch_steps]: "switch_inv (sw_x s) \<Longrightarrow> okE (vlp_local_add par ll i p s) (\<lambda>(m, s'). switch_inv (sw_x s'))"
  by (cases s) (auto simp: vlp_local_add_def wp Let_def dest!: give_update_switch frame_switch)

lemma vlp_local_mult_inv [switch_steps]: "switch_inv (sw_x s) \<Longrightarrow> okE (vlp_local_mult par ll i p s) (\<lambda>(m, s'). switch_inv (sw_x s'))"
  by (cases s) (auto simp: vlp_local_mult_def wp Let_def case_prod_unfold dest!: give_local_mult_switch)

lemma vlp_local_half_inv [switch_steps]: "switch_inv (sw_x s) \<Longrightarrow> okE (vlp_local_half par ll i p s) (\<lambda>(m, s'). switch_inv (sw_x s'))"
  by (cases s) (auto simp: vlp_local_half_def wp Let_def dest!: frame_switch')

lemma local_other_switch: "switch_inv (cube_x s) \<Longrightarrow> okE (local_other par ll i p s) (\<lambda>(m, s'). switch_inv (cube_x s'))"
  by (cases s) (auto simp: local_other_def wp dest!: frame_switch)

lemma forward_half_switch: "switch_inv (cube_x s) \<Longrightarrow> okE (forward_half par ll i p link s) (\<lambda>(m, s'). switch_inv (cube_x s'))"
  by (cases s) (auto simp: forward_half_def wp Let_def dest!: frame_switch)

lemma forward_other_switch: "switch_inv (cube_x s) \<Longrightarrow> okE (forward_other par ll i p link s) (\<lambda>(m, s'). switch_inv (cube_x s'))"
  by (cases s) (auto simp: forward_other_def wp dest!: frame_switch pass_on_switch)

lemma vlp_split_mult_inv: "switch_inv (sw_x s) \<Longrightarrow> okE (vlp_split_mult par ll i p link1 link2 s) (\<lambda>(m, s'). switch_inv (sw_x s'))"
  by (cases s) (auto simp: vlp_split_mult_def wp Let_def case_prod_unfold dest!: give_update_switch)

lemma vlp_forward_mult_inv [switch_steps]: "switch_inv (sw_x s) \<Longrightarrow> okE (vlp_forward_mult par ll i p link s) (\<lambda>(m, s'). switch_inv (sw_x s'))"
  by (cases s) (auto simp: vlp_forward_mult_def wp intro!: vlp_split_mult_inv dest!: frame_switch pass_on_switch)

lemma on_cube_inv: "okE r (\<lambda>(m, c). switch_inv (cube_x c)) \<Longrightarrow> okE (on_cube d r) (\<lambda>(m, s'). switch_inv (sw_x s'))"
  by (auto simp: on_cube_def okE_iff err_simps)

lemma vlp_forward_other_inv [switch_steps]: "switch_inv (sw_x s) \<Longrightarrow> okE (vlp_forward_other par ll i p link s) (\<lambda>(m, s'). switch_inv (sw_x s'))"
  using forward_other_switch [of "snd s" par ll i p link] by (cases s) (auto simp: vlp_forward_other_def okE_iff err_simps)

text \<open>Marking the entry of a flow as gathered changes no count.\<close>

lemma gather_children_switch: "gather_children par ll p cs x = Inr (b, x') \<Longrightarrow> switch_inv x \<Longrightarrow> switch_inv x'"
proof (induction cs arbitrary: x)
  case (Cons c cs)
  obtain cc x1 where r: "at_int (neighborCubeID x) (int c) = Inr cc" "route par cc False x = Inr (x1, int c)"
    using Cons.prems(1) by (auto simp: err_simps)
  let ?q = "clean ((copy_packet par p)\<lparr>SRCCUB := sint (cubeID x1), DESTCUB := cc\<rparr>)"
  obtain ok buf where b: "ReceiveDown ?q (inputBuffers x1 ! ll) = (ok, buf)" by fastforce
  have i: "switch_inv x1" using frame_switch(2) [OF r(2)] Cons.prems(2) by simp
  show ?case
  proof (cases ok)
    case True
    then obtain fe where "map_of (flowTable x1) (DESTADRS p) = Some fe"
      "x' = x1\<lparr>inputBuffers := (inputBuffers x1)[ll := buf], flowTable := flow_insert (DESTADRS p) (fe\<lparr>children_gflag := (children_gflag fe)[c := True]\<rparr>) (flowTable x1)\<rparr>"
      using Cons.prems(1) r b by (auto split: option.splits)
    then show ?thesis using switch_inv_flow [of "x1\<lparr>inputBuffers := (inputBuffers x1)[ll := buf]\<rparr>"] switch_lookup [OF i] i by simp
  next
    case False
    then show ?thesis using Cons.prems(1) r b Cons.IH [OF _ i] by auto
  qed
qed simp

lemma gather_vaults_counts: "gather_vaults par p js fe vs = Inr (fe', vs') \<Longrightarrow> vcounts_ok fe' n = vcounts_ok fe n"
  by (induction js arbitrary: vs) (auto simp: err_simps split: if_splits)

lemma vlp_local_get_inv [switch_steps]: "switch_inv (sw_x s) \<Longrightarrow> okE (vlp_local_get par ll i p s) (\<lambda>(m, s'). switch_inv (sw_x s'))"
proof (cases s)
  case (fields d vmask x vs ms)
  assume "switch_inv (sw_x s)"
  then have i: "switch_inv x" by (simp add: fields)
  have "switch_inv (x\<lparr>flowTable := flow_insert k fe' (flowTable x)\<rparr>)"
    if "map_of (flowTable x) k = Some fe" "gather_vaults par p js (fe\<lparr>g_flag := True\<rparr>) vs = Inr (fe', vs')" for k fe js fe' vs'
    using switch_inv_flow [OF i] switch_lookup [OF i that(1)] gather_vaults_counts [OF that(2), of 0] by simp
  moreover have "switch_inv (x\<lparr>flowTable := flow_insert k (fe\<lparr>g_flag := True\<rparr>) (flowTable x)\<rparr>)" if "map_of (flowTable x) k = Some fe" for k fe
    using switch_inv_flow [OF i] switch_lookup [OF i that] by simp
  ultimately show ?thesis using i unfolding fields vlp_local_get_def
    by (auto simp: wp Let_def dest!: frame_switch gather_children_switch split: option.split)
qed

lemma vlp_local_packet_inv: "switch_inv (sw_x s) \<Longrightarrow> okE (vlp_local_packet par ll i p s) (\<lambda>(m, s'). switch_inv (sw_x s'))"
  by (cases s) (auto simp: vlp_local_packet_def wp switch_steps on_cube_inv local_other_switch dest!: frame_switch)

lemma vlp_forward_packet_inv: "switch_inv (sw_x s) \<Longrightarrow> okE (vlp_forward_packet par ll i p s) (\<lambda>(m, s'). switch_inv (sw_x s'))"
  by (cases s) (auto simp: vlp_forward_packet_def wp switch_steps on_cube_inv forward_half_switch dest!: frame_switch)

lemma vlp_down_packet_inv: "switch_inv (sw_x (snd s)) \<Longrightarrow> okE (vlp_down_packet par ll s) (\<lambda>s'. switch_inv (sw_x (snd s')))"
proof -
  obtain i stop d vmask x vs ms where s: "s = ((i, stop), d, vmask, x, vs, ms)" by (cases s) auto
  assume i: "switch_inv (sw_x (snd s))"
  show ?thesis using i vlp_local_packet_inv [of "(d, vmask, x, vs, ms)" par ll i] vlp_forward_packet_inv [of "(d, vmask, x, vs, ms)" par ll i]
    unfolding s vlp_down_packet_def by (auto simp: wp case_prod_unfold split: option.split)
qed

lemma vlp_down_link_inv: "vlp_down_link par l s = Inr s' \<Longrightarrow> switch_inv (sw_x s) \<Longrightarrow> switch_inv (sw_x s')"
proof -
  assume d: "vlp_down_link par l s = Inr s'" and i: "switch_inv (sw_x s)"
  let ?ll = "(downLink (sw_x s) + l) mod (length (inputBuffers (sw_x s)) - 1)"
  show ?thesis
  proof (cases "dv_bufPopDelay (inputBuffers (sw_x s) ! ?ll) = 0")
    case True
    then obtain j where w: "whileE (vlp_down_active ?ll) (vlp_down_packet par ?ll) ((0, False), s) = Inr (j, s')"
      using d by (cases s) (auto simp: vlp_down_link_def Let_def err_simps)
    have "switch_inv (sw_x (snd (j, s'))) \<and> \<not> vlp_down_active ?ll (j, s')"
      by (rule whileE_inv [OF w]) (use i in simp, rule okED [OF vlp_down_packet_inv])
    then show ?thesis by simp
  next
    case False
    then show ?thesis using d i by (cases s) (simp add: vlp_down_link_def Let_def)
  qed
qed

lemma vlp_downstream_inv: "vlp_downstream par (d, x, vs, ms) = Inr (d', x', vs', ms') \<Longrightarrow> switch_inv x \<Longrightarrow> switch_inv x'"
proof -
  assume d: "vlp_downstream par (d, x, vs, ms) = Inr (d', x', vs', ms')" and i: "switch_inv x"
  obtain vm y where f: "foldE (vlp_down_link par) [0..<length (inputBuffers x) - 1] (d, replicate NUM_VAULTS False, x, vs, ms) = Inr (d', vm, y, vs', ms')"
    and x': "x' = y\<lparr>downLink := (downLink y + 1) mod (length (inputBuffers y) - 1)\<rparr>"
    using d by (auto simp: vlp_downstream_def err_simps)
  have "switch_inv (sw_x (d', vm, y, vs', ms'))"
    by (rule foldE_inv [where P = "\<lambda>s. switch_inv (sw_x s)", OF _ _ f]) (use i vlp_down_link_inv in auto)
  then show ?thesis by (simp add: x')
qed

section \<open>Responses and the rest of the cycle\<close>

lemma child_answers_switch: "child_answers par p x = Inr x' \<Longrightarrow> switch_inv x \<Longrightarrow> switch_inv x'"
proof -
  assume a: "child_answers par p x = Inr x'" and i: "switch_inv x"
  obtain fe x1 l where s: "map_of (flowTable x) (DESTADRS p) = Some fe" "route par (SRCCUB p) False x = Inr (x1, l)"
    "0 \<le> l" "l < int (length (children_count fe))"
    and x': "x' = delete_trace (trace p) (x1\<lparr>flowTable := flow_insert (DESTADRS p)
       (fe\<lparr>rep_count := rep_count fe + of_int (children_count fe ! nat l), children_count := (children_count fe)[nat l := 0]\<rparr>) (flowTable x1)\<rparr>)"
    using a by (auto simp: child_answers_def at_int_def err_simps split: option.splits)
  have "switch_inv x1" using switch_inv_part [OF route_art [OF s(2)]] i by simp
  then show ?thesis unfolding x' using switch_inv_flow vcounts_answer [OF switch_lookup [OF i s(1)] s(3,4)] by simp
qed

lemma vault_answersE:
  assumes "vault_answers p x = Inr x'"
  obtains fe v where "map_of (flowTable x) (DESTADRS p) = Some fe" "v = uint (ucast (SRCADRS1 p) :: u32)" "v < int (length (vault_count fe))"
    "vault_count fe ! nat v > 0" "x' = delete_trace (trace p) (x\<lparr>flowTable := flow_insert (DESTADRS p)
       (fe\<lparr>rep_count := rep_count fe + of_int (vault_count fe ! nat v), vault_count := (vault_count fe)[nat v := 0]\<rparr>) (flowTable x)\<rparr>)"
  using assms that by (auto simp: vault_answers_def at_int_def Let_def err_simps split: option.splits)

lemma vault_answers_switch: "vault_answers p x = Inr x' \<Longrightarrow> switch_inv x \<Longrightarrow> switch_inv x'"
proof (erule vault_answersE)
  fix fe v
  assume i: "switch_inv x" and s: "map_of (flowTable x) (DESTADRS p) = Some fe" "v = uint (ucast (SRCADRS1 p) :: u32)" "v < int (length (vault_count fe))"
    and x': "x' = delete_trace (trace p) (x\<lparr>flowTable := flow_insert (DESTADRS p)
       (fe\<lparr>rep_count := rep_count fe + of_int (vault_count fe ! nat v), vault_count := (vault_count fe)[nat v := 0]\<rparr>) (flowTable x)\<rparr>)"
  have c: "vcounts_ok fe 0" by (rule switch_lookup [OF i s(1)])
  then have "v < int NUM_VAULTS" "0 \<le> v" using s(2,3) by (simp_all add: vcounts_ok_def)
  then show "switch_inv x'" unfolding x' using switch_inv_flow [OF i vcounts_reply [OF c]] by simp
qed

lemma erase_up_switch: "erase_up ll i x = Inr x' \<Longrightarrow> switch_inv x \<Longrightarrow> switch_inv x'"
  by (auto simp: erase_up_def err_simps)

lemma up_segment_switch: "switch_inv x \<Longrightarrow> okE (up_segment par ll i p x) (\<lambda>(j, x'). switch_inv x')"
  by (auto simp: up_segment_def wp Let_def dest!: erase_up_switch split: option.split)

abbreviation up_x :: "'m vlp_up \<Rightarrow> xbar" where
  "up_x s \<equiv> fst (snd s)"

lemma taken_up_vs_inv: "(\<And>y. r = Inr y \<Longrightarrow> switch_inv y) \<Longrightarrow> okE (taken_up_vs ll i vs ms r) (\<lambda>s'. switch_inv (up_x s'))"
  by (cases r) (auto simp: taken_up_vs_def taken_up_def wp dest!: erase_up_switch)

lemma vlp_up_packet_inv: "switch_inv (up_x s) \<Longrightarrow> okE (vlp_up_packet par ll s) (\<lambda>s'. switch_inv (up_x s'))"
proof (cases s)
  case (fields i x vs ms)
  assume "switch_inv (up_x s)"
  then have i: "switch_inv x" by (simp add: fields)
  have seg: "okE (up_segment par ll i p x) (\<lambda>q. switch_inv (snd q))" for p
    using up_segment_switch [OF i] by (simp add: case_prod_unfold)
  show ?thesis using i child_answers_switch [OF _ i] vault_answers_switch [OF _ i] seg unfolding fields vlp_up_packet_def
    by (auto simp: wp case_prod_unfold intro!: taken_up_vs_inv dest!: frame_switch split: option.split)
qed

lemma vlp_up_link_inv: "vlp_up_link par l s = Inr s' \<Longrightarrow> switch_inv (fst s) \<Longrightarrow> switch_inv (fst s')"
proof -
  assume u: "vlp_up_link par l s = Inr s'" and i: "switch_inv (fst s)"
  let ?ll = "(upLink (fst s) + l) mod length (inputBuffers (fst s))"
  let ?b = "\<lambda>(i, x, vs, ms). i < length (up_buf ?ll x)"
  obtain j where w: "whileE ?b (vlp_up_packet par ?ll) (0, s) = Inr (j, s')"
    using u by (cases s) (auto simp: vlp_up_link_def Let_def err_simps)
  have "switch_inv (up_x (j, s')) \<and> \<not> ?b (j, s')"
    by (rule whileE_inv [OF w]) (use i in simp, rule okED [OF vlp_up_packet_inv])
  then show ?thesis by simp
qed

lemma vlp_upstream_inv: "vlp_upstream par (x, vs, ms) = Inr (x', vs', ms') \<Longrightarrow> switch_inv x \<Longrightarrow> switch_inv x'"
proof -
  assume u: "vlp_upstream par (x, vs, ms) = Inr (x', vs', ms')" and i: "switch_inv x"
  obtain y where f: "foldE (vlp_up_link par) [0..<length (inputBuffers x)] (x, vs, ms) = Inr (y, vs', ms')"
    and x': "x' = y\<lparr>upLink := (upLink y + 1) mod length (inputBuffers y)\<rparr>"
    using u by (auto simp: vlp_upstream_def err_simps)
  have "switch_inv (fst (y, vs', ms'))"
    by (rule foldE_inv [where P = "\<lambda>s. switch_inv (fst s)", OF _ _ f]) (use i vlp_up_link_inv in auto)
  then show ?thesis by (simp add: x')
qed

text \<open>No operand buffer of the switch is ever ready.\<close>

lemma switch_consume_idle: "\<forall>i \<in> set is. \<not> oe_ready (operandBuffers x ! i) \<Longrightarrow> foldE switch_consume is (a, x) = Inr (a, x)"
  by (induction "is") (simp_all add: switch_consume_def)

lemma switch_consume_all: "switch_inv x \<Longrightarrow> foldE switch_consume [0..<length (operandBuffers x)] (a, x) = Inr (a, x)"
  by (rule switch_consume_idle) (simp add: switch_inv_def)

text \<open>Gathers are answered for settled flows only.\<close>

lemma switch_gather_step:
  assumes "gather_one par (k, fe) s = Inr t" "switch_inv (fst s)" "map_of (flowTable (fst s)) k = Some fe"
  shows "switch_inv (fst t) \<and> (flowTable (fst t) = flowTable (fst s) \<or> flowTable (fst t) = flow_erase k (flowTable (fst s)) \<and>
    g_flag fe \<and> (\<forall>c \<in> set (children_count fe). c = 0) \<and> (\<forall>c \<in> set (vault_count fe). c = 0))"
proof -
  obtain y ns z os where st: "s = (y, ns)" "t = (z, os)" by (cases s; cases t)
  from gather_oneD [OF assms(1) [unfolded st]] show ?thesis
  proof
    assume "art_part z = art_part y"
    then show ?thesis using switch_inv_part [of z y] assms(2) by (simp add: st art_part_def)
  next
    assume e: "art_part z = art_part (y\<lparr>flowTable := flow_erase k (flowTable y)\<rparr>) \<and> req_count fe = rep_count fe \<and> g_flag fe"
    have "vtable_ok (flow_erase k (flowTable y))" using assms(2) by (simp add: st switch_inv_def vtable_ok_def sorted_flow_erase)
    then have "switch_inv z" using switch_inv_part [of z] switch_inv_table [of y] e assms(2) by (simp add: st)
    then show ?thesis using vcounts_settled [OF switch_lookup [OF assms(2,3)]] e by (simp add: st art_part_def)
  qed
qed

lemma switch_gather_fold:
  assumes "gather_replies par (x, ms) = Inr (x', ms')" "switch_inv x"
  shows "switch_inv x' \<and> (\<forall>k fe. map_of (flowTable x) k = Some fe \<longrightarrow> map_of (flowTable x') k = Some fe \<or>
    map_of (flowTable x') k = None \<and> g_flag fe \<and> (\<forall>c \<in> set (children_count fe). c = 0) \<and> (\<forall>c \<in> set (vault_count fe). c = 0))"
proof -
  define I where "I = (\<lambda>s :: xbar \<times> 'a dual_vector_scheme list. switch_inv (fst s))"
  define R where "R = (\<lambda>(k :: u64) (fe :: flow_entry). g_flag fe \<and> (\<forall>c \<in> set (children_count fe). c = 0) \<and> (\<forall>c \<in> set (vault_count fe). c = 0))"
  have f: "foldE (gather_one par) (flowTable (fst (x, ms))) (x, ms) = Inr (x', ms')" using assms(1) by (simp add: gather_replies_def)
  have k: "sorted_wrt (<) (map fst (flowTable (fst (x, ms))))" using assms(2) by (simp add: switch_inv_def vtable_ok_def)
  have i: "I (x, ms)" using assms(2) by (simp add: I_def)
  have "I (x', ms') \<and> (\<forall>k e. map_of (flowTable (fst (x, ms))) k = Some e \<longrightarrow>
      map_of (flowTable (fst (x', ms'))) k = Some e \<or> map_of (flowTable (fst (x', ms'))) k = None \<and> R k e)"
    by (rule erase_loop [where tab = "\<lambda>s. flowTable (fst s)" and f = "gather_one par" and s = "(x, ms)" and I = I and R = R, OF f i k])
      (auto simp: I_def R_def dest!: switch_gather_step)
  then show ?thesis by (simp add: I_def R_def)
qed

lemma VLPCrossbarSwitch_Update_inv:
  assumes "VLPCrossbarSwitch_Update par (d, x, vs, ms) = Inr (d', x', vs', ms')" "switch_inv x"
  shows "switch_inv x'"
proof -
  obtain x1 vs1 ms1 x2 ms2 x3 b x4 where s: "vlp_upstream par (x, vs, ms) = Inr (x1, vs1, ms1)"
    "vlp_downstream par (d, x1, vs1, ms1) = Inr (d', x2, vs', ms2)"
    "foldE switch_consume [0..<length (operandBuffers x2)] (False, x2) = Inr (b, x3)" "gather_replies par (x3, ms2) = Inr (x4, ms')"
    and x': "x' = dual_Step (x4\<lparr>inputBuffers := map dual_Step (inputBuffers x4)\<rparr>)"
    using assms(1) by (auto simp: VLPCrossbarSwitch_Update_def err_simps)
  have "switch_inv x2" using vlp_downstream_inv [OF s(2)] vlp_upstream_inv [OF s(1) assms(2)] by simp
  then have "switch_inv x3" using switch_consume_all [of x2 False] s(3) by simp
  then show ?thesis using switch_gather_fold [OF s(4)] by (simp add: x')
qed

section \<open>Reachable states\<close>

lemma VLPCrossbarSwitch_inv: "VLPCrossbarSwitch cube gtag traces st = (d, x) \<Longrightarrow> switch_inv x"
  by (auto simp: VLPCrossbarSwitch_def switch_inv_def vtable_ok_def CrossbarSwitch_fields OperandEntry_def)

text \<open>
  The switch in a run. Nothing is assumed of the packets that arrive: what the accounts rely on is asserted.
\<close>

inductive vlp_reach :: "net_par \<Rightarrow> vlp_switch \<Rightarrow> xbar \<Rightarrow> bool" for par where
  init: "VLPCrossbarSwitch cube gtag traces st = (d, x) \<Longrightarrow> vlp_reach par d x"
| wire: "vlp_reach par d x \<Longrightarrow> vlp_reach par d (x\<lparr>neighborCubeID := ns\<rparr>)"
| response: "vlp_reach par d x \<Longrightarrow> ReceiveUp p (inputBuffers x ! ll) = (ok, buf) \<Longrightarrow> vlp_reach par d (x\<lparr>inputBuffers := (inputBuffers x)[ll := buf]\<rparr>)"
| request: "vlp_reach par d x \<Longrightarrow> ReceiveDown p (inputBuffers x ! ll) = (ok, buf) \<Longrightarrow> vlp_reach par d (x\<lparr>inputBuffers := (inputBuffers x)[ll := buf]\<rparr>)"
| shared: "vlp_reach par d x \<Longrightarrow> vlp_reach par d (x\<lparr>x_gtag := g, x_traces := ts, x_statis := st\<rparr>)"
| cycle: "vlp_reach par d x \<Longrightarrow> VLPCrossbarSwitch_Update par (d, x, vs, ms :: dual_vector list) = Inr (d', x', vs', ms') \<Longrightarrow> vlp_reach par d' x'"

lemma vlp_reach_inv: "vlp_reach par d x \<Longrightarrow> switch_inv x"
proof (induction rule: vlp_reach.induct)
  case (wire d x ns)
  then show ?case using switch_inv_part [of "x\<lparr>neighborCubeID := ns\<rparr>" x] by (simp add: art_part_def)
next
  case (shared d x st ts g)
  then show ?case using switch_inv_part [of "x\<lparr>x_gtag := g, x_traces := ts, x_statis := st\<rparr>" x] by (simp add: art_part_def)
qed (use VLPCrossbarSwitch_inv VLPCrossbarSwitch_Update_inv in auto)

text \<open>A switch that gives one addition of flow 8 to a vault.\<close>

definition fresh_vaults :: "vlp_vault list" where
  "fresh_vaults = replicate NUM_VAULTS (VLPVaultController default_config 1 0 0 [] TranStatistic)"

definition run_switch :: "nat \<Rightarrow> (vlp_switch \<times> xbar \<times> vlp_vault list \<times> dual_vector list) result" where
  "run_switch n = foldE (\<lambda>_. VLPCrossbarSwitch_Update example_net) [0..<n]
     (fst (VLPCrossbarSwitch 0 0 [] TranStatistic), loaded_cube, fresh_vaults, example_links)"

lemma run_switch_table: "case run_switch 2 of Inl _ \<Rightarrow> False | Inr (d, x, vs, ms) \<Rightarrow>
   map_option (\<lambda>fe. (req_count fe, rep_count fe, sum_list (vault_count fe))) (map_of (flowTable x) 8) = Some (1, 0, 1) \<and> numAdds d = 1"
  by code_simp

lemma loaded_switch_reach: "vlp_reach example_net (fst (VLPCrossbarSwitch 0 0 [] TranStatistic)) loaded_cube"
proof -
  have "vlp_reach example_net (fst (VLPCrossbarSwitch 0 0 [] TranStatistic)) (CrossbarSwitch 0 0 [] TranStatistic)"
    by (rule vlp_reach.init) (simp add: VLPCrossbarSwitch_def)
  then have "vlp_reach example_net (fst (VLPCrossbarSwitch 0 0 [] TranStatistic)) wired_cube"
    unfolding wired_cube_def by (rule vlp_reach.wire)
  then show ?thesis unfolding loaded_cube_def by (rule vlp_reach.request) (rule prod.collapse [symmetric])
qed

section \<open>Properties of the switch\<close>

text \<open> C12. In every state the crossbar switch of a vault-level parallel cube can reach, whatever packets
  arrive, the accounts of every flow balance: the updates it has taken over are those it has accounted
  for, those it has passed on to its children and those it has given to its vaults. No operand
  waits in the buffers of the switch itself. \<close>

theorem switch_flow_accounts:
  assumes "vlp_reach par d x"
  shows "(\<forall>k fe. map_of (flowTable x) k = Some fe \<longrightarrow>
      req_count fe = rep_count fe + of_int (sum_list (children_count fe)) + of_int (sum_list (vault_count fe))
      \<and> (\<forall>c \<in> set (children_count fe) \<union> set (vault_count fe). 0 \<le> c))
    \<and> (\<forall>e \<in> set (operandBuffers x). \<not> oe_ready e)"
proof -
  have i: "switch_inv x" by (rule vlp_reach_inv [OF assms])
  have "req_count fe = rep_count fe + of_int (sum_list (children_count fe)) + of_int (sum_list (vault_count fe))
      \<and> (\<forall>c \<in> set (children_count fe) \<union> set (vault_count fe). 0 \<le> c)" if "map_of (flowTable x) k = Some fe" for k fe
  proof -
    have c: "vcounts_ok fe 0" by (rule switch_lookup [OF i that])
    then have "0 \<le> sum_list (vault_count fe)" using sum_list_bounds [of "vault_count fe" "2 ^ 31"] by (simp add: vcounts_ok_def)
    then show ?thesis using c by (auto simp: vcounts_ok_def counts_ok_def of_nat_nat)
  qed
  then show ?thesis using i by (simp add: switch_inv_def)
qed

theorem switch_flow_accounts_witness:
  "\<exists>d x fe. vlp_reach example_net d x \<and> map_of (flowTable x) 8 = Some fe \<and> sum_list (vault_count fe) = 1 \<and> rep_count fe = 0
    \<and> req_count fe = of_int (sum_list (children_count fe)) + 1"
proof -
  obtain d x vs ms where r: "run_switch 2 = Inr (d, x, vs, ms)" using run_switch_table by (auto split: sum.splits)
  then obtain fe where fe: "map_of (flowTable x) 8 = Some fe" "rep_count fe = 0" "sum_list (vault_count fe) = 1"
    using run_switch_table by auto
  have "vlp_reach example_net (fst (d, x, vs, ms)) (fst (snd (d, x, vs, ms)))"
    by (rule foldE_inv [where P = "\<lambda>s. vlp_reach example_net (fst s) (fst (snd s))", OF _ _ r [unfolded run_switch_def]])
      (use loaded_switch_reach in \<open>auto intro: vlp_reach.cycle\<close>)
  then have "vlp_reach example_net d x" by simp
  then show ?thesis using switch_flow_accounts [of example_net d x] fe by force
qed

text \<open> C13. The switch of a vault-level parallel cube answers a gather only for a complete flow: an entry
  disappears only when the gather has arrived, and neither a child nor a vault owes an answer for
  updates of the flow it was given. \<close>

theorem switch_gather_only_when_complete:
  assumes "vlp_reach par d x" and "vlp_upstream par (x, vs, ms) = Inr (x1, vs1, ms1)"
    and "vlp_downstream par (d, x1, vs1, ms1) = Inr (d2, x2, vs2, ms2)" and "gather_replies par (x2, ms2) = Inr (x3, ms3)"
    and "map_of (flowTable x2) k = Some fe" and "map_of (flowTable x3) k \<noteq> Some fe"
  shows "map_of (flowTable x3) k = None \<and> g_flag fe \<and> (\<forall>c \<in> set (children_count fe). c = 0) \<and> (\<forall>c \<in> set (vault_count fe). c = 0)"
proof -
  have "switch_inv x2" using vlp_downstream_inv [OF assms(3)] vlp_upstream_inv [OF assms(2)] vlp_reach_inv [OF assms(1)] by simp
  then show ?thesis using switch_gather_fold [OF assms(4)] assms(5,6) by blast
qed

text \<open>The vault answers and the gather of flow 8 arrives.\<close>

definition vault_reply :: packet where
  "vault_reply = fst (Packet_active False (\<lambda>i. 0) zero_packet 7 RESPONSE ACT_GET 8 (ucast (vaultMap default_config 64)) 0 2 None 0 0)"

definition gather_request :: packet where
  "gather_request = fst (Packet_active False (\<lambda>i. 0) zero_packet 6 REQUEST ACT_GET 8 0 0 2 None 1 0)"

definition arrive :: "xbar \<Rightarrow> xbar" where
  "arrive x = (let x = x\<lparr>inputBuffers := (inputBuffers x)[4 := snd (ReceiveUp vault_reply (inputBuffers x ! 4))]\<rparr>
     in x\<lparr>inputBuffers := (inputBuffers x)[0 := snd (ReceiveDown gather_request (inputBuffers x ! 0))]\<rparr>)"

definition answer_switch where
  "answer_switch = bindE (run_switch 2) (\<lambda>(d, x, vs, ms).
     bindE (VLPCrossbarSwitch_Update example_net (d, arrive x, vs, ms)) (\<lambda>(d, x, vs, ms).
     bindE (vlp_upstream example_net (x, vs, ms)) (\<lambda>(x1, vs1, ms1).
     bindE (vlp_downstream example_net (d, x1, vs1, ms1)) (\<lambda>(d2, x2, vs2, ms2).
     bindE (gather_replies example_net (x2, ms2)) (\<lambda>(x3, ms3).
       Inr (map_option (\<lambda>fe. (req_count fe, rep_count fe, g_flag fe)) (map_of (flowTable x2) 8), map_of (flowTable x3) 8 = None))))))"

lemma answer_switch_value: "case answer_switch of Inr (r, gone) \<Rightarrow> r = Some (1, 1, True) \<and> gone | Inl _ \<Rightarrow> False"
  by code_simp

lemma run_switch_reach: "run_switch n = Inr (d, x, vs, ms) \<Longrightarrow> vlp_reach example_net d x"
proof -
  assume r: "run_switch n = Inr (d, x, vs, ms)"
  have "vlp_reach example_net (fst (d, x, vs, ms)) (fst (snd (d, x, vs, ms)))"
    by (rule foldE_inv [where P = "\<lambda>s. vlp_reach example_net (fst s) (fst (snd s))", OF _ _ r [unfolded run_switch_def]])
      (use loaded_switch_reach in \<open>auto intro: vlp_reach.cycle\<close>)
  then show ?thesis by simp
qed

lemma arrive_reach: "vlp_reach par d x \<Longrightarrow> vlp_reach par d (arrive x)"
  unfolding arrive_def Let_def
  by (rule vlp_reach.request, erule vlp_reach.response) (rule prod.collapse [symmetric])+

theorem switch_gather_only_when_complete_witness:
  "\<exists>d x vs ms x1 vs1 ms1 d2 x2 vs2 ms2 x3 ms3 fe. vlp_reach example_net d x
    \<and> vlp_upstream example_net (x, vs :: vlp_vault list, ms :: dual_vector list) = Inr (x1, vs1, ms1)
    \<and> vlp_downstream example_net (d, x1, vs1, ms1) = Inr (d2, x2, vs2, ms2) \<and> gather_replies example_net (x2, ms2) = Inr (x3, ms3)
    \<and> map_of (flowTable x2) 8 = Some fe \<and> req_count fe = 1 \<and> map_of (flowTable x3) 8 = None \<and> g_flag fe \<and> (\<forall>c \<in> set (vault_count fe). c = 0)"
proof -
  obtain r where a: "answer_switch = Inr (r, True)" "r = Some (1, 1, True)" using answer_switch_value by (auto split: sum.splits prod.splits)
  obtain d0 x0 vs0 ms0 d x vs ms where s0: "run_switch 2 = Inr (d0, x0, vs0, ms0)"
    "VLPCrossbarSwitch_Update example_net (d0, arrive x0, vs0, ms0) = Inr (d, x, vs, ms)"
    using a(1) by (auto simp: answer_switch_def bindE_eq_Inr)
  then obtain x1 vs1 ms1 d2 x2 vs2 ms2 x3 ms3 where s: "vlp_upstream example_net (x, vs, ms) = Inr (x1, vs1, ms1)"
    "vlp_downstream example_net (d, x1, vs1, ms1) = Inr (d2, x2, vs2, ms2)" "gather_replies example_net (x2, ms2) = Inr (x3, ms3)"
    and v: "r = map_option (\<lambda>fe. (req_count fe, rep_count fe, g_flag fe)) (map_of (flowTable x2) 8)" "map_of (flowTable x3) 8 = None"
    using a(1) by (auto simp: answer_switch_def bindE_eq_Inr)
  have r: "vlp_reach example_net d x" by (rule vlp_reach.cycle [OF arrive_reach [OF run_switch_reach [OF s0(1)]] s0(2)])
  obtain fe where fe: "map_of (flowTable x2) 8 = Some fe" "req_count fe = 1" using v(1) a(2) by (cases "map_of (flowTable x2) 8") auto
  have "g_flag fe \<and> (\<forall>c \<in> set (vault_count fe). c = 0)"
    using switch_gather_only_when_complete [OF r s fe(1)] v(2) by simp
  then show ?thesis using r s fe v(2) by blast
qed

text \<open> C14. The reply of a vault to a gather settles its account with the switch: when the vault gives the
  entry of a flow up, the packet it puts into its buffer is one that the switch of its cube takes,
  whatever else is in its buffers, as the answer of that vault; the updates the vault got are then
  accounted for and the vault owes nothing. \<close>

theorem vault_reply_settles:
  assumes "vault_gather_one vpar (k, fe) v = Inr v'" and "map_of (vFlowTable v) k = Some fe" and "map_of (vFlowTable v') k = None"
  shows "\<exists>p. upBuffers v' = upBuffers v @ packet_slots p \<and>
    (\<forall>par ll i x vs (ms :: 'm dual_vector_scheme list) e. up_buf ll x ! i = Some p \<and> here x (parent fe) \<and> map_of (flowTable x) k = Some e
        \<and> unat (vaultContID v) < length (vault_count e) \<and> vault_count e ! unat (vaultContID v) > 0 \<longrightarrow>
      vlp_up_packet par ll (i, x, vs, ms) = taken_up_vs ll i vs ms (Inr (delete_trace (trace p) (x\<lparr>flowTable := flow_insert k
        (e\<lparr>rep_count := rep_count e + of_int (vault_count e ! unat (vaultContID v)),
           vault_count := (vault_count e)[unat (vaultContID v) := 0]\<rparr>) (flowTable x)\<rparr>))))"
proof -
  let ?i = "unat (vaultContID v)"
  define p where "p = fst (Packet_active (CRC_CHECK vpar) (rnd vpar) (raw_packet vpar) (v_gtag v) RESPONSE ACT_GET k
                  (ucast (vaultContID v)) 0 2 (Some (length (v_traces v))) (parent fe) (parent fe))"
  have p: "packetType p = RESPONSE" "CMD p = ACT_GET" "\<not> segment p" "DESTADRS p = k" "SRCCUB p = parent fe" "DESTCUB p = parent fe"
    "SRCADRS1 p = ucast (vaultContID v)"
    by (simp_all add: p_def Packet_active_def packet_payload_def packet_reset_def Let_def)
  have "\<exists>g ok v1. vault_ReceiveUp p (v\<lparr>v_gtag := g\<rparr>) = Inr (ok, v1) \<and> v' = (if ok then v1\<lparr>vFlowTable := flow_erase k (vFlowTable v1),
      v_traces := v_traces v1 @ [TranTrace], numFlowRespSent := numFlowRespSent v1 + 1\<rparr> else v1)"
  proof (cases "req_count fe = rep_count fe \<and> g_flag fe")
    case True
    then obtain g ok v1 where "vault_ReceiveUp p (v\<lparr>v_gtag := g\<rparr>) = Inr (ok, v1)"
      "Inr (if ok then v1\<lparr>vFlowTable := flow_erase k (vFlowTable v1), v_traces := v_traces v1 @ [TranTrace],
          numFlowRespSent := numFlowRespSent v1 + 1\<rparr> else v1) = Inr v'"
      using assms(1) unfolding vault_gather_one_def Let_def p_def by (auto simp only: bindE_eq_Inr case_prod_unfold if_True fst_conv snd_conv simp_thms)
    then show ?thesis unfolding sum.inject by blast
  qed (use assms in \<open>auto simp: vault_gather_one_def\<close>)
  then obtain g ok v1 where r: "vault_ReceiveUp p (v\<lparr>v_gtag := g\<rparr>) = Inr (ok, v1)"
    and v': "v' = (if ok then v1\<lparr>vFlowTable := flow_erase k (vFlowTable v1), v_traces := v_traces v1 @ [TranTrace],
        numFlowRespSent := numFlowRespSent v1 + 1\<rparr> else v1)" by blast
  have "vFlowTable v1 = vFlowTable v" using vlp_part_more [OF own_more [OF vault_ReceiveUp_more [OF r]]] by (simp add: vlp_part_def)
  then have ok: ok using assms(2,3) v' by (auto split: if_splits)
  then have up: "upBuffers v' = upBuffers v @ packet_slots p"
    using r v' by (auto simp: vault_ReceiveUp_def ReceiveUp_def receive_def err_simps split: if_splits)
  have "(ucast (ucast (vaultContID v) :: u64) :: u32) = vaultContID v" by (rule bit_word_eqI) (simp add: bit_simps)
  then have u: "uint (ucast (ucast (vaultContID v) :: u64) :: u32) = int ?i" by simp
  have "vlp_up_packet par ll (i, x, vs, ms) = taken_up_vs ll i vs ms (Inr (delete_trace (trace p) (x\<lparr>flowTable := flow_insert k
        (e\<lparr>rep_count := rep_count e + of_int (vault_count e ! ?i), vault_count := (vault_count e)[?i := 0]\<rparr>) (flowTable x)\<rparr>)))"
    if "up_buf ll x ! i = Some p" "here x (parent fe)" "map_of (flowTable x) k = Some e" "?i < length (vault_count e)" "vault_count e ! ?i > 0"
    for par ll i x vs e and ms :: "'m dual_vector_scheme list"
  proof -
    have "uint (vaultContID v) < int (length (vault_count e))" using that(4) by (metis uint_nat of_nat_less_iff)
    then show ?thesis using that p u by (simp add: vlp_up_packet_def vault_answers_def at_int_def Let_def)
  qed
  then show ?thesis using up by blast
qed

definition owed_entry :: flow_entry where
  "owed_entry = (FlowEntry ADD)\<lparr>parent := 1, req_count := 1, vault_count := (replicate NUM_VAULTS 0)[7 := 1]\<rparr>"

definition owed_switch :: "packet \<Rightarrow> xbar" where
  "owed_switch p = (CrossbarSwitch 3 0 [] TranStatistic)\<lparr>flowTable := [(8, owed_entry)],
     inputBuffers := [InputBuffer\<lparr>upBuffers := packet_slots p\<rparr>]\<rparr>"

theorem vault_reply_settles_witness:
  "\<exists>v' fe p. vault_gather_one full_power (8, fe) settled_vlp = Inr v' \<and> upBuffers v' = upBuffers settled_vlp @ packet_slots p
    \<and> vlp_up_packet example_net 0 (0, owed_switch p, [], example_links) =
      taken_up_vs 0 0 [] example_links (Inr (delete_trace (trace p) ((owed_switch p)\<lparr>flowTable :=
        [(8, owed_entry\<lparr>rep_count := 1, vault_count := (replicate NUM_VAULTS 0)[7 := 0]\<rparr>)]\<rparr>)))"
proof -
  obtain v' where g: "vault_gathers full_power settled_vlp = Inr v'" "vFlowTable v' = []" using settled_vlp_answers by blast
  obtain fe where fe: "vFlowTable settled_vlp = [(8, fe)]" "parent fe = 3" by (simp add: settled_vlp_def)
  have one: "vault_gather_one full_power (8, fe) settled_vlp = Inr v'" using g(1) by (simp add: vault_gathers_def fe(1) err_simps)
  have id: "vaultContID settled_vlp = 7" by (simp add: settled_vlp_def fresh_vlp_def VLPVaultController_def vlp_vault.defs vault.defs)
  obtain p where p: "upBuffers v' = upBuffers settled_vlp @ packet_slots p"
    and s: "\<And>par ll i x vs (ms :: dual_vector list) e. up_buf ll x ! i = Some p \<and> here x (parent fe) \<and> map_of (flowTable x) 8 = Some e
        \<and> unat (vaultContID settled_vlp) < length (vault_count e) \<and> vault_count e ! unat (vaultContID settled_vlp) > 0 \<Longrightarrow>
      vlp_up_packet par ll (i, x, vs, ms) = taken_up_vs ll i vs ms (Inr (delete_trace (trace p) (x\<lparr>flowTable := flow_insert 8
        (e\<lparr>rep_count := rep_count e + of_int (vault_count e ! unat (vaultContID settled_vlp)),
           vault_count := (vault_count e)[unat (vaultContID settled_vlp) := 0]\<rparr>) (flowTable x)\<rparr>)))"
    using vault_reply_settles [OF one, where 'm = unit] fe(1) g(2) by auto
  have x: "up_buf 0 (owed_switch p) ! 0 = Some p" "here (owed_switch p) 3" "flowTable (owed_switch p) = [(8, owed_entry)]"
    by (simp_all add: up_buf_def owed_switch_def packet_slots_def here_def CrossbarSwitch_def xbar.defs dual_vector.defs)
  have e: "vault_count owed_entry ! 7 = 1" "length (vault_count owed_entry) = 32" "rep_count owed_entry = 0"
    by (simp_all add: owed_entry_def FlowEntry_def NUM_VAULTS_def)
  have "(vault_count owed_entry)[7 := 0] = (replicate NUM_VAULTS 0)[7 := 0]" by (simp add: owed_entry_def)
  then have "vlp_up_packet example_net 0 (0, owed_switch p, [], example_links) =
      taken_up_vs 0 0 [] example_links (Inr (delete_trace (trace p) ((owed_switch p)\<lparr>flowTable :=
        [(8, owed_entry\<lparr>rep_count := 1, vault_count := (replicate NUM_VAULTS 0)[7 := 0]\<rparr>)]\<rparr>)))"
    using s [of 0 "owed_switch p" 0 owed_entry example_net "[]" example_links] x e fe(2) id by simp
  then show ?thesis using one p by blast
qed

end
