(* ===== verification/Spec2Isabelle.thy ===== *)
theory Spec2Isabelle
  imports Network VLP_Crossbar
begin

text \<open>
  A verification library for the memory network of active-routing: the cycle-level simulator
  CasHMC (\<open>src/CasHMC/sources\<close>) of Hybrid Memory Cubes, extended with active routing.

  \<^bold>\<open>The program.\<close> A processor sends transactions to HMC controllers, which turn them into
  packets. Packets travel over links between the cubes of a network (a dragonfly or a mesh). In a
  cube the crossbar switch passes a packet on to a neighbour or to one of 32 vaults; a vault
  controller turns it into DRAM commands, schedules them in a command queue, drives the command and
  data buses of its DRAM, and sends a response packet back. Everything advances by one \<open>Update\<close> a
  cycle.

  \<^bold>\<open>The theories.\<close>

  \<^item> \<open>Prelude\<close>: word types, the failure monad \<open>failure + 'a\<close> for \<open>exit\<close>, \<open>assert\<close> and undefined
  accesses, loops over it, vector operations.

  \<^item> \<open>Config\<close>: \<open>SimConfig.h\<close> and \<open>DRAMConfig.h\<close>. The settings that the code fixes at compile
  time are fields of the record \<open>dram_config\<close>, so theorems hold for all of them; \<open>default_config\<close> is
  what the headers say. \<open>log2u\<close> is \<open>_log2\<close>, exact on powers of two.

  \<^item> \<open>Routing\<close>: \<open>RoutingFunction.cpp\<close>, the four routing functions. Dragonfly routing picks the
  digit of the destination at the highest place where the cube numbers differ.

  \<^item> \<open>Topology\<close>: the constructors \<open>DFly\<close> and \<open>MeshNet\<close> of \<open>Network.cpp\<close> and \<open>RegisterNeighbors\<close> of
  \<open>HMC.cpp\<close>. The dragonfly wiring is what the digits of the cube numbers say, symmetric, and
  routing along it delivers; the mesh constructor overruns its controllers.

  \<^item> \<open>Crc\<close>, \<open>Packets\<close>: \<open>Packet.h\<close> and \<open>Packet.cpp\<close>. The table-driven CRC is the bitwise division;
  it detects bursts and changed tags; header fields and command codes read back.

  \<^item> \<open>Buffers\<close>: \<open>DualVectorObject.h\<close>, \<open>SingleVectorObject.h\<close>, \<open>InputBuffer.cpp\<close>. A packet takes as
  many places as it has flits, the first of which holds it. The locale \<open>bounded_fifo\<close> states what a
  client relies on, \<open>buffer_field\<close> derives it for a buffer inside a record; they are interpreted on
  the down, up, active-routing and single buffers.

  \<^item> \<open>Transactions\<close>: \<open>Transaction.cpp\<close>, \<open>TranTrace.h\<close>, \<open>TranStatistic.h\<close>.

  \<^item> \<open>Dram\<close>: \<open>DRAMCommand\<close>, \<open>BankState\<close>, \<open>DRAM.cpp\<close>. \<open>dram_run\<close> is a run of a DRAM with the history
  of its commands, and \<open>spaced\<close> the distance the timing parameters require of two of them.

  \<^item> \<open>Command_Queue\<close>: \<open>CommandQueue.cpp\<close>, under both page policies. What \<open>CmdPop\<close> returns keeps the
  timing protocol (the locale \<open>scheduler\<close>, interpreted on the queue), the activation window, the
  atomic locks and the contents of the queues, and it returns something when it can.

  \<^item> \<open>Address_Mapping\<close>: the vault, bank, column and row of an address, one-to-one on blocks.

  \<^item> \<open>Vault\<close>: \<open>VaultController.cpp\<close>, and its cycle with the DRAM in \<open>HMC.cpp\<close>. A vault's record
  extends the packet buffers as the class does. Theorems: the whole vault keeps the timing protocol
  over its life when the low-power mode is off, and breaks it when it is on; requests become the
  commands that serve them; responses have their space reserved, except where they are lost.

  \<^item> \<open>Active_Routing\<close>: \<open>ArtModule.h\<close> and the parts of \<open>CrossbarSwitch::Update\<close> that work on the flow
  and operand tables: taking updates over, operands that arrive, the multiplier pipeline, answers to
  gathers. The invariant \<open>engine_inv\<close> has the accounts of every flow (updates taken over = accounted
  for + in operand buffers + passed on), the free list and the occupancy of the pipeline. Under it
  reduction cannot fail, the pipeline advances, and a gather is answered only for a complete flow.

  \<^item> \<open>Crossbar\<close>: the rest of \<open>CrossbarSwitch::Update\<close>: responses with the reassembly of segments,
  requests for this cube and for others, and the cycle. \<open>reach\<close> are the states a crossbar can reach
  while packets arrive in its input buffers; the accounts of the flows hold in all of them.

  \<^item> \<open>Crossbar_Ends\<close>: the loops of the crossbar end. The measure of the upstream loop is the number of
  segments to come and the rest of the buffer; that of the downstream loop the free operand
  buffers, the halves, the updates, the children still to be asked and the rest of the buffer.

  \<^item> \<open>Links\<close>: \<open>LinkMaster.cpp\<close>, \<open>Link.cpp\<close>, \<open>LinkSlave.cpp\<close>: the buffers and tokens of a link master, the
  packet in flight, the checks of a slave, and the retry protocol that they run with checksums on.

  \<^item> \<open>Link_Flow\<close>: what an update of a slave does when checksums are off, as the configuration has it:
  which packets it takes, which tokens it returns, what it passes on (\<open>slave_result\<close>).

  \<^item> \<open>Link_Channel\<close>: the same for masters and links, and two ends that face each other. \<open>channel\<close> are
  the states they reach in any interleaving of their updates, with packets offered to them and
  destinations that may be full. Tokens are conserved, no update fails, and a link is a queue.

  \<^item> \<open>VLP_Vault\<close>: \<open>VLPVaultController.cpp\<close>, the vault controller of the vault-level parallel cubes, which
  reduces operands itself. The class is derived from that of \<open>Vault\<close> and overrides the virtual method
  \<open>MakeRespondPacket\<close>: its record extends the other, and the operations of the base class take the
  method as an argument. The locale \<open>responder\<close> of \<open>Vault\<close> states what the proofs of the base class rely
  on, \<open>vault_extension\<close> that a property of the members of a derived class is kept by all operations
  of the base class when it is by the method; both are interpreted on the two classes. \<open>vlp_run\<close>
  are the states of such a vault, in which its flow table and buffers are in order.

  \<^item> \<open>VLP_Crossbar\<close>: \<open>VLPCrossbarSwitch.cpp\<close>, the crossbar switch of these cubes, which gives the updates to
  its vaults and counts them in the entry of the flow. \<open>vlp_reach\<close> are its states, with nothing assumed of
  the packets that arrive; the accounts of the flows with children and vaults balance in them,
  and the reply a vault makes is taken as the answer of that vault.

  \<^item> \<open>Controller\<close>: \<open>HMCController.cpp\<close>: transactions become packets for the links, gathers of the threads of
  a flow meet at a barrier, responses leave. \<open>served\<close> are the states a controller reaches. A gather
  goes out only after all threads have gathered; one that depends on a waiting packet is lost.

  \<^item> \<open>Cube\<close>: \<open>HMC.cpp\<close>: the parts of a cube put together, its constructor and its cycle. \<open>cube_run\<close> are the
  states of a cube while packets arrive at its slaves and leave from its masters. The vaults and the
  slaves keep what the crossbar relies on (\<open>cube_inv\<close>), so the accounts of the flows hold in a cube.

  \<^item> \<open>Masters\<close>: what a cube relies on of the packets that arrive at it holds of all packets in the
  link masters and links, whatever the retry protocol, the crossbars and the controllers do.

  \<^item> \<open>Network\<close>: \<open>Network.cpp\<close>: the dragonfly and the mesh put together, transactions of the processor,
  a cycle of the processor clock and skipping cycles. \<open>net_run\<close> are the states of a network;
  in all of them the engines of all cubes are in order, with nothing assumed of packets. The
  locale \<open>paced\<close> states what the loops that run the links rely on; it is interpreted on both
  directions, and gives that the loops end and that links and processor stay in step.

  \<^bold>\<open>How the code is modelled.\<close> Objects are records, passed and returned; pointers between
  components are arguments. \<open>unsigned\<close> and \<open>uint64_t\<close> are words that wrap; \<open>int\<close> is \<open>int\<close> where the
  values are small counters. \<open>exit\<close>, \<open>assert\<close> and accesses out of range are \<open>Inl\<close> results. Memory that
  a constructor leaves uninitialised is an argument (\<open>raw\<close>), as is what comes from \<open>rand()\<close>. Log
  and debug output is not modelled.

  \<^bold>\<open>Bounds.\<close> Runs of the DRAM and of the vault are followed for the first \<open>2 ^ 63\<close> cycles, where
  sums of cycle counts do not wrap. The loop of the vault over its downstream buffer has as many
  iterations as the buffer has places, which is enough because the loop only shrinks it. The
  scheduler tries every bank once, as its counter does.

  The loops of the crossbar over a buffer move their index both ways; they are \<open>whileE\<close> loops,
  which return \<open>Diverges\<close> if they do not end; that they end is a theorem.

  \<^bold>\<open>Hypotheses.\<close> \<open>reach\<close> lets any requests arrive, and responses to additions with an operand
  address that is not null, which the vault controller asserts when it makes them. \<open>channel\<close> offers
  packets of at most 32 flits with the fields of the link reset, as the controller makes them and the
  crossbar leaves them, and offers requests only to links that lead to a downstream slave.

  In \<open>cube_run\<close> the same is asked of the packets that arrive from other cubes only, and in
  \<open>net_run\<close> of nothing. The clock periods are double-precision numbers; the comparisons of their multiples
  are parameters, and \<open>exact_links\<close> says that they are those of multiples of a common unit.

  \<^bold>\<open>Not modelled.\<close> The networks \<open>DualHMC\<close> and \<open>DefaultHMC\<close>; the networks are those of cubes
  with the default switch and vaults. The retry protocol of the links is modelled, and no theorem is about
  it. That the loops of a crossbar end is shown for the default switch only. Not planned: the wrapper and its trace files, logs and plots, and the processor simulator
  \<open>McSim\<close> with its front end.
\<close>

end
